(* ===== verification/Prelude.thy ===== *)
theory Prelude
  imports Complex_Main
    "HOL-Library.Word"
    "HOL-Library.Multiset"
    "HOL-Library.Product_Lexorder"
    "HOL-Library.List_Lexorder"
    "HOL-Library.Char_ord"
begin

text \<open>
  Shared vocabulary of the development: Go's time and duration values, signed
  64-bit integers written as \<^typ>\<open>int\<close> with the wrap-around spelled out, the
  ASCII string helpers of package \<^verbatim>\<open>strings\<close>, database statements that may fail, and
  the generic list and option lemmas the components use.
\<close>

section \<open>Theorem collections\<close>

named_theorems inv_intros \<open>preservation lemmas of the component invariants\<close>
named_theorems go_defs \<open>definitions unfolded when a concrete input is evaluated\<close>

section \<open>Time and durations\<close>

text \<open>
  A \<^verbatim>\<open>time.Time\<close> is the number of nanoseconds since the zero time of Go (January 1,
  year 1, UTC), so \<^verbatim>\<open>IsZero\<close> is equality with \<open>0\<close>. A \<^verbatim>\<open>time.Duration\<close> is an int64
  number of nanoseconds. \<^verbatim>\<open>Time.Sub\<close> saturates at the int64 bounds, as documented.
\<close>

type_synonym time = int
type_synonym duration = int

definition int64_min :: int where "int64_min = - (2 ^ 63)"
definition int64_max :: int where "int64_max = 2 ^ 63 - 1"

definition in_int64 :: "int \<Rightarrow> bool" where
  "in_int64 x \<longleftrightarrow> int64_min \<le> x \<and> x \<le> int64_max"

definition time_sub :: "time \<Rightarrow> time \<Rightarrow> duration" where
  "time_sub t u = max int64_min (min int64_max (t - u))"

definition time_is_zero :: "time \<Rightarrow> bool" where
  "time_is_zero t \<longleftrightarrow> t = 0"

definition microsecond :: duration where "microsecond = 1000"
definition millisecond :: duration where "millisecond = 1000000"
definition second :: duration where "second = 1000000000"
definition minute :: duration where "minute = 60 * second"
definition hour :: duration where "hour = 60 * minute"

lemmas duration_defs = microsecond_def millisecond_def second_def minute_def hour_def

declare duration_defs [go_defs] time_sub_def [go_defs] int64_min_def [go_defs]
  int64_max_def [go_defs] in_int64_def [go_defs] time_is_zero_def [go_defs]

text \<open>A \<^verbatim>\<open>TIMESTAMPTZ\<close> column of PostgreSQL keeps microseconds.\<close>

definition timestamptz :: "time \<Rightarrow> time" where
  "timestamptz t = t - t mod microsecond"

lemma time_sub_less_iff: "int64_min < d \<Longrightarrow> d \<le> int64_max \<Longrightarrow> time_sub t u < d \<longleftrightarrow> t - u < d"
  by (auto simp: time_sub_def)

lemma time_sub_greater_iff: "int64_min \<le> d \<Longrightarrow> d < int64_max \<Longrightarrow> d < time_sub t u \<longleftrightarrow> d < t - u"
  by (auto simp: time_sub_def)

lemma time_sub_ge_iff: "int64_min < d \<Longrightarrow> d \<le> int64_max \<Longrightarrow> d \<le> time_sub t u \<longleftrightarrow> d \<le> t - u"
  by (auto simp: time_sub_def)

lemma time_sub_exact: "in_int64 (t - u) \<Longrightarrow> time_sub t u = t - u"
  by (simp add: time_sub_def in_int64_def)

lemma time_sub_range: "in_int64 (time_sub t u)"
  by (auto simp: time_sub_def in_int64_def int64_min_def int64_max_def)

lemma time_sub_mono: "t \<le> t' \<Longrightarrow> time_sub t u \<le> time_sub t' u"
  by (auto simp: time_sub_def)

lemma time_sub_self [simp]: "time_sub t t = 0"
  by (simp add: time_sub_def int64_min_def int64_max_def)

section \<open>Signed 64-bit arithmetic\<close>

text \<open>Go's int64 operations are the integer operations followed by \<open>wrap64\<close>.\<close>

definition wrap64 :: "int \<Rightarrow> int" where
  "wrap64 x = (x + 2 ^ 63) mod 2 ^ 64 - 2 ^ 63"

declare wrap64_def [go_defs]

lemma in_int64_wrap64 [simp, intro]: "in_int64 (wrap64 x)"
proof -
  have "0 \<le> (x + 2 ^ 63) mod (2 ^ 64 :: int)" "(x + 2 ^ 63) mod (2 ^ 64 :: int) < 2 ^ 64"
    by simp_all
  then show ?thesis
    unfolding wrap64_def in_int64_def int64_min_def int64_max_def by simp
qed

lemma wrap64_id [simp]: "in_int64 x \<Longrightarrow> wrap64 x = x"
  unfolding wrap64_def in_int64_def int64_min_def int64_max_def by simp

lemma wrap64_0 [simp]: "wrap64 0 = 0"
  by (simp add: wrap64_def)

lemma wrap64_cong: "wrap64 x mod 2 ^ 64 = x mod 2 ^ 64"
proof -
  have "wrap64 x mod 2 ^ 64 = ((x + 2 ^ 63) mod 2 ^ 64 - 2 ^ 63) mod 2 ^ 64"
    by (simp add: wrap64_def)
  also have "\<dots> = ((x + 2 ^ 63) - 2 ^ 63) mod 2 ^ 64"
    by (rule mod_diff_left_eq)
  finally show ?thesis by simp
qed

lemma wrap64_eq_iff: "wrap64 x = wrap64 y \<longleftrightarrow> x mod 2 ^ 64 = y mod 2 ^ 64"
proof
  assume "wrap64 x = wrap64 y"
  then show "x mod 2 ^ 64 = y mod 2 ^ 64" by (metis wrap64_cong)
next
  assume "x mod 2 ^ 64 = y mod (2 ^ 64 :: int)"
  then have "(x + 2 ^ 63) mod 2 ^ 64 = (y + 2 ^ 63) mod (2 ^ 64 :: int)"
    by (metis mod_add_left_eq)
  then show "wrap64 x = wrap64 y" by (simp add: wrap64_def)
qed

lemma wrap64_add_left [simp]: "wrap64 (wrap64 x + y) = wrap64 (x + y)"
  unfolding wrap64_eq_iff by (metis wrap64_cong mod_add_left_eq)

lemma wrap64_eq_0_iff: "wrap64 x = 0 \<longleftrightarrow> 2 ^ 64 dvd x"
  using wrap64_eq_iff [of x 0] by (simp add: dvd_eq_mod_eq_0)

text \<open>Go's integer division truncates towards zero.\<close>

definition go_quot :: "int \<Rightarrow> int \<Rightarrow> int" where
  "go_quot a b = sgn a * sgn b * (\<bar>a\<bar> div \<bar>b\<bar>)"

declare go_quot_def [go_defs]

lemma go_quot_nonneg [simp]: "0 \<le> a \<Longrightarrow> 0 < b \<Longrightarrow> go_quot a b = a div b"
  by (cases "a = 0") (auto simp: go_quot_def)

lemma dvd_small_int_zero: "2 ^ 64 dvd x \<Longrightarrow> - (2 ^ 64) < x \<Longrightarrow> x < 2 ^ 64 \<Longrightarrow> x = (0::int)"
  by (metis abs_less_iff dvd_imp_le_int linorder_not_le minus_less_iff abs_of_pos zero_less_numeral
      zero_less_power)

section \<open>Strings\<close>

text \<open>
  Strings are byte strings; the helpers below are the ASCII part of
  \<^verbatim>\<open>strings.TrimSpace\<close> and \<^verbatim>\<open>strings.ToLower\<close>.
\<close>

definition is_space :: "char \<Rightarrow> bool" where
  "is_space c \<longleftrightarrow> c \<in> {CHR 0x09, CHR 0x0A, CHR 0x0B, CHR 0x0C, CHR 0x0D, CHR '' ''}"

definition trim_space :: "string \<Rightarrow> string" where
  "trim_space s = rev (dropWhile is_space (rev (dropWhile is_space s)))"

definition lower_char :: "char \<Rightarrow> char" where
  "lower_char c = (if CHR ''A'' \<le> c \<and> c \<le> CHR ''Z'' then char_of (of_char c + 32 :: nat) else c)"

definition to_lower :: "string \<Rightarrow> string" where
  "to_lower s = map lower_char s"

definition has_prefix :: "string \<Rightarrow> string \<Rightarrow> bool" where
  "has_prefix s p \<longleftrightarrow> take (length p) s = p"

declare trim_space_def [go_defs] is_space_def [go_defs] to_lower_def [go_defs]
  lower_char_def [go_defs] has_prefix_def [go_defs]

lemma trim_space_Nil [simp]: "trim_space [] = []"
  by (simp add: trim_space_def)

lemma dropWhile_idem_hd: "dropWhile P (dropWhile P xs) = dropWhile P xs"
  by (induction xs) auto

lemma trim_space_ends: "trim_space s \<noteq> [] \<Longrightarrow> \<not> is_space (last (trim_space s))"
proof -
  assume "trim_space s \<noteq> []"
  then have "dropWhile is_space (rev (dropWhile is_space s)) \<noteq> []"
    by (simp add: trim_space_def)
  then have "\<not> is_space (hd (dropWhile is_space (rev (dropWhile is_space s))))"
    by (rule hd_dropWhile)
  then show ?thesis by (simp add: trim_space_def last_rev)
qed

section \<open>Identifiers\<close>

text \<open>
  \<^verbatim>\<open>uuid.UUID\<close> values are numbers, \<^verbatim>\<open>uuid.Nil\<close> is \<open>0\<close>. \<^verbatim>\<open>uuid.New\<close> is a parameter of the
  model: a function \<open>gen\<close> from the number of calls made so far to the identifier returned.
  What the code relies on is that the identifiers are not nil and do not repeat.
\<close>

type_synonym uuid = nat

definition uuid_nil :: uuid where "uuid_nil = 0"

definition uuid_source :: "(nat \<Rightarrow> uuid) \<Rightarrow> bool" where
  "uuid_source gen \<longleftrightarrow> inj gen \<and> (\<forall>n. gen n \<noteq> uuid_nil)"

lemma uuid_source_Suc: "uuid_source Suc"
  by (simp add: uuid_source_def uuid_nil_def)

lemma uuid_sourceD: "uuid_source gen \<Longrightarrow> gen n \<noteq> uuid_nil"
  "uuid_source gen \<Longrightarrow> gen n = gen m \<longleftrightarrow> n = m"
  by (auto simp: uuid_source_def dest: injD)

section \<open>Statements that may fail\<close>

text \<open>
  Every call of the database driver may fail. A run is parameterised by a schedule of
  faults, one flag per call in the order the calls are made; an exhausted schedule means
  that the remaining calls succeed, so the finite schedules cover every finite run.
\<close>

type_synonym faults = "bool list"

definition next_fault :: "faults \<Rightarrow> bool" where
  "next_fault fs = (case fs of [] \<Rightarrow> False | f # _ \<Rightarrow> f)"

lemma next_fault_simps [simp]:
  "next_fault [] = False" "next_fault (f # fs) = f"
  by (simp_all add: next_fault_def)

section \<open>Lists and options\<close>

lemma find_Some_iff_mem: "List.find P xs = Some x \<Longrightarrow> x \<in> set xs \<and> P x"
  by (induction xs) (auto split: if_splits)

lemma find_None_mem: "List.find P xs = None \<longleftrightarrow> (\<forall>x \<in> set xs. \<not> P x)"
  by (induction xs) auto

lemma find_append: "List.find P (xs @ ys) =
   (case List.find P xs of None \<Rightarrow> List.find P ys | Some x \<Rightarrow> Some x)"
  by (induction xs) auto

lemma sorted_le_last: "sorted (x # xs) \<Longrightarrow> x \<le> last (x # xs)"
  by (cases xs rule: rev_cases) auto

lemma sorted_snoc_last: "sorted (x # xs @ [y]) \<Longrightarrow> last (x # xs) \<le> y"
  by (cases xs rule: rev_cases) (auto simp: sorted_append)

lemma sum_list_update_int: "i < length xs \<Longrightarrow> sum_list (xs[i := v]) = sum_list xs - xs ! i + (v :: int)"
  by (induction xs arbitrary: i) (auto split: nat.splits)

lemma sum_list_map_filter_split:
  "sum_list (map f xs) = sum_list (map f (filter P xs)) + sum_list (map f (filter (\<lambda>x. \<not> P x) xs))"
  for f :: "'a \<Rightarrow> int"
  by (induction xs) auto

lemma sum_list_nonneg_elem: "(\<And>x. x \<in> set xs \<Longrightarrow> 0 \<le> f x) \<Longrightarrow> x \<in> set xs \<Longrightarrow> f x \<le> sum_list (map f xs)"
  for f :: "'a \<Rightarrow> int"
proof (induction xs)
  case (Cons y ys)
  have "0 \<le> sum_list (map f ys)"
    by (rule sum_list_nonneg) (use Cons.prems(1) in auto)
  with Cons show ?case by fastforce
qed simp

end
