(* ===== verification/Float64.thy ===== *)
theory Float64
  imports Prelude
begin

text \<open>
  Go's \<^verbatim>\<open>float64\<close>: a finite value is the rational number it denotes, beside the two
  infinities and NaN. Arithmetic on finite values is the rational operation followed by
  rounding to the nearest value with a 53-bit significand, ties to even. Exponents are
  unbounded: the values the code computes (ratios of counters, durations scaled by a
  power of two) stay far inside the range of binary64.
\<close>

datatype f64 = Fin rat | PInf | NInf | NaN

fun f64_le :: "f64 \<Rightarrow> f64 \<Rightarrow> bool" where
  "f64_le NaN _ = False"
| "f64_le _ NaN = False"
| "f64_le NInf _ = True"
| "f64_le _ PInf = True"
| "f64_le (Fin a) (Fin b) = (a \<le> b)"
| "f64_le _ _ = False"

definition f64_lt :: "f64 \<Rightarrow> f64 \<Rightarrow> bool" where
  "f64_lt x y \<longleftrightarrow> f64_le x y \<and> \<not> f64_le y x"

section \<open>Rounding to a 53-bit significand\<close>

fun bits :: "nat \<Rightarrow> nat" where
  "bits n = (if n = 0 then 0 else Suc (bits (n div 2)))"

declare bits.simps [simp del]

text \<open>Round to the nearest integer, ties to even.\<close>

definition round_half_even :: "rat \<Rightarrow> int" where
  "round_half_even q =
     (let n = \<lfloor>q\<rfloor>; r = q - of_int n
      in if r < 1 / 2 then n else if 1 / 2 < r then n + 1 else if even n then n else n + 1)"

text \<open>The binary exponent of a positive rational: \<open>2 ^ e \<le> q < 2 ^ (e + 1)\<close>.\<close>

definition f64_exp :: "rat \<Rightarrow> int" where
  "f64_exp q =
     (let (n, d) = quotient_of q; e = int (bits (nat n)) - int (bits (nat d))
      in if 2 powi e \<le> q then e else e - 1)"

definition f64_round_pos :: "rat \<Rightarrow> rat" where
  "f64_round_pos q =
     (let u = 2 powi (f64_exp q - 52) in of_int (round_half_even (q / u)) * u)"

definition f64_round :: "rat \<Rightarrow> rat" where
  "f64_round q = (if q = 0 then 0 else if 0 < q then f64_round_pos q else - f64_round_pos (- q))"

text \<open>Conversion to an integer truncates towards zero.\<close>

definition f64_trunc :: "rat \<Rightarrow> int" where
  "f64_trunc q = (if q < 0 then \<lceil>q\<rceil> else \<lfloor>q\<rfloor>)"

text \<open>Division of two integers converted to float64 (the divisor is not zero at the uses).\<close>

definition f64_div_int :: "int \<Rightarrow> int \<Rightarrow> rat" where
  "f64_div_int a b = f64_round (f64_round (of_int a) / f64_round (of_int b))"

text \<open>The same division as a float64 value, with the IEEE results for a zero divisor.\<close>

definition f64_div :: "int \<Rightarrow> int \<Rightarrow> f64" where
  "f64_div a b = (if b = 0 then (if a = 0 then NaN else if 0 < a then PInf else NInf)
                  else Fin (f64_div_int a b))"

declare f64_div_def [go_defs] f64_round_def [go_defs] f64_round_pos_def [go_defs] f64_exp_def [go_defs]
  round_half_even_def [go_defs] f64_div_int_def [go_defs] f64_lt_def [go_defs]

section \<open>Correctness of the rounding\<close>

lemma bits_bound: "n \<noteq> 0 \<Longrightarrow> 2 ^ (bits n - 1) \<le> n \<and> n < 2 ^ bits n \<and> 0 < bits n"
proof (induction n rule: bits.induct)
  case (1 n)
  show ?case
  proof (cases "n div 2 = 0")
    case True
    with "1.prems" have "n = 1" by simp
    then show ?thesis by (simp add: bits.simps)
  next
    case False
    let ?b = "bits (n div 2)"
    from "1.IH" "1.prems" False have IH: "2 ^ (?b - 1) \<le> n div 2" "n div 2 < 2 ^ ?b" "0 < ?b"
      by auto
    have b: "bits n = Suc ?b" using "1.prems" by (simp add: bits.simps [of n])
    have "2 * 2 ^ (?b - 1) \<le> n" using IH(1) by linarith
    then have "2 ^ ?b \<le> n" using IH(3) by (metis One_nat_def Suc_pred power_Suc)
    moreover have "n < 2 * 2 ^ ?b" using IH(2) by linarith
    ultimately show ?thesis by (simp add: b)
  qed
qed

lemma powi2_less_iff: "(2::rat) powi a < 2 powi b \<longleftrightarrow> a < b"
proof
  show "a < b \<Longrightarrow> (2::rat) powi a < 2 powi b"
    by (rule power_int_strict_increasing) auto
next
  assume h: "(2::rat) powi a < 2 powi b"
  show "a < b"
  proof (rule ccontr)
    assume "\<not> a < b"
    then have "(2::rat) powi b \<le> 2 powi a" by (intro power_int_increasing) auto
    with h show False by simp
  qed
qed

lemma f64_exp_bounds:
  assumes "0 < q"
  shows "2 powi f64_exp q \<le> q" and "q < 2 powi (f64_exp q + 1)"
proof -
  obtain n d where nd: "quotient_of q = (n, d)" by fastforce
  have d: "0 < d" and q: "q = of_int n / of_int d"
    using quotient_of_denom_pos [OF nd] quotient_of_div [OF nd] by auto
  have n: "0 < n" using assms d q by (simp add: zero_less_divide_iff)
  let ?bn = "bits (nat n)" and ?bd = "bits (nat d)"
  define e where "e = int ?bn - int ?bd"
  from bits_bound [of "nat n"] n have bn: "2 ^ (?bn - 1) \<le> nat n" "nat n < 2 ^ ?bn" "0 < ?bn"
    by auto
  from bits_bound [of "nat d"] d have bd: "2 ^ (?bd - 1) \<le> nat d" "nat d < 2 ^ ?bd" "0 < ?bd"
    by auto
  have n_lo: "2 powi (int ?bn - 1) \<le> (of_int n :: rat)"
  proof -
    have "of_nat (2 ^ (?bn - 1)) \<le> (of_nat (nat n) :: rat)" using bn(1) of_nat_mono by blast
    then show ?thesis using bn(3) n by (simp add: power_int_def nat_diff_distrib)
  qed
  have n_hi: "(of_int n :: rat) < 2 powi int ?bn"
  proof -
    have "(of_nat (nat n) :: rat) < of_nat (2 ^ ?bn)" using bn(2) of_nat_less_iff by blast
    then show ?thesis using n by (simp add: power_int_def)
  qed
  have d_lo: "2 powi (int ?bd - 1) \<le> (of_int d :: rat)"
  proof -
    have "of_nat (2 ^ (?bd - 1)) \<le> (of_nat (nat d) :: rat)" using bd(1) of_nat_mono by blast
    then show ?thesis using bd(3) d by (simp add: power_int_def nat_diff_distrib)
  qed
  have d_hi: "(of_int d :: rat) < 2 powi int ?bd"
  proof -
    have "(of_nat (nat d) :: rat) < of_nat (2 ^ ?bd)" using bd(2) of_nat_less_iff by blast
    then show ?thesis using d by (simp add: power_int_def)
  qed
  have "2 powi (e - 1) = 2 powi (int ?bn - 1) / (2 powi int ?bd :: rat)"
    unfolding e_def by (subst power_int_diff [symmetric]) (auto simp: algebra_simps)
  also have "\<dots> \<le> of_int n / of_int d"
    using n_lo d_hi d n by (intro frac_le) auto
  finally have lo: "2 powi (e - 1) \<le> q" by (simp add: q)
  have "of_int n / of_int d < 2 powi int ?bn / (2 powi (int ?bd - 1) :: rat)"
    using n_hi d_lo n by (intro frac_less) auto
  also have "\<dots> = 2 powi (e + 1)"
    unfolding e_def by (subst power_int_diff [symmetric]) (auto simp: algebra_simps)
  finally have hi: "q < 2 powi (e + 1)" by (simp add: q)
  have fe: "f64_exp q = (if 2 powi e \<le> q then e else e - 1)"
    by (simp add: f64_exp_def nd e_def)
  show "2 powi f64_exp q \<le> q" using lo fe by simp
  show "q < 2 powi (f64_exp q + 1)" using hi fe by auto
qed

lemma round_half_even_of_int [simp]: "round_half_even (of_int n) = n"
  by (simp add: round_half_even_def)

lemma round_half_even_error: "\<bar>of_int (round_half_even q) - q\<bar> \<le> 1 / 2"
proof -
  define r where "r = q - of_int \<lfloor>q\<rfloor>"
  have r: "0 \<le> r" "r < 1" "q = of_int \<lfloor>q\<rfloor> + r"
    unfolding r_def by linarith+
  show ?thesis unfolding round_half_even_def Let_def r_def [symmetric]
    using r by auto
qed

lemma round_half_even_mono_int: "of_int n \<le> q \<Longrightarrow> n \<le> round_half_even q"
proof -
  assume "of_int n \<le> q"
  then have "n \<le> \<lfloor>q\<rfloor>" by (simp add: le_floor_iff)
  then show ?thesis by (auto simp: round_half_even_def Let_def)
qed

lemma f64_round_0 [simp]: "f64_round 0 = 0"
  by (simp add: f64_round_def)

lemma f64_round_pos_error:
  assumes "0 < q"
  shows "\<bar>f64_round q - q\<bar> \<le> 2 powi (f64_exp q - 53)"
proof -
  define u :: rat where "u = 2 powi (f64_exp q - 52)"
  have u: "0 < u" by (simp add: u_def)
  have eq: "f64_round q = of_int (round_half_even (q / u)) * u"
    using assms by (simp add: f64_round_def f64_round_pos_def u_def Let_def)
  have "\<bar>(of_int (round_half_even (q / u)) - q / u) * u\<bar> \<le> 1 / 2 * u"
    using round_half_even_error [of "q / u"] u by (simp add: abs_mult mult_right_mono)
  moreover have "(of_int (round_half_even (q / u)) - q / u) * u = f64_round q - q"
    using u by (simp add: eq left_diff_distrib)
  moreover have "1 / 2 * u = 2 powi (f64_exp q - 53)"
  proof -
    have "2 powi (f64_exp q - 53) = 2 powi ((f64_exp q - 52) - 1)" by simp
    also have "\<dots> = u / 2" unfolding u_def by (subst power_int_diff) auto
    finally show ?thesis by simp
  qed
  ultimately show ?thesis by simp
qed

text \<open>A value with a significand below \<open>2 ^ 53\<close> is represented exactly.\<close>

lemma f64_round_exact:
  assumes "q = of_int m * 2 powi j" and "0 \<le> m" and "m < 2 ^ 53"
  shows "f64_round q = q"
proof (cases "m = 0")
  case True
  then show ?thesis using assms by simp
next
  case False
  with assms have m: "0 < m" by simp
  then have q: "0 < q" using assms(1) by simp
  define e where "e = f64_exp q"
  have "2 powi e \<le> q" using f64_exp_bounds(1) [OF q] by (simp add: e_def)
  also have "q < 2 powi (53 + j)"
  proof -
    have "(of_int m :: rat) < of_int (2 ^ 53)" using assms(3) by (simp only: of_int_less_iff)
    then have "of_int m * 2 powi j < (2 powi 53 * 2 powi j :: rat)"
      by (intro mult_strict_right_mono) (auto simp: power_int_def)
    then show ?thesis by (simp add: assms(1) power_int_add)
  qed
  finally have "e < 53 + j"
    by (simp only: powi2_less_iff)
  then have k: "0 \<le> j - (e - 52)" by simp
  define u :: rat where "u = 2 powi (e - 52)"
  have u: "u \<noteq> 0" by (simp add: u_def)
  have "q / u = of_int m * 2 powi (j - (e - 52))"
    using assms(1) by (simp add: u_def power_int_diff)
  also have "\<dots> = of_int (m * 2 ^ nat (j - (e - 52)))"
    using k by (simp add: power_int_def)
  finally have int: "q / u = of_int (m * 2 ^ nat (j - (e - 52)))" .
  have "f64_round q = of_int (round_half_even (q / u)) * u"
    using q by (simp add: f64_round_def f64_round_pos_def u_def e_def Let_def)
  also have "\<dots> = q / u * u" unfolding int round_half_even_of_int ..
  finally show ?thesis using u by simp
qed

lemma f64_round_int: "0 \<le> n \<Longrightarrow> n < 2 ^ 53 \<Longrightarrow> f64_round (of_int n) = of_int n"
  by (rule f64_round_exact [where j = 0]) auto

lemma f64_round_half_lower:
  assumes "1 / 2 \<le> q"
  shows "1 / 2 \<le> f64_round q"
proof -
  have q: "0 < q" using assms by simp
  let ?e = "f64_exp q"
  have "2 powi (-1) < (2 powi (?e + 1) :: rat)"
    using assms f64_exp_bounds(2) [OF q] by (simp add: power_int_def)
  then have "-1 < ?e + 1" by (simp only: powi2_less_iff)
  then have e: "-1 \<le> ?e" by simp
  define u :: rat where "u = 2 powi (?e - 52)"
  have u: "0 < u" by (simp add: u_def)
  have "of_int (2 ^ 52) * u = 2 powi ?e"
  proof -
    have "(of_int (2 ^ 52) :: rat) = 2 powi 52" by (simp add: power_int_def)
    then have "of_int (2 ^ 52) * u = 2 powi (52 + (?e - 52))"
      by (simp only: u_def) (subst power_int_add, auto)
    then show ?thesis by simp
  qed
  then have "of_int (2 ^ 52) \<le> q / u"
    using f64_exp_bounds(1) [OF q] u by (simp add: pos_le_divide_eq)
  then have "2 ^ 52 \<le> round_half_even (q / u)" by (rule round_half_even_mono_int)
  then have "of_int (2 ^ 52) * u \<le> of_int (round_half_even (q / u)) * u"
    using u by (intro mult_right_mono) (auto simp only: of_int_le_iff less_imp_le)
  moreover have "f64_round q = of_int (round_half_even (q / u)) * u"
    using q by (simp add: f64_round_def f64_round_pos_def u_def Let_def)
  ultimately have "2 powi ?e \<le> f64_round q"
    using \<open>of_int (2 ^ 52) * u = 2 powi ?e\<close> by (simp only:)
  moreover have "2 powi (-1) \<le> (2 powi ?e :: rat)"
    using e by (intro power_int_increasing) auto
  ultimately show ?thesis by (simp add: power_int_def)
qed

lemma f64_round_half_upper:
  assumes "0 \<le> q" and "q + 1 / 2 ^ 54 < 1 / 2"
  shows "f64_round q < 1 / 2"
proof (cases "q = 0")
  case True
  then show ?thesis by simp
next
  case False
  with assms have q: "0 < q" by simp
  let ?e = "f64_exp q"
  have "2 powi ?e < (2 powi (-1) :: rat)"
    using f64_exp_bounds(1) [OF q] assms(2) by (simp add: power_int_def)
  then have "?e < -1"
    by (simp only: powi2_less_iff)
  then have "2 powi (?e - 53) \<le> (2 powi (-54) :: rat)"
    by (intro power_int_increasing) auto
  with f64_round_pos_error [OF q] have "f64_round q \<le> q + 2 powi (-54)" by linarith
  moreover have "(2 powi (-54) :: rat) = 1 / 2 ^ 54"
    by (simp add: power_int_def power_one_over)
  ultimately show ?thesis using assms(2) by linarith
qed

text \<open>
  For counters below \<open>2 ^ 52\<close> the float comparison of a failure ratio with the threshold
  \<open>0.5\<close> is the exact integer comparison.
\<close>

lemma f64_div_int_half:
  assumes "0 \<le> a" and "0 < b" and "a < 2 ^ 52" and "b < 2 ^ 52"
  shows "1 / 2 \<le> f64_div_int a b \<longleftrightarrow> b \<le> 2 * a"
proof -
  have ab: "f64_div_int a b = f64_round (of_int a / of_int b)"
    using assms by (simp add: f64_div_int_def f64_round_int)
  have b: "0 < (of_int b :: rat)" using assms by simp
  show ?thesis
  proof
    assume "b \<le> 2 * a"
    then have "(of_int b :: rat) \<le> 2 * of_int a" by (metis of_int_le_iff of_int_mult of_int_numeral)
    then have "1 / 2 \<le> of_int a / (of_int b :: rat)" using b by (simp add: field_simps)
    then show "1 / 2 \<le> f64_div_int a b" unfolding ab by (rule f64_round_half_lower)
  next
    assume h: "1 / 2 \<le> f64_div_int a b"
    show "b \<le> 2 * a"
    proof (rule ccontr)
      assume "\<not> b \<le> 2 * a"
      then have "2 * a + 1 \<le> b" by simp
      then have "(of_int (2 * a + 1) :: rat) \<le> of_int b" by (simp only: of_int_le_iff)
      then have "(2 * of_int a + 1 :: rat) \<le> of_int b" by simp
      then have "of_int a / of_int b + 1 / (2 * of_int b) \<le> (1 / 2 :: rat)"
      proof -
        have "of_int a / of_int b + 1 / (2 * of_int b) = (2 * of_int a + 1) / (2 * of_int b :: rat)"
          using b by (simp add: add_divide_distrib)
        also have "\<dots> \<le> of_int b / (2 * of_int b)"
          using \<open>2 * of_int a + 1 \<le> of_int b\<close> b by (intro divide_right_mono) auto
        finally show ?thesis using b by simp
      qed
      moreover have "1 / 2 ^ 54 < 1 / (2 * of_int b :: rat)"
      proof -
        have "2 * b < 2 ^ 54" using assms(4) by simp
        then have "(of_int (2 * b) :: rat) < of_int (2 ^ 54)" by (simp only: of_int_less_iff)
        then have "2 * of_int b < (2 ^ 54 :: rat)" by simp
        then show ?thesis using b by (intro divide_strict_left_mono) auto
      qed
      ultimately have "of_int a / of_int b + 1 / 2 ^ 54 < (1 / 2 :: rat)" by linarith
      moreover have "0 \<le> of_int a / (of_int b :: rat)" using assms by simp
      ultimately have "f64_round (of_int a / of_int b) < 1 / 2" by (intro f64_round_half_upper)
      with h ab show False by simp
    qed
  qed
qed

section \<open>Rounding below a representable value\<close>

lemma round_half_even_le_int: "q \<le> of_int n \<Longrightarrow> round_half_even q \<le> n"
proof -
  assume h: "q \<le> of_int n"
  show ?thesis
  proof (cases "q = of_int n")
    case True
    then show ?thesis by simp
  next
    case False
    with h have "\<lfloor>q\<rfloor> < n" by (simp add: floor_less_iff)
    then show ?thesis by (auto simp: round_half_even_def Let_def)
  qed
qed

lemma f64_round_le_exact:
  assumes "0 < q" and "q \<le> c" and "f64_round c = c"
  shows "0 \<le> f64_round q \<and> f64_round q \<le> c"
proof -
  have c: "0 < c" using assms by simp
  define U where "U = (2::rat) powi (f64_exp q - 52)"
  define V where "V = (2::rat) powi (f64_exp c - 52)"
  have U: "0 < U" and V: "0 < V" by (simp_all add: U_def V_def)
  have "(2::rat) powi f64_exp q < 2 powi (f64_exp c + 1)"
    using f64_exp_bounds(1) [OF assms(1)] f64_exp_bounds(2) [OF c] assms(2) by linarith
  then have e: "f64_exp q \<le> f64_exp c" by (simp add: powi2_less_iff)
  have cm: "c = of_int (round_half_even (c / V)) * V"
    using assms(3) c by (simp add: f64_round_def f64_round_pos_def V_def Let_def)
  have "V = 2 ^ nat (f64_exp c - f64_exp q) * U"
  proof -
    have "V = 2 powi ((f64_exp c - f64_exp q) + (f64_exp q - 52))" by (simp add: V_def)
    also have "\<dots> = 2 powi (f64_exp c - f64_exp q) * U" unfolding U_def by (rule power_int_add) simp
    finally show ?thesis using e by (simp add: power_int_def)
  qed
  then have cU: "c / U = of_int (round_half_even (c / V) * 2 ^ nat (f64_exp c - f64_exp q))"
    using cm U by (simp add: field_simps)
  have "q / U \<le> c / U" using assms(2) U by (simp add: divide_right_mono)
  then have "round_half_even (q / U) \<le> round_half_even (c / V) * 2 ^ nat (f64_exp c - f64_exp q)"
    using round_half_even_le_int cU by metis
  then have "of_int (round_half_even (q / U)) * U \<le> c / U * U"
    unfolding cU using U by (simp only: mult_right_mono of_int_le_iff)
  moreover have "0 \<le> round_half_even (q / U)"
    using round_half_even_mono_int [of 0 "q / U"] assms(1) U by simp
  moreover have "f64_round q = of_int (round_half_even (q / U)) * U"
    using assms(1) by (simp add: f64_round_def f64_round_pos_def U_def Let_def)
  ultimately show ?thesis using U by simp
qed

end
