(* ===== verification/Breaker.thy ===== *)
theory Breaker
  imports Float64
begin

text \<open>
  The circuit breaker of \<^verbatim>\<open>internal/breaker/breaker.go\<close> and the outcome classification and
  routing of \<^verbatim>\<open>internal/breaker/transport.go\<close>. The mutex makes every operation atomic, so an
  operation is a function on the breaker record; the clock value it reads is an argument.
  A run-time panic (integer division by a zero bucket length) is the result \<^const>\<open>None\<close>.
\<close>

section \<open>State, policy and permits\<close>

datatype bstate = StateClosed | StateHalfOpen | StateOpen

text \<open>The states are numbered by severity, as the \<^verbatim>\<open>iota\<close> constants are.\<close>

definition severity :: "bstate \<Rightarrow> nat" where
  "severity s = (case s of StateClosed \<Rightarrow> 0 | StateHalfOpen \<Rightarrow> 1 | StateOpen \<Rightarrow> 2)"

instantiation bstate :: linorder
begin

definition less_eq_bstate :: "bstate \<Rightarrow> bstate \<Rightarrow> bool" where
  "less_eq_bstate s t \<longleftrightarrow> severity s \<le> severity t"

definition less_bstate :: "bstate \<Rightarrow> bstate \<Rightarrow> bool" where
  "less_bstate s t \<longleftrightarrow> severity s < severity t"

instance
  by standard
    (auto simp: less_eq_bstate_def less_bstate_def severity_def split: bstate.splits)

end

definition windowBuckets :: nat where "windowBuckets = 10"

record bconfig =
  failure_ratio :: f64
  min_requests :: int
  window :: duration
  open_duration :: duration

definition withDefaults :: "bconfig \<Rightarrow> bconfig" where
  "withDefaults c = \<lparr>
     failure_ratio = (if f64_le (failure_ratio c) (Fin 0) then Fin (1 / 2) else failure_ratio c),
     min_requests = (if min_requests c \<le> 0 then 10 else min_requests c),
     window = (if window c \<le> 0 then 60 * second else window c),
     open_duration = (if open_duration c \<le> 0 then 15 * second else open_duration c) \<rparr>"

datatype config_error = BadFailureRatio | BadMinRequests | BadWindow | BadOpenDuration

definition Validate :: "bconfig \<Rightarrow> config_error option" where
  "Validate c =
     (if f64_le (failure_ratio c) (Fin 0) \<or> f64_lt (Fin 1) (failure_ratio c) then Some BadFailureRatio
      else if min_requests c \<le> 0 then Some BadMinRequests
      else if window c \<le> 0 then Some BadWindow
      else if open_duration c \<le> 0 then Some BadOpenDuration
      else None)"

datatype outcome = Success | Failure | Ignored

record permit =
  p_generation :: "64 word"
  p_probe :: bool
  p_valid :: bool

record bucket =
  bk_total :: int
  bk_failures :: int

definition empty_bucket :: bucket where
  "empty_bucket = \<lparr>bk_total = 0, bk_failures = 0\<rparr>"

record breaker =
  b_name :: string
  b_cfg :: bconfig
  b_state :: bstate
  b_generation :: "64 word"
  b_openedAt :: time
  b_probeInFlight :: bool
  b_buckets :: "bucket list"
  b_bucketIndex :: nat
  b_bucketStart :: time
  b_bucketDur :: duration
  b_rejected :: "64 word"

record snapshot =
  s_name :: string
  s_state :: bstate
  s_total :: int
  s_failures :: int
  s_ratio :: f64
  s_rejected :: "64 word"
  s_retryIn :: duration

record transition =
  t_from :: bstate
  t_to :: bstate
  t_snapshot :: snapshot

record open_error =
  oe_name :: string
  oe_retryIn :: duration

datatype allow_result = Admit permit | Rejected open_error

section \<open>Operations\<close>

definition empty_buckets :: "bucket list" where
  "empty_buckets = replicate windowBuckets empty_bucket"

definition NewWithClock :: "string \<Rightarrow> bconfig \<Rightarrow> time \<Rightarrow> breaker" where
  "NewWithClock nm cfg now =
     (let cfg' = withDefaults cfg in
      \<lparr> b_name = nm, b_cfg = cfg', b_state = StateClosed, b_generation = 0, b_openedAt = 0,
        b_probeInFlight = False, b_buckets = empty_buckets, b_bucketIndex = 0,
        b_bucketStart = now, b_bucketDur = go_quot (window cfg') (int windowBuckets),
        b_rejected = 0 \<rparr>)"

text \<open>The loop of \<^verbatim>\<open>advanceLocked\<close>: step the index and clear the bucket it reaches.\<close>

fun roll :: "nat \<Rightarrow> breaker \<Rightarrow> breaker" where
  "roll 0 b = b"
| "roll (Suc n) b =
     (let j = (b_bucketIndex b + 1) mod windowBuckets
      in roll n (b\<lparr>b_bucketIndex := j, b_buckets := (b_buckets b)[j := empty_bucket]\<rparr>))"

text \<open>Moving the window by a number of buckets; a move past the whole window clears it.\<close>

definition shiftWindow :: "int \<Rightarrow> breaker \<Rightarrow> breaker" where
  "shiftWindow steps b =
     (if steps \<ge> int windowBuckets then b\<lparr>b_buckets := empty_buckets, b_bucketIndex := 0\<rparr>
      else roll (nat steps) b)"

definition advanceLocked :: "breaker \<Rightarrow> time \<Rightarrow> breaker option" where
  "advanceLocked b now =
     (let elapsed = time_sub now (b_bucketStart b) in
      if elapsed < b_bucketDur b then Some b
      else if b_bucketDur b = 0 then None
      else
        let steps = go_quot elapsed (b_bucketDur b)
        in Some ((shiftWindow steps b)\<lparr>b_bucketStart := b_bucketStart b + steps * b_bucketDur b\<rparr>))"

definition countsLocked :: "breaker \<Rightarrow> int \<times> int" where
  "countsLocked b = (sum_list (map bk_total (b_buckets b)), sum_list (map bk_failures (b_buckets b)))"

definition trippedLocked :: "breaker \<Rightarrow> bool" where
  "trippedLocked b =
     (let (total, failures) = countsLocked b in
      if total < min_requests (b_cfg b) then False
      else f64_le (failure_ratio (b_cfg b)) (f64_div failures total))"

definition snapshotLocked :: "breaker \<Rightarrow> time \<Rightarrow> snapshot" where
  "snapshotLocked b now =
     (let (total, failures) = countsLocked b;
          ratio = (if total > 0 then f64_div failures total else Fin 0);
          remaining = open_duration (b_cfg b) - time_sub now (b_openedAt b);
          (st, retryIn) =
            (if b_state b = StateOpen
             then (if remaining > 0 then (StateOpen, remaining) else (StateHalfOpen, 0))
             else (b_state b, 0))
      in \<lparr> s_name = b_name b, s_state = st, s_total = total, s_failures = failures,
           s_ratio = ratio, s_rejected = b_rejected b, s_retryIn = retryIn \<rparr>)"

definition setStateLocked :: "bstate \<Rightarrow> time \<Rightarrow> breaker \<Rightarrow> transition option \<times> breaker" where
  "setStateLocked to now b =
     (if b_state b = to then (None, b)
      else
        let from = b_state b;
            b1 = b\<lparr>b_state := to, b_generation := b_generation b + 1, b_probeInFlight := False\<rparr>;
            b2 = (case to of
                    StateOpen \<Rightarrow> b1\<lparr>b_openedAt := now\<rparr>
                  | StateClosed \<Rightarrow> b1\<lparr>b_buckets := empty_buckets, b_bucketIndex := 0, b_bucketStart := now\<rparr>
                  | StateHalfOpen \<Rightarrow> b1)
        in (Some \<lparr>t_from = from, t_to = to, t_snapshot = snapshotLocked b2 now\<rparr>, b2))"

definition openErrorLocked :: "breaker \<Rightarrow> time \<Rightarrow> open_error" where
  "openErrorLocked b now =
     (let retryIn = open_duration (b_cfg b) - time_sub now (b_openedAt b)
      in \<lparr>oe_name = b_name b, oe_retryIn = (if retryIn < 0 then 0 else retryIn)\<rparr>)"

definition allowLocked :: "breaker \<Rightarrow> time \<Rightarrow> (allow_result \<times> transition option \<times> breaker) option" where
  "allowLocked b0 now =
     (case advanceLocked b0 now of
        None \<Rightarrow> None
      | Some b1 \<Rightarrow>
          let (event, b) =
            (if b_state b1 = StateOpen \<and> time_sub now (b_openedAt b1) \<ge> open_duration (b_cfg b1)
             then setStateLocked StateHalfOpen now b1 else (None, b1))
          in case b_state b of
               StateOpen \<Rightarrow>
                 let b' = b\<lparr>b_rejected := b_rejected b + 1\<rparr>
                 in Some (Rejected (openErrorLocked b' now), event, b')
             | StateHalfOpen \<Rightarrow>
                 if b_probeInFlight b then
                   let b' = b\<lparr>b_rejected := b_rejected b + 1\<rparr>
                   in Some (Rejected (openErrorLocked b' now), event, b')
                 else
                   let b' = b\<lparr>b_probeInFlight := True\<rparr>
                   in Some (Admit \<lparr>p_generation = b_generation b', p_probe = True, p_valid = True\<rparr>, event, b')
             | StateClosed \<Rightarrow>
                 Some (Admit \<lparr>p_generation = b_generation b, p_probe = False, p_valid = True\<rparr>, event, b))"

text \<open>The bucket increments of \<^verbatim>\<open>recordLocked\<close>.\<close>

definition countOutcome :: "bool \<Rightarrow> breaker \<Rightarrow> breaker" where
  "countOutcome failed b =
     (let i = b_bucketIndex b; k = b_buckets b ! i;
          k' = \<lparr>bk_total = bk_total k + 1, bk_failures = (if failed then bk_failures k + 1 else bk_failures k)\<rparr>
      in b\<lparr>b_buckets := (b_buckets b)[i := k']\<rparr>)"

definition recordLocked :: "breaker \<Rightarrow> permit \<Rightarrow> outcome \<Rightarrow> time \<Rightarrow> (transition option \<times> breaker) option" where
  "recordLocked b0 permit outcome now =
     (if p_generation permit \<noteq> b_generation b0 then Some (None, b0)
      else
        let b1 = (if p_probe permit then b0\<lparr>b_probeInFlight := False\<rparr> else b0)
        in if outcome = Ignored then Some (None, b1)
           else case advanceLocked b1 now of
             None \<Rightarrow> None
           | Some b2 \<Rightarrow>
               if b_state b2 = StateHalfOpen then
                 (if outcome = Failure then Some (setStateLocked StateOpen now b2)
                  else Some (setStateLocked StateClosed now b2))
               else
                 let b3 = countOutcome (outcome = Failure) b2
                 in if b_state b3 = StateClosed \<and> trippedLocked b3
                    then Some (setStateLocked StateOpen now b3)
                    else Some (None, b3))"

definition Record :: "breaker \<Rightarrow> permit \<Rightarrow> outcome \<Rightarrow> time \<Rightarrow> (transition option \<times> breaker) option" where
  "Record b permit outcome now =
     (if \<not> p_valid permit then Some (None, b) else recordLocked b permit outcome now)"

definition Snapshot :: "breaker \<Rightarrow> time \<Rightarrow> (snapshot \<times> breaker) option" where
  "Snapshot b now =
     (case advanceLocked b now of None \<Rightarrow> None | Some b' \<Rightarrow> Some (snapshotLocked b' now, b'))"

section \<open>HTTP transport\<close>

text \<open>
  \<^verbatim>\<open>Classify\<close>: the request's context may have been cancelled; an attempt ends with an error
  (which may wrap \<^verbatim>\<open>context.Canceled\<close>) or a response with a status code; \<^const>\<open>None\<close> for both is
  the nil response.
\<close>

datatype rt_error = ErrCanceled | ErrTransport string | ErrOpen open_error

definition Classify :: "bool \<Rightarrow> int option \<Rightarrow> rt_error option \<Rightarrow> outcome" where
  "Classify ctxCanceled resp err =
     (case err of
        Some e \<Rightarrow> if e = ErrCanceled \<or> ctxCanceled then Ignored else Failure
      | None \<Rightarrow>
          (case resp of
             None \<Rightarrow> Ignored
           | Some code \<Rightarrow>
               if code \<ge> 500 then Failure else if code = 429 then Failure else Success))"

text \<open>A route names its breaker by its position in the list of registered breakers.\<close>

record route_entry =
  re_host :: string
  re_prefix :: string
  re_breaker :: nat

definition trim_slash :: "string \<Rightarrow> string" where
  "trim_slash s = (if s \<noteq> [] \<and> last s = CHR ''/'' then butlast s else s)"

datatype register_error = NoHost | Collision

text \<open>\<open>host\<close> and \<open>path\<close> are the components of the parsed upstream URL.\<close>

definition Register :: "route_entry list \<Rightarrow> string \<Rightarrow> string \<Rightarrow> nat \<Rightarrow> register_error + route_entry list" where
  "Register entries host path b =
     (if host = [] then Inl NoHost
      else
        let entry = \<lparr>re_host = to_lower host, re_prefix = trim_slash path, re_breaker = b\<rparr>
        in if \<exists>e \<in> set entries. re_host e = re_host entry \<and> re_prefix e = re_prefix entry
           then Inl Collision else Inr (entries @ [entry]))"

fun route_best :: "string \<Rightarrow> string \<Rightarrow> route_entry list \<Rightarrow> route_entry option \<Rightarrow> route_entry option" where
  "route_best host path [] best = best"
| "route_best host path (e # es) best =
     (if re_host e \<noteq> host then route_best host path es best
      else if re_prefix e \<noteq> [] \<and> \<not> has_prefix path (re_prefix e) then route_best host path es best
      else route_best host path es
        (case best of
           None \<Rightarrow> Some e
         | Some c \<Rightarrow> if length (re_prefix e) > length (re_prefix c) then Some e else Some c))"

definition For :: "route_entry list \<Rightarrow> string \<Rightarrow> string \<Rightarrow> nat option" where
  "For entries host path = map_option re_breaker (route_best (to_lower host) path entries None)"

text \<open>
  \<^verbatim>\<open>RoundTrip\<close> over the breakers in registration order. \<open>next\<close> is the wrapped transport's
  answer, used only on the paths that call it; the first component of the result says whether
  it was called. \<open>t1\<close> and \<open>t2\<close> are the clock readings of \<^verbatim>\<open>Allow\<close> and \<^verbatim>\<open>Record\<close>.
\<close>

definition RoundTrip :: "route_entry list \<Rightarrow> breaker list \<Rightarrow> string \<Rightarrow> string \<Rightarrow> bool \<Rightarrow>
    (int option \<times> rt_error option) \<Rightarrow> time \<Rightarrow> time \<Rightarrow>
    (bool \<times> (int option \<times> rt_error option) \<times> breaker list) option" where
  "RoundTrip entries bs host path ctxCanceled next t1 t2 =
     (case For entries host path of
        None \<Rightarrow> Some (True, next, bs)
      | Some i \<Rightarrow>
          (case allowLocked (bs ! i) t1 of
             None \<Rightarrow> None
           | Some (Rejected e, _, b') \<Rightarrow> Some (False, (None, Some (ErrOpen e)), bs[i := b'])
           | Some (Admit permit, _, b') \<Rightarrow>
               (case Record b' permit (Classify ctxCanceled (fst next) (snd next)) t2 of
                  None \<Rightarrow> None
                | Some (_, b'') \<Rightarrow> Some (True, next, bs[i := b'']))))"

section \<open>Well-formed breakers\<close>

definition bucket_ok :: "bucket \<Rightarrow> bool" where
  "bucket_ok k \<longleftrightarrow> 0 \<le> bk_failures k \<and> bk_failures k \<le> bk_total k"

definition breaker_wf :: "breaker \<Rightarrow> bool" where
  "breaker_wf b \<longleftrightarrow>
     length (b_buckets b) = windowBuckets \<and> b_bucketIndex b < windowBuckets \<and>
     0 < b_bucketDur b \<and> (\<forall>k \<in> set (b_buckets b). bucket_ok k) \<and>
     (b_probeInFlight b \<longrightarrow> b_state b = StateHalfOpen) \<and>
     0 < min_requests (b_cfg b) \<and> 0 < open_duration (b_cfg b)"

lemma windowBuckets_pos [simp]: "0 < windowBuckets"
  by (simp add: windowBuckets_def)

lemma empty_buckets_ok [simp]:
  "length empty_buckets = windowBuckets" "set empty_buckets = {empty_bucket}"
  "bucket_ok empty_bucket"
  by (auto simp: empty_buckets_def bucket_ok_def empty_bucket_def set_replicate_conv_if)

lemma set_list_update_ok: "\<forall>k \<in> set xs. P k \<Longrightarrow> P v \<Longrightarrow> \<forall>k \<in> set (xs[i := v]). P k"
  using set_update_subset_insert [of xs i v] by auto

lemma roll_frame [simp]:
  "b_state (roll n b) = b_state b" "b_generation (roll n b) = b_generation b"
  "b_openedAt (roll n b) = b_openedAt b" "b_probeInFlight (roll n b) = b_probeInFlight b"
  "b_cfg (roll n b) = b_cfg b" "b_name (roll n b) = b_name b"
  "b_rejected (roll n b) = b_rejected b" "b_bucketDur (roll n b) = b_bucketDur b"
  "b_bucketStart (roll n b) = b_bucketStart b" "length (b_buckets (roll n b)) = length (b_buckets b)"
  by (induction n arbitrary: b) (auto simp: Let_def)

lemma roll_wf [inv_intros]: "breaker_wf b \<Longrightarrow> breaker_wf (roll n b)"
proof (induction n arbitrary: b)
  case (Suc n)
  let ?b = "b\<lparr>b_bucketIndex := (b_bucketIndex b + 1) mod windowBuckets,
               b_buckets := (b_buckets b)[(b_bucketIndex b + 1) mod windowBuckets := empty_bucket]\<rparr>"
  have "breaker_wf ?b"
    using Suc.prems set_list_update_ok [of "b_buckets b" bucket_ok empty_bucket]
    by (simp add: breaker_wf_def)
  then show ?case by (simp add: Let_def Suc.IH)
qed simp

lemma shiftWindow_frame [simp]:
  "b_state (shiftWindow n b) = b_state b" "b_generation (shiftWindow n b) = b_generation b"
  "b_openedAt (shiftWindow n b) = b_openedAt b" "b_probeInFlight (shiftWindow n b) = b_probeInFlight b"
  "b_cfg (shiftWindow n b) = b_cfg b" "b_name (shiftWindow n b) = b_name b"
  "b_rejected (shiftWindow n b) = b_rejected b" "b_bucketDur (shiftWindow n b) = b_bucketDur b"
  "b_bucketStart (shiftWindow n b) = b_bucketStart b"
  by (simp_all add: shiftWindow_def)

lemma shiftWindow_wf [inv_intros]: "breaker_wf b \<Longrightarrow> breaker_wf (shiftWindow n b)"
  using roll_wf [of b "nat n"] by (simp add: shiftWindow_def breaker_wf_def)

lemma advance_frame:
  assumes "advanceLocked b now = Some b'"
  shows "b_state b' = b_state b" "b_generation b' = b_generation b" "b_openedAt b' = b_openedAt b"
    "b_probeInFlight b' = b_probeInFlight b" "b_cfg b' = b_cfg b" "b_name b' = b_name b"
    "b_rejected b' = b_rejected b" "b_bucketDur b' = b_bucketDur b"
  using assms by (auto simp: advanceLocked_def Let_def split: if_splits)

lemma advance_wf [inv_intros]: "breaker_wf b \<Longrightarrow> advanceLocked b now = Some b' \<Longrightarrow> breaker_wf b'"
proof -
  assume wf: "breaker_wf b" and adv: "advanceLocked b now = Some b'"
  then have "b' = b \<or> (\<exists>n t. b' = (shiftWindow n b)\<lparr>b_bucketStart := t\<rparr>)"
    by (auto simp: advanceLocked_def Let_def breaker_wf_def split: if_splits)
  then show ?thesis using wf shiftWindow_wf [OF wf] by (auto simp: breaker_wf_def)
qed

lemma advance_total: "0 < b_bucketDur b \<Longrightarrow> \<exists>b'. advanceLocked b now = Some b'"
  by (auto simp: advanceLocked_def Let_def)

lemma breaker_wf_advance_ex: "breaker_wf b \<Longrightarrow> \<exists>b'. advanceLocked b now = Some b' \<and> breaker_wf b'"
  using advance_total advance_wf by (metis breaker_wf_def)

lemma setState_wf [inv_intros]:
  "breaker_wf b \<Longrightarrow> breaker_wf (snd (setStateLocked to now b))"
  by (auto simp: setStateLocked_def breaker_wf_def Let_def split: bstate.splits)

lemma setState_frame:
  "b_cfg (snd (setStateLocked to now b)) = b_cfg b"
  "b_name (snd (setStateLocked to now b)) = b_name b"
  "b_bucketDur (snd (setStateLocked to now b)) = b_bucketDur b"
  "b_rejected (snd (setStateLocked to now b)) = b_rejected b"
  "b_state (snd (setStateLocked to now b)) = to"
  by (auto simp: setStateLocked_def Let_def split: bstate.splits)

lemma setState_generation:
  assumes "b_state b \<noteq> to"
  shows "b_generation (snd (setStateLocked to now b)) = b_generation b + 1"
    "b_probeInFlight (snd (setStateLocked to now b)) = False"
    "fst (setStateLocked to now b) \<noteq> None"
  using assms by (auto simp: setStateLocked_def Let_def split: bstate.splits)

lemma countOutcome_frame [simp]:
  "b_state (countOutcome f b) = b_state b" "b_generation (countOutcome f b) = b_generation b"
  "b_openedAt (countOutcome f b) = b_openedAt b" "b_probeInFlight (countOutcome f b) = b_probeInFlight b"
  "b_cfg (countOutcome f b) = b_cfg b" "b_name (countOutcome f b) = b_name b"
  "b_rejected (countOutcome f b) = b_rejected b" "b_bucketDur (countOutcome f b) = b_bucketDur b"
  "b_bucketStart (countOutcome f b) = b_bucketStart b"
  "b_bucketIndex (countOutcome f b) = b_bucketIndex b"
  "length (b_buckets (countOutcome f b)) = length (b_buckets b)"
  by (simp_all add: countOutcome_def Let_def)

lemma countOutcome_wf [inv_intros]: "breaker_wf b \<Longrightarrow> breaker_wf (countOutcome f b)"
proof -
  assume wf: "breaker_wf b"
  let ?k = "b_buckets b ! b_bucketIndex b"
  let ?k' = "\<lparr>bk_total = bk_total ?k + 1, bk_failures = (if f then bk_failures ?k + 1 else bk_failures ?k)\<rparr>"
  have all: "\<forall>k \<in> set (b_buckets b). bucket_ok k" using wf by (simp add: breaker_wf_def)
  have "?k \<in> set (b_buckets b)" using wf by (auto simp: breaker_wf_def)
  with all have "bucket_ok ?k'" by (auto simp: bucket_ok_def)
  with all have "\<forall>k \<in> set ((b_buckets b)[b_bucketIndex b := ?k']). bucket_ok k"
    by (rule set_list_update_ok)
  then have "\<forall>k \<in> set (b_buckets (countOutcome f b)). bucket_ok k"
    by (simp add: countOutcome_def Let_def)
  then show ?thesis using wf by (simp add: breaker_wf_def)
qed

lemma new_wf:
  assumes "window cfg \<le> 0 \<or> int windowBuckets \<le> window cfg"
  shows "breaker_wf (NewWithClock nm cfg now)"
proof -
  have "10 \<le> window (withDefaults cfg)"
    using assms by (auto simp: withDefaults_def windowBuckets_def second_def)
  then have "0 < window (withDefaults cfg) div 10" by simp
  then show ?thesis
    by (auto simp: NewWithClock_def breaker_wf_def Let_def windowBuckets_def withDefaults_def
        second_def)
qed

section \<open>Callers, outstanding permits and reachable states\<close>

text \<open>
  Any number of goroutines share a breaker. The system is the breaker together with the
  permits issued and not yet reported; a step is one caller's \<^verbatim>\<open>Allow\<close>, \<^verbatim>\<open>Record\<close> or \<^verbatim>\<open>Snapshot\<close>,
  at any clock reading. \<open>sys_epoch\<close> counts the transitions so far, and each outstanding permit
  is paired with the epoch it was issued in: ghost state that the code does not have.
\<close>

record breaker_sys =
  sys_breaker :: breaker
  sys_permits :: "(nat \<times> permit) list"
  sys_epoch :: nat

definition epoch_after :: "transition option \<Rightarrow> nat \<Rightarrow> nat" where
  "epoch_after ev n = (case ev of None \<Rightarrow> n | Some _ \<Rightarrow> Suc n)"

inductive bstep :: "breaker_sys \<Rightarrow> breaker_sys \<Rightarrow> bool" where
  step_admit: "allowLocked (sys_breaker s) now = Some (Admit p, ev, b) \<Longrightarrow>
     bstep s \<lparr>sys_breaker = b, sys_permits = (epoch_after ev (sys_epoch s), p) # sys_permits s,
              sys_epoch = epoch_after ev (sys_epoch s)\<rparr>"
| step_reject: "allowLocked (sys_breaker s) now = Some (Rejected e, ev, b) \<Longrightarrow>
     bstep s \<lparr>sys_breaker = b, sys_permits = sys_permits s, sys_epoch = epoch_after ev (sys_epoch s)\<rparr>"
| step_record: "(k, p) \<in> set (sys_permits s) \<Longrightarrow>
     Record (sys_breaker s) p out now = Some (ev, b) \<Longrightarrow>
     bstep s \<lparr>sys_breaker = b, sys_permits = remove1 (k, p) (sys_permits s),
              sys_epoch = epoch_after ev (sys_epoch s)\<rparr>"
| step_snapshot: "Snapshot (sys_breaker s) now = Some (snap, b) \<Longrightarrow>
     bstep s (s\<lparr>sys_breaker := b\<rparr>)"

inductive breaker_reachable :: "breaker \<Rightarrow> breaker_sys \<Rightarrow> bool" for b0 where
  reach_start: "breaker_reachable b0 \<lparr>sys_breaker = b0, sys_permits = [], sys_epoch = 0\<rparr>"
| reach_step: "breaker_reachable b0 s \<Longrightarrow> bstep s t \<Longrightarrow> breaker_reachable b0 t"

definition current_probe :: "nat \<Rightarrow> nat \<times> permit \<Rightarrow> bool" where
  "current_probe n kp \<longleftrightarrow> fst kp = n \<and> p_probe (snd kp)"

definition sys_inv :: "breaker_sys \<Rightarrow> bool" where
  "sys_inv s \<longleftrightarrow>
     breaker_wf (sys_breaker s) \<and>
     b_generation (sys_breaker s) = of_nat (sys_epoch s) \<and>
     (\<forall>(k, p) \<in> set (sys_permits s). p_generation p = of_nat k \<and> p_valid p \<and> k \<le> sys_epoch s) \<and>
     length (filter (current_probe (sys_epoch s)) (sys_permits s)) =
       (if b_probeInFlight (sys_breaker s) then 1 else 0)"

lemma word64_of_nat_eq: "m < 2 ^ 64 \<Longrightarrow> n < 2 ^ 64 \<Longrightarrow> (of_nat m :: 64 word) = of_nat n \<longleftrightarrow> m = n"
  by (simp add: word_of_nat_eq_iff take_bit_nat_eq_self)

lemma epoch_after_ge: "n \<le> epoch_after ev n"
  by (simp add: epoch_after_def split: option.splits)

lemma no_current_probe:
  "\<forall>(k, p) \<in> set ps. k \<le> n \<Longrightarrow> filter (current_probe (Suc n)) ps = []"
  by (auto simp: filter_empty_conv current_probe_def)

text \<open>What one call of \<^verbatim>\<open>Allow\<close> does to the fields the invariant reads.\<close>

lemma allow_cases:
  assumes wf: "breaker_wf b" and al: "allowLocked b now = Some (r, ev, b')"
  shows "breaker_wf b' \<and>
    b_generation b' = (case ev of None \<Rightarrow> b_generation b | Some _ \<Rightarrow> b_generation b + 1) \<and>
    (case r of
       Rejected e \<Rightarrow> ev = None \<and> b_probeInFlight b' = b_probeInFlight b
     | Admit p \<Rightarrow> p_generation p = b_generation b' \<and> p_valid p \<and>
         (if p_probe p then b_probeInFlight b' \<and> (ev = None \<longrightarrow> \<not> b_probeInFlight b)
          else ev = None \<and> b_probeInFlight b' = b_probeInFlight b))"
proof -
  obtain b1 where b1: "advanceLocked b now = Some b1" "breaker_wf b1"
    using breaker_wf_advance_ex [OF wf] by blast
  note fr = advance_frame [OF b1(1)]
  show ?thesis
  proof (cases "b_state b1 = StateOpen \<and> time_sub now (b_openedAt b1) \<ge> open_duration (b_cfg b1)")
    case True
    then have ne: "b_state b1 \<noteq> StateHalfOpen" by simp
    obtain e b2 where set: "setStateLocked StateHalfOpen now b1 = (Some e, b2)"
      using setState_generation(3) [OF ne, of now] by (metis not_None_eq prod.collapse)
    have b2: "b_state b2 = StateHalfOpen" "b_probeInFlight b2 = False"
      "b_generation b2 = b_generation b1 + 1" "breaker_wf b2"
      using setState_generation [OF ne, of now] setState_frame(5) [of StateHalfOpen now b1]
        setState_wf [OF b1(2), of StateHalfOpen now] by (simp_all add: set)
    show ?thesis using al True b2 fr
      by (auto simp: allowLocked_def b1 set breaker_wf_def)
  next
    case False
    then show ?thesis using al b1 fr
      by (auto simp: allowLocked_def breaker_wf_def Let_def split: bstate.splits if_splits)
  qed
qed

text \<open>What one call of \<^verbatim>\<open>Record\<close> does to them: nothing for a stale permit.\<close>

lemma record_stale: "p_generation p \<noteq> b_generation b \<Longrightarrow> recordLocked b p out now = Some (None, b)"
  by (simp add: recordLocked_def)

lemma record_cases:
  assumes wf: "breaker_wf b" and cur: "p_generation p = b_generation b"
    and rec: "recordLocked b p out now = Some (ev, b')"
  shows "breaker_wf b' \<and>
    (case ev of
       None \<Rightarrow> b_generation b' = b_generation b \<and>
         b_probeInFlight b' = (b_probeInFlight b \<and> \<not> p_probe p)
     | Some _ \<Rightarrow> b_generation b' = b_generation b + 1 \<and> \<not> b_probeInFlight b')"
proof -
  define b1 where "b1 = (if p_probe p then b\<lparr>b_probeInFlight := False\<rparr> else b)"
  have wf1: "breaker_wf b1" and f1: "b_generation b1 = b_generation b"
    "b_probeInFlight b1 = (b_probeInFlight b \<and> \<not> p_probe p)"
    using wf by (auto simp: b1_def breaker_wf_def)
  have eq: "(if out = Ignored then Some (None, b1)
      else case advanceLocked b1 now of
        None \<Rightarrow> None
      | Some b2 \<Rightarrow>
          if b_state b2 = StateHalfOpen then
            (if out = Failure then Some (setStateLocked StateOpen now b2)
             else Some (setStateLocked StateClosed now b2))
          else let b3 = countOutcome (out = Failure) b2
               in if b_state b3 = StateClosed \<and> trippedLocked b3
                  then Some (setStateLocked StateOpen now b3) else Some (None, b3)) = Some (ev, b')"
    using rec unfolding recordLocked_def b1_def Let_def cur by (simp split del: if_split)
  show ?thesis
  proof (cases "out = Ignored")
    case True
    then show ?thesis using eq wf1 f1 by auto
  next
    case False
    obtain b2 where b2: "advanceLocked b1 now = Some b2" "breaker_wf b2"
      using breaker_wf_advance_ex [OF wf1] by blast
    note fr = advance_frame [OF b2(1)]
    have set: "breaker_wf b' \<and> (case ev of None \<Rightarrow> False
        | Some _ \<Rightarrow> b_generation b' = b_generation b + 1 \<and> \<not> b_probeInFlight b')"
      if "setStateLocked st now c = (ev, b')" "b_state c \<noteq> st" "breaker_wf c"
        "b_generation c = b_generation b" for st c
      using that setState_generation [OF that(2), of now] setState_wf [OF that(3), of st now]
      by (auto split: option.splits)
    show ?thesis
    proof (cases "b_state b2 = StateHalfOpen")
      case True
      then have "setStateLocked StateOpen now b2 = (ev, b') \<or> setStateLocked StateClosed now b2 = (ev, b')"
        using eq False b2 by (auto split: if_splits)
      then show ?thesis
        using set [of StateOpen b2] set [of StateClosed b2] True b2(2) fr f1
        by (auto split: option.splits)
    next
      case no: False
      let ?b3 = "countOutcome (out = Failure) b2"
      have wf3: "breaker_wf ?b3" by (rule countOutcome_wf [OF b2(2)])
      have "(if b_state ?b3 = StateClosed \<and> trippedLocked ?b3
          then Some (setStateLocked StateOpen now ?b3) else Some (None, ?b3)) = Some (ev, b')"
        using eq False no b2 by (simp add: Let_def)
      then show ?thesis
        using set [of StateOpen ?b3] wf3 fr f1 by (auto split: if_splits option.splits)
    qed
  qed
qed

lemma sys_inv_init:
  "breaker_wf b \<Longrightarrow> b_generation b = 0 \<Longrightarrow> \<not> b_probeInFlight b \<Longrightarrow>
   sys_inv \<lparr>sys_breaker = b, sys_permits = [], sys_epoch = 0\<rparr>"
  by (simp add: sys_inv_def)

lemma of_nat_epoch_after:
  "of_nat (epoch_after ev n) = (case ev of None \<Rightarrow> of_nat n | Some _ \<Rightarrow> of_nat n + (1 :: 64 word))"
  by (simp add: epoch_after_def split: option.splits)

lemma bstep_epoch: "bstep s t \<Longrightarrow> sys_epoch s \<le> sys_epoch t"
  by (induction rule: bstep.induct) (auto simp: epoch_after_ge)

lemma sys_inv_allow:
  assumes inv: "sys_inv s" and al: "allowLocked (sys_breaker s) now = Some (r, ev, b)"
  shows "sys_inv \<lparr>sys_breaker = b,
    sys_permits = (case r of Admit p \<Rightarrow> [(epoch_after ev (sys_epoch s), p)] | Rejected e \<Rightarrow> []) @ sys_permits s,
    sys_epoch = epoch_after ev (sys_epoch s)\<rparr>"
proof -
  have wf: "breaker_wf (sys_breaker s)" using inv by (simp add: sys_inv_def)
  have ks: "\<forall>(k, p) \<in> set (sys_permits s). k \<le> sys_epoch s" using inv by (auto simp: sys_inv_def)
  note c = allow_cases [OF wf al]
  note no = no_current_probe [OF ks]
  have ps: "\<forall>(k, p) \<in> set (sys_permits s).
      p_generation p = of_nat k \<and> p_valid p \<and> k \<le> epoch_after ev (sys_epoch s)"
    using inv epoch_after_ge [of "sys_epoch s" ev] by (fastforce simp: sys_inv_def)
  have gen: "b_generation b = of_nat (epoch_after ev (sys_epoch s))"
    using inv c by (simp add: sys_inv_def of_nat_epoch_after split: option.splits)
  have old: "length (filter (current_probe (epoch_after ev (sys_epoch s))) (sys_permits s)) =
      (if ev = None \<and> b_probeInFlight (sys_breaker s) then 1 else 0)"
    using inv no by (cases ev) (simp_all add: sys_inv_def epoch_after_def)
  show ?thesis
  proof (cases r)
    case (Rejected e)
    then show ?thesis using c ps gen old by (simp add: sys_inv_def)
  next
    case (Admit p)
    have "length (filter (current_probe (epoch_after ev (sys_epoch s)))
        ((epoch_after ev (sys_epoch s), p) # sys_permits s)) = (if b_probeInFlight b then 1 else 0)"
      using c old Admit by (auto simp: current_probe_def split: if_splits)
    then show ?thesis using c ps gen Admit by (simp add: sys_inv_def)
  qed
qed

lemma sys_inv_record:
  assumes inv: "sys_inv s" and mem: "(k, p) \<in> set (sys_permits s)"
    and bound: "sys_epoch s < 2 ^ 64"
    and rec: "Record (sys_breaker s) p out now = Some (ev, b)"
  shows "sys_inv \<lparr>sys_breaker = b, sys_permits = remove1 (k, p) (sys_permits s),
    sys_epoch = epoch_after ev (sys_epoch s)\<rparr>"
proof -
  have wf: "breaker_wf (sys_breaker s)" and val: "p_valid p" and k: "k \<le> sys_epoch s"
    and gen: "p_generation p = of_nat k" and gb: "b_generation (sys_breaker s) = of_nat (sys_epoch s)"
    using inv mem by (auto simp: sys_inv_def)
  have ks: "\<forall>(k, p) \<in> set (remove1 (k, p) (sys_permits s)). k \<le> sys_epoch s \<and> p_generation p = of_nat k \<and> p_valid p"
    using inv set_remove1_subset [of "(k, p)" "sys_permits s"] by (auto simp: sys_inv_def)
  from rec val have rl: "recordLocked (sys_breaker s) p out now = Some (ev, b)"
    by (simp add: Record_def)
  show ?thesis
  proof (cases "k = sys_epoch s")
    case False
    then have "p_generation p \<noteq> b_generation (sys_breaker s)"
      using word64_of_nat_eq [of k "sys_epoch s"] k bound gen gb by simp
    then have "ev = None" "b = sys_breaker s"
      using rl record_stale [of p "sys_breaker s" out now] by auto
    moreover have "filter (current_probe (sys_epoch s)) (remove1 (k, p) (sys_permits s)) =
        filter (current_probe (sys_epoch s)) (sys_permits s)"
      using False by (simp add: filter_remove1 remove1_idem current_probe_def)
    ultimately show ?thesis using inv ks by (auto simp: sys_inv_def epoch_after_def)
  next
    case True
    then have cur: "p_generation p = b_generation (sys_breaker s)" using gen gb by simp
    note c = record_cases [OF wf cur rl]
    have no: "filter (current_probe (Suc (sys_epoch s))) (remove1 (k, p) (sys_permits s)) = []"
      by (rule no_current_probe) (use ks in auto)
    have len: "length (filter (current_probe (sys_epoch s)) (remove1 (k, p) (sys_permits s))) =
        (if b_probeInFlight (sys_breaker s) \<and> \<not> p_probe p then 1 else 0)"
    proof (cases "p_probe p")
      case probe: True
      then have cp: "(k, p) \<in> set (filter (current_probe (sys_epoch s)) (sys_permits s))"
        using mem True by (simp add: current_probe_def)
      then have "0 < length (filter (current_probe (sys_epoch s)) (sys_permits s))"
        by (metis length_pos_if_in_set)
      then have "length (filter (current_probe (sys_epoch s)) (sys_permits s)) = 1"
        using inv by (auto simp: sys_inv_def split: if_splits)
      then show ?thesis using cp probe by (simp add: filter_remove1 length_remove1)
    next
      case np: False
      then have "(k, p) \<notin> set (filter (current_probe (sys_epoch s)) (sys_permits s))"
        by (simp add: current_probe_def)
      then show ?thesis using inv np by (simp add: filter_remove1 remove1_idem sys_inv_def)
    qed
    show ?thesis using c no len ks gb
      by (cases ev) (auto simp: sys_inv_def epoch_after_def)
  qed
qed

lemma sys_inv_bstep:
  assumes "bstep s t" and "sys_inv s" and "sys_epoch s < 2 ^ 64"
  shows "sys_inv t"
  using assms
proof (induction rule: bstep.induct)
  case (step_admit s now p ev b)
  then show ?case using sys_inv_allow [of s now "Admit p" ev b] by simp
next
  case (step_reject s now e ev b)
  then show ?case using sys_inv_allow [of s now "Rejected e" ev b] by simp
next
  case (step_record k p s out now ev b)
  then show ?case using sys_inv_record by blast
next
  case (step_snapshot s now snap b)
  then obtain b' where b': "advanceLocked (sys_breaker s) now = Some b'" "b = b'"
    by (auto simp: Snapshot_def split: option.splits)
  have "breaker_wf b'" using advance_wf b'(1) step_snapshot.prems by (auto simp: sys_inv_def)
  then show ?case using step_snapshot.prems advance_frame [OF b'(1)] b'(2)
    by (simp add: sys_inv_def)
qed

lemma reachable_sys_inv:
  assumes "breaker_reachable b0 s" and "breaker_wf b0" "b_generation b0 = 0" "\<not> b_probeInFlight b0"
  shows "sys_epoch s < 2 ^ 64 \<Longrightarrow> sys_inv s"
  using assms(1)
proof (induction rule: breaker_reachable.induct)
  case reach_start
  show ?case using sys_inv_init assms(2-4) by blast
next
  case (reach_step s t)
  then show ?case using bstep_epoch [of s t] sys_inv_bstep [of s t] by simp
qed

section \<open>The rolling window as a log of outcomes\<close>

text \<open>
  The contract of a rolling window: it stands for the slot the clock is in and for the log of
  all outcomes, each with the slot it was recorded in, and its counts are the counts over the
  log entries of the last \<^const>\<open>windowBuckets\<close> slots.
\<close>

type_synonym outcome_log = "(int \<times> bool) list"

definition log_counts :: "int \<Rightarrow> outcome_log \<Rightarrow> int \<times> int" where
  "log_counts s lg =
     (int (length (filter (\<lambda>e. s - int windowBuckets < fst e) lg)),
      int (length (filter (\<lambda>e. s - int windowBuckets < fst e \<and> snd e) lg)))"

locale rolling_window =
  fixes rep :: "'w \<Rightarrow> int \<Rightarrow> outcome_log \<Rightarrow> bool"
    and shift :: "int \<Rightarrow> 'w \<Rightarrow> 'w"
    and count :: "bool \<Rightarrow> 'w \<Rightarrow> 'w"
    and counts :: "'w \<Rightarrow> int \<times> int"
  assumes rep_shift: "rep w s lg \<Longrightarrow> 0 \<le> k \<Longrightarrow> rep (shift k w) (s + k) lg"
    and rep_count: "rep w s lg \<Longrightarrow> rep (count f w) s ((s, f) # lg)"
    and rep_counts: "rep w s lg \<Longrightarrow> counts w = log_counts s lg"
begin

text \<open>Counting outcomes at increasing slots is appending them to the log.\<close>

fun count_all :: "int \<Rightarrow> (int \<times> bool) list \<Rightarrow> 'w \<Rightarrow> 'w" where
  "count_all s [] w = w"
| "count_all s ((t, f) # es) w = count_all t es (count f (shift (t - s) w))"

lemma rep_count_all:
  "rep w s lg \<Longrightarrow> sorted (s # map fst es) \<Longrightarrow>
   rep (count_all s es w) (last (s # map fst es)) (rev es @ lg)"
proof (induction es arbitrary: s w lg)
  case (Cons e es)
  obtain t f where e: "e = (t, f)" by fastforce
  have "rep (shift (t - s) w) t lg" using rep_shift [OF Cons.prems(1), of "t - s"] Cons.prems(2) e by simp
  then have "rep (count f (shift (t - s) w)) t ((t, f) # lg)" by (rule rep_count)
  from Cons.IH [OF this] Cons.prems(2) show ?case by (simp add: e)
qed simp

lemma counts_count_all:
  assumes "rep w s []" and "sorted (s # map fst es)"
  shows "counts (count_all s es w) = log_counts (last (s # map fst es)) (rev es)"
  using rep_counts [OF rep_count_all [OF assms]] by simp

end

definition slot_bucket :: "outcome_log \<Rightarrow> int \<Rightarrow> bucket" where
  "slot_bucket lg t = \<lparr>bk_total = int (length (filter (\<lambda>e. fst e = t) lg)),
                        bk_failures = int (length (filter (\<lambda>e. fst e = t \<and> snd e) lg))\<rparr>"

text \<open>Position of the bucket that is \<open>i\<close> slots old.\<close>

definition ring_pos :: "nat \<Rightarrow> nat \<Rightarrow> nat" where
  "ring_pos idx i = (idx + windowBuckets - i) mod windowBuckets"

definition ring_rep :: "breaker \<Rightarrow> int \<Rightarrow> outcome_log \<Rightarrow> bool" where
  "ring_rep b s lg \<longleftrightarrow>
     length (b_buckets b) = windowBuckets \<and> b_bucketIndex b < windowBuckets \<and>
     (\<forall>i < windowBuckets. b_buckets b ! ring_pos (b_bucketIndex b) i = slot_bucket lg (s - int i)) \<and>
     (\<forall>e \<in> set lg. fst e \<le> s)"

lemma ring_pos_less [simp]: "ring_pos idx i < windowBuckets"
  by (simp add: ring_pos_def)

lemma ring_pos_0 [simp]: "idx < windowBuckets \<Longrightarrow> ring_pos idx 0 = idx"
  by (simp add: ring_pos_def)

lemma ring_pos_alt:
  assumes "idx < windowBuckets" "i < windowBuckets"
  shows "ring_pos idx i = (if i \<le> idx then idx - i else idx + windowBuckets - i)"
proof (cases "i \<le> idx")
  case True
  then have "idx + windowBuckets - i = (idx - i) + windowBuckets" by simp
  then have "ring_pos idx i = (idx - i) mod windowBuckets" by (simp only: ring_pos_def mod_add_self2)
  then show ?thesis using assms True by simp
next
  case False
  then show ?thesis using assms by (simp add: ring_pos_def)
qed

lemma ring_pos_inj:
  "idx < windowBuckets \<Longrightarrow> i < windowBuckets \<Longrightarrow> j < windowBuckets \<Longrightarrow>
   ring_pos idx i = ring_pos idx j \<longleftrightarrow> i = j"
  by (simp add: ring_pos_alt) arith

lemma ring_pos_Suc:
  assumes "idx < windowBuckets" "Suc i < windowBuckets"
  shows "ring_pos ((idx + 1) mod windowBuckets) (Suc i) = ring_pos idx i"
proof (cases "idx + 1 = windowBuckets")
  case True
  then have "(idx + 1) mod windowBuckets = 0" by simp
  then show ?thesis using assms True by (simp add: ring_pos_alt)
next
  case False
  then have "(idx + 1) mod windowBuckets = idx + 1" using assms by simp
  then show ?thesis using assms False by (simp add: ring_pos_alt)
qed

lemma ring_pos_bij:
  assumes "idx < windowBuckets"
  shows "bij_betw (ring_pos idx) {..<windowBuckets} {..<windowBuckets}"
proof -
  have inj: "inj_on (ring_pos idx) {..<windowBuckets}"
    using ring_pos_inj [OF assms] by (auto simp: inj_on_def)
  have "ring_pos idx ` {..<windowBuckets} \<subseteq> {..<windowBuckets}" by auto
  then have "ring_pos idx ` {..<windowBuckets} = {..<windowBuckets}"
    using inj by (simp add: endo_inj_surj)
  then show ?thesis using inj by (simp add: bij_betw_def)
qed

lemma slot_bucket_future: "\<forall>e \<in> set lg. fst e \<le> s \<Longrightarrow> s < t \<Longrightarrow> slot_bucket lg t = empty_bucket"
  by (auto simp: slot_bucket_def empty_bucket_def filter_empty_conv)

lemma ring_rep_roll1:
  assumes "ring_rep b s lg"
  shows "ring_rep (b\<lparr>b_bucketIndex := (b_bucketIndex b + 1) mod windowBuckets,
      b_buckets := (b_buckets b)[(b_bucketIndex b + 1) mod windowBuckets := empty_bucket]\<rparr>) (s + 1) lg"
    (is "ring_rep ?b' _ _")
proof -
  let ?j = "(b_bucketIndex b + 1) mod windowBuckets"
  have len: "length (b_buckets b) = windowBuckets" and idx: "b_bucketIndex b < windowBuckets"
    and old: "\<And>i. i < windowBuckets \<Longrightarrow> b_buckets b ! ring_pos (b_bucketIndex b) i = slot_bucket lg (s - int i)"
    and past: "\<forall>e \<in> set lg. fst e \<le> s"
    using assms by (auto simp: ring_rep_def)
  have j: "?j < windowBuckets" by simp
  have "(b_buckets b)[?j := empty_bucket] ! ring_pos ?j i = slot_bucket lg (s + 1 - int i)"
    if i: "i < windowBuckets" for i
  proof (cases i)
    case 0
    then show ?thesis using j len slot_bucket_future [OF past, of "s + 1"] by simp
  next
    case (Suc k)
    have "ring_pos ?j i \<noteq> ?j" using ring_pos_inj [OF j, of i 0] i j Suc by simp
    moreover have "ring_pos ?j i = ring_pos (b_bucketIndex b) k"
      using ring_pos_Suc [OF idx, of k] i Suc by simp
    ultimately show ?thesis using old [of k] i Suc by simp
  qed
  then show ?thesis using len past by (auto simp: ring_rep_def)
qed

lemma ring_rep_roll: "ring_rep b s lg \<Longrightarrow> ring_rep (roll n b) (s + int n) lg"
proof (induction n arbitrary: b s)
  case (Suc n)
  from Suc.IH [OF ring_rep_roll1 [OF Suc.prems]] show ?case
    by (simp add: Let_def algebra_simps)
qed simp

lemma ring_rep_shift:
  assumes "ring_rep b s lg" and "0 \<le> k"
  shows "ring_rep (shiftWindow k b) (s + k) lg"
proof (cases "k \<ge> int windowBuckets")
  case True
  have past: "\<forall>e \<in> set lg. fst e \<le> s" using assms by (simp add: ring_rep_def)
  have "empty_buckets ! ring_pos 0 i = slot_bucket lg (s + k - int i)" if "i < windowBuckets" for i
    using slot_bucket_future [OF past, of "s + k - int i"] that True
    by (simp add: empty_buckets_def)
  then show ?thesis using True past by (auto simp: shiftWindow_def ring_rep_def)
next
  case False
  then show ?thesis using ring_rep_roll [OF assms(1), of "nat k"] assms(2) by (simp add: shiftWindow_def)
qed

lemma ring_rep_count:
  assumes "ring_rep b s lg"
  shows "ring_rep (countOutcome f b) s ((s, f) # lg)"
proof -
  let ?i = "b_bucketIndex b"
  have len: "length (b_buckets b) = windowBuckets" and idx: "?i < windowBuckets"
    and old: "\<And>i. i < windowBuckets \<Longrightarrow> b_buckets b ! ring_pos ?i i = slot_bucket lg (s - int i)"
    and past: "\<forall>e \<in> set lg. fst e \<le> s"
    using assms by (auto simp: ring_rep_def)
  have "b_buckets (countOutcome f b) ! ring_pos ?i i = slot_bucket ((s, f) # lg) (s - int i)"
    if i: "i < windowBuckets" for i
  proof (cases "i = 0")
    case True
    then show ?thesis using old [of 0] idx len
      by (simp add: countOutcome_def Let_def slot_bucket_def)
  next
    case False
    then have "ring_pos ?i i \<noteq> ?i" using ring_pos_inj [OF idx i, of 0] idx by simp
    then show ?thesis using old [OF i] False
      by (simp add: countOutcome_def Let_def slot_bucket_def)
  qed
  then show ?thesis using len idx past by (auto simp: ring_rep_def)
qed

lemma sum_slot_indicator:
  "t \<le> s \<Longrightarrow> (\<Sum>i < windowBuckets. if t = s - int i then 1 else 0) =
     (if s - int windowBuckets < t then 1 else (0::int))"
proof (cases "s - int windowBuckets < t")
  case True
  assume "t \<le> s"
  with True have n: "nat (s - t) \<in> {..<windowBuckets}" by auto
  have "(\<Sum>i < windowBuckets. if t = s - int i then 1 else 0) =
      (\<Sum>i < windowBuckets. if i = nat (s - t) then 1 else (0::int))"
    using \<open>t \<le> s\<close> by (intro sum.cong) auto
  then show ?thesis using n True by simp
next
  case False
  then have "(\<Sum>i < windowBuckets. if t = s - int i then 1 else (0::int)) = 0"
    by (intro sum.neutral) auto
  then show ?thesis using False by simp
qed

lemma sum_slots:
  "\<forall>e \<in> set lg. fst e \<le> s \<Longrightarrow>
   (\<Sum>i < windowBuckets. int (length (filter (\<lambda>e. fst e = s - int i \<and> P e) lg))) =
   int (length (filter (\<lambda>e. s - int windowBuckets < fst e \<and> P e) lg))"
proof (induction lg)
  case (Cons e lg)
  have "(\<Sum>i < windowBuckets. int (length (filter (\<lambda>e. fst e = s - int i \<and> P e) (e # lg)))) =
      (\<Sum>i < windowBuckets. (if P e then (if fst e = s - int i then 1 else 0) else 0) +
         int (length (filter (\<lambda>e. fst e = s - int i \<and> P e) lg)))"
    by (intro sum.cong) auto
  also have "\<dots> = (if P e then (\<Sum>i < windowBuckets. if fst e = s - int i then 1 else 0) else 0) +
      int (length (filter (\<lambda>e. s - int windowBuckets < fst e \<and> P e) lg))"
    using Cons by (simp add: sum.distrib)
  finally show ?case using Cons.prems sum_slot_indicator [of "fst e" s] by simp
qed simp

lemma ring_sum:
  assumes "ring_rep b s lg"
  shows "sum_list (map g (b_buckets b)) = (\<Sum>i < windowBuckets. g (slot_bucket lg (s - int i)))"
proof -
  have len: "length (b_buckets b) = windowBuckets" and idx: "b_bucketIndex b < windowBuckets"
    using assms by (auto simp: ring_rep_def)
  have "sum_list (map g (b_buckets b)) = (\<Sum>j < windowBuckets. g (b_buckets b ! j))"
    by (simp add: sum_list_sum_nth len atLeast0LessThan)
  also have "\<dots> = (\<Sum>i < windowBuckets. g (b_buckets b ! ring_pos (b_bucketIndex b) i))"
    by (rule sum.reindex_bij_betw [OF ring_pos_bij [OF idx], symmetric])
  also have "\<dots> = (\<Sum>i < windowBuckets. g (slot_bucket lg (s - int i)))"
    using assms by (intro sum.cong) (auto simp: ring_rep_def)
  finally show ?thesis .
qed

lemma ring_rep_counts: "ring_rep b s lg \<Longrightarrow> countsLocked b = log_counts s lg"
proof -
  assume r: "ring_rep b s lg"
  then have past: "\<forall>e \<in> set lg. fst e \<le> s" by (simp add: ring_rep_def)
  show ?thesis
    unfolding countsLocked_def log_counts_def ring_sum [OF r]
    using sum_slots [OF past, of "\<lambda>_. True"] sum_slots [OF past, of snd]
    by (simp add: slot_bucket_def)
qed

interpretation ring: rolling_window ring_rep shiftWindow countOutcome countsLocked
  by unfold_locales (simp_all add: ring_rep_shift ring_rep_count ring_rep_counts)

text \<open>Outcomes reported in the closed state, as long as none of them trips the breaker.\<close>

fun record_run :: "breaker \<Rightarrow> (time \<times> bool) list \<Rightarrow> breaker option" where
  "record_run b [] = Some b"
| "record_run b ((t, failed) # es) =
     (case Record b \<lparr>p_generation = b_generation b, p_probe = False, p_valid = True\<rparr>
             (if failed then Failure else Success) t of
        Some (None, b') \<Rightarrow> record_run b' es
      | _ \<Rightarrow> None)"

text \<open>The slot a clock reading falls in, counted in buckets from the origin of the window.\<close>

definition slot_of :: "time \<Rightarrow> duration \<Rightarrow> time \<Rightarrow> int" where
  "slot_of orig d t = (t - orig) div d"

definition slotted :: "time \<Rightarrow> duration \<Rightarrow> (time \<times> bool) list \<Rightarrow> outcome_log" where
  "slotted orig d es = map (\<lambda>(t, f). (slot_of orig d t, f)) es"

definition on_grid :: "time \<Rightarrow> duration \<Rightarrow> breaker \<Rightarrow> time \<Rightarrow> outcome_log \<Rightarrow> bool" where
  "on_grid orig d b t lg \<longleftrightarrow>
     0 < d \<and> b_bucketDur b = d \<and> b_state b = StateClosed \<and> orig \<le> t \<and>
     b_bucketStart b = orig + slot_of orig d t * d \<and> ring_rep b (slot_of orig d t) lg"

lemma ring_rep_bucketStart [simp]: "ring_rep (b\<lparr>b_bucketStart := x\<rparr>) s lg = ring_rep b s lg"
  by (simp add: ring_rep_def)

lemma advance_on_grid:
  assumes g: "on_grid orig d b t lg" and le: "t \<le> now" and rng: "now - orig \<le> int64_max"
    and adv: "advanceLocked b now = Some b'"
  shows "on_grid orig d b' now lg"
proof -
  let ?s = "slot_of orig d t" and ?s' = "slot_of orig d now"
  have d: "0 < d" "b_bucketDur b = d" and st: "b_bucketStart b = orig + ?s * d"
    and rep: "ring_rep b ?s lg" and o: "orig \<le> t"
    using g by (auto simp: on_grid_def)
  have s0: "0 \<le> ?s * d" using d o by (simp add: slot_of_def pos_imp_zdiv_nonneg_iff)
  have start: "?s * d \<le> t - orig"
    using div_mult_mod_eq [of "t - orig" d] pos_mod_sign [OF d(1), of "t - orig"]
    unfolding slot_of_def by linarith
  let ?el = "now - orig - ?s * d"
  have el: "time_sub now (b_bucketStart b) = ?el"
    using st start le rng s0 by (simp add: time_sub_def int64_min_def algebra_simps)
  have steps: "?el div d = ?s' - ?s"
    using d(1) div_mult_self1 [of d "now - orig" "- ?s"] by (simp add: slot_of_def)
  have nn: "0 \<le> ?el" using start le by simp
  have sle: "0 \<le> ?s' - ?s" using steps nn d by (metis pos_imp_zdiv_nonneg_iff)
  show ?thesis
  proof (cases "?el < d")
    case True
    then have "?s' = ?s" using steps nn by (simp add: div_pos_pos_trivial)
    then show ?thesis using g adv True el d le by (auto simp: advanceLocked_def on_grid_def)
  next
    case False
    then have "b' = (shiftWindow (?s' - ?s) b)\<lparr>b_bucketStart := b_bucketStart b + (?s' - ?s) * d\<rparr>"
      using adv el d nn steps by (simp add: advanceLocked_def Let_def)
    moreover have "ring_rep (shiftWindow (?s' - ?s) b) (?s + (?s' - ?s)) lg"
      by (rule ring.rep_shift [OF rep sle])
    ultimately show ?thesis using g st le by (simp add: on_grid_def algebra_simps)
  qed
qed

lemma record_closed:
  assumes "b_state b = StateClosed"
    and "Record b \<lparr>p_generation = b_generation b, p_probe = False, p_valid = True\<rparr>
           (if failed then Failure else Success) t = Some (None, b')"
  shows "\<exists>b1. advanceLocked b t = Some b1 \<and> b' = countOutcome failed b1"
proof -
  obtain b1 where b1: "advanceLocked b t = Some b1"
    using assms(2) by (auto simp: Record_def recordLocked_def split: option.splits if_splits)
  have "b_state b1 = StateClosed" using advance_frame(1) [OF b1] assms(1) by simp
  then have "b' = countOutcome failed b1"
    using assms(2) b1 setState_generation(3) [of "countOutcome failed b1" StateOpen t]
    by (auto simp: Record_def recordLocked_def Let_def split: if_splits)
  then show ?thesis using b1 by simp
qed

lemma record_run_on_grid:
  assumes "on_grid orig d b t lg" and "sorted (t # map fst es)"
    and "last (t # map fst es) - orig \<le> int64_max" and "record_run b es = Some b'"
  shows "on_grid orig d b' (last (t # map fst es)) (rev (slotted orig d es) @ lg)"
  using assms
proof (induction es arbitrary: b t lg)
  case (Cons e es)
  obtain u f where e: "e = (u, f)" by fastforce
  obtain c where c: "Record b \<lparr>p_generation = b_generation b, p_probe = False, p_valid = True\<rparr>
      (if f then Failure else Success) u = Some (None, c)" "record_run c es = Some b'"
    using Cons.prems(4) by (auto simp: e split: option.splits)
  have "b_state b = StateClosed" using Cons.prems(1) by (simp add: on_grid_def)
  from record_closed [OF this c(1)] obtain b1 where
    b1: "advanceLocked b u = Some b1" "c = countOutcome f b1" by blast
  have "u \<le> last (u # map fst es)" using Cons.prems(2) sorted_le_last [of u "map fst es"] by (simp add: e)
  then have "on_grid orig d b1 u lg"
    using advance_on_grid [OF Cons.prems(1) _ _ b1(1)] Cons.prems(2,3) by (simp add: e)
  then have "on_grid orig d c u ((slot_of orig d u, f) # lg)"
    using ring.rep_count [of b1 "slot_of orig d u" lg f] by (simp add: on_grid_def b1(2))
  from Cons.IH [OF this _ _ c(2)] Cons.prems(2,3) show ?case by (simp add: e slotted_def)
qed (simp add: slotted_def)

lemma new_on_grid:
  assumes "0 < b_bucketDur (NewWithClock nm cfg orig)"
  shows "on_grid orig (b_bucketDur (NewWithClock nm cfg orig)) (NewWithClock nm cfg orig) orig []"
  using assms
  by (simp add: on_grid_def slot_of_def NewWithClock_def Let_def ring_rep_def empty_buckets_def
      slot_bucket_def empty_bucket_def)

lemma counts_countOutcome:
  "breaker_wf b \<Longrightarrow> countsLocked (countOutcome f b) =
     (fst (countsLocked b) + 1, snd (countsLocked b) + (if f then 1 else 0))"
  by (simp add: countsLocked_def countOutcome_def Let_def breaker_wf_def map_update sum_list_update_int)

lemma counts_nonneg: "breaker_wf b \<Longrightarrow> 0 \<le> snd (countsLocked b) \<and> snd (countsLocked b) \<le> fst (countsLocked b)"
  by (auto simp: countsLocked_def breaker_wf_def bucket_ok_def intro!: sum_list_nonneg sum_list_mono)

lemma tripped_half:
  assumes "failure_ratio (b_cfg b) = Fin (1 / 2)" and "countsLocked b = (tot, failures)"
    and "0 \<le> failures" "failures \<le> tot" "0 < tot" "tot < 2 ^ 52"
  shows "trippedLocked b \<longleftrightarrow> min_requests (b_cfg b) \<le> tot \<and> tot \<le> 2 * failures"
  using assms f64_div_int_half [of failures tot] by (auto simp: trippedLocked_def f64_div_def)

lemma counts_empty: "b_buckets b = empty_buckets \<Longrightarrow> countsLocked b = (0, 0)"
  by (simp add: countsLocked_def empty_buckets_def empty_bucket_def sum_list_replicate)

text \<open>A small policy and the breakers of a run that opens and then probes, for the witnesses.\<close>

definition ex_cfg :: bconfig where
  "ex_cfg = \<lparr>failure_ratio = Fin (1 / 2), min_requests = 1, window = 100, open_duration = 5\<rparr>"

definition ex_closed :: breaker where "ex_closed = NewWithClock ''rpc'' ex_cfg 1000"

definition ex_permit :: permit where "ex_permit = \<lparr>p_generation = 0, p_probe = False, p_valid = True\<rparr>"

definition ex_open :: breaker where
  "ex_open = (case Record ex_closed ex_permit Failure 1000 of Some (_, b) \<Rightarrow> b | None \<Rightarrow> ex_closed)"

definition ex_half :: breaker where
  "ex_half = (case allowLocked ex_open 1005 of Some (_, _, b) \<Rightarrow> b | None \<Rightarrow> ex_open)"

lemma ex_closed_wf: "breaker_wf ex_closed"
  unfolding ex_closed_def by (rule new_wf) (simp add: ex_cfg_def windowBuckets_def)

lemma ex_open_record: "\<exists>ev. Record ex_closed ex_permit Failure 1000 = Some (Some ev, ex_open)"
proof -
  have "(case Record ex_closed ex_permit Failure 1000 of Some (Some _, _) \<Rightarrow> True | _ \<Rightarrow> False)"
    by code_simp
  then show ?thesis by (auto simp: ex_open_def split: option.splits)
qed

lemma ex_open_facts: "b_state ex_open = StateOpen" "time_sub 1002 (b_openedAt ex_open) < open_duration (b_cfg ex_open)"
  "open_duration (b_cfg ex_open) \<le> time_sub 1005 (b_openedAt ex_open)"
  "b_name ex_open = ''rpc''" "open_duration (b_cfg ex_open) - time_sub 1002 (b_openedAt ex_open) = 3"
  "b_rejected ex_open = 0" "length (b_buckets ex_open) = windowBuckets"
  by code_simp+

lemma ex_open_wf: "breaker_wf ex_open"
  using ex_open_record record_cases [OF ex_closed_wf, of ex_permit Failure 1000]
  by (auto simp: Record_def ex_permit_def ex_closed_def NewWithClock_def Let_def)

lemma ex_half_allow: "\<exists>ev. allowLocked ex_open 1005 =
    Some (Admit \<lparr>p_generation = 2, p_probe = True, p_valid = True\<rparr>, Some ev, ex_half)"
proof -
  have "(case allowLocked ex_open 1005 of
      Some (Admit p, Some _, _) \<Rightarrow> p = \<lparr>p_generation = 2, p_probe = True, p_valid = True\<rparr> | _ \<Rightarrow> False)"
    by code_simp
  moreover obtain r ev b where "allowLocked ex_open 1005 = Some (r, ev, b)"
    using calculation by (cases "allowLocked ex_open 1005") auto
  ultimately show ?thesis by (cases r; cases ev) (auto simp: ex_half_def)
qed

lemma ex_reach:
  "breaker_reachable ex_closed
     \<lparr>sys_breaker = ex_half, sys_permits = [(2, \<lparr>p_generation = 2, p_probe = True, p_valid = True\<rparr>)], sys_epoch = 2\<rparr>"
proof -
  let ?s0 = "\<lparr>sys_breaker = ex_closed, sys_permits = [], sys_epoch = 0\<rparr>"
  let ?s1 = "\<lparr>sys_breaker = ex_closed, sys_permits = [(0, ex_permit)], sys_epoch = 0\<rparr>"
  let ?s2 = "\<lparr>sys_breaker = ex_open, sys_permits = [], sys_epoch = 1\<rparr>"
  have "allowLocked ex_closed 1000 = Some (Admit ex_permit, None, ex_closed)" by code_simp
  then have 1: "bstep ?s0 ?s1"
    using step_admit [of ?s0 1000 ex_permit None ex_closed] by (simp add: epoch_after_def)
  obtain ev where "Record ex_closed ex_permit Failure 1000 = Some (Some ev, ex_open)"
    using ex_open_record by blast
  then have 2: "bstep ?s1 ?s2"
    using step_record [of 0 ex_permit ?s1 Failure 1000 "Some ev" ex_open] by (simp add: epoch_after_def)
  obtain ev' where "allowLocked ex_open 1005 =
      Some (Admit \<lparr>p_generation = 2, p_probe = True, p_valid = True\<rparr>, Some ev', ex_half)"
    using ex_half_allow by blast
  then have 3: "bstep ?s2 \<lparr>sys_breaker = ex_half,
      sys_permits = [(2, \<lparr>p_generation = 2, p_probe = True, p_valid = True\<rparr>)], sys_epoch = 2\<rparr>"
    using step_admit [of ?s2 1005 "\<lparr>p_generation = 2, p_probe = True, p_valid = True\<rparr>" "Some ev'" ex_half]
    by (simp add: epoch_after_def numeral_2_eq_2)
  show ?thesis by (rule reach_step [OF reach_step [OF reach_step [OF reach_start 1] 2] 3])
qed

section \<open>Properties\<close>

text \<open>
  C27: in every reachable state of a breaker shared by any number of callers, the half-open probe
  slot is held exactly when one outstanding permit of the current generation is a probe: never
  two probes are in flight, a held slot always has an owner that can release it, and the slot is
  held only in the half-open state. The hypothesis on the epoch excludes the wrap-around of the
  64-bit generation counter.
\<close>

theorem breaker_single_probe:
  assumes "breaker_reachable (NewWithClock nm cfg t0) s"
    and "window cfg \<le> 0 \<or> 10 \<le> window cfg" and "sys_epoch s < 2 ^ 64"
  shows "length (filter (\<lambda>(k, p). p_probe p \<and> p_generation p = b_generation (sys_breaker s)) (sys_permits s)) =
           (if b_probeInFlight (sys_breaker s) then 1 else 0)
       \<and> (b_probeInFlight (sys_breaker s) \<longrightarrow> b_state (sys_breaker s) = StateHalfOpen)"
proof -
  have "breaker_wf (NewWithClock nm cfg t0)"
    using assms(2) by (intro new_wf) (auto simp: windowBuckets_def)
  then have inv: "sys_inv s"
    using reachable_sys_inv [OF assms(1) _ _ _ assms(3)] by (simp add: NewWithClock_def Let_def)
  have "filter (\<lambda>(k, p). p_probe p \<and> p_generation p = b_generation (sys_breaker s)) (sys_permits s) =
        filter (current_probe (sys_epoch s)) (sys_permits s)"
  proof (rule filter_cong [OF refl])
    fix kp assume m: "kp \<in> set (sys_permits s)"
    obtain k p where kp: "kp = (k, p)" by fastforce
    have "p_generation p = of_nat k" "k \<le> sys_epoch s"
      "b_generation (sys_breaker s) = of_nat (sys_epoch s)"
      using inv m kp by (auto simp: sys_inv_def)
    then have "p_generation p = b_generation (sys_breaker s) \<longleftrightarrow> k = sys_epoch s"
      using word64_of_nat_eq [of k "sys_epoch s"] assms(3) by simp
    then show "(case kp of (k, p) \<Rightarrow> p_probe p \<and> p_generation p = b_generation (sys_breaker s)) =
        current_probe (sys_epoch s) kp"
      by (auto simp: kp current_probe_def)
  qed
  then show ?thesis using inv by (simp add: sys_inv_def breaker_wf_def)
qed

theorem breaker_single_probe_witness:
  "\<exists>s. breaker_reachable (NewWithClock ''rpc'' ex_cfg 1000) s \<and> b_probeInFlight (sys_breaker s) \<and>
     length (filter (\<lambda>(k, p). p_probe p \<and> p_generation p = b_generation (sys_breaker s)) (sys_permits s)) = 1"
proof -
  let ?s = "\<lparr>sys_breaker = ex_half, sys_permits = [(2, \<lparr>p_generation = 2, p_probe = True, p_valid = True\<rparr>)],
             sys_epoch = 2\<rparr>"
  have r: "breaker_reachable (NewWithClock ''rpc'' ex_cfg 1000) ?s" using ex_reach by (simp add: ex_closed_def)
  have "b_probeInFlight ex_half" by code_simp
  then show ?thesis using breaker_single_probe [OF r] r
    by (intro exI [of _ ?s]) (auto simp: ex_cfg_def)
qed

text \<open>
  C37: the ring of ten buckets is an exact rolling window. After any sequence of outcomes reported
  in clock order to a new breaker that did not trip, the counts read at a later time \<open>now\<close> are the
  numbers of calls and failures among the outcomes whose bucket is one of the ten most recent.
\<close>

theorem breaker_window_exact:
  assumes "record_run (NewWithClock nm cfg t0) es = Some b"
    and "sorted (t0 # map fst es @ [now])" and "now - t0 \<le> int64_max"
    and "d = b_bucketDur (NewWithClock nm cfg t0)" and "0 < d"
    and "Snapshot b now = Some (snap, b')"
  shows "s_total snap = int (length (filter (\<lambda>(t, f). slot_of t0 d now - 10 < slot_of t0 d t) es))
       \<and> s_failures snap = int (length (filter (\<lambda>(t, f). slot_of t0 d now - 10 < slot_of t0 d t \<and> f) es))"
proof -
  have le: "last (t0 # map fst es) \<le> now" and so: "sorted (t0 # map fst es)"
    using assms(2) sorted_snoc_last [of t0 "map fst es" now] by (auto simp: sorted_append)
  have "on_grid t0 d (NewWithClock nm cfg t0) t0 []"
    using new_on_grid [of nm cfg t0] assms(4,5) by simp
  from record_run_on_grid [OF this so _ assms(1)] le assms(3)
  have g: "on_grid t0 d b (last (t0 # map fst es)) (rev (slotted t0 d es))" by simp
  have adv: "advanceLocked b now = Some b'" and snap: "snap = snapshotLocked b' now"
    using assms(6) by (auto simp: Snapshot_def split: option.splits)
  have "on_grid t0 d b' now (rev (slotted t0 d es))"
    by (rule advance_on_grid [OF g le assms(3) adv])
  then have "countsLocked b' = log_counts (slot_of t0 d now) (rev (slotted t0 d es))"
    using ring.rep_counts by (simp add: on_grid_def)
  moreover have "s_total snap = fst (countsLocked b')" "s_failures snap = snd (countsLocked b')"
    by (auto simp: snap snapshotLocked_def Let_def split: prod.splits)
  ultimately show ?thesis
    by (auto simp: log_counts_def slotted_def filter_map rev_map [symmetric] rev_filter [symmetric]
        comp_def case_prod_unfold windowBuckets_def)
qed

theorem breaker_window_exact_witness:
  "\<exists>b snap b'. record_run (NewWithClock ''rpc'' (ex_cfg\<lparr>min_requests := 10\<rparr>) 1000)
       [(1000, True), (1050, False), (1095, True)] = Some b
     \<and> Snapshot b 1120 = Some (snap, b') \<and> s_total snap = 2 \<and> s_failures snap = 1"
proof -
  let ?b0 = "NewWithClock ''rpc'' (ex_cfg\<lparr>min_requests := 10\<rparr>) 1000"
  let ?es = "[(1000, True), (1050, False), (1095, True)] :: (time \<times> bool) list"
  have "(case record_run ?b0 ?es of Some b \<Rightarrow> Snapshot b 1120 \<noteq> None | None \<Rightarrow> False)" by code_simp
  then obtain b snap b' where b: "record_run ?b0 ?es = Some b" "Snapshot b 1120 = Some (snap, b')"
    by (auto split: option.splits)
  have d: "b_bucketDur ?b0 = 10" by code_simp
  show ?thesis
    using breaker_window_exact [OF b(1) _ _ _ _ b(2), of 10] b d
    by (auto simp: slot_of_def int64_max_def)
qed

text \<open>
  while the open period lasts the breaker sheds load locally. A request routed to an open
  breaker is answered without calling the wrapped transport, with the error that names the
  upstream and carries exactly the time left; the breaker stays open in the same generation and
  counts the rejection.
\<close>

theorem breaker_open_sheds:
  assumes "For entries host path = Some i" and "i < length bs" and "breaker_wf (bs ! i)"
    and "b_state (bs ! i) = StateOpen"
    and "time_sub t1 (b_openedAt (bs ! i)) < open_duration (b_cfg (bs ! i))"
  shows "\<exists>b'. RoundTrip entries bs host path cc next t1 t2 =
      Some (False, (None, Some (ErrOpen \<lparr>oe_name = b_name (bs ! i),
        oe_retryIn = open_duration (b_cfg (bs ! i)) - time_sub t1 (b_openedAt (bs ! i))\<rparr>)), bs[i := b'])
    \<and> b_state b' = StateOpen \<and> b_generation b' = b_generation (bs ! i)
    \<and> b_openedAt b' = b_openedAt (bs ! i) \<and> b_rejected b' = b_rejected (bs ! i) + 1"
proof -
  obtain b1 where b1: "advanceLocked (bs ! i) t1 = Some b1"
    using breaker_wf_advance_ex [OF assms(3)] by blast
  let ?b' = "b1\<lparr>b_rejected := b_rejected b1 + 1\<rparr>"
  note fr = advance_frame [OF b1]
  have "allowLocked (bs ! i) t1 = Some (Rejected (openErrorLocked ?b' t1), None, ?b')"
    using assms(4,5) fr by (simp add: allowLocked_def b1 Let_def)
  moreover have "openErrorLocked ?b' t1 = \<lparr>oe_name = b_name (bs ! i),
      oe_retryIn = open_duration (b_cfg (bs ! i)) - time_sub t1 (b_openedAt (bs ! i))\<rparr>"
    using assms(5) fr by (simp add: openErrorLocked_def)
  ultimately show ?thesis
    using assms(1,4) fr by (intro exI [of _ ?b']) (simp add: RoundTrip_def)
qed

theorem breaker_open_sheds_witness:
  "\<exists>b'. RoundTrip [\<lparr>re_host = ''h'', re_prefix = [], re_breaker = 0\<rparr>] [ex_open] ''H'' ''/x'' False (Some 200, None) 1002 1003 =
      Some (False, (None, Some (ErrOpen \<lparr>oe_name = ''rpc'', oe_retryIn = 3\<rparr>)), [b']) \<and> b_rejected b' = 1"
proof -
  have f: "For [\<lparr>re_host = ''h'', re_prefix = [], re_breaker = 0\<rparr>] ''H'' ''/x'' = Some 0" by code_simp
  show ?thesis
    using breaker_open_sheds [OF f, of "[ex_open]" 1002 False "(Some 200, None)" 1003]
      ex_open_wf ex_open_facts by auto
qed

text \<open>
  recovery. Once the open period has elapsed the next caller is admitted as the probe and every
  other caller is still rejected; the probe's success closes the breaker with an empty window,
  its failure re-opens it for a full period, and a cancelled probe frees the slot again.
\<close>

theorem breaker_recovers:
  assumes "breaker_wf b" and "b_state b = StateOpen"
    and "open_duration (b_cfg b) \<le> time_sub now (b_openedAt b)"
  shows "\<exists>p ev b'. allowLocked b now = Some (Admit p, Some ev, b') \<and> p_probe p
    \<and> b_state b' = StateHalfOpen
    \<and> (\<forall>t. \<exists>e c. allowLocked b' t = Some (Rejected e, None, c))
    \<and> (\<forall>t. \<exists>ev c. Record b' p Success t = Some (Some ev, c) \<and> b_state c = StateClosed \<and> countsLocked c = (0, 0))
    \<and> (\<forall>t. \<exists>ev c. Record b' p Failure t = Some (Some ev, c) \<and> b_state c = StateOpen \<and> b_openedAt c = t)
    \<and> (\<forall>t. Record b' p Ignored t = Some (None, b'\<lparr>b_probeInFlight := False\<rparr>))"
proof -
  obtain b1 where b1: "advanceLocked b now = Some b1" "breaker_wf b1"
    using breaker_wf_advance_ex [OF assms(1)] by blast
  note fr = advance_frame [OF b1(1)]
  define b' where "b' = b1\<lparr>b_state := StateHalfOpen, b_generation := b_generation b1 + 1, b_probeInFlight := True\<rparr>"
  define p where "p = \<lparr>p_generation = b_generation b', p_probe = True, p_valid = True\<rparr>"
  have al: "\<exists>ev. allowLocked b now = Some (Admit p, Some ev, b')"
    using assms(2,3) fr by (simp add: allowLocked_def b1 setStateLocked_def Let_def b'_def p_def)
  have wf': "breaker_wf b'" and ho: "b_state b' = StateHalfOpen" "b_probeInFlight b'"
    using b1(2) by (auto simp: b'_def breaker_wf_def)
  have rej: "\<exists>e c. allowLocked b' t = Some (Rejected e, None, c)" for t
  proof -
    obtain c where c: "advanceLocked b' t = Some c" using breaker_wf_advance_ex [OF wf'] by blast
    show ?thesis using advance_frame [OF c] ho by (simp add: allowLocked_def c Let_def)
  qed
  have probe: "\<exists>c. advanceLocked (b'\<lparr>b_probeInFlight := False\<rparr>) t = Some c \<and> b_state c = StateHalfOpen" for t
    using breaker_wf_advance_ex [of "b'\<lparr>b_probeInFlight := False\<rparr>" t] advance_frame(1) wf' ho
    by (fastforce simp: breaker_wf_def)
  have succ: "\<exists>ev c. Record b' p Success t = Some (Some ev, c) \<and> b_state c = StateClosed \<and> countsLocked c = (0, 0)" for t
    using probe [of t] by (auto simp: Record_def recordLocked_def p_def setStateLocked_def Let_def counts_empty)
  have fail: "\<exists>ev c. Record b' p Failure t = Some (Some ev, c) \<and> b_state c = StateOpen \<and> b_openedAt c = t" for t
    using probe [of t] by (auto simp: Record_def recordLocked_def p_def setStateLocked_def Let_def)
  have ign: "Record b' p Ignored t = Some (None, b'\<lparr>b_probeInFlight := False\<rparr>)" for t
    by (simp add: Record_def recordLocked_def p_def)
  show ?thesis using al rej succ fail ign ho by (auto simp: p_def)
qed

theorem breaker_recovers_witness:
  "\<exists>p ev b'. allowLocked ex_open 1005 = Some (Admit p, Some ev, b') \<and> p_probe p \<and> b_state b' = StateHalfOpen"
  using breaker_recovers [OF ex_open_wf ex_open_facts(1,3)] by blast

text \<open>
  with the default failure ratio 0.5 a closed breaker opens on an outcome exactly when, counting
  that outcome, the window holds at least the minimum number of calls and at least half of them
  failed; the float64 quotient of the code never misjudges counters below \<open>2 ^ 52\<close>.
\<close>

theorem breaker_trips_exactly:
  assumes "breaker_wf b" and "b_state b = StateClosed" and "failure_ratio (b_cfg b) = Fin (1 / 2)"
    and "p_valid p" "p_generation p = b_generation b" and "out \<noteq> Ignored"
    and "Snapshot b now = Some (snap, b1)" and "s_total snap < 2 ^ 52 - 1"
    and "Record b p out now = Some (ev, b')"
  shows "b_state b' = StateOpen \<longleftrightarrow>
      min_requests (b_cfg b) \<le> s_total snap + 1 \<and>
      s_total snap + 1 \<le> 2 * (s_failures snap + (if out = Failure then 1 else 0))"
proof -
  have adv: "advanceLocked b now = Some b1" and snap: "snap = snapshotLocked b1 now"
    using assms(7) by (auto simp: Snapshot_def split: option.splits)
  have np: "\<not> b_probeInFlight b" using assms(1,2) by (auto simp: breaker_wf_def)
  then have same: "(if p_probe p then b\<lparr>b_probeInFlight := False\<rparr> else b) = b"
    by (cases b) auto
  have wf1: "breaker_wf b1" by (rule advance_wf [OF assms(1) adv])
  note fr = advance_frame [OF adv]
  obtain tot failures where tf: "countsLocked b1 = (tot, failures)" by fastforce
  have cnt: "s_total snap = tot" "s_failures snap = failures"
    by (auto simp: snap snapshotLocked_def tf Let_def)
  have nn: "0 \<le> failures" "failures \<le> tot" using counts_nonneg [OF wf1] tf by auto
  let ?c = "countOutcome (out = Failure) b1"
  have "trippedLocked ?c \<longleftrightarrow> min_requests (b_cfg ?c) \<le> tot + 1 \<and>
      tot + 1 \<le> 2 * (failures + (if out = Failure then 1 else 0))"
    using counts_countOutcome [OF wf1, of "out = Failure"] tf nn assms(3,8) fr cnt
    by (intro tripped_half) auto
  moreover have "b_state b' = StateOpen \<longleftrightarrow> trippedLocked ?c"
    using assms(2,4-6,9) fr adv
    by (auto simp: Record_def recordLocked_def same Let_def setStateLocked_def split: if_splits)
  ultimately show ?thesis using fr cnt by simp
qed

theorem breaker_trips_exactly_witness:
  "\<exists>ev b'. Record ex_closed ex_permit Failure 1000 = Some (ev, b') \<and> b_state b' = StateOpen"
proof -
  obtain ev where ev: "Record ex_closed ex_permit Failure 1000 = Some (Some ev, ex_open)"
    using ex_open_record by blast
  have "(case Snapshot ex_closed 1000 of Some (sn, _) \<Rightarrow> s_total sn = 0 \<and> s_failures sn = 0 | None \<Rightarrow> False)"
    by code_simp
  then obtain sn b1 where sn: "Snapshot ex_closed 1000 = Some (sn, b1)" "s_total sn = 0" "s_failures sn = 0"
    by (auto split: option.splits)
  have c: "b_state ex_closed = StateClosed" "failure_ratio (b_cfg ex_closed) = Fin (1 / 2)"
    "p_valid ex_permit" "p_generation ex_permit = b_generation ex_closed" "min_requests (b_cfg ex_closed) = 1"
    by code_simp+
  have "b_state ex_open = StateOpen"
    using breaker_trips_exactly [OF ex_closed_wf c(1-4) _ sn(1) _ ev] sn(2,3) c(5) by simp
  then show ?thesis using ev by blast
qed

text \<open>
  the policies that pass validation and still panic. A validated policy leads to a division by
  zero in some call of \<^verbatim>\<open>Allow\<close> exactly when its window is shorter than ten nanoseconds, because the
  bucket length is then rounded down to zero.
\<close>

theorem breaker_panics_iff_tiny_window:
  assumes "Validate cfg = None"
  shows "(\<exists>t. allowLocked (NewWithClock nm cfg t0) t = None) \<longleftrightarrow> window cfg < 10"
proof -
  have w: "0 < window cfg" using assms by (auto simp: Validate_def split: if_splits)
  let ?b = "NewWithClock nm cfg t0"
  show ?thesis
  proof
    assume "window cfg < 10"
    then have "b_bucketDur ?b = 0"
      using w by (simp add: NewWithClock_def Let_def withDefaults_def windowBuckets_def)
    then have "advanceLocked ?b t0 = None"
      by (simp add: advanceLocked_def NewWithClock_def Let_def)
    then show "\<exists>t. allowLocked ?b t = None" by (intro exI [of _ t0]) (simp add: allowLocked_def)
  next
    assume "\<exists>t. allowLocked ?b t = None"
    then obtain t where t: "allowLocked ?b t = None" by blast
    show "window cfg < 10"
    proof (rule ccontr)
      assume "\<not> window cfg < 10"
      then have "breaker_wf ?b" by (intro new_wf) (simp add: windowBuckets_def)
      then obtain b1 where "advanceLocked ?b t = Some b1" using breaker_wf_advance_ex by blast
      with t show False
        by (auto simp: allowLocked_def Let_def split: bstate.splits if_splits prod.splits)
    qed
  qed
qed

theorem breaker_panics_iff_tiny_window_witness:
  "Validate (ex_cfg\<lparr>window := 9\<rparr>) = None \<and> (\<exists>t. allowLocked (NewWithClock ''rpc'' (ex_cfg\<lparr>window := 9\<rparr>) 0) t = None)"
proof -
  have v: "Validate (ex_cfg\<lparr>window := 9\<rparr>) = None" by code_simp
  show ?thesis using breaker_panics_iff_tiny_window [OF v, of "''rpc''" 0] v by (simp add: ex_cfg_def)
qed

end
