(* ===== verification/Retry.thy ===== *)
theory Retry
  imports Float64
begin

text \<open>
  Package \<^verbatim>\<open>internal/retry\<close>: the bounded, jittered retry loop around every Soroban RPC
  read. The world the loop runs in is a record: the wall clock, the number of random draws
  made so far and the state of the caller. Contexts are their deadline and the time their
  parent is cancelled; the random source and the choice of \<^verbatim>\<open>select\<close> between two ready
  channels are parameters. Waiting takes exactly the time asked for.
\<close>

section \<open>Policy\<close>

record policy =
  MaxAttempts :: int
  BaseDelay :: duration
  MaxDelay :: duration
  Budget :: duration

definition DefaultMaxAttempts :: int where "DefaultMaxAttempts = 3"
definition DefaultBaseDelay :: duration where "DefaultBaseDelay = 100 * millisecond"
definition DefaultMaxDelay :: duration where "DefaultMaxDelay = 2 * second"
definition DefaultBudget :: duration where "DefaultBudget = 12 * second"

lemmas retry_defaults = DefaultMaxAttempts_def DefaultBaseDelay_def DefaultMaxDelay_def DefaultBudget_def

definition withDefaults :: "policy \<Rightarrow> policy" where
  "withDefaults p =
     \<lparr> MaxAttempts = (if MaxAttempts p \<le> 0 then DefaultMaxAttempts else MaxAttempts p),
       BaseDelay = (if BaseDelay p \<le> 0 then DefaultBaseDelay else BaseDelay p),
       MaxDelay = (if MaxDelay p \<le> 0 then DefaultMaxDelay else MaxDelay p),
       Budget = (if Budget p \<le> 0 then DefaultBudget else Budget p) \<rparr>"

datatype policy_error = BadMaxAttempts | BadBaseDelay | BadMaxDelay | BadBudget

definition Validate :: "policy \<Rightarrow> policy_error option" where
  "Validate p =
     (if MaxAttempts p < 1 then Some BadMaxAttempts
      else if BaseDelay p \<le> 0 then Some BadBaseDelay
      else if MaxDelay p < BaseDelay p then Some BadMaxDelay
      else if Budget p \<le> 0 then Some BadBudget
      else None)"

section \<open>The world of a retry loop\<close>

text \<open>
  Errors: the two context errors, the \<^verbatim>\<open>*retry.Error\<close> (attempts, elapsed time and the wrapped
  error) and everything else. \<open>'e\<close> is the caller's own error type.
\<close>

datatype 'e go_error = Canceled | DeadlineExceeded | Other 'e
  | Error int duration "'e go_error option"

record ctx =
  deadline :: "time option"
  cancelAt :: "time option"

record 'u world =
  clock :: time
  draws :: nat
  ustate :: 'u

record chance =
  Int64N :: "nat \<Rightarrow> int \<Rightarrow> int"
  pickTimer :: "nat \<Rightarrow> bool"

definition ctx_done :: "ctx \<Rightarrow> time option" where
  "ctx_done c = (case (deadline c, cancelAt c) of
      (None, None) \<Rightarrow> None | (Some d, None) \<Rightarrow> Some d | (None, Some a) \<Rightarrow> Some a
    | (Some d, Some a) \<Rightarrow> Some (min d a))"

definition ctx_err :: "ctx \<Rightarrow> time \<Rightarrow> 'e go_error option" where
  "ctx_err c t = (case ctx_done c of
      None \<Rightarrow> None
    | Some e \<Rightarrow> if t < e then None
                else if cancelAt c = Some e then Some Canceled else Some DeadlineExceeded)"

definition WithTimeout :: "ctx \<Rightarrow> duration \<Rightarrow> time \<Rightarrow> ctx" where
  "WithTimeout c d t = c \<lparr> deadline := Some (case deadline c of None \<Rightarrow> t + d | Some e \<Rightarrow> min e (t + d)) \<rparr>"

definition sleepCtx :: "chance \<Rightarrow> ctx \<Rightarrow> duration \<Rightarrow> 'u world \<Rightarrow> 'e go_error option \<times> 'u world" where
  "sleepCtx ch c d w =
     (if d \<le> 0 then (ctx_err c (clock w), w)
      else let fire = clock w + d in
        case ctx_done c of
          None \<Rightarrow> (None, w \<lparr> clock := fire \<rparr>)
        | Some e \<Rightarrow>
            if fire < e \<or> fire = e \<and> pickTimer ch (draws w)
            then (None, w \<lparr> clock := fire, draws := draws w + (if fire = e then 1 else 0) \<rparr>)
            else (ctx_err c (max e (clock w)),
                  w \<lparr> clock := max e (clock w), draws := draws w + (if fire = e then 1 else 0) \<rparr>))"

definition fullJitter :: "chance \<Rightarrow> duration \<Rightarrow> 'u world \<Rightarrow> duration \<times> 'u world" where
  "fullJitter ch cap w =
     (if cap \<le> 0 then (0, w) else (Int64N ch (draws w) cap, w \<lparr> draws := draws w + 1 \<rparr>))"

section \<open>The runner\<close>

record ('u, 'e) runner =
  now :: "'u world \<Rightarrow> time"
  sleep :: "ctx \<Rightarrow> duration \<Rightarrow> 'u world \<Rightarrow> 'e go_error option \<times> 'u world"
  jitter :: "duration \<Rightarrow> 'u world \<Rightarrow> duration \<times> 'u world"

definition New :: "chance \<Rightarrow> ('u, 'e) runner" where
  "New ch = \<lparr> now = clock, sleep = sleepCtx ch, jitter = fullJitter ch \<rparr>"

definition NewWithClock :: "chance \<Rightarrow> ('u world \<Rightarrow> time) option \<Rightarrow>
    (ctx \<Rightarrow> duration \<Rightarrow> 'u world \<Rightarrow> 'e go_error option \<times> 'u world) option \<Rightarrow>
    (duration \<Rightarrow> 'u world \<Rightarrow> duration \<times> 'u world) option \<Rightarrow> ('u, 'e) runner" where
  "NewWithClock ch n s j =
     \<lparr> now = (case n of None \<Rightarrow> clock | Some f \<Rightarrow> f),
       sleep = (case s of None \<Rightarrow> sleepCtx ch | Some f \<Rightarrow> f),
       jitter = (case j of None \<Rightarrow> Pair | Some f \<Rightarrow> f) \<rparr>"

definition backoffCap :: "policy \<Rightarrow> int \<Rightarrow> duration" where
  "backoffCap p attempt0 =
     (let attempt = (if attempt0 < 1 then 1 else attempt0);
          shift = attempt - 1
      in if 62 < shift then MaxDelay p
         else let scaled = f64_round (f64_round (of_int (BaseDelay p)) * 2 ^ nat shift)
              in if f64_round (of_int (MaxDelay p)) \<le> scaled then MaxDelay p
                 else f64_trunc scaled)"

record result =
  Attempts :: int
  Elapsed :: duration

definition since :: "('u, 'e) runner \<Rightarrow> time \<Rightarrow> 'u world \<Rightarrow> duration" where
  "since r startedAt w = (let elapsed = time_sub (now r w) startedAt in if elapsed < 0 then 0 else elapsed)"

definition exhausted :: "('u, 'e) runner \<Rightarrow> int \<Rightarrow> time \<Rightarrow> 'e go_error option \<Rightarrow> 'e go_error option \<Rightarrow>
    'u world \<Rightarrow> result \<times> 'e go_error option" where
  "exhausted r attempts startedAt lastErr ctxErr w =
     (let lastErr = (case lastErr of None \<Rightarrow> ctxErr | Some e \<Rightarrow> Some e);
          res = \<lparr> Attempts = attempts, Elapsed = since r startedAt w \<rparr>
      in (res, Some (Error attempts (Elapsed res) lastErr)))"

function retryLoop :: "('u, 'e) runner \<Rightarrow> ctx \<Rightarrow> policy \<Rightarrow> ('e go_error \<Rightarrow> bool) option \<Rightarrow>
    (ctx \<Rightarrow> 'u world \<Rightarrow> 'e go_error option \<times> 'u world) \<Rightarrow> time \<Rightarrow> int \<Rightarrow> 'e go_error option \<Rightarrow> 'u world \<Rightarrow>
    (result \<times> 'e go_error option) \<times> 'u world" where
  "retryLoop r c p retryable fn startedAt attempt lastErr w =
     (if MaxAttempts p < attempt then (exhausted r (MaxAttempts p) startedAt lastErr None w, w)
      else case ctx_err c (clock w) of
        Some e \<Rightarrow> (exhausted r (attempt - 1) startedAt lastErr (Some e) w, w)
      | None \<Rightarrow>
        (case fn c w of
           (None, w1) \<Rightarrow> ((\<lparr> Attempts = attempt, Elapsed = since r startedAt w1 \<rparr>, None), w1)
         | (Some e, w1) \<Rightarrow>
             if (case retryable of None \<Rightarrow> True | Some f \<Rightarrow> \<not> f e)
             then ((\<lparr> Attempts = attempt, Elapsed = since r startedAt w1 \<rparr>, Some e), w1)
             else if attempt = MaxAttempts p
             then (exhausted r (MaxAttempts p) startedAt (Some e) None w1, w1)
             else case jitter r (backoffCap p attempt) w1 of (delay, w2) \<Rightarrow>
               (case sleep r c delay w2 of
                  (Some se, w3) \<Rightarrow> (exhausted r attempt startedAt (Some e) (Some se) w3, w3)
                | (None, w3) \<Rightarrow> retryLoop r c p retryable fn startedAt (attempt + 1) (Some e) w3)))"
  by pat_completeness auto
termination
  by (relation "measure (\<lambda>(r, c, p, retryable, fn, startedAt, attempt, lastErr, w).
        nat (MaxAttempts p + 1 - attempt))") auto

declare retryLoop.simps [simp del]

definition Do :: "('u, 'e) runner \<Rightarrow> ctx \<Rightarrow> policy \<Rightarrow> ('e go_error \<Rightarrow> bool) option \<Rightarrow>
    (ctx \<Rightarrow> 'u world \<Rightarrow> 'e go_error option \<times> 'u world) \<Rightarrow> 'u world \<Rightarrow>
    (result \<times> 'e go_error option) \<times> 'u world" where
  "Do r c policy retryable fn w =
     (let p = withDefaults policy;
          c1 = WithTimeout c (Budget p) (clock w)
      in retryLoop r c1 p retryable fn (now r w) 1 None w)"

text \<open>\<^verbatim>\<open>errors.Is(err, ErrExhausted)\<close>: \<^verbatim>\<open>Error.Unwrap\<close> yields the sentinel and the wrapped error.\<close>

fun is_exhausted :: "'e go_error option \<Rightarrow> bool" where
  "is_exhausted (Some (Error _ _ _)) = True"
| "is_exhausted _ = False"


section \<open>Backoff\<close>

lemma withDefaults_pos:
  "0 < MaxAttempts (withDefaults p)" "0 < BaseDelay (withDefaults p)"
  "0 < MaxDelay (withDefaults p)" "0 < Budget (withDefaults p)"
  by (simp_all add: withDefaults_def retry_defaults duration_defs)

lemma backoffCap_in_range:
  assumes "0 < BaseDelay p" "BaseDelay p < 2 ^ 53" "0 < MaxDelay p" "MaxDelay p < 2 ^ 53" "1 \<le> attempt"
  shows "backoffCap p attempt = min (MaxDelay p) (BaseDelay p * 2 ^ nat (attempt - 1))"
proof (cases "62 < attempt - 1")
  case True
  have "(2::int) ^ 53 \<le> 2 ^ nat (attempt - 1)"
    using True by (intro power_increasing) auto
  also have "\<dots> \<le> BaseDelay p * 2 ^ nat (attempt - 1)"
    using assms(1) by simp
  finally have "MaxDelay p \<le> BaseDelay p * 2 ^ nat (attempt - 1)"
    using assms(4) by simp
  with True show ?thesis by (simp add: backoffCap_def)
next
  case False
  let ?s = "of_int (BaseDelay p) * 2 ^ nat (attempt - 1) :: rat"
  have exact: "f64_round ?s = ?s"
    by (rule f64_round_exact [where m = "BaseDelay p" and j = "attempt - 1"])
      (use assms in \<open>auto simp: power_int_def\<close>)
  have int: "?s = of_int (BaseDelay p * 2 ^ nat (attempt - 1))" by simp
  have "\<not> ?s < 0" using assms(1) by (simp add: not_less)
  then have "f64_trunc ?s = BaseDelay p * 2 ^ nat (attempt - 1)"
    unfolding f64_trunc_def by (simp only: int floor_of_int if_False)
  then show ?thesis
    using False assms exact
    by (simp add: backoffCap_def Let_def f64_round_int min_def)
      (metis int of_int_le_iff)
qed

text \<open>
  The upper bound on the delay before a retry is the base delay doubled once per elapsed
  attempt and clamped to the maximum delay, exactly, for every pair of delays below 2^53
  nanoseconds (104 days). In particular the float64 computation neither rounds nor overflows,
  and the bound never exceeds the maximum delay and never decreases from one attempt to the next.
\<close>

theorem backoffCap_exact:
  assumes "0 < BaseDelay p" "BaseDelay p < 2 ^ 53" "0 < MaxDelay p" "MaxDelay p < 2 ^ 53" "1 \<le> attempt"
  shows "backoffCap p attempt = min (MaxDelay p) (BaseDelay p * 2 ^ nat (attempt - 1))
       \<and> backoffCap p attempt \<le> backoffCap p (attempt + 1)"
proof -
  have "(2::int) ^ nat (attempt - 1) \<le> 2 ^ nat attempt"
    by (intro power_increasing) auto
  then show ?thesis
    using assms backoffCap_in_range [OF assms] backoffCap_in_range [of p "attempt + 1"]
    by (simp add: min.coboundedI2 mult_left_mono)
qed

theorem backoffCap_exact_witness:
  "backoffCap (withDefaults \<lparr> MaxAttempts = 0, BaseDelay = 0, MaxDelay = 0, Budget = 0 \<rparr>) 5 = 1600 * millisecond"
  using backoffCap_exact [of "withDefaults \<lparr> MaxAttempts = 0, BaseDelay = 0, MaxDelay = 0, Budget = 0 \<rparr>" 5]
  by (simp add: withDefaults_def retry_defaults duration_defs)

section \<open>The calls a loop makes\<close>

definition wants :: "('e go_error \<Rightarrow> bool) option \<Rightarrow> 'e go_error \<Rightarrow> bool" where
  "wants retryable e = (case retryable of None \<Rightarrow> False | Some f \<Rightarrow> f e)"

lemma sleepCtx_ustate [simp]: "ustate (snd (sleepCtx ch c d w)) = ustate w"
  by (auto simp: sleepCtx_def Let_def split: option.splits)

lemma fullJitter_ustate [simp]: "ustate (snd (fullJitter ch d w)) = ustate w"
  by (simp add: fullJitter_def)

lemma fullJitter_clock [simp]: "clock (snd (fullJitter ch d w)) = clock w"
  by (simp add: fullJitter_def)

lemma ctx_err_None_iff: "ctx_err c t = None \<longleftrightarrow> (\<forall>e. ctx_done c = Some e \<longrightarrow> t < e)"
  by (auto simp: ctx_err_def split: option.splits)

lemma sleepCtx_err: "fst (sleepCtx ch c d w) = Some e \<Longrightarrow> ctx_err c (clock (snd (sleepCtx ch c d w))) = Some e"
  by (auto simp: sleepCtx_def Let_def split: option.splits if_splits)

definition loop_post :: "ctx \<Rightarrow> policy \<Rightarrow> ('e go_error \<Rightarrow> bool) option \<Rightarrow> 'e go_error option list \<Rightarrow>
    result \<Rightarrow> 'e go_error option \<Rightarrow> time \<Rightarrow> bool" where
  "loop_post c p retryable xs res err t \<longleftrightarrow>
     int (length xs) = Attempts res \<and> Attempts res \<le> MaxAttempts p \<and>
     (\<forall>x \<in> set (butlast xs). \<exists>e. x = Some e \<and> wants retryable e) \<and>
     (case err of
        None \<Rightarrow> xs \<noteq> [] \<and> last xs = None
      | Some e \<Rightarrow> xs \<noteq> [] \<and> last xs = Some e \<and> \<not> wants retryable e
          \<or> e = Error (Attempts res) (Elapsed res) (if xs = [] then ctx_err c t else last xs)
            \<and> (\<forall>x \<in> set xs. \<exists>e. x = Some e \<and> wants retryable e)
            \<and> (int (length xs) = MaxAttempts p \<or> ctx_err c t \<noteq> (None :: 'e go_error option)))"

text \<open>The three ways an iteration of the loop can go.\<close>

lemma retryLoop_expired:
  "attempt \<le> MaxAttempts p \<Longrightarrow> ctx_err c (clock w) = Some e \<Longrightarrow>
   retryLoop r c p retryable fn t0 attempt lastErr w =
     (exhausted r (attempt - 1) t0 lastErr (Some e) w, w)"
  by (subst retryLoop.simps) simp

lemma retryLoop_final:
  assumes "attempt \<le> MaxAttempts p" "ctx_err c (clock w) = (None :: 'e go_error option)"
    and "fn c w = (r1, w1)" "\<not> (\<exists>e. r1 = Some e \<and> wants retryable e \<and> attempt \<noteq> MaxAttempts p)"
  shows "retryLoop r c p retryable fn t0 attempt lastErr w =
     (if \<exists>e. r1 = Some (e :: 'e go_error) \<and> wants retryable e then exhausted r attempt t0 r1 None w1
      else (\<lparr> Attempts = attempt, Elapsed = since r t0 w1 \<rparr>, r1), w1)"
  using assms by (subst retryLoop.simps) (auto simp: wants_def split: option.splits)

lemma retryLoop_again:
  assumes "attempt < MaxAttempts p" "ctx_err c (clock w) = (None :: 'e go_error option)"
    and "fn c w = (Some e, w1)" "wants retryable (e :: 'e go_error)"
    and "s = sleepCtx ch c (fst (fullJitter ch (backoffCap p attempt) w1)) (snd (fullJitter ch (backoffCap p attempt) w1))"
  shows "retryLoop (New ch) c p retryable fn t0 attempt lastErr w =
     (case fst s of
        Some se \<Rightarrow> (exhausted (New ch) attempt t0 (Some e) (Some se) (snd s), snd s)
      | None \<Rightarrow> retryLoop (New ch) c p retryable fn t0 (attempt + 1) (Some e) (snd s))"
  using assms
  by (subst retryLoop.simps) (auto simp: wants_def New_def split: option.splits prod.splits)

lemma retryLoop_calls:
  assumes fn: "\<And>c w. outs (ustate (snd (fn c w))) = outs (ustate w) @ [fst (fn c w)]"
  shows "retryLoop (New ch) c p retryable fn t0 attempt lastErr w = ((res, err), w') \<Longrightarrow>
    outs (ustate w) = pre @ xs \<Longrightarrow> int (length xs) = attempt - 1 \<Longrightarrow> attempt \<le> MaxAttempts p \<Longrightarrow>
    \<forall>x \<in> set xs. \<exists>e. x = Some e \<and> wants retryable e \<Longrightarrow>
    lastErr = (if xs = [] then None else last xs) \<Longrightarrow>
    \<exists>ys. outs (ustate w') = pre @ ys \<and> loop_post c p retryable ys res err (clock w')"
proof (induction "nat (MaxAttempts p - attempt)" arbitrary: attempt lastErr w xs rule: less_induct)
  case less
  note prems = less.prems
  have unf: "retryLoop (New ch) c p retryable fn t0 attempt lastErr w = ((res, err), w')"
    by (rule prems(1))
  show ?case
  proof (cases "ctx_err c (clock w) :: 'b go_error option")
    case (Some e)
    then show ?thesis using prems
      by (subst (asm) retryLoop.simps)
        (auto simp: exhausted_def loop_post_def Let_def in_set_butlastD split: option.splits
          intro!: exI [of _ xs] dest!: bspec [OF _ last_in_set])
  next
    case live: None
    obtain r1 w1 where f: "fn c w = (r1, w1)" by fastforce
    have o1: "outs (ustate w1) = pre @ xs @ [r1]" using fn [of c w] f prems(2) by simp
    show ?thesis
    proof (cases "\<exists>e. r1 = Some e \<and> wants retryable e \<and> attempt \<noteq> MaxAttempts p")
      case False
      have "((res, err), w') = (if \<exists>e. r1 = Some e \<and> wants retryable e
            then exhausted (New ch) attempt t0 r1 None w1
            else (\<lparr> Attempts = attempt, Elapsed = since (New ch :: ('a, 'b) runner) t0 w1 \<rparr>, r1), w1)"
        unfolding unf [symmetric]
        by (rule retryLoop_final [of attempt p c w fn r1 w1 retryable, OF prems(4) live f False])
      then have "outs (ustate w') = pre @ xs @ [r1] \<and> loop_post c p retryable (xs @ [r1]) res err (clock w')"
        using False prems(3,4,5) o1
        by (cases r1) (auto simp: loop_post_def exhausted_def Let_def split: if_splits)
      then show ?thesis by blast
    next
      case True
      then obtain e where e: "r1 = Some e" "wants retryable e" "attempt < MaxAttempts p"
        using prems(4) by force
      define j where "j = fullJitter ch (backoffCap p attempt) w1"
      define s :: "'b go_error option \<times> 'a world" where "s = sleepCtx ch c (fst j) (snd j)"
      have o3: "outs (ustate (snd s)) = pre @ xs @ [r1]"
        using o1 by (simp add: s_def j_def)
      have step: "((res, err), w') = (case fst s of
           Some se \<Rightarrow> (exhausted (New ch) attempt t0 (Some e) (Some se) (snd s), snd s)
         | None \<Rightarrow> retryLoop (New ch) c p retryable fn t0 (attempt + 1) (Some e) (snd s))"
        using retryLoop_again [of attempt p c w fn, OF e(3) live f [unfolded e(1)] e(2), of s ch t0 lastErr] unf
        by (simp add: s_def j_def)
      show ?thesis
      proof (cases "fst s")
        case None
        show ?thesis
          by (rule less.hyps [of "attempt + 1" "Some e" "snd s" "xs @ [r1]"])
            (use None step o3 e prems in auto)
      next
        case (Some se)
        with sleepCtx_err [of ch c "fst j" "snd j" se] have "ctx_err c (clock (snd s)) = Some se"
          by (simp add: s_def)
        then show ?thesis using Some step o3 e prems
          by (auto simp: exhausted_def loop_post_def Let_def intro!: exI [of _ "xs @ [r1]"])
      qed
    qed
  qed
qed

text \<open>
  C38: What a retry loop does, for a call \<open>fn\<close> that logs its outcomes in \<open>outs\<close>. The reported
  number of attempts is the number of calls made and never exceeds the policy; every call but
  the last failed with an error the caller wants retried; success is reported exactly when the
  last call succeeded; an error the caller does not want retried is returned unchanged; and
  otherwise the error is the exhaustion error around the last real failure (or around the
  context's error when no call was made), which happens only when the attempts are used up or
  the context is done. Without a \<open>retryable\<close> predicate there is at most one call.
\<close>

theorem retry_contract:
  assumes "\<And>c w. outs (ustate (snd (fn c w))) = outs (ustate w) @ [fst (fn c w)]"
    and "Do (New ch) c policy retryable fn w = ((res, err), w')"
  shows "\<exists>xs. outs (ustate w') = outs (ustate w) @ xs
      \<and> loop_post (WithTimeout c (Budget (withDefaults policy)) (clock w)) (withDefaults policy) retryable xs
          res err (clock w')
      \<and> (retryable = None \<longrightarrow> length xs \<le> 1)"
proof -
  have p: "1 \<le> MaxAttempts (withDefaults policy)" using withDefaults_pos(1) [of policy] by simp
  obtain xs where xs: "outs (ustate w') = outs (ustate w) @ xs"
    "loop_post (WithTimeout c (Budget (withDefaults policy)) (clock w)) (withDefaults policy) retryable xs
          res err (clock w')"
    using retryLoop_calls [of outs fn ch "WithTimeout c (Budget (withDefaults policy)) (clock w)"
        "withDefaults policy" retryable "now (New ch) w" 1 None w res err w' "outs (ustate w)" "[]"] assms p
    by (auto simp: Do_def Let_def)
  have "retryable = None \<longrightarrow> length xs \<le> 1"
    using xs(2) by (cases xs rule: rev_cases) (auto simp: loop_post_def wants_def)
  with xs show ?thesis by blast
qed

text \<open>A call whose outcomes are scripted: the log and the outcomes still to come.\<close>

definition scripted :: "ctx \<Rightarrow> (string go_error option list \<times> string go_error option list) world \<Rightarrow>
    string go_error option \<times> (string go_error option list \<times> string go_error option list) world" where
  "scripted c w = (case ustate w of
      (done, []) \<Rightarrow> (None, w \<lparr> ustate := (done @ [None], []) \<rparr>)
    | (done, x # xs) \<Rightarrow> (x, w \<lparr> clock := clock w + second, ustate := (done @ [x], xs) \<rparr>))"

definition chance0 :: chance where
  "chance0 = \<lparr> Int64N = (\<lambda>n cap. cap div 2), pickTimer = (\<lambda>n. True) \<rparr>"

theorem retry_contract_witness:
  "(case Do (New chance0) \<lparr> deadline = None, cancelAt = None \<rparr>
      \<lparr> MaxAttempts = 0, BaseDelay = 8, MaxDelay = 20, Budget = 0 \<rparr> (Some (\<lambda>e. e = Other ''reset''))
      scripted \<lparr> clock = 1000, draws = 0, ustate = ([], [Some (Other ''reset''), Some (Other ''bad'')]) \<rparr>
    of ((res, err), w') \<Rightarrow> Attempts res = 2 \<and> err = Some (Other ''bad'')
        \<and> fst (ustate w') = [Some (Other ''reset''), Some (Other ''bad'')])"
proof -
  let ?w = "\<lparr> clock = 1000, draws = 0, ustate = ([], [Some (Other ''reset''), Some (Other ''bad'')]) \<rparr>"
  let ?r = "Do (New chance0) \<lparr> deadline = None, cancelAt = None \<rparr>
      \<lparr> MaxAttempts = 0, BaseDelay = 8, MaxDelay = 20, Budget = 0 \<rparr> (Some (\<lambda>e. e = Other ''reset''))
      scripted ?w"
  have run: "(case ?r of ((res, err), w') \<Rightarrow> Attempts res = 2 \<and> err = Some (Other ''bad'')
        \<and> fst (ustate w') = [Some (Other ''reset''), Some (Other ''bad'')])"
    by code_simp
  obtain res err w' where r: "?r = ((res, err), w')" by (metis prod.exhaust)
  have logged: "\<And>c w. fst (ustate (snd (scripted c w))) = fst (ustate w) @ [fst (scripted c w)]"
    by (auto simp: scripted_def split: list.splits prod.splits)
  have "Attempts res \<le> 3 \<and> err \<noteq> None"
    using retry_contract [of fst, OF logged r] run r
    by (auto simp: loop_post_def withDefaults_def retry_defaults)
  with run show ?thesis by simp
qed

section \<open>The time a loop takes\<close>

definition prompt :: "(ctx \<Rightarrow> 'u world \<Rightarrow> 'e go_error option \<times> 'u world) \<Rightarrow> bool" where
  "prompt fn \<longleftrightarrow> (\<forall>c w. clock w \<le> clock (snd (fn c w)) \<and>
     (\<forall>e. ctx_done c = Some e \<longrightarrow> clock (snd (fn c w)) \<le> max e (clock w)))"

lemma sleepCtx_clock: "clock w \<le> clock (snd (sleepCtx ch c d w))"
  "ctx_done c = Some e \<Longrightarrow> clock (snd (sleepCtx ch c d w)) \<le> max e (clock w)"
  by (auto simp: sleepCtx_def Let_def split: option.splits)

lemma retryLoop_clock:
  assumes fn: "prompt fn" and e: "ctx_done c = Some e"
  shows "retryLoop (New ch) c p retryable fn t0 attempt lastErr w = (r, w') \<Longrightarrow>
    clock w \<le> clock w' \<and> clock w' \<le> max e (clock w)"
proof (induction "nat (MaxAttempts p + 1 - attempt)" arbitrary: attempt lastErr w rule: less_induct)
  case less
  obtain r1 w1 where f: "fn c w = (r1, w1)" by fastforce
  have c1: "clock w \<le> clock w1" "clock w1 \<le> max e (clock w)"
    using fn e f unfolding prompt_def by (metis snd_conv)+
  define j where "j = fullJitter ch (backoffCap p attempt) w1"
  define s :: "'b go_error option \<times> 'a world" where "s = sleepCtx ch c (fst j) (snd j)"
  have c3: "clock w \<le> clock (snd s)" "clock (snd s) \<le> max e (clock w)"
    using c1 sleepCtx_clock(1) [of "snd j" ch c "fst j"] sleepCtx_clock(2) [OF e, of ch "fst j" "snd j"]
    by (auto simp: s_def j_def max_def split: if_splits)
  show ?case
  proof (cases "attempt \<le> MaxAttempts p")
    case False
    then show ?thesis using less.prems by (subst (asm) retryLoop.simps) auto
  next
    case le: True
    show ?thesis
    proof (cases "ctx_err c (clock w) :: 'b go_error option")
      case (Some x)
      then show ?thesis using less.prems retryLoop_expired [OF le Some] by simp
    next
      case live: None
      show ?thesis
      proof (cases "\<exists>se. r1 = Some se \<and> wants retryable se \<and> attempt \<noteq> MaxAttempts p")
        case False
        then show ?thesis using less.prems retryLoop_final [of attempt p c w fn r1 w1 retryable, OF le live f False] c1 by auto
      next
        case True
        then obtain se where se: "r1 = Some se" "wants retryable se" "attempt < MaxAttempts p"
          using le by force
        note step = retryLoop_again [of attempt p c w fn, OF se(3) live f [unfolded se(1)] se(2),
          of s ch t0 lastErr, OF s_def [unfolded j_def]]
        show ?thesis
          using less.prems less.hyps [of "attempt + 1" "Some se" "snd s"] step se(3) c3
          by (cases "fst s") (auto simp: max_def split: if_splits)
      qed
    qed
  qed
qed

text \<open>
  Around a call that honours its context (it returns no later than the moment the context
  is done), the whole loop, backoff included, takes no longer than the budget, and never
  outlives the caller's own deadline or cancellation.
\<close>

theorem retry_within_budget:
  assumes "prompt fn" and "Do (New ch) c policy retryable fn w = (r, w')"
  shows "clock w \<le> clock w' \<and> clock w' \<le> clock w + Budget (withDefaults policy)
    \<and> (\<forall>e. ctx_done c = Some e \<longrightarrow> clock w' \<le> max e (clock w))"
proof -
  let ?c = "WithTimeout c (Budget (withDefaults policy)) (clock w)"
  obtain e where e: "ctx_done ?c = Some e" "e \<le> clock w + Budget (withDefaults policy)"
      "\<forall>e'. ctx_done c = Some e' \<longrightarrow> e \<le> e'"
    by (cases "deadline c"; cases "cancelAt c") (auto simp: ctx_done_def WithTimeout_def)
  have "clock w \<le> clock w' \<and> clock w' \<le> max e (clock w)"
    using retryLoop_clock [OF assms(1) e(1)] assms(2) by (auto simp: Do_def Let_def)
  then show ?thesis using e(2,3) withDefaults_pos(4) [of policy]
    by (auto simp: max_def split: if_splits)
qed

theorem retry_within_budget_witness:
  "clock (snd (Do (New chance0) \<lparr> deadline = Some 5, cancelAt = None \<rparr>
      \<lparr> MaxAttempts = 0, BaseDelay = 0, MaxDelay = 0, Budget = 0 \<rparr> (Some (\<lambda>e. True))
      (\<lambda>c w. (Some (Other ()), w)) \<lparr> clock = 0, draws = 0, ustate = () \<rparr>)) \<le> 5"
proof -
  have p: "prompt (\<lambda>c w. (Some (Other ()), w :: unit world))"
    by (simp add: prompt_def)
  show ?thesis
    using retry_within_budget [OF p surjective_pairing, where ch = chance0 and c = "\<lparr> deadline = Some 5, cancelAt = None \<rparr>"
        and policy = "\<lparr> MaxAttempts = 0, BaseDelay = 0, MaxDelay = 0, Budget = 0 \<rparr>" and retryable = "Some (\<lambda>e. True)"
        and w = "\<lparr> clock = 0, draws = 0, ustate = () \<rparr>"]
    by (simp add: ctx_done_def)
qed

end
