(* ===== verification/Database.thy ===== *)
theory Database
  imports Prelude
begin

text \<open>
  How the repositories talk to PostgreSQL, as a state and error monad. The world of a call is
  the data it works on, a schedule of driver faults (one flag per statement), the number of
  identifiers drawn from \<^verbatim>\<open>uuid.New\<close> and the wall clock. A transaction works on its own copy of
  the data: an error of its body, or of \<^verbatim>\<open>BeginTx\<close>, leaves the data as it was, and an error of
  \<^verbatim>\<open>Commit\<close> leaves it either way, because the acknowledgement of a commit can be lost. Constraint
  violations are ordinary errors of a statement. Transactions run one at a time.
\<close>

datatype 'e db_error = DBFailure | ErrNoRows | Violation | App 'e

record 'd dbw =
  data :: 'd
  sched :: faults
  drawn :: nat
  wall :: time

type_synonym ('d, 'e, 'a) db = "'d dbw \<Rightarrow> ('e db_error + 'a) \<times> 'd dbw"

definition ret :: "'a \<Rightarrow> ('d, 'e, 'a) db" where
  "ret a w = (Inr a, w)"

definition fail :: "'e db_error \<Rightarrow> ('d, 'e, 'a) db" where
  "fail e w = (Inl e, w)"

definition bind :: "('d, 'e, 'a) db \<Rightarrow> ('a \<Rightarrow> ('d, 'e, 'b) db) \<Rightarrow> ('d, 'e, 'b) db" where
  "bind m f w = (case m w of (Inl e, w1) \<Rightarrow> (Inl e, w1) | (Inr a, w1) \<Rightarrow> f a w1)"

text \<open>One statement: it fails when the schedule says so, and otherwise runs on the data.\<close>

definition stmt :: "('d \<Rightarrow> 'e db_error + 'a \<times> 'd) \<Rightarrow> ('d, 'e, 'a) db" where
  "stmt f w =
     (let w1 = w \<lparr> sched := tl (sched w) \<rparr>
      in if next_fault (sched w) then (Inl DBFailure, w1)
         else case f (data w) of
           Inl e \<Rightarrow> (Inl e, w1)
         | Inr (a, d) \<Rightarrow> (Inr a, w1 \<lparr> data := d \<rparr>))"

definition query :: "('d \<Rightarrow> 'e db_error + 'a) \<Rightarrow> ('d, 'e, 'a) db" where
  "query f = stmt (\<lambda>d. case f d of Inl e \<Rightarrow> Inl e | Inr a \<Rightarrow> Inr (a, d))"

definition new_uuid :: "(nat \<Rightarrow> uuid) \<Rightarrow> ('d, 'e, uuid) db" where
  "new_uuid gen w = (Inr (gen (drawn w)), w \<lparr> drawn := drawn w + 1 \<rparr>)"

definition time_now :: "('d, 'e, time) db" where
  "time_now w = (Inr (wall w), w)"

text \<open>A call whose error the caller handles.\<close>

definition attempt :: "('d, 'e, 'a) db \<Rightarrow> ('d, 'e, 'e db_error + 'a) db" where
  "attempt m w = (case m w of (r, w1) \<Rightarrow> (Inr r, w1))"

text \<open>Work in the memory of the process: it cannot fail.\<close>

definition local :: "('d \<Rightarrow> 'd) \<Rightarrow> ('d, 'e, unit) db" where
  "local f w = (Inr (), w \<lparr> data := f (data w) \<rparr>)"

definition peek :: "('d \<Rightarrow> 'a) \<Rightarrow> ('d, 'e, 'a) db" where
  "peek f w = (Inr (f (data w)), w)"

definition transaction :: "('d, 'e, 'a) db \<Rightarrow> ('d, 'e, 'a) db" where
  "transaction body w =
     (let w1 = w \<lparr> sched := tl (sched w) \<rparr>
      in if next_fault (sched w) then (Inl DBFailure, w1)
         else case body w1 of
           (Inl e, w2) \<Rightarrow> (Inl e, w2 \<lparr> data := data w \<rparr>)
         | (Inr a, w2) \<Rightarrow>
             if next_fault (sched w2)
             then (Inl DBFailure, w2 \<lparr> sched := tl (tl (sched w2)),
                     data := (if next_fault (tl (sched w2)) then data w2 else data w) \<rparr>)
             else (Inr a, w2 \<lparr> sched := tl (sched w2) \<rparr>))"

lemmas db_eval = ret_def fail_def bind_def stmt_def query_def new_uuid_def time_now_def transaction_def
  attempt_def local_def peek_def

declare db_eval [go_defs]

section \<open>Reasoning about runs\<close>

text \<open>
  \<open>hoare P m Q\<close>: a successful run of \<open>m\<close> from \<open>P\<close> ends in \<open>Q\<close>. \<open>always I m\<close>: whatever the
  outcome, \<open>m\<close> keeps the invariant \<open>I\<close> of the data.
\<close>

definition hoare :: "('d dbw \<Rightarrow> bool) \<Rightarrow> ('d, 'e, 'a) db \<Rightarrow> ('a \<Rightarrow> 'd dbw \<Rightarrow> bool) \<Rightarrow> bool" where
  "hoare P m Q \<longleftrightarrow> (\<forall>w a w'. P w \<longrightarrow> m w = (Inr a, w') \<longrightarrow> Q a w')"

definition always :: "('d \<Rightarrow> bool) \<Rightarrow> ('d, 'e, 'a) db \<Rightarrow> bool" where
  "always I m \<longleftrightarrow> (\<forall>w. I (data w) \<longrightarrow> I (data (snd (m w))))"

lemma hoareD: "hoare P m Q \<Longrightarrow> P w \<Longrightarrow> m w = (Inr a, w') \<Longrightarrow> Q a w'"
  by (simp add: hoare_def)

lemma alwaysD: "always I m \<Longrightarrow> I (data w) \<Longrightarrow> m w = (r, w') \<Longrightarrow> I (data w')"
  unfolding always_def by (metis snd_conv)

lemma hoare_bind: "hoare P m R \<Longrightarrow> (\<And>a. hoare (R a) (f a) Q) \<Longrightarrow> hoare P (bind m f) Q"
  unfolding hoare_def bind_def by (auto split: prod.splits sum.splits)

lemma hoare_ret: "(\<And>w. P w \<Longrightarrow> Q a w) \<Longrightarrow> hoare P (ret a) Q"
  by (auto simp: hoare_def ret_def)

lemma hoare_fail [simp]: "hoare P (fail e) Q"
  by (simp add: hoare_def fail_def)

lemma hoare_if: "(b \<Longrightarrow> hoare P m Q) \<Longrightarrow> (\<not> b \<Longrightarrow> hoare P n Q) \<Longrightarrow> hoare P (if b then m else n) Q"
  by simp

lemma hoare_weaken: "hoare P' m Q' \<Longrightarrow> (\<And>w. P w \<Longrightarrow> P' w) \<Longrightarrow> (\<And>a w. Q' a w \<Longrightarrow> Q a w) \<Longrightarrow> hoare P m Q"
  unfolding hoare_def by blast

lemma hoare_stmt:
  "(\<And>w a d. P w \<Longrightarrow> f (data w) = Inr (a, d) \<Longrightarrow> Q a (w \<lparr> sched := tl (sched w), data := d \<rparr>)) \<Longrightarrow>
   hoare P (stmt f) Q"
  unfolding hoare_def stmt_def by (auto simp: Let_def split: if_splits sum.splits prod.splits)

lemma always_bind: "always I m \<Longrightarrow> (\<And>a. always I (f a)) \<Longrightarrow> always I (bind m f)"
  unfolding always_def bind_def by (auto split: prod.splits sum.splits)

lemma always_ret [simp]: "always I (ret a)" and always_fail [simp]: "always I (fail e)"
  and always_uuid [simp]: "always I (new_uuid gen)" and always_now [simp]: "always I time_now"
  by (simp_all add: always_def ret_def fail_def new_uuid_def time_now_def)

lemma always_stmt: "(\<And>d a d'. I d \<Longrightarrow> f d = Inr (a, d') \<Longrightarrow> I d') \<Longrightarrow> always I (stmt f)"
  unfolding always_def stmt_def by (auto simp: Let_def split: sum.splits prod.splits)

lemma query_data: "data (snd (query f w)) = data w"
  by (auto simp: query_def stmt_def Let_def split: sum.splits prod.splits)

lemma always_query [simp]: "always I (query f)"
  by (simp add: always_def query_data)

lemma always_if: "(b \<Longrightarrow> always I m) \<Longrightarrow> (\<not> b \<Longrightarrow> always I n) \<Longrightarrow> always I (if b then m else n)"
  by simp

lemma always_attempt: "always I m \<Longrightarrow> always I (attempt m)"
  by (auto simp: always_def attempt_def split: prod.splits)

lemma query_Inr: "query f w = (Inr a, w') \<Longrightarrow> f (data w) = Inr a \<and> data w' = data w"
  by (auto simp: query_def stmt_def Let_def split: sum.splits if_splits)

lemma bind_Inr: "bind m f w = (Inr b, w') \<longleftrightarrow> (\<exists>a w1. m w = (Inr a, w1) \<and> f a w1 = (Inr b, w'))"
  by (auto simp: bind_def split: prod.splits sum.splits)

lemma stmt_Inr: "stmt f w = (Inr a, w') \<Longrightarrow> f (data w) = Inr (a, data w')"
  by (auto simp: stmt_def Let_def split: sum.splits if_splits)

lemma new_uuid_data: "new_uuid gen w = (r, w') \<Longrightarrow> data w' = data w"
  and time_now_data: "time_now w = (r2, w') \<Longrightarrow> data w' = data w"
  and ret_Inr: "ret a w = (r3, w') \<longleftrightarrow> r3 = Inr a \<and> w' = w"
  by (auto simp: new_uuid_def time_now_def ret_def)

text \<open>
  The outcomes of a transaction: everything its body did, acknowledged; or an error, with
  nothing of it kept unless the body succeeded and only the acknowledgement was lost.
\<close>

lemma transaction_outcome:
  "(\<exists>a w2. transaction body w = (Inr a, w2) \<and>
      (\<exists>w1. body (w \<lparr> sched := tl (sched w) \<rparr>) = (Inr a, w1) \<and> data w2 = data w1))
   \<or> (\<exists>e w2. transaction body w = (Inl e, w2) \<and>
      (data w2 = data w
       \<or> e = DBFailure \<and> (\<exists>a w1. body (w \<lparr> sched := tl (sched w) \<rparr>) = (Inr a, w1) \<and> data w2 = data w1)))"
  by (auto simp: transaction_def Let_def split: prod.splits sum.splits)

lemma transaction_Inr:
  "transaction body w = (Inr a, w2) \<Longrightarrow>
   \<exists>w1. body (w \<lparr> sched := tl (sched w) \<rparr>) = (Inr a, w1) \<and> data w2 = data w1"
  using transaction_outcome [of body w] by auto

lemma transaction_hoare:
  assumes "hoare P body Q" and "P (w \<lparr> sched := tl (sched w) \<rparr>)" and run: "transaction body w = (r, w')"
  shows "(\<exists>a w1. Q a w1 \<and> data w' = data w1 \<and> (r = Inr a \<or> r = Inl DBFailure))
    \<or> data w' = data w \<and> (\<exists>e. r = Inl e)"
  using transaction_outcome [of body w] unfolding run
proof (elim disjE exE conjE)
  fix a w2 w1 assume "(r, w') = (Inr a, w2)" "body (w \<lparr> sched := tl (sched w) \<rparr>) = (Inr a, w1)" "data w2 = data w1"
  then show ?thesis using hoareD [OF assms(1,2)] by blast
next
  fix e w2 assume "(r, w') = (Inl e, w2)" "data w2 = data w"
  then show ?thesis by simp
next
  fix e w2 a w1 assume "(r, w') = (Inl e, w2)" "e = DBFailure"
    "body (w \<lparr> sched := tl (sched w) \<rparr>) = (Inr a, w1)" "data w2 = data w1"
  then show ?thesis using hoareD [OF assms(1,2)] by blast
qed

lemma transaction_always:
  assumes "hoare (\<lambda>w. I (data w)) body (\<lambda>a w. I (data w))"
  shows "always I (transaction body)"
  unfolding always_def
proof (intro allI impI)
  fix w :: "'a dbw" assume "I (data w)"
  then have "I (data (w \<lparr> sched := tl (sched w) \<rparr>))" by simp
  with transaction_outcome [of body w] \<open>I (data w)\<close> show "I (data (snd (transaction body w)))"
    using hoareD [OF assms] by fastforce
qed

lemmas always_intros = always_bind always_stmt always_if transaction_always

lemma always_hoare: "always I m \<Longrightarrow> hoare (\<lambda>w. I (data w)) m (\<lambda>a w. I (data w))"
  unfolding hoare_def always_def by (metis snd_conv)

text \<open>\<open>moves R m\<close>: whatever the outcome, \<open>m\<close> takes the data along the preorder \<open>R\<close>.\<close>

definition moves :: "('d \<Rightarrow> 'd \<Rightarrow> bool) \<Rightarrow> ('d, 'e, 'a) db \<Rightarrow> bool" where
  "moves R m \<longleftrightarrow> (\<forall>w. R (data w) (data (snd (m w))))"

lemma moves_bind: "transp R \<Longrightarrow> moves R m \<Longrightarrow> (\<And>a. moves R (f a)) \<Longrightarrow> moves R (bind m f)"
  unfolding moves_def bind_def
  by (auto split: prod.splits sum.splits dest: transpD) (metis snd_conv transpD)+

lemma moves_trivial:
  "reflp R \<Longrightarrow> moves R (ret a)" "reflp R \<Longrightarrow> moves R (fail e)" "reflp R \<Longrightarrow> moves R time_now"
  "reflp R \<Longrightarrow> moves R (new_uuid gen)" "reflp R \<Longrightarrow> moves R (query f)"
  by (simp_all add: moves_def ret_def fail_def time_now_def new_uuid_def query_data reflpD)

lemma moves_stmt: "reflp R \<Longrightarrow> (\<And>d a d'. f d = Inr (a, d') \<Longrightarrow> R d d') \<Longrightarrow> moves R (stmt f)"
  by (auto simp: moves_def stmt_def Let_def reflpD split: sum.splits prod.splits)

lemma moves_attempt: "moves R m \<Longrightarrow> moves R (attempt m)"
  by (auto simp: moves_def attempt_def split: prod.splits) (metis snd_conv)

lemma moves_if: "(b \<Longrightarrow> moves R m) \<Longrightarrow> (\<not> b \<Longrightarrow> moves R n) \<Longrightarrow> moves R (if b then m else n)"
  by simp

lemma moves_option: "moves R m \<Longrightarrow> (\<And>a. moves R (f a)) \<Longrightarrow> moves R (case x of None \<Rightarrow> m | Some a \<Rightarrow> f a)"
  by (cases x) auto

lemma moves_sum: "(\<And>a. moves R (g a)) \<Longrightarrow> (\<And>a. moves R (f a)) \<Longrightarrow> moves R (case x of Inl a \<Rightarrow> g a | Inr a \<Rightarrow> f a)"
  by (cases x) auto

lemma moves_prod: "(\<And>a b. moves R (f a b)) \<Longrightarrow> moves R (case x of (a, b) \<Rightarrow> f a b)"
  by (cases x) auto

lemmas moves_rules = moves_bind moves_trivial moves_stmt moves_attempt moves_if moves_option moves_sum moves_prod

lemma movesD: "moves R m \<Longrightarrow> m w = (r, w') \<Longrightarrow> R (data w) (data w')"
  unfolding moves_def by (metis snd_conv)

end
