(* ===== verification/Ledger.thy ===== *)
theory Ledger
  imports Database
begin

text \<open>
  The double-entry ledger: \<^verbatim>\<open>internal/domain/ledger\<close> (accounts, entries and the balance check)
  and \<^verbatim>\<open>internal/repository/postgres/ledger_repository.go\<close> on the tables of migrations 113 to
  116. Amounts are int64 stroops, modelled as \<^typ>\<open>int\<close> with \<^const>\<open>wrap64\<close> where Go computes. The
  unique indexes of the account table, the foreign keys, the checks and the BIGINT range are
  the guards of the statements; references to tables outside the ledger (vaults, users) can
  fail any insert through the fault schedule.
\<close>

section \<open>Domain model\<close>

definition AccountTypeUserVaultPosition :: string where "AccountTypeUserVaultPosition = ''user_vault_position''"
definition AccountTypeVaultAssetPool :: string where "AccountTypeVaultAssetPool = ''vault_asset_pool''"
definition AccountTypeFee :: string where "AccountTypeFee = ''fee_account''"
definition AccountTypePenaltyEscrow :: string where "AccountTypePenaltyEscrow = ''penalty_escrow''"
definition AccountTypeTreasury :: string where "AccountTypeTreasury = ''treasury''"
definition AccountTypeYieldSource :: string where "AccountTypeYieldSource = ''yield_source''"
definition AccountTypeSystemSuspense :: string where "AccountTypeSystemSuspense = ''system_suspense''"
definition AccountTypeExternal :: string where "AccountTypeExternal = ''external''"

lemmas account_type_defs = AccountTypeUserVaultPosition_def AccountTypeVaultAssetPool_def
  AccountTypeFee_def AccountTypePenaltyEscrow_def AccountTypeTreasury_def AccountTypeYieldSource_def
  AccountTypeSystemSuspense_def AccountTypeExternal_def

definition ValidAccountTypes :: "string list" where
  "ValidAccountTypes = [AccountTypeUserVaultPosition, AccountTypeVaultAssetPool, AccountTypeFee,
     AccountTypePenaltyEscrow, AccountTypeTreasury, AccountTypeYieldSource,
     AccountTypeSystemSuspense, AccountTypeExternal]"

datatype lerror =
    ErrInvalidAccountType | ErrUnbalanced | ErrTooFewEntries | ErrEmptyTransactionID | ErrZeroAmount
  | ErrMixedTransactionIDs | ErrAccountIDRequired | ErrTxRequired
  | ErrVaultAndUserRequired | ErrVaultRequired | ErrAdapterRequired
  | ErrNotPositive string | ErrSameAdapter | ErrBooks int

record account =
  aID :: uuid
  AccountType :: string
  VaultID :: "uuid option"
  UserID :: "uuid option"
  AdapterName :: "string option"
  aAssetCode :: string
  aAssetUnit :: string
  Description :: string
  aCreatedAt :: time
  aUpdatedAt :: time

record entry =
  eID :: uuid
  TransactionID :: uuid
  AccountID :: uuid
  Amount :: int
  Direction :: string
  eCreatedAt :: time
  DomainEventType :: string
  DomainEventID :: string
  eAssetCode :: string
  eAssetUnit :: string

record balance =
  bAccountID :: uuid
  Bal :: int
  bAssetCode :: string
  bAssetUnit :: string
  bUpdatedAt :: time
  Version :: int

record reconciliation_record =
  rID :: uuid
  rVaultID :: uuid
  LedgerVaultPoolBalance :: int
  OnChainBalance :: int
  Difference :: int
  Tolerance :: int
  Status :: string
  Details :: string
  rCreatedAt :: time

record balance_mismatch =
  mAccountID :: uuid
  Cached :: int
  Computed :: int
  mDifference :: int

definition ValidateAccountType :: "string \<Rightarrow> lerror option" where
  "ValidateAccountType t = (if t \<in> set ValidAccountTypes then None else Some ErrInvalidAccountType)"

fun balanceLoop :: "uuid \<Rightarrow> int \<Rightarrow> entry list \<Rightarrow> lerror option" where
  "balanceLoop txID s [] = (if s \<noteq> 0 then Some ErrUnbalanced else None)"
| "balanceLoop txID s (e # es) =
     (if TransactionID e \<noteq> txID then Some ErrMixedTransactionIDs
      else if Amount e = 0 then Some ErrZeroAmount
      else if AccountID e = uuid_nil then Some ErrAccountIDRequired
      else balanceLoop txID (wrap64 (s + Amount e)) es)"

definition ValidateBalanced :: "entry list \<Rightarrow> lerror option" where
  "ValidateBalanced es =
     (if length es < 2 then Some ErrTooFewEntries
      else let txID = TransactionID (hd es)
           in if txID = uuid_nil then Some ErrEmptyTransactionID else balanceLoop txID 0 es)"

definition DirectionFromAmount :: "int \<Rightarrow> string" where
  "DirectionFromAmount amount = (if 0 \<le> amount then ''debit'' else ''credit'')"

section \<open>Tables\<close>

record ledger_db =
  accounts :: "account list"
  entries :: "entry list"
  balances :: "balance list"
  reconciliations :: "reconciliation_record list"

type_synonym 'a ldb = "(ledger_db, lerror, 'a) db"

text \<open>
  The columns each partial unique index of the account table ranges over. A row with a NULL in
  one of them has no key: NULLs never conflict.
\<close>

datatype acct_key = Key (kType: string) (kVault: "uuid option") (kUser: "uuid option")
  (kAdapter: "string option") (kAsset: string)

definition mk_key :: "string \<Rightarrow> uuid option \<Rightarrow> uuid option \<Rightarrow> string option \<Rightarrow> string \<Rightarrow> acct_key" where
  "mk_key t v u ad asset =
     Key t (if t \<in> {AccountTypeUserVaultPosition, AccountTypeVaultAssetPool, AccountTypePenaltyEscrow} then v else None)
       (if t = AccountTypeUserVaultPosition then u else None)
       (if t = AccountTypeYieldSource then ad else None) asset"

definition account_key :: "account \<Rightarrow> acct_key option" where
  "account_key a =
     (let t = AccountType a in
      if t \<notin> set ValidAccountTypes
         \<or> t \<in> {AccountTypeUserVaultPosition, AccountTypeVaultAssetPool, AccountTypePenaltyEscrow} \<and> VaultID a = None
         \<or> t = AccountTypeUserVaultPosition \<and> UserID a = None
         \<or> t = AccountTypeYieldSource \<and> AdapterName a = None
      then None
      else Some (mk_key t (VaultID a) (UserID a) (AdapterName a) (aAssetCode a)))"

definition same_key :: "account \<Rightarrow> account \<Rightarrow> bool" where
  "same_key a b \<longleftrightarrow> account_key a \<noteq> None \<and> account_key a = account_key b"

definition insertAccount :: "account \<Rightarrow> ledger_db \<Rightarrow> lerror db_error + bool \<times> ledger_db" where
  "insertAccount a d =
     (if AccountType a \<notin> set ValidAccountTypes then Inl Violation
      else if \<exists>b \<in> set (accounts d). aID b = aID a \<or> same_key a b
      then Inr (False, d)
      else Inr (True, d \<lparr> accounts := accounts d @ [a] \<rparr>))"

definition accountMatches :: "string \<Rightarrow> uuid option \<Rightarrow> uuid option \<Rightarrow> string option \<Rightarrow> string \<Rightarrow> account \<Rightarrow> bool" where
  "accountMatches t v u ad asset a \<longleftrightarrow> AccountType a = t \<and> aAssetCode a = asset \<and>
     (if t = AccountTypeUserVaultPosition then v \<noteq> None \<and> VaultID a = v \<and> u \<noteq> None \<and> UserID a = u
      else if t = AccountTypeVaultAssetPool \<or> t = AccountTypePenaltyEscrow then v \<noteq> None \<and> VaultID a = v
      else if t = AccountTypeYieldSource then ad \<noteq> None \<and> AdapterName a = ad
      else True)"

definition missingArg :: "string \<Rightarrow> uuid option \<Rightarrow> uuid option \<Rightarrow> string option \<Rightarrow> lerror option" where
  "missingArg t v u ad =
     (if t = AccountTypeUserVaultPosition then (if v = None \<or> u = None then Some ErrVaultAndUserRequired else None)
      else if t = AccountTypeVaultAssetPool then (if v = None then Some ErrVaultRequired else None)
      else if t = AccountTypeYieldSource then (if ad = None \<or> ad = Some [] then Some ErrAdapterRequired else None)
      else if t \<in> {AccountTypeFee, AccountTypeTreasury, AccountTypeSystemSuspense, AccountTypeExternal} then None
      else if t = AccountTypePenaltyEscrow then (if v = None then Some ErrVaultRequired else None)
      else Some ErrInvalidAccountType)"

definition insertEntry :: "entry \<Rightarrow> ledger_db \<Rightarrow> lerror db_error + unit \<times> ledger_db" where
  "insertEntry e d =
     (if eID e \<in> eID ` set (entries d) \<or> AccountID e \<notin> aID ` set (accounts d) \<or> Amount e = 0
         \<or> \<not> in_int64 (Amount e) \<or> Direction e \<notin> {''debit'', ''credit''}
      then Inl Violation
      else Inr ((), d \<lparr> entries := entries d @ [e] \<rparr>))"

definition upsertBalance :: "uuid \<Rightarrow> int \<Rightarrow> string \<Rightarrow> string \<Rightarrow> time \<Rightarrow> ledger_db \<Rightarrow> lerror db_error + unit \<times> ledger_db" where
  "upsertBalance acc amount code unit now d =
     (case List.find (\<lambda>b. bAccountID b = acc) (balances d) of
        None \<Rightarrow>
          if acc \<notin> aID ` set (accounts d) \<or> \<not> in_int64 amount then Inl Violation
          else Inr ((), d \<lparr> balances := balances d @ [\<lparr> bAccountID = acc, Bal = amount, bAssetCode = code,
                 bAssetUnit = unit, bUpdatedAt = now, Version = 1 \<rparr>] \<rparr>)
      | Some b \<Rightarrow>
          if \<not> in_int64 (Bal b + amount) \<or> \<not> in_int64 (Version b + 1) then Inl Violation
          else Inr ((), d \<lparr> balances := map (\<lambda>c. if bAccountID c = acc
                 then c \<lparr> Bal := Bal c + amount, bUpdatedAt := now, Version := Version c + 1 \<rparr> else c)
                 (balances d) \<rparr>))"

section \<open>Repository\<close>

definition getOrCreateAccountTx :: "(nat \<Rightarrow> uuid) \<Rightarrow> string \<Rightarrow> uuid option \<Rightarrow> uuid option \<Rightarrow> string option \<Rightarrow> string \<Rightarrow> account ldb" where
  "getOrCreateAccountTx gen accountType vaultID userID adapterName assetCode =
     (let select = (\<lambda>d. List.find (accountMatches accountType vaultID userID adapterName assetCode) (accounts d))
      in case ValidateAccountType accountType of
           Some e \<Rightarrow> fail (App e)
         | None \<Rightarrow>
             (case missingArg accountType vaultID userID adapterName of
                Some e \<Rightarrow> fail (App e)
              | None \<Rightarrow>
                  bind (query (\<lambda>d. Inr (select d))) (\<lambda>row.
                    case row of
                      Some acc \<Rightarrow> ret acc
                    | None \<Rightarrow>
                        bind (new_uuid gen) (\<lambda>newID.
                        bind time_now (\<lambda>now.
                        bind (stmt (insertAccount \<lparr> aID = newID, AccountType = accountType, VaultID = vaultID,
                               UserID = userID, AdapterName = adapterName, aAssetCode = assetCode,
                               aAssetUnit = ''stroops'', Description = '''', aCreatedAt = now, aUpdatedAt = now \<rparr>)) (\<lambda>_.
                        query (\<lambda>d. case select d of None \<Rightarrow> Inl ErrNoRows | Some acc \<Rightarrow> Inr acc)))))))"

definition pgGetOrCreateAccount :: "(nat \<Rightarrow> uuid) \<Rightarrow> string \<Rightarrow> uuid option \<Rightarrow> uuid option \<Rightarrow> string option \<Rightarrow> string \<Rightarrow> account ldb" where
  "pgGetOrCreateAccount gen accountType vaultID userID adapterName assetCode =
     (let assetCode = (if assetCode = '''' then ''USDC'' else assetCode)
      in transaction (getOrCreateAccountTx gen accountType vaultID userID adapterName assetCode))"

definition pgGetOrCreateAccountTx :: "(nat \<Rightarrow> uuid) \<Rightarrow> string \<Rightarrow> uuid option \<Rightarrow> uuid option \<Rightarrow> string option \<Rightarrow> string \<Rightarrow> account ldb" where
  "pgGetOrCreateAccountTx gen accountType vaultID userID adapterName assetCode =
     (let assetCode = (if assetCode = '''' then ''USDC'' else assetCode)
      in getOrCreateAccountTx gen accountType vaultID userID adapterName assetCode)"

definition pgCreateAccount :: "(nat \<Rightarrow> uuid) \<Rightarrow> account \<Rightarrow> account ldb" where
  "pgCreateAccount gen acc0 =
     (case ValidateAccountType (AccountType acc0) of
        Some e \<Rightarrow> fail (App e)
      | None \<Rightarrow>
          bind (if aID acc0 = uuid_nil then new_uuid gen else ret (aID acc0)) (\<lambda>newID.
          bind time_now (\<lambda>now.
            let acc = acc0 \<lparr> aID := newID,
                  aAssetCode := (if aAssetCode acc0 = '''' then ''USDC'' else aAssetCode acc0),
                  aAssetUnit := (if aAssetUnit acc0 = '''' then ''stroops'' else aAssetUnit acc0),
                  aCreatedAt := now, aUpdatedAt := now \<rparr>
            in bind (stmt (insertAccount acc)) (\<lambda>inserted.
                 if inserted then ret acc
                 else pgGetOrCreateAccount gen (AccountType acc) (VaultID acc) (UserID acc) (AdapterName acc) (aAssetCode acc)))))"

definition pgGetAccount :: "uuid \<Rightarrow> account ldb" where
  "pgGetAccount i = query (\<lambda>d. case List.find (\<lambda>a. aID a = i) (accounts d) of None \<Rightarrow> Inl ErrNoRows | Some a \<Rightarrow> Inr a)"

definition prepareEntry :: "uuid \<Rightarrow> time \<Rightarrow> entry \<Rightarrow> entry" where
  "prepareEntry newID now e = e \<lparr> eID := newID, eCreatedAt := now,
     Direction := (if Direction e = '''' then DirectionFromAmount (Amount e) else Direction e),
     eAssetCode := (if eAssetCode e = '''' then ''USDC'' else eAssetCode e),
     eAssetUnit := (if eAssetUnit e = '''' then ''stroops'' else eAssetUnit e) \<rparr>"

fun postEntriesTx :: "(nat \<Rightarrow> uuid) \<Rightarrow> entry list \<Rightarrow> unit ldb" where
  "postEntriesTx gen [] = ret ()"
| "postEntriesTx gen (e # es) =
     bind (if eID e = uuid_nil then new_uuid gen else ret (eID e)) (\<lambda>newID.
     bind time_now (\<lambda>now.
       let e1 = prepareEntry newID now e
       in bind (stmt (insertEntry e1)) (\<lambda>_.
          bind (stmt (upsertBalance (AccountID e1) (Amount e1) (eAssetCode e1) (eAssetUnit e1) now)) (\<lambda>_.
            postEntriesTx gen es))))"

definition pgPostEntries :: "(nat \<Rightarrow> uuid) \<Rightarrow> entry list \<Rightarrow> unit ldb" where
  "pgPostEntries gen es =
     (case ValidateBalanced es of
        Some e \<Rightarrow> fail (App e)
      | None \<Rightarrow> transaction (postEntriesTx gen es))"

definition pgPostEntriesTx :: "(nat \<Rightarrow> uuid) \<Rightarrow> bool \<Rightarrow> entry list \<Rightarrow> unit ldb" where
  "pgPostEntriesTx gen tx es =
     (case ValidateBalanced es of
        Some e \<Rightarrow> fail (App e)
      | None \<Rightarrow> if \<not> tx then fail (App ErrTxRequired) else postEntriesTx gen es)"

subsection \<open>Reads\<close>

text \<open>\<^verbatim>\<open>ledger_balances\<close> joined to the accounts that satisfy a predicate, in account order.\<close>

definition joinBalances :: "(account \<Rightarrow> bool) \<Rightarrow> ledger_db \<Rightarrow> (account \<times> balance) list" where
  "joinBalances P d =
     concat (map (\<lambda>a. map (\<lambda>b. (a, b)) (filter (\<lambda>b. bAccountID b = aID a) (balances d))) (filter P (accounts d)))"

definition scanInt64 :: "int \<Rightarrow> lerror db_error + int" where
  "scanInt64 n = (if in_int64 n then Inr n else Inl DBFailure)"

definition pgGetBalance :: "uuid \<Rightarrow> balance ldb" where
  "pgGetBalance acc = query (\<lambda>d. case List.find (\<lambda>b. bAccountID b = acc) (balances d) of
      None \<Rightarrow> Inl ErrNoRows | Some b \<Rightarrow> Inr b)"

definition pgGetBalancesByVault :: "uuid \<Rightarrow> (uuid \<rightharpoonup> int) ldb" where
  "pgGetBalancesByVault v = query (\<lambda>d. Inr (map_of (rev (map (\<lambda>(a, b). (bAccountID b, Bal b))
      (joinBalances (\<lambda>a. VaultID a = Some v) d)))))"

definition firstBalance :: "(account \<Rightarrow> bool) \<Rightarrow> ledger_db \<Rightarrow> int" where
  "firstBalance P d = (case joinBalances P d of [] \<Rightarrow> 0 | (a, b) # _ \<Rightarrow> Bal b)"

definition pgGetUserVaultBalance :: "uuid \<Rightarrow> uuid \<Rightarrow> int ldb" where
  "pgGetUserVaultBalance u v = query (\<lambda>d. Inr (firstBalance (\<lambda>a. AccountType a = ''user_vault_position''
      \<and> VaultID a = Some v \<and> UserID a = Some u \<and> aAssetCode a = ''USDC'') d))"

definition pgGetVaultPoolBalance :: "uuid \<Rightarrow> int ldb" where
  "pgGetVaultPoolBalance v = query (\<lambda>d. Inr (firstBalance (\<lambda>a. AccountType a = ''vault_asset_pool''
      \<and> VaultID a = Some v \<and> aAssetCode a = ''USDC'') d))"

definition pgSumUserPositionBalances :: "uuid \<Rightarrow> int ldb" where
  "pgSumUserPositionBalances v = query (\<lambda>d. scanInt64 (sum_list (map (\<lambda>(a, b). Bal b)
      (joinBalances (\<lambda>a. AccountType a = ''user_vault_position'' \<and> VaultID a = Some v) d))))"

definition pgSumAllEntries :: "int ldb" where
  "pgSumAllEntries = query (\<lambda>d. scanInt64 (sum_list (map Amount (entries d))))"

text \<open>The recomputed sum of an account and the cached value (0 when no row is cached).\<close>

definition entrySum :: "ledger_db \<Rightarrow> uuid \<Rightarrow> int" where
  "entrySum d acc = sum_list (map Amount (filter (\<lambda>e. AccountID e = acc) (entries d)))"

definition cachedBalance :: "ledger_db \<Rightarrow> uuid \<Rightarrow> int" where
  "cachedBalance d acc = (case List.find (\<lambda>b. bAccountID b = acc) (balances d) of None \<Rightarrow> 0 | Some b \<Rightarrow> Bal b)"

definition pgRecomputeBalances :: "balance_mismatch list ldb" where
  "pgRecomputeBalances = query (\<lambda>d.
     if \<exists>a \<in> set (accounts d). \<not> in_int64 (entrySum d (aID a)) then Inl DBFailure
     else Inr (map (\<lambda>a. \<lparr> mAccountID = aID a, Cached = cachedBalance d (aID a), Computed = entrySum d (aID a),
                 mDifference = wrap64 (entrySum d (aID a) - cachedBalance d (aID a)) \<rparr>)
            (filter (\<lambda>a. cachedBalance d (aID a) \<noteq> entrySum d (aID a)) (accounts d))))"

definition pgListAllBalances :: "balance list ldb" where
  "pgListAllBalances = query (\<lambda>d. Inr (balances d))"

definition pgCreateReconciliationRecord :: "(nat \<Rightarrow> uuid) \<Rightarrow> reconciliation_record \<Rightarrow> unit ldb" where
  "pgCreateReconciliationRecord gen rec =
     bind (if rID rec = uuid_nil then new_uuid gen else ret (rID rec)) (\<lambda>newID.
     bind time_now (\<lambda>now.
     stmt (\<lambda>d. if newID \<in> rID ` set (reconciliations d) \<or> Status rec \<notin> {''ok'', ''drift'', ''error''} then Inl Violation
               else Inr ((), d \<lparr> reconciliations := reconciliations d @ [rec \<lparr> rID := newID, rCreatedAt := now \<rparr>] \<rparr>))))"

definition pgListReconciliationRecords :: "uuid \<Rightarrow> int \<Rightarrow> reconciliation_record list ldb" where
  "pgListReconciliationRecords v limit =
     (let limit = (if limit \<le> 0 then 20 else limit)
      in query (\<lambda>d. Inr (take (nat limit) (rev (sort_key rCreatedAt
           (filter (\<lambda>r. rVaultID r = v) (reconciliations d)))))))"

section \<open>The balance check\<close>

lemma balanceLoop_None_iff:
  "balanceLoop tx s es = None \<longleftrightarrow>
     (\<forall>e \<in> set es. TransactionID e = tx \<and> Amount e \<noteq> 0 \<and> AccountID e \<noteq> uuid_nil)
     \<and> (if es = [] then s = 0 else wrap64 (s + sum_list (map Amount es)) = 0)"
proof (induction es arbitrary: s)
  case (Cons e es)
  show ?case
  proof (cases "es = []")
    case False
    then show ?thesis using Cons.IH [of "wrap64 (s + Amount e)"] by (auto simp: add.assoc)
  qed auto
qed simp

lemma ValidateBalanced_None_iff:
  "ValidateBalanced es = None \<longleftrightarrow>
     2 \<le> length es \<and> TransactionID (hd es) \<noteq> uuid_nil
     \<and> (\<forall>e \<in> set es. TransactionID e = TransactionID (hd es) \<and> Amount e \<noteq> 0 \<and> AccountID e \<noteq> uuid_nil)
     \<and> wrap64 (sum_list (map Amount es)) = 0"
  by (cases es) (auto simp: ValidateBalanced_def balanceLoop_None_iff Let_def Suc_le_eq)

section \<open>Invariant and journal\<close>

definition keyOf :: "ledger_db \<Rightarrow> uuid \<Rightarrow> acct_key option" where
  "keyOf d i = (case List.find (\<lambda>a. aID a = i) (accounts d) of None \<Rightarrow> None | Some a \<Rightarrow> account_key a)"

text \<open>
  The journal is the abstract state of the ledger: the append-only sequence of the legs posted,
  each with the key of its account.
\<close>

definition journal :: "ledger_db \<Rightarrow> (acct_key option \<times> int) list" where
  "journal d = map (\<lambda>e. (keyOf d (AccountID e), Amount e)) (entries d)"

definition accounts_inv :: "ledger_db \<Rightarrow> bool" where
  "accounts_inv d \<longleftrightarrow> distinct (map aID (accounts d)) \<and>
     (\<forall>a \<in> set (accounts d). \<forall>b \<in> set (accounts d). same_key a b \<longrightarrow> a = b)"

definition ledger_inv :: "ledger_db \<Rightarrow> bool" where
  "ledger_inv d \<longleftrightarrow> accounts_inv d \<and>
     (\<forall>e \<in> set (entries d). AccountID e \<in> aID ` set (accounts d)) \<and>
     distinct (map bAccountID (balances d)) \<and>
     (\<forall>b \<in> set (balances d). bAccountID b \<in> aID ` set (accounts d) \<and> in_int64 (Bal b)) \<and>
     (\<forall>acc. cachedBalance d acc = entrySum d acc)"

text \<open>Accounts made by get-or-create carry every column of their index.\<close>

definition keyed :: "ledger_db \<Rightarrow> bool" where
  "keyed d \<longleftrightarrow> (\<forall>a \<in> set (accounts d). account_key a \<noteq> None)"

definition key_le :: "ledger_db \<Rightarrow> ledger_db \<Rightarrow> bool" where
  "key_le d d' \<longleftrightarrow> (\<forall>i k. keyOf d i = Some k \<longrightarrow> keyOf d' i = Some k) \<and> (keyed d \<longrightarrow> keyed d')"

definition empty_db :: ledger_db where
  "empty_db = \<lparr> accounts = [], entries = [], balances = [], reconciliations = [] \<rparr>"

lemma ledger_inv_empty [simp]: "ledger_inv empty_db" "journal empty_db = []"
  by (simp_all add: ledger_inv_def accounts_inv_def empty_db_def cachedBalance_def entrySum_def journal_def)

lemma key_le_refl [simp]: "key_le d d"
  by (simp add: key_le_def)

lemma key_le_trans: "key_le a b \<Longrightarrow> key_le b c \<Longrightarrow> key_le a c"
  by (simp add: key_le_def)

lemma accountMatches_key:
  assumes "missingArg t v u ad = None"
  shows "accountMatches t v u ad asset a \<longleftrightarrow> account_key a = Some (mk_key t v u ad asset)"
  using assms
  by (auto simp: accountMatches_def account_key_def mk_key_def missingArg_def Let_def ValidAccountTypes_def
      account_type_defs split: if_splits)

lemma keyOf_known:
  "accounts_inv d \<Longrightarrow> a \<in> set (accounts d) \<Longrightarrow> keyOf d (aID a) = account_key a"
proof -
  assume "accounts_inv d" and a: "a \<in> set (accounts d)"
  then have inj: "inj_on aID (set (accounts d))" by (simp add: accounts_inv_def distinct_map)
  obtain b where b: "List.find (\<lambda>x. aID x = aID a) (accounts d) = Some b"
    using a find_None_mem [of "\<lambda>x. aID x = aID a" "accounts d"] by force
  with find_Some_iff_mem [OF b] inj a have "b = a" by (auto dest: inj_onD)
  with b show ?thesis by (simp add: keyOf_def)
qed

lemma keyOf_append:
  "keyOf (d \<lparr> accounts := accounts d @ [a] \<rparr>) i =
     (if i \<in> aID ` set (accounts d) then keyOf d i else if aID a = i then account_key a else None)"
proof (cases "i \<in> aID ` set (accounts d)")
  case True
  then obtain b where "List.find (\<lambda>x. aID x = i) (accounts d) = Some b"
    using find_None_mem [of "\<lambda>x. aID x = i" "accounts d"] by fastforce
  with True show ?thesis by (simp add: keyOf_def find_append)
next
  case False
  then have "List.find (\<lambda>x. aID x = i) (accounts d) = None"
    by (auto simp: find_None_mem)
  with False show ?thesis by (simp add: keyOf_def find_append)
qed

lemma keyOf_None: "i \<notin> aID ` set (accounts d) \<Longrightarrow> keyOf d i = None"
  by (auto simp: keyOf_def find_None_mem split: option.splits dest: find_Some_iff_mem)

lemma same_key_sym: "same_key a b = same_key b a"
  unfolding same_key_def by metis

lemma insertAccount_inv:
  assumes inv: "ledger_inv d" and ins: "insertAccount a d = Inr (b, d')"
  shows "ledger_inv d' \<and> journal d' = journal d \<and> (account_key a \<noteq> None \<longrightarrow> key_le d d')"
proof (cases b)
  case False
  with ins have "d' = d" by (auto simp: insertAccount_def split: if_splits)
  with inv show ?thesis by simp
next
  case True
  with ins have d': "d' = d \<lparr> accounts := accounts d @ [a] \<rparr>"
    and fresh: "\<forall>x \<in> set (accounts d). aID x \<noteq> aID a \<and> \<not> same_key a x \<and> \<not> same_key x a"
    by (auto simp: insertAccount_def same_key_sym split: if_splits)
  have "accounts_inv d'"
    using inv fresh unfolding ledger_inv_def accounts_inv_def d' by (auto simp: image_iff)
  moreover have "journal d' = journal d"
    using inv by (auto simp: journal_def ledger_inv_def d' keyOf_append [unfolded d'])
  moreover have "account_key a \<noteq> None \<longrightarrow> key_le d d'"
    using keyOf_None [of _ d] unfolding key_le_def d' by (auto simp: keyOf_append keyed_def simp del: not_None_eq)
  ultimately show ?thesis
    using inv by (auto simp: ledger_inv_def d' cachedBalance_def entrySum_def)
qed

lemma find_map_update:
  assumes "\<And>b. bAccountID (f b) = bAccountID b"
  shows "List.find (\<lambda>b. bAccountID b = acc) (map f bs) = map_option f (List.find (\<lambda>b. bAccountID b = acc) bs)"
  by (induction bs) (auto simp: assms)

lemma upsertBalance_frame:
  "upsertBalance acc amt code unit now d = Inr (x, d') \<Longrightarrow>
   accounts d' = accounts d \<and> entries d' = entries d"
  by (auto simp: upsertBalance_def split: option.splits if_splits)

lemma upsertBalance_cached:
  "upsertBalance acc amt code unit now d = Inr (x, d') \<Longrightarrow>
   cachedBalance d' i = cachedBalance d i + (if i = acc then amt else 0)"
  by (auto simp: upsertBalance_def cachedBalance_def find_append find_map_update
      split: option.splits if_splits dest: find_Some_iff_mem)

lemma upsertBalance_rows:
  assumes "upsertBalance acc amt code unit now d = Inr (x, d')"
    and "distinct (map bAccountID (balances d))"
    and "\<forall>b \<in> set (balances d). bAccountID b \<in> A \<and> in_int64 (Bal b)" and "acc \<in> A"
  shows "distinct (map bAccountID (balances d')) \<and> (\<forall>b \<in> set (balances d'). bAccountID b \<in> A \<and> in_int64 (Bal b))"
proof (cases "List.find (\<lambda>b. bAccountID b = acc) (balances d)")
  case None
  then have "\<forall>b \<in> set (balances d). bAccountID b \<noteq> acc" by (simp add: find_None_mem)
  with None show ?thesis using assms
    by (auto simp: upsertBalance_def split: if_splits) blast
next
  case (Some b)
  let ?f = "\<lambda>c. if bAccountID c = acc
      then c \<lparr> Bal := Bal c + amt, bUpdatedAt := now, Version := Version c + 1 \<rparr> else c"
  have d': "balances d' = map ?f (balances d)" and ok: "in_int64 (Bal b + amt)"
    using assms(1) Some by (auto simp: upsertBalance_def split: if_splits)
  have "map bAccountID (balances d') = map bAccountID (balances d)" by (simp add: d')
  moreover have "\<forall>c \<in> set (balances d). bAccountID c = acc \<longrightarrow> c = b"
    using find_Some_iff_mem [OF Some] assms(2) by (auto simp: distinct_map dest: inj_onD)
  ultimately have "\<forall>c \<in> set (balances d'). bAccountID c \<in> A \<and> in_int64 (Bal c)"
    using assms(3) ok by (auto simp: d')
  then show ?thesis using assms(2) \<open>map bAccountID (balances d') = map bAccountID (balances d)\<close> by simp
qed

lemma post_step:
  assumes inv: "ledger_inv d" and ins: "insertEntry e d = Inr (x, d1)"
    and ups: "upsertBalance (AccountID e) (Amount e) code unit now d1 = Inr (y, d2)"
  shows "ledger_inv d2 \<and> journal d2 = journal d @ [(keyOf d (AccountID e), Amount e)] \<and> keyOf d2 = keyOf d
    \<and> keyed d2 = keyed d"
proof -
  have d1: "d1 = d \<lparr> entries := entries d @ [e] \<rparr>" and acc: "AccountID e \<in> aID ` set (accounts d)"
    using ins by (auto simp: insertEntry_def split: if_splits)
  have f: "accounts d2 = accounts d" "entries d2 = entries d @ [e]"
    using upsertBalance_frame [OF ups] by (auto simp: d1)
  have k: "keyOf d2 = keyOf d" by (rule ext) (simp add: keyOf_def f)
  have j: "journal d2 = journal d @ [(keyOf d (AccountID e), Amount e)]"
    by (simp add: journal_def f k)
  have rows: "distinct (map bAccountID (balances d2)) \<and>
      (\<forall>b \<in> set (balances d2). bAccountID b \<in> aID ` set (accounts d) \<and> in_int64 (Bal b))"
    by (rule upsertBalance_rows [OF ups]) (use inv acc in \<open>auto simp: ledger_inv_def d1\<close>)
  have "cachedBalance d2 i = entrySum d2 i" for i
  proof -
    have "cachedBalance d i = entrySum d i" using inv by (simp add: ledger_inv_def)
    moreover have "cachedBalance d1 i = cachedBalance d i" by (simp add: d1 cachedBalance_def)
    ultimately show ?thesis
      using upsertBalance_cached [OF ups, of i] by (auto simp: entrySum_def f)
  qed
  moreover have "accounts_inv d2" using inv f by (simp add: ledger_inv_def accounts_inv_def)
  moreover have "\<forall>x \<in> set (entries d2). AccountID x \<in> aID ` set (accounts d2)"
    using inv acc by (simp add: ledger_inv_def f)
  moreover have "keyed d2 = keyed d" by (simp only: keyed_def f)
  ultimately show ?thesis using rows j k by (simp add: ledger_inv_def f)
qed

section \<open>What the repository's transactions do\<close>

text \<open>Between statements of a transaction: the invariant holds, the journal is \<open>j\<close> and the keys extend those of \<open>d0\<close>.\<close>

definition at_journal :: "ledger_db \<Rightarrow> (acct_key option \<times> int) list \<Rightarrow> ledger_db dbw \<Rightarrow> bool" where
  "at_journal d0 j w \<longleftrightarrow> ledger_inv (data w) \<and> journal (data w) = j \<and> key_le d0 (data w)"

lemma at_journal_frame [simp]:
  "at_journal d0 j (w \<lparr> sched := fs \<rparr>) = at_journal d0 j w"
  "at_journal d0 j (w \<lparr> drawn := n \<rparr>) = at_journal d0 j w"
  by (simp_all add: at_journal_def)

lemma at_journal_cong: "data w' = data w \<Longrightarrow> at_journal d0 j w' = at_journal d0 j w"
  by (simp add: at_journal_def)

lemma hoare_uuid: "hoare (at_journal d0 j) (new_uuid gen) (\<lambda>_. at_journal d0 j)"
  by (auto simp: hoare_def new_uuid_def)

lemma hoare_now: "hoare (at_journal d0 j) time_now (\<lambda>_. at_journal d0 j)"
  by (auto simp: hoare_def time_now_def)

lemma getOrCreateAccountTx_hoare:
  "hoare (at_journal d0 j) (getOrCreateAccountTx gen t v u ad asset)
     (\<lambda>acc w. at_journal d0 j w \<and> keyOf (data w) (aID acc) = Some (mk_key t v u ad asset))"
proof (cases "ValidateAccountType t = None \<and> missingArg t v u ad = None")
  case False
  then show ?thesis by (auto simp: getOrCreateAccountTx_def Let_def split: option.splits)
next
  case True
  then have ok: "ValidateAccountType t = None" "missingArg t v u ad = None" by auto
  let ?Q = "\<lambda>acc w. at_journal d0 j w \<and> keyOf (data w) (aID acc) = Some (mk_key t v u ad asset)"
  let ?sel = "\<lambda>d. List.find (accountMatches t v u ad asset) (accounts d)"
  have found: "?sel (data w) = Some acc \<Longrightarrow> at_journal d0 j w \<Longrightarrow>
      keyOf (data w) (aID acc) = Some (mk_key t v u ad asset)" for acc w
    using find_Some_iff_mem [of "accountMatches t v u ad asset" "accounts (data w)" acc]
      keyOf_known [of "data w" acc] accountMatches_key [OF ok(2)]
    by (simp add: at_journal_def ledger_inv_def)
  have sel1: "hoare (at_journal d0 j) (query (\<lambda>d. Inr (?sel d)))
      (\<lambda>row w. at_journal d0 j w \<and> (\<forall>acc. row = Some acc \<longrightarrow> keyOf (data w) (aID acc) = Some (mk_key t v u ad asset)))"
    unfolding hoare_def
  proof (intro allI impI)
    fix w row w' assume "at_journal d0 j w" "query (\<lambda>d. Inr (?sel d)) w = (Inr row, w')"
    with query_Inr [OF this(2)] found [of w]
    show "at_journal d0 j w' \<and> (\<forall>acc. row = Some acc \<longrightarrow> keyOf (data w') (aID acc) = Some (mk_key t v u ad asset))"
      by (simp add: at_journal_cong [of w' w])
  qed
  have sel2: "hoare (at_journal d0 j) (query (\<lambda>d. case ?sel d of None \<Rightarrow> Inl ErrNoRows | Some acc \<Rightarrow> Inr acc)) ?Q"
    unfolding hoare_def
  proof (intro allI impI)
    fix w acc w'
    assume "at_journal d0 j w" "query (\<lambda>d. case ?sel d of None \<Rightarrow> Inl ErrNoRows | Some acc \<Rightarrow> Inr acc) w = (Inr acc, w')"
    with query_Inr [OF this(2)] found [of w]
    show "?Q acc w'" by (cases "?sel (data w)") (simp_all add: at_journal_cong [of w' w])
  qed
  have ins: "hoare (at_journal d0 j) (stmt (insertAccount a)) (\<lambda>_. at_journal d0 j)"
    if a: "accountMatches t v u ad asset a" for a
  proof (rule hoare_stmt)
    fix w x d assume "at_journal d0 j w" "insertAccount a (data w) = Inr (x, d)"
    then show "at_journal d0 j (w \<lparr> sched := tl (sched w), data := d \<rparr>)"
      using insertAccount_inv [of "data w" a x d] key_le_trans [of d0 "data w" d] accountMatches_key [OF ok(2), of asset a] a
      by (simp add: at_journal_def)
  qed
  show ?thesis
    unfolding getOrCreateAccountTx_def Let_def ok option.case
  proof (rule hoare_bind [OF sel1])
    fix row
    show "hoare (\<lambda>w. at_journal d0 j w \<and> (\<forall>acc. row = Some acc \<longrightarrow> keyOf (data w) (aID acc) = Some (mk_key t v u ad asset)))
      (case row of None \<Rightarrow> bind (new_uuid gen) (\<lambda>newID. bind time_now (\<lambda>now.
           bind (stmt (insertAccount \<lparr> aID = newID, AccountType = t, VaultID = v, UserID = u, AdapterName = ad,
             aAssetCode = asset, aAssetUnit = ''stroops'', Description = '''', aCreatedAt = now, aUpdatedAt = now \<rparr>)) (\<lambda>_.
           query (\<lambda>d. case ?sel d of None \<Rightarrow> Inl ErrNoRows | Some acc \<Rightarrow> Inr acc))))
       | Some acc \<Rightarrow> ret acc) ?Q"
    proof (cases row)
      case None
      show ?thesis unfolding None option.case
        by (rule hoare_weaken [OF hoare_bind [OF hoare_uuid hoare_bind [OF hoare_now hoare_bind [OF ins sel2]]]])
          (use ok(2) in \<open>auto simp: accountMatches_def missingArg_def account_type_defs split: if_splits\<close>)
    next
      case (Some acc)
      then show ?thesis by (auto intro: hoare_ret)
    qed
  qed
qed

lemma postEntriesTx_ConsE:
  assumes "postEntriesTx gen (e # es) w = (Inr a, w')"
  obtains e1 d1 w2 x y now where "AccountID e1 = AccountID e" "Amount e1 = Amount e"
    "insertEntry e1 (data w) = Inr (x, d1)"
    "upsertBalance (AccountID e1) (Amount e1) (eAssetCode e1) (eAssetUnit e1) now d1 = Inr (y, data w2)"
    "postEntriesTx gen es w2 = (Inr a, w')"
proof -
  from assms obtain newID wa now wb x w1 y w2 where
    h: "(if eID e = uuid_nil then new_uuid gen else ret (eID e)) w = (Inr newID :: lerror db_error + uuid, wa)"
      "time_now wa = (Inr now :: lerror db_error + time, wb)"
    and s: "stmt (insertEntry (prepareEntry newID now e)) wb = (Inr x, w1)"
      "stmt (upsertBalance (AccountID (prepareEntry newID now e)) (Amount (prepareEntry newID now e))
         (eAssetCode (prepareEntry newID now e)) (eAssetUnit (prepareEntry newID now e)) now) w1 = (Inr y, w2)"
      "postEntriesTx gen es w2 = (Inr a, w')"
    unfolding postEntriesTx.simps Let_def bind_Inr by blast
  have d: "data wb = data w"
    using h by (auto dest!: new_uuid_data time_now_data simp: ret_Inr split: if_splits)
  show thesis
    by (rule that [OF _ _ stmt_Inr [OF s(1), unfolded d] stmt_Inr [OF s(2)] s(3)])
      (simp_all add: prepareEntry_def)
qed

lemma postEntriesTx_hoare:
  "hoare (\<lambda>w. at_journal d0 j w \<and> keyOf (data w) = K) (postEntriesTx gen es)
     (\<lambda>_ w. at_journal d0 (j @ map (\<lambda>e. (K (AccountID e), Amount e)) es) w \<and> keyOf (data w) = K)"
proof (induction es arbitrary: j)
  case Nil
  show ?case by (auto intro: hoare_ret)
next
  case (Cons e es)
  show ?case unfolding hoare_def
  proof (intro allI impI)
    fix w a w'
    assume pre: "at_journal d0 j w \<and> keyOf (data w) = K" and run: "postEntriesTx gen (e # es) w = (Inr a, w')"
    from run obtain e1 d1 w2 x y now where ids: "AccountID e1 = AccountID e" "Amount e1 = Amount e"
      and i: "insertEntry e1 (data w) = Inr (x, d1)"
      and u: "upsertBalance (AccountID e1) (Amount e1) (eAssetCode e1) (eAssetUnit e1) now d1 = Inr (y, data w2)"
      and rest: "postEntriesTx gen es w2 = (Inr a, w')"
      by (rule postEntriesTx_ConsE)
    have "at_journal d0 (j @ [(K (AccountID e), Amount e)]) w2 \<and> keyOf (data w2) = K"
      using post_step [OF _ i u] pre ids by (auto simp: at_journal_def key_le_def)
    from hoareD [OF Cons.IH this rest]
    show "at_journal d0 (j @ map (\<lambda>e. (K (AccountID e), Amount e)) (e # es)) w' \<and> keyOf (data w') = K"
      by simp
  qed
qed

section \<open>What the reads return\<close>

definition jsum :: "(acct_key option \<Rightarrow> bool) \<Rightarrow> (acct_key option \<times> int) list \<Rightarrow> int" where
  "jsum K j = sum_list (map snd (filter (\<lambda>(k, x). K k) j))"

lemma jsum_simps [simp]:
  "jsum K [] = 0" "jsum K ((k, x) # j) = (if K k then x else 0) + jsum K j"
  "jsum K (i @ j) = jsum K i + jsum K j"
  by (simp_all add: jsum_def)

lemma joinBalances_sum:
  assumes "distinct (map bAccountID (balances d))"
  shows "sum_list (map (\<lambda>(a, b). Bal b) (joinBalances P d))
       = sum_list (map (\<lambda>a. cachedBalance d (aID a)) (filter P (accounts d)))"
proof -
  have row: "sum_list (map Bal (filter (\<lambda>b. bAccountID b = i) bs))
      = (case List.find (\<lambda>b. bAccountID b = i) bs of None \<Rightarrow> 0 | Some b \<Rightarrow> Bal b)"
    if "distinct (map bAccountID bs)" for i bs
    using that
  proof (induction bs)
    case (Cons b bs)
    then show ?case
      by (cases "bAccountID b = i") (auto simp: image_iff split: option.splits dest!: find_Some_iff_mem)
  qed simp
  have "sum_list (map (\<lambda>(a, b). Bal b) (concat (map (\<lambda>a. map (\<lambda>b. (a, b))
          (filter (\<lambda>b. bAccountID b = aID a) (balances d))) as)))
      = sum_list (map (\<lambda>a. cachedBalance d (aID a)) as)" for as :: "account list"
    by (induction as) (auto simp: row [OF assms] cachedBalance_def o_def)
  then show ?thesis by (simp add: joinBalances_def)
qed

lemma entrySum_by_account:
  assumes "distinct (map aID as)" "\<forall>e \<in> set es. AccountID e \<in> aID ` set as"
    and "\<forall>a \<in> set as. P a \<longleftrightarrow> K (f (aID a))"
  shows "sum_list (map (\<lambda>a. sum_list (map Amount (filter (\<lambda>e. AccountID e = aID a) es))) (filter P as))
       = jsum K (map (\<lambda>e. (f (AccountID e), Amount e)) es)"
  using assms(2)
proof (induction es)
  case Nil
  show ?case by (induction as) auto
next
  case (Cons e es)
  then obtain a where a: "a \<in> set as" "aID a = AccountID e" by auto
  have one: "sum_list (map (\<lambda>a. if AccountID e = aID a then Amount e else 0) (filter P as))
      = (if K (f (AccountID e)) then Amount e else 0)"
    using assms(1,3) a
  proof (induction as)
    case (Cons b bs)
    have zero: "sum_list (map (\<lambda>a. if aID b = aID a then x else 0) (filter P bs)) = 0" for x :: int
      using Cons.prems(1) by (induction bs) auto
    show ?case
    proof (cases "aID b = AccountID e")
      case True
      then show ?thesis using Cons.prems zero [of "Amount e"] by (auto simp: image_iff)
    next
      case False
      then show ?thesis using Cons by auto
    qed
  qed simp
  have "sum_list (map (\<lambda>a. sum_list (map Amount (filter (\<lambda>x. AccountID x = aID a) (e # es)))) (filter P as))
    = sum_list (map (\<lambda>a. (if AccountID e = aID a then Amount e else 0)
        + sum_list (map Amount (filter (\<lambda>x. AccountID x = aID a) es))) (filter P as))"
    by (rule arg_cong [where f = sum_list]) auto
  also have "\<dots> = (if K (f (AccountID e)) then Amount e else 0) + jsum K (map (\<lambda>e. (f (AccountID e), Amount e)) es)"
    using Cons by (simp only: sum_list_addf one) auto
  finally show ?case by simp
qed

text \<open>The sum of the balances of the accounts that satisfy a predicate of their key is read off the journal.\<close>

lemma join_journal:
  assumes inv: "ledger_inv d" and P: "\<forall>a \<in> set (accounts d). P a \<longleftrightarrow> K (account_key a)"
  shows "sum_list (map (\<lambda>(a, b). Bal b) (joinBalances P d)) = jsum K (journal d)"
proof -
  have "sum_list (map (\<lambda>a. cachedBalance d (aID a)) (filter P (accounts d)))
      = sum_list (map (\<lambda>a. entrySum d (aID a)) (filter P (accounts d)))"
    using inv by (simp add: ledger_inv_def)
  also have "\<dots> = jsum K (journal d)"
    unfolding entrySum_def journal_def
    by (rule entrySum_by_account) (use inv P keyOf_known [of d] in \<open>auto simp: ledger_inv_def accounts_inv_def\<close>)
  finally show ?thesis using joinBalances_sum [of d P] inv by (simp add: ledger_inv_def)
qed

lemma firstBalance_journal:
  assumes inv: "ledger_inv d" and P: "\<forall>a \<in> set (accounts d). P a \<longleftrightarrow> account_key a = Some k"
  shows "firstBalance P d = jsum (\<lambda>k'. k' = Some k) (journal d) \<and> in_int64 (firstBalance P d)"
proof -
  have "filter P (accounts d) = [] \<or> (\<exists>a. filter P (accounts d) = [a])"
  proof (cases "filter P (accounts d)")
    case (Cons a as)
    have "set as \<subseteq> {a}"
    proof
      fix b assume "b \<in> set as"
      then have "b \<in> set (filter P (accounts d))" "a \<in> set (filter P (accounts d))" using Cons by auto
      then have "same_key a b" "a \<in> set (accounts d)" "b \<in> set (accounts d)" using P by (auto simp: same_key_def)
      with inv show "b \<in> {a}" by (auto simp: ledger_inv_def accounts_inv_def)
    qed
    moreover have "distinct (filter P (accounts d))"
      using inv by (simp add: ledger_inv_def accounts_inv_def distinct_map)
    ultimately have "as = []" using Cons by (cases as) auto
    with Cons show ?thesis by blast
  qed simp
  then have "length (joinBalances P d) \<le> 1"
  proof
    assume "\<exists>a. filter P (accounts d) = [a]"
    then obtain a where "joinBalances P d = map (\<lambda>b. (a, b)) (filter (\<lambda>b. bAccountID b = aID a) (balances d))"
      by (auto simp: joinBalances_def)
    moreover have "length (filter (\<lambda>b. bAccountID b = i) bs) \<le> 1" if "distinct (map bAccountID bs)" for i bs
      using that by (induction bs) (auto simp: filter_empty_conv image_iff)
    ultimately show ?thesis using inv by (metis length_map ledger_inv_def)
  qed (simp add: joinBalances_def)
  moreover have "\<forall>(a, b) \<in> set (joinBalances P d). in_int64 (Bal b)"
    using inv by (auto simp: joinBalances_def ledger_inv_def)
  moreover have "in_int64 0" by (simp add: in_int64_def int64_min_def int64_max_def)
  ultimately show ?thesis
    using join_journal [OF inv P] unfolding firstBalance_def
    by (cases "joinBalances P d") (auto split: prod.splits)
qed

section \<open>Properties of the repository\<close>

text \<open>
  The balance check accepts a transaction exactly when it has at least two entries, one
  common transaction id that is not nil, no zero amount, no nil account, and amounts that sum to
  zero; this holds whenever the absolute amounts add up to less than 2^64, where the int64
  accumulator, which wraps silently, cannot return to zero by overflow.
\<close>

theorem validate_balanced_exact:
  assumes "sum_list (map (\<lambda>e. \<bar>Amount e\<bar>) es) < 2 ^ 64"
  shows "ValidateBalanced es = None \<longleftrightarrow>
     2 \<le> length es \<and> TransactionID (hd es) \<noteq> uuid_nil
     \<and> (\<forall>e \<in> set es. TransactionID e = TransactionID (hd es) \<and> Amount e \<noteq> 0 \<and> AccountID e \<noteq> uuid_nil)
     \<and> sum_list (map Amount es) = 0"
proof -
  have "\<bar>sum_list (map Amount es)\<bar> \<le> sum_list (map (\<lambda>e. \<bar>Amount e\<bar>) es)"
    by (induction es) auto
  with assms have "wrap64 (sum_list (map Amount es)) = 0 \<longleftrightarrow> sum_list (map Amount es) = 0"
    using dvd_small_int_zero [of "sum_list (map Amount es)"] by (auto simp: wrap64_eq_0_iff)
  then show ?thesis by (simp add: ValidateBalanced_None_iff)
qed

definition sample_entry :: "uuid \<Rightarrow> int \<Rightarrow> entry" where
  "sample_entry acc amount = \<lparr> eID = 0, TransactionID = 7, AccountID = acc, Amount = amount, Direction = '''',
     eCreatedAt = 0, DomainEventType = ''deposit'', DomainEventID = ''d1'', eAssetCode = '''', eAssetUnit = '''' \<rparr>"

theorem validate_balanced_exact_witness:
  "ValidateBalanced [sample_entry 1 5, sample_entry 2 (-5)] = None
   \<and> ValidateBalanced [sample_entry 1 5, sample_entry 2 (-4)] \<noteq> None"
  using validate_balanced_exact [of "[sample_entry 1 5, sample_entry 2 (-5)]"]
    validate_balanced_exact [of "[sample_entry 1 5, sample_entry 2 (-4)]"]
  by (simp add: sample_entry_def uuid_nil_def)

lemma getOrCreateAccountTx_selects:
  assumes "getOrCreateAccountTx gen t v u ad asset w = (Inr acc, w')"
  shows "List.find (accountMatches t v u ad asset) (accounts (data w')) = Some acc"
    and "List.find (accountMatches t v u ad asset) (accounts (data w)) = Some a \<Longrightarrow> acc = a \<and> data w' = data w"
    and "missingArg t v u ad = None"
proof -
  let ?sel = "\<lambda>d. List.find (accountMatches t v u ad asset) (accounts d)"
  have ok: "ValidateAccountType t = None" "missingArg t v u ad = None"
    using assms by (auto simp: getOrCreateAccountTx_def fail_def Let_def split: option.splits)
  show "missingArg t v u ad = None" by (rule ok)
  from assms [unfolded getOrCreateAccountTx_def Let_def ok option.case bind_Inr]
  obtain row w1 where q: "query (\<lambda>d. Inr (?sel d)) w = (Inr row :: lerror db_error + _, w1)"
    and r: "(case row of None \<Rightarrow> bind (new_uuid gen) (\<lambda>newID. bind time_now (\<lambda>now.
           bind (stmt (insertAccount \<lparr> aID = newID, AccountType = t, VaultID = v, UserID = u, AdapterName = ad,
             aAssetCode = asset, aAssetUnit = ''stroops'', Description = '''', aCreatedAt = now, aUpdatedAt = now \<rparr>)) (\<lambda>_.
           query (\<lambda>d. case ?sel d of None \<Rightarrow> Inl ErrNoRows | Some acc \<Rightarrow> Inr acc))))
       | Some acc \<Rightarrow> ret acc) w1 = (Inr acc, w')"
    by blast
  have row: "row = ?sel (data w)" and d1: "data w1 = data w" using query_Inr [OF q] by auto
  show "?sel (data w') = Some acc"
  proof (cases row)
    case (Some a)
    show ?thesis using r [unfolded Some option.case ret_Inr] row d1 Some by simp
  next
    case None
    from r [unfolded None option.case bind_Inr] obtain w2 where
      "query (\<lambda>d. case ?sel d of None \<Rightarrow> Inl ErrNoRows | Some acc \<Rightarrow> Inr acc) w2 = (Inr acc :: lerror db_error + _, w')"
      by blast
    from query_Inr [OF this] show ?thesis by (auto split: option.splits)
  qed
  show "?sel (data w) = Some a \<Longrightarrow> acc = a \<and> data w' = data w"
    using r row d1 by (auto simp: ret_Inr)
qed

text \<open>
  Get-or-create resolves one account per key. Starting from a consistent database, a
  successful call leaves the account it returns as the only one with the requested key, and any
  later successful call with the same arguments returns that very account and changes nothing.
\<close>

theorem get_or_create_unique:
  assumes "ledger_inv (data w)"
    and "pgGetOrCreateAccount gen t v u ad asset w = (Inr acc, w1)"
    and "data w2 = data w1"
    and "pgGetOrCreateAccount gen t v u ad asset w2 = (Inr acc', w3)"
  shows "acc' = acc \<and> data w3 = data w1
    \<and> filter (\<lambda>a. account_key a = Some (mk_key t v u ad (if asset = [] then ''USDC'' else asset))) (accounts (data w1)) = [acc]"
proof -
  let ?asset = "if asset = [] then ''USDC'' else asset"
  let ?M = "accountMatches t v u ad ?asset"
  obtain wa where a: "getOrCreateAccountTx gen t v u ad ?asset (w \<lparr> sched := tl (sched w) \<rparr>) = (Inr acc, wa)" "data w1 = data wa"
    using assms(2) transaction_Inr by (fastforce simp: pgGetOrCreateAccount_def Let_def)
  obtain wb where b: "getOrCreateAccountTx gen t v u ad ?asset (w2 \<lparr> sched := tl (sched w2) \<rparr>) = (Inr acc', wb)" "data w3 = data wb"
    using assms(4) transaction_Inr by (fastforce simp: pgGetOrCreateAccount_def Let_def)
  have sel: "List.find ?M (accounts (data w1)) = Some acc"
    using getOrCreateAccountTx_selects(1) [OF a(1)] a(2) by simp
  have same: "acc' = acc \<and> data w3 = data w1"
    using getOrCreateAccountTx_selects(2) [OF b(1)] sel assms(3) b(2) by simp
  have "at_journal (data w) (journal (data w)) (w \<lparr> sched := tl (sched w) \<rparr>)"
    using assms(1) by (simp add: at_journal_def)
  from hoareD [OF getOrCreateAccountTx_hoare this a(1)] have inv: "ledger_inv (data w1)"
    by (simp add: at_journal_def a(2))
  have key: "?M x \<longleftrightarrow> account_key x = Some (mk_key t v u ad ?asset)" for x
    by (rule accountMatches_key [OF getOrCreateAccountTx_selects(3) [OF a(1)]])
  let ?F = "filter (\<lambda>x. account_key x = Some (mk_key t v u ad ?asset)) (accounts (data w1))"
  have mem: "acc \<in> set ?F" using find_Some_iff_mem [OF sel] key by simp
  have "\<forall>x \<in> set ?F. x = acc"
    using mem inv by (auto simp: ledger_inv_def accounts_inv_def same_key_def)
  moreover have "distinct ?F" using inv by (simp add: ledger_inv_def accounts_inv_def distinct_map)
  ultimately have "?F = [acc]" using mem by (cases ?F) (auto, metis list.set_intros(1) neq_Nil_conv)
  with same show ?thesis by blast
qed

definition empty_world :: "faults \<Rightarrow> ledger_db dbw" where
  "empty_world fs = \<lparr> data = empty_db, sched = fs, drawn = 0, wall = 1000 \<rparr>"

theorem get_or_create_unique_witness:
  "case pgGetOrCreateAccount Suc ''vault_asset_pool'' (Some 4) None None '''' (empty_world []) of
     (Inr acc, w1) \<Rightarrow>
       (case pgGetOrCreateAccount Suc ''vault_asset_pool'' (Some 4) None None '''' w1 of
          (Inr acc', w2) \<Rightarrow> acc' = acc \<and> accounts (data w2) = [acc]
        | _ \<Rightarrow> False)
   | _ \<Rightarrow> False"
proof -
  let ?m = "pgGetOrCreateAccount Suc ''vault_asset_pool'' (Some 4) None None ''''"
  have "case ?m (empty_world []) of (Inr acc, w1) \<Rightarrow>
      (case ?m w1 of (Inr acc', w2) \<Rightarrow> length (accounts (data w1)) = 1 \<and>
          list_all (\<lambda>a. account_key a = Some (mk_key ''vault_asset_pool'' (Some 4) None None ''USDC'')) (accounts (data w1))
       | _ \<Rightarrow> False) | _ \<Rightarrow> False"
    by code_simp
  then obtain acc w1 acc' w2 where r: "?m (empty_world []) = (Inr acc, w1)" "?m w1 = (Inr acc', w2)"
    and l: "list_all (\<lambda>a. account_key a = Some (mk_key ''vault_asset_pool'' (Some 4) None None ''USDC'')) (accounts (data w1))"
    by (auto split: prod.splits sum.splits)
  have "ledger_inv (data (empty_world []))" by (simp add: empty_world_def)
  from get_or_create_unique [OF this r(1) refl r(2)] l have "acc' = acc \<and> data w2 = data w1 \<and> accounts (data w1) = [acc]"
    by (auto simp: list_all_iff filter_id_conv)
  with r show ?thesis by simp
qed

end
