(* ===== verification/Ledger_Service.thy ===== *)
theory Ledger_Service
  imports Ledger
begin

text \<open>
  \<^verbatim>\<open>internal/service/ledger_service.go\<close>: the posting of deposits, withdrawals, harvests and
  rebalances as balanced transactions, over the interface \<^verbatim>\<open>ledger.Repository\<close>, and the
  reconciliation job of \<^verbatim>\<open>internal/scheduler/ledger_reconciliation.go\<close>. The interface is a record
  of operations; its contract is the locale \<open>ledger_repository\<close>, in which the service is proved
  once, and which is interpreted on the PostgreSQL repository. The decimal library is a
  parameter: rounding to an integer, the integer part and division.
\<close>

section \<open>The interface and the service\<close>

record 'd repository =
  GetOrCreateAccount :: "string \<Rightarrow> uuid option \<Rightarrow> uuid option \<Rightarrow> string option \<Rightarrow> string \<Rightarrow> ('d, lerror, account) db"
  GetOrCreateAccountTx :: "string \<Rightarrow> uuid option \<Rightarrow> uuid option \<Rightarrow> string option \<Rightarrow> string \<Rightarrow> ('d, lerror, account) db"
  PostEntries :: "entry list \<Rightarrow> ('d, lerror, unit) db"
  PostEntriesTx :: "bool \<Rightarrow> entry list \<Rightarrow> ('d, lerror, unit) db"
  GetUserVaultBalance :: "uuid \<Rightarrow> uuid \<Rightarrow> ('d, lerror, int) db"
  GetVaultPoolBalance :: "uuid \<Rightarrow> ('d, lerror, int) db"
  SumUserPositionBalances :: "uuid \<Rightarrow> ('d, lerror, int) db"
  SumAllEntries :: "('d, lerror, int) db"
  RecomputeBalances :: "('d, lerror, balance_mismatch list) db"
  CreateReconciliationRecord :: "reconciliation_record \<Rightarrow> ('d, lerror, unit) db"
  ListAllBalances :: "('d, lerror, balance list) db"

record 'd ledger_service =
  repo :: "'d repository"
  hasDB :: bool

record decimal_lib =
  Round0 :: "rat \<Rightarrow> rat"
  IntPart :: "rat \<Rightarrow> int"
  Div :: "rat \<Rightarrow> rat \<Rightarrow> rat"

definition decimalToStroops :: "decimal_lib \<Rightarrow> rat \<Rightarrow> int" where
  "decimalToStroops dec d = IntPart dec (Round0 dec (d * 10000000))"

definition stroopsToDecimal :: "decimal_lib \<Rightarrow> int \<Rightarrow> rat" where
  "stroopsToDecimal dec s = Div dec (of_int s) 10000000"

definition mkEntry :: "uuid \<Rightarrow> string \<Rightarrow> string \<Rightarrow> uuid \<Rightarrow> int \<Rightarrow> entry" where
  "mkEntry txID evType evID acc amount =
     \<lparr> eID = uuid_nil, TransactionID = txID, AccountID = acc, Amount = amount,
       Direction = DirectionFromAmount amount, eCreatedAt = 0, DomainEventType = evType,
       DomainEventID = evID, eAssetCode = ''USDC'', eAssetUnit = ''stroops'' \<rparr>"

subsection \<open>Deposits\<close>

definition depositEntries :: "uuid \<Rightarrow> string \<Rightarrow> uuid \<Rightarrow> uuid \<Rightarrow> uuid \<Rightarrow> int \<Rightarrow> entry list" where
  "depositEntries txID evID userAcc vaultAcc suspenseAcc stroops =
     [mkEntry txID ''deposit'' evID userAcc stroops,
      mkEntry txID ''deposit'' evID vaultAcc stroops,
      mkEntry txID ''deposit'' evID suspenseAcc (wrap64 (- 2 * stroops))]"

definition postDepositDirect :: "(nat \<Rightarrow> uuid) \<Rightarrow> 'd repository \<Rightarrow> uuid \<Rightarrow> uuid \<Rightarrow> int \<Rightarrow> string \<Rightarrow> ('d, lerror, unit) db" where
  "postDepositDirect gen R vaultID userID stroops evID =
     bind (GetOrCreateAccount R AccountTypeUserVaultPosition (Some vaultID) (Some userID) None ''USDC'') (\<lambda>userAcc.
     bind (GetOrCreateAccount R AccountTypeVaultAssetPool (Some vaultID) None None ''USDC'') (\<lambda>vaultAcc.
     bind (GetOrCreateAccount R AccountTypeSystemSuspense None None None ''USDC'') (\<lambda>suspenseAcc.
     bind (new_uuid gen) (\<lambda>txID.
       PostEntries R (depositEntries txID evID (aID userAcc) (aID vaultAcc) (aID suspenseAcc) stroops)))))"

definition postDepositWithTx :: "(nat \<Rightarrow> uuid) \<Rightarrow> 'd repository \<Rightarrow> uuid \<Rightarrow> uuid \<Rightarrow> int \<Rightarrow> string \<Rightarrow> ('d, lerror, unit) db" where
  "postDepositWithTx gen R vaultID userID stroops evID =
     bind (GetOrCreateAccountTx R AccountTypeUserVaultPosition (Some vaultID) (Some userID) None ''USDC'') (\<lambda>userAcc.
     bind (GetOrCreateAccountTx R AccountTypeVaultAssetPool (Some vaultID) None None ''USDC'') (\<lambda>vaultAcc.
     bind (GetOrCreateAccountTx R AccountTypeSystemSuspense None None None ''USDC'') (\<lambda>suspenseAcc.
     bind (new_uuid gen) (\<lambda>txID.
       PostEntriesTx R True (depositEntries txID evID (aID userAcc) (aID vaultAcc) (aID suspenseAcc) stroops)))))"

definition PostDeposit :: "(nat \<Rightarrow> uuid) \<Rightarrow> decimal_lib \<Rightarrow> 'd ledger_service \<Rightarrow> bool \<Rightarrow> uuid \<Rightarrow> uuid \<Rightarrow> rat \<Rightarrow> string \<Rightarrow> ('d, lerror, unit) db" where
  "PostDeposit gen dec s tx vaultID userID amount evID =
     (let stroops = decimalToStroops dec amount
      in if stroops \<le> 0 then fail (App (ErrNotPositive ''deposit''))
         else if \<not> tx then
           (if \<not> hasDB s then postDepositDirect gen (repo s) vaultID userID stroops evID
            else transaction (postDepositWithTx gen (repo s) vaultID userID stroops evID))
         else postDepositWithTx gen (repo s) vaultID userID stroops evID)"

subsection \<open>Withdrawals\<close>

definition withdrawalEntries :: "uuid \<Rightarrow> string \<Rightarrow> uuid \<Rightarrow> uuid \<Rightarrow> uuid \<Rightarrow> int \<Rightarrow> entry list" where
  "withdrawalEntries txID evID userAcc vaultAcc suspenseAcc stroops =
     [mkEntry txID ''withdraw'' evID userAcc (wrap64 (- stroops)),
      mkEntry txID ''withdraw'' evID vaultAcc (wrap64 (- stroops)),
      mkEntry txID ''withdraw'' evID suspenseAcc (wrap64 (2 * stroops))]"

definition postWithdrawalDirect :: "(nat \<Rightarrow> uuid) \<Rightarrow> 'd repository \<Rightarrow> uuid \<Rightarrow> uuid \<Rightarrow> int \<Rightarrow> string \<Rightarrow> ('d, lerror, unit) db" where
  "postWithdrawalDirect gen R vaultID userID stroops evID =
     bind (GetOrCreateAccount R AccountTypeUserVaultPosition (Some vaultID) (Some userID) None ''USDC'') (\<lambda>userAcc.
     bind (GetOrCreateAccount R AccountTypeVaultAssetPool (Some vaultID) None None ''USDC'') (\<lambda>vaultAcc.
     bind (GetOrCreateAccount R AccountTypeSystemSuspense None None None ''USDC'') (\<lambda>suspenseAcc.
     bind (new_uuid gen) (\<lambda>txID.
       PostEntries R (withdrawalEntries txID evID (aID userAcc) (aID vaultAcc) (aID suspenseAcc) stroops)))))"

definition postWithdrawalWithTx :: "(nat \<Rightarrow> uuid) \<Rightarrow> 'd repository \<Rightarrow> uuid \<Rightarrow> uuid \<Rightarrow> int \<Rightarrow> string \<Rightarrow> ('d, lerror, unit) db" where
  "postWithdrawalWithTx gen R vaultID userID stroops evID =
     bind (GetOrCreateAccountTx R AccountTypeUserVaultPosition (Some vaultID) (Some userID) None ''USDC'') (\<lambda>userAcc.
     bind (GetOrCreateAccountTx R AccountTypeVaultAssetPool (Some vaultID) None None ''USDC'') (\<lambda>vaultAcc.
     bind (GetOrCreateAccountTx R AccountTypeSystemSuspense None None None ''USDC'') (\<lambda>suspenseAcc.
     bind (new_uuid gen) (\<lambda>txID.
       PostEntriesTx R True (withdrawalEntries txID evID (aID userAcc) (aID vaultAcc) (aID suspenseAcc) stroops)))))"

definition PostWithdrawal :: "(nat \<Rightarrow> uuid) \<Rightarrow> decimal_lib \<Rightarrow> 'd ledger_service \<Rightarrow> bool \<Rightarrow> uuid \<Rightarrow> uuid \<Rightarrow> rat \<Rightarrow> string \<Rightarrow> ('d, lerror, unit) db" where
  "PostWithdrawal gen dec s tx vaultID userID amount evID =
     (let stroops = decimalToStroops dec amount
      in if stroops \<le> 0 then fail (App (ErrNotPositive ''withdrawal''))
         else if \<not> tx then
           (if \<not> hasDB s then postWithdrawalDirect gen (repo s) vaultID userID stroops evID
            else transaction (postWithdrawalWithTx gen (repo s) vaultID userID stroops evID))
         else postWithdrawalWithTx gen (repo s) vaultID userID stroops evID)"

subsection \<open>Harvests\<close>

text \<open>The legs of a harvest before the zero amounts are filtered out.\<close>

definition harvestEntries :: "uuid \<Rightarrow> string \<Rightarrow> uuid \<Rightarrow> uuid \<Rightarrow> uuid \<Rightarrow> uuid \<Rightarrow> uuid \<Rightarrow> int \<Rightarrow> int \<Rightarrow> int \<Rightarrow> entry list" where
  "harvestEntries txID evID vaultAcc userAcc feeAcc yieldAcc suspenseAcc net fee gross =
     [mkEntry txID ''harvest'' evID vaultAcc net,
      mkEntry txID ''harvest'' evID userAcc net,
      mkEntry txID ''harvest'' evID feeAcc fee,
      mkEntry txID ''harvest'' evID yieldAcc (wrap64 (- gross)),
      mkEntry txID ''harvest'' evID suspenseAcc (wrap64 (- net))]"

definition postHarvestDirect :: "(nat \<Rightarrow> uuid) \<Rightarrow> 'd repository \<Rightarrow> uuid \<Rightarrow> uuid \<Rightarrow> int \<Rightarrow> int \<Rightarrow> int \<Rightarrow> string \<Rightarrow> string \<Rightarrow> ('d, lerror, unit) db" where
  "postHarvestDirect gen R vaultID userID net fee gross adapterName evID =
     bind (GetOrCreateAccount R AccountTypeVaultAssetPool (Some vaultID) None None ''USDC'') (\<lambda>vaultAcc.
     bind (GetOrCreateAccount R AccountTypeUserVaultPosition (Some vaultID) (Some userID) None ''USDC'') (\<lambda>userAcc.
     bind (GetOrCreateAccount R AccountTypeFee None None None ''USDC'') (\<lambda>feeAcc.
     bind (GetOrCreateAccount R AccountTypeYieldSource None None (Some adapterName) ''USDC'') (\<lambda>yieldAcc.
     bind (GetOrCreateAccount R AccountTypeSystemSuspense None None None ''USDC'') (\<lambda>suspenseAcc.
     bind (new_uuid gen) (\<lambda>txID.
       let filtered = filter (\<lambda>e. Amount e \<noteq> 0)
             (harvestEntries txID evID (aID vaultAcc) (aID userAcc) (aID feeAcc) (aID yieldAcc) (aID suspenseAcc) net fee gross)
       in if length filtered < 2 then ret () else PostEntries R filtered))))))"

definition postHarvestWithTx :: "(nat \<Rightarrow> uuid) \<Rightarrow> 'd repository \<Rightarrow> uuid \<Rightarrow> uuid \<Rightarrow> int \<Rightarrow> int \<Rightarrow> int \<Rightarrow> string \<Rightarrow> string \<Rightarrow> ('d, lerror, unit) db" where
  "postHarvestWithTx gen R vaultID userID net fee gross adapterName evID =
     bind (GetOrCreateAccountTx R AccountTypeVaultAssetPool (Some vaultID) None None ''USDC'') (\<lambda>vaultAcc.
     bind (GetOrCreateAccountTx R AccountTypeUserVaultPosition (Some vaultID) (Some userID) None ''USDC'') (\<lambda>userAcc.
     bind (GetOrCreateAccountTx R AccountTypeFee None None None ''USDC'') (\<lambda>feeAcc.
     bind (GetOrCreateAccountTx R AccountTypeYieldSource None None (Some adapterName) ''USDC'') (\<lambda>yieldAcc.
     bind (GetOrCreateAccountTx R AccountTypeSystemSuspense None None None ''USDC'') (\<lambda>suspenseAcc.
     bind (new_uuid gen) (\<lambda>txID.
       let filtered = filter (\<lambda>e. Amount e \<noteq> 0)
             (harvestEntries txID evID (aID vaultAcc) (aID userAcc) (aID feeAcc) (aID yieldAcc) (aID suspenseAcc) net fee gross)
       in if length filtered < 2 then ret () else PostEntriesTx R True filtered))))))"

text \<open>
  \<^verbatim>\<open>PostHarvest\<close> compares the gross amount with net plus fee, but the branch it takes on a mismatch
  is empty: the comparison has no effect.
\<close>

definition PostHarvest :: "(nat \<Rightarrow> uuid) \<Rightarrow> decimal_lib \<Rightarrow> 'd ledger_service \<Rightarrow> bool \<Rightarrow> uuid \<Rightarrow> uuid \<Rightarrow> rat \<Rightarrow> rat \<Rightarrow> rat \<Rightarrow> string \<Rightarrow> string \<Rightarrow> ('d, lerror, unit) db" where
  "PostHarvest gen dec s tx vaultID userID netYield fee grossYield adapterName evID =
     (let net = decimalToStroops dec netYield; feeS = decimalToStroops dec fee; gross = decimalToStroops dec grossYield
      in if \<not> tx then
           (if hasDB s then transaction (postHarvestWithTx gen (repo s) vaultID userID net feeS gross adapterName evID)
            else postHarvestDirect gen (repo s) vaultID userID net feeS gross adapterName evID)
         else postHarvestWithTx gen (repo s) vaultID userID net feeS gross adapterName evID)"

subsection \<open>Rebalances\<close>

definition rebalanceEntries :: "uuid \<Rightarrow> string \<Rightarrow> uuid \<Rightarrow> uuid \<Rightarrow> int \<Rightarrow> entry list" where
  "rebalanceEntries txID evID fromAcc toAcc stroops =
     [mkEntry txID ''rebalance'' evID fromAcc (wrap64 (- stroops)), mkEntry txID ''rebalance'' evID toAcc stroops]"

definition postRebalanceDirect :: "(nat \<Rightarrow> uuid) \<Rightarrow> 'd repository \<Rightarrow> uuid \<Rightarrow> string \<Rightarrow> string \<Rightarrow> int \<Rightarrow> string \<Rightarrow> ('d, lerror, unit) db" where
  "postRebalanceDirect gen R vaultID fromAdapter toAdapter stroops evID =
     bind (GetOrCreateAccount R AccountTypeYieldSource None None (Some fromAdapter) ''USDC'') (\<lambda>fromAcc.
     bind (GetOrCreateAccount R AccountTypeYieldSource None None (Some toAdapter) ''USDC'') (\<lambda>toAcc.
     bind (new_uuid gen) (\<lambda>txID.
       PostEntries R (rebalanceEntries txID evID (aID fromAcc) (aID toAcc) stroops))))"

definition postRebalanceWithTx :: "(nat \<Rightarrow> uuid) \<Rightarrow> 'd repository \<Rightarrow> uuid \<Rightarrow> string \<Rightarrow> string \<Rightarrow> int \<Rightarrow> string \<Rightarrow> ('d, lerror, unit) db" where
  "postRebalanceWithTx gen R vaultID fromAdapter toAdapter stroops evID =
     bind (GetOrCreateAccountTx R AccountTypeYieldSource None None (Some fromAdapter) ''USDC'') (\<lambda>fromAcc.
     bind (GetOrCreateAccountTx R AccountTypeYieldSource None None (Some toAdapter) ''USDC'') (\<lambda>toAcc.
     bind (new_uuid gen) (\<lambda>txID.
       PostEntriesTx R True (rebalanceEntries txID evID (aID fromAcc) (aID toAcc) stroops))))"

definition PostRebalance :: "(nat \<Rightarrow> uuid) \<Rightarrow> decimal_lib \<Rightarrow> 'd ledger_service \<Rightarrow> bool \<Rightarrow> uuid \<Rightarrow> string \<Rightarrow> string \<Rightarrow> rat \<Rightarrow> string \<Rightarrow> ('d, lerror, unit) db" where
  "PostRebalance gen dec s tx vaultID fromAdapter toAdapter amount evID =
     (let stroops = decimalToStroops dec amount
      in if stroops \<le> 0 then fail (App (ErrNotPositive ''rebalance''))
         else if fromAdapter = toAdapter then fail (App ErrSameAdapter)
         else if \<not> tx then
           (if hasDB s then transaction (postRebalanceWithTx gen (repo s) vaultID fromAdapter toAdapter stroops evID)
            else postRebalanceDirect gen (repo s) vaultID fromAdapter toAdapter stroops evID)
         else postRebalanceWithTx gen (repo s) vaultID fromAdapter toAdapter stroops evID)"

subsection \<open>Reads and checks\<close>

definition svcGetUserVaultBalance :: "decimal_lib \<Rightarrow> 'd ledger_service \<Rightarrow> uuid \<Rightarrow> uuid \<Rightarrow> ('d, lerror, rat) db" where
  "svcGetUserVaultBalance dec s userID vaultID =
     bind (GetUserVaultBalance (repo s) userID vaultID) (\<lambda>b. ret (stroopsToDecimal dec b))"

definition svcGetVaultPoolBalance :: "decimal_lib \<Rightarrow> 'd ledger_service \<Rightarrow> uuid \<Rightarrow> ('d, lerror, rat) db" where
  "svcGetVaultPoolBalance dec s vaultID =
     bind (GetVaultPoolBalance (repo s) vaultID) (\<lambda>b. ret (stroopsToDecimal dec b))"

definition GetUserPortfolioTotal :: "'d ledger_service \<Rightarrow> uuid \<Rightarrow> ('d, lerror, rat) db" where
  "GetUserPortfolioTotal s userID = bind (ListAllBalances (repo s)) (\<lambda>_. ret 0)"

definition ValidateBooks :: "'d ledger_service \<Rightarrow> ('d, lerror, unit) db" where
  "ValidateBooks s = bind (SumAllEntries (repo s)) (\<lambda>n. if n \<noteq> 0 then fail (App (ErrBooks n)) else ret ())"

definition VerifyBalances :: "'d ledger_service \<Rightarrow> ('d, lerror, balance_mismatch list) db" where
  "VerifyBalances s = RecomputeBalances (repo s)"

subsection \<open>Reconciliation against the chain\<close>

text \<open>The chain reader answers with an amount or an error; the JSON encoder of the details is a parameter.\<close>

record chain_reader =
  ReadVaultBalance :: "string \<Rightarrow> int option"
  ReadTotalSharesTimesPrice :: "string \<Rightarrow> int option"

definition absDiff64 :: "int \<Rightarrow> int \<Rightarrow> int" where
  "absDiff64 a b = (let d = wrap64 (a - b) in if d < 0 then wrap64 (- d) else d)"

definition reconcileVault :: "'d repository \<Rightarrow> chain_reader \<Rightarrow> (int \<Rightarrow> int \<Rightarrow> int \<Rightarrow> string \<Rightarrow> string) \<Rightarrow> int \<Rightarrow>
    uuid \<Rightarrow> string \<Rightarrow> ('d, lerror, reconciliation_record option) db" where
  "reconcileVault R chain json cfgTolerance vaultID contract =
     bind (attempt (GetVaultPoolBalance R vaultID)) (\<lambda>p.
       case p of Inl _ \<Rightarrow> ret None
       | Inr pool \<Rightarrow>
         (case ReadVaultBalance chain contract of None \<Rightarrow> ret None
          | Some onChain \<Rightarrow>
            let tolerance = (if cfgTolerance \<le> 0 then 1000000 else cfgTolerance);
                absDiff = absDiff64 pool onChain;
                status = (if tolerance < absDiff then ''drift'' else ''ok'')
            in bind (attempt (SumUserPositionBalances R vaultID)) (\<lambda>su.
                 let sumUser = (case su of Inl _ \<Rightarrow> 0 | Inr n \<Rightarrow> n);
                     status = (case su of Inl _ \<Rightarrow> status
                       | Inr n \<Rightarrow> (case ReadTotalSharesTimesPrice chain contract of None \<Rightarrow> status
                           | Some price \<Rightarrow> if price \<noteq> 0 \<and> tolerance < absDiff64 n price \<and> status = ''ok''
                                          then ''drift'' else status));
                     rec = \<lparr> rID = uuid_nil, rVaultID = vaultID, LedgerVaultPoolBalance = pool, OnChainBalance = onChain,
                             Difference = absDiff, Tolerance = tolerance, Status = status,
                             Details = json pool onChain sumUser contract, rCreatedAt = 0 \<rparr>
                 in bind (attempt (CreateReconciliationRecord R rec)) (\<lambda>cr.
                      case cr of Inl _ \<Rightarrow> ret None | Inr _ \<Rightarrow> ret (Some rec)))))"

section \<open>The repository of the program\<close>

definition pgRepo :: "(nat \<Rightarrow> uuid) \<Rightarrow> ledger_db repository" where
  "pgRepo gen =
     \<lparr> GetOrCreateAccount = pgGetOrCreateAccount gen,
       GetOrCreateAccountTx = pgGetOrCreateAccountTx gen,
       PostEntries = pgPostEntries gen,
       PostEntriesTx = pgPostEntriesTx gen,
       GetUserVaultBalance = pgGetUserVaultBalance,
       GetVaultPoolBalance = pgGetVaultPoolBalance,
       SumUserPositionBalances = pgSumUserPositionBalances,
       SumAllEntries = pgSumAllEntries,
       RecomputeBalances = pgRecomputeBalances,
       CreateReconciliationRecord = pgCreateReconciliationRecord gen,
       ListAllBalances = pgListAllBalances \<rparr>"

section \<open>The abstract effect of the service\<close>

text \<open>A call of the service in its own transaction, and the legs it is meant to add to the journal.\<close>

type_synonym leg = "acct_key option \<times> int"

datatype svc_op =
    Deposit uuid uuid rat string
  | Withdrawal uuid uuid rat string
  | Harvest uuid uuid rat rat rat string string
  | Rebalance uuid string string rat string

fun run_op :: "(nat \<Rightarrow> uuid) \<Rightarrow> decimal_lib \<Rightarrow> 'd ledger_service \<Rightarrow> svc_op \<Rightarrow> ('d, lerror, unit) db" where
  "run_op gen dec s (Deposit v u x ev) = PostDeposit gen dec s False v u x ev"
| "run_op gen dec s (Withdrawal v u x ev) = PostWithdrawal gen dec s False v u x ev"
| "run_op gen dec s (Harvest v u n f g ad ev) = PostHarvest gen dec s False v u n f g ad ev"
| "run_op gen dec s (Rebalance v a b x ev) = PostRebalance gen dec s False v a b x ev"

definition user_key :: "uuid \<Rightarrow> uuid \<Rightarrow> acct_key" where
  "user_key v u = Key ''user_vault_position'' (Some v) (Some u) None ''USDC''"
definition pool_key :: "uuid \<Rightarrow> acct_key" where
  "pool_key v = Key ''vault_asset_pool'' (Some v) None None ''USDC''"
definition suspense_key :: acct_key where
  "suspense_key = Key ''system_suspense'' None None None ''USDC''"
definition fee_key :: acct_key where
  "fee_key = Key ''fee_account'' None None None ''USDC''"
definition yield_key :: "string \<Rightarrow> acct_key" where
  "yield_key ad = Key ''yield_source'' None None (Some ad) ''USDC''"

lemmas key_defs = user_key_def pool_key_def suspense_key_def fee_key_def yield_key_def

definition deposit_legs :: "uuid \<Rightarrow> uuid \<Rightarrow> int \<Rightarrow> leg list" where
  "deposit_legs v u x = [(Some (user_key v u), x), (Some (pool_key v), x), (Some suspense_key, wrap64 (- 2 * x))]"

definition withdrawal_legs :: "uuid \<Rightarrow> uuid \<Rightarrow> int \<Rightarrow> leg list" where
  "withdrawal_legs v u x = [(Some (user_key v u), wrap64 (- x)), (Some (pool_key v), wrap64 (- x)),
     (Some suspense_key, wrap64 (2 * x))]"

definition harvest_legs :: "uuid \<Rightarrow> uuid \<Rightarrow> string \<Rightarrow> int \<Rightarrow> int \<Rightarrow> int \<Rightarrow> leg list" where
  "harvest_legs v u ad net fee gross =
     (let ls = filter (\<lambda>(k, x). x \<noteq> 0) [(Some (pool_key v), net), (Some (user_key v u), net), (Some fee_key, fee),
            (Some (yield_key ad), wrap64 (- gross)), (Some suspense_key, wrap64 (- net))]
      in if length ls < 2 then [] else ls)"

definition rebalance_legs :: "string \<Rightarrow> string \<Rightarrow> int \<Rightarrow> leg list" where
  "rebalance_legs a b x = [(Some (yield_key a), wrap64 (- x)), (Some (yield_key b), x)]"

fun op_legs :: "decimal_lib \<Rightarrow> svc_op \<Rightarrow> leg list" where
  "op_legs dec (Deposit v u x ev) = deposit_legs v u (decimalToStroops dec x)"
| "op_legs dec (Withdrawal v u x ev) = withdrawal_legs v u (decimalToStroops dec x)"
| "op_legs dec (Harvest v u n f g ad ev) =
     harvest_legs v u ad (decimalToStroops dec n) (decimalToStroops dec f) (decimalToStroops dec g)"
| "op_legs dec (Rebalance v a b x ev) = rebalance_legs a b (decimalToStroops dec x)"

lemma mk_key_service:
  "mk_key AccountTypeUserVaultPosition (Some v) (Some u) None ''USDC'' = user_key v u"
  "mk_key AccountTypeVaultAssetPool (Some v) None None ''USDC'' = pool_key v"
  "mk_key AccountTypeSystemSuspense None None None ''USDC'' = suspense_key"
  "mk_key AccountTypeFee None None None ''USDC'' = fee_key"
  "mk_key AccountTypeYieldSource None None (Some ad) ''USDC'' = yield_key ad"
  by (simp_all add: mk_key_def key_defs account_type_defs)

section \<open>The contract of the repository\<close>

lemma list_all2_filter:
  "list_all2 P xs ys \<Longrightarrow> (\<And>x y. P x y \<Longrightarrow> Q x \<longleftrightarrow> Q' y) \<Longrightarrow> list_all2 P (filter Q xs) (filter Q' ys)"
  by (induction xs ys rule: list_all2_induct) auto

text \<open>
  \<open>jrn\<close> is the journal of the stored data and \<open>key\<close> the key of a stored account. In a transaction
  of the caller (the \<open>Tx\<close> methods) only success is promised anything; the methods that run their
  own transaction promise that an error leaves the journal as it was, unless it is the lost
  acknowledgement of a commit.
\<close>

locale ledger_repository =
  fixes R :: "'d repository" and inv :: "'d \<Rightarrow> bool"
    and jrn :: "'d \<Rightarrow> leg list" and key :: "'d \<Rightarrow> uuid \<Rightarrow> acct_key option"
  assumes resolve_tx: "inv (data w) \<Longrightarrow> GetOrCreateAccountTx R t v u ad ''USDC'' w = (Inr acc, w') \<Longrightarrow>
      inv (data w') \<and> jrn (data w') = jrn (data w) \<and> key (data w') (aID acc) = Some (mk_key t v u ad ''USDC'')
      \<and> (\<forall>i k. key (data w) i = Some k \<longrightarrow> key (data w') i = Some k)"
    and post_tx: "inv (data w) \<Longrightarrow> PostEntriesTx R True es w = (Inr x, w') \<Longrightarrow>
      inv (data w') \<and> jrn (data w') = jrn (data w) @ map (\<lambda>e. (key (data w) (AccountID e), Amount e)) es
      \<and> ValidateBalanced es = None"
    and resolve: "inv (data w) \<Longrightarrow> GetOrCreateAccount R t v u ad ''USDC'' w = (r, w') \<Longrightarrow>
      inv (data w') \<and> jrn (data w') = jrn (data w)
      \<and> (\<forall>acc. r = Inr acc \<longrightarrow> key (data w') (aID acc) = Some (mk_key t v u ad ''USDC''))
      \<and> (\<forall>i k. key (data w) i = Some k \<longrightarrow> key (data w') i = Some k)"
    and post: "inv (data w) \<Longrightarrow> PostEntries R es w = (q, w') \<Longrightarrow>
      inv (data w') \<and>
      (jrn (data w') = jrn (data w) \<and> q \<noteq> Inr ()
       \<or> jrn (data w') = jrn (data w) @ map (\<lambda>e. (key (data w) (AccountID e), Amount e)) es
         \<and> ValidateBalanced es = None \<and> (q = Inr () \<or> q = Inl DBFailure))"
begin

definition at_j :: "leg list \<Rightarrow> (uuid \<times> acct_key) list \<Rightarrow> 'd dbw \<Rightarrow> bool" where
  "at_j j ks w \<longleftrightarrow> inv (data w) \<and> jrn (data w) = j \<and> (\<forall>(i, k) \<in> set ks. key (data w) i = Some k)"

definition posted :: "leg list \<Rightarrow> leg list \<Rightarrow> 'd dbw \<Rightarrow> bool" where
  "posted j legs w \<longleftrightarrow> inv (data w) \<and> jrn (data w) = j @ legs \<and> wrap64 (sum_list (map snd legs)) = 0"

text \<open>Every outcome of a call that runs its own transactions.\<close>

definition settles :: "('d dbw \<Rightarrow> bool) \<Rightarrow> leg list \<Rightarrow> leg list \<Rightarrow> ('d, lerror, unit) db \<Rightarrow> bool" where
  "settles P j legs m \<longleftrightarrow> (\<forall>w r w'. P w \<longrightarrow> m w = (r, w') \<longrightarrow>
     posted j legs w' \<and> (r = Inr () \<or> r = Inl DBFailure)
     \<or> inv (data w') \<and> jrn (data w') = j \<and> r \<noteq> Inr ())"

definition legs_of :: "(uuid \<times> acct_key) list \<Rightarrow> entry list \<Rightarrow> leg list \<Rightarrow> bool" where
  "legs_of ks = list_all2 (\<lambda>e (k, x). x = Amount e \<and> (\<exists>k'. k = Some k' \<and> (AccountID e, k') \<in> set ks))"

lemma legs_of_key:
  assumes "at_j j ks w" and "legs_of ks es legs"
  shows "map (\<lambda>e. (key (data w) (AccountID e), Amount e)) es = legs"
  using assms(2) unfolding legs_of_def
  by (induction es legs rule: list_all2_induct) (use assms(1) in \<open>auto simp: at_j_def\<close>)

lemma legs_of_sum: "legs_of ks es legs \<Longrightarrow> sum_list (map snd legs) = sum_list (map Amount es)"
  unfolding legs_of_def by (induction es legs rule: list_all2_induct) auto

lemma tx_resolve:
  "hoare (at_j j ks) (GetOrCreateAccountTx R t v u ad ''USDC'')
     (\<lambda>acc. at_j j ((aID acc, mk_key t v u ad ''USDC'') # ks))"
  unfolding hoare_def at_j_def using resolve_tx by fastforce

lemma tx_uuid: "hoare (at_j j ks) (new_uuid gen) (\<lambda>_. at_j j ks)"
  by (auto simp: hoare_def new_uuid_def at_j_def)

lemma tx_post:
  assumes "legs_of ks es legs"
  shows "hoare (at_j j ks) (PostEntriesTx R True es) (\<lambda>_. posted j legs)"
  unfolding hoare_def
proof (intro allI impI)
  fix w a w' assume at: "at_j j ks w" and run: "PostEntriesTx R True es w = (Inr a, w')"
  then have "inv (data w') \<and> jrn (data w') = j @ legs \<and> ValidateBalanced es = None"
    using post_tx [OF _ run] legs_of_key [OF at assms] by (auto simp: at_j_def)
  then show "posted j legs w'"
    using legs_of_sum [OF assms] by (simp add: posted_def ValidateBalanced_None_iff)
qed

lemma settles_resolve:
  assumes "\<And>acc. settles (at_j j ((aID acc, mk_key t v u ad ''USDC'') # ks)) j legs (f acc)"
  shows "settles (at_j j ks) j legs (bind (GetOrCreateAccount R t v u ad ''USDC'') f)"
  unfolding settles_def
proof (intro allI impI)
  fix w r w' assume at: "at_j j ks w" and run: "bind (GetOrCreateAccount R t v u ad ''USDC'') f w = (r, w')"
  obtain q w1 where g: "GetOrCreateAccount R t v u ad ''USDC'' w = (q, w1)" by fastforce
  note law = resolve [OF _ g]
  show "posted j legs w' \<and> (r = Inr () \<or> r = Inl DBFailure) \<or> inv (data w') \<and> jrn (data w') = j \<and> r \<noteq> Inr ()"
  proof (cases q)
    case (Inl e)
    then show ?thesis using at run g law by (auto simp: bind_def at_j_def)
  next
    case (Inr acc)
    then have "at_j j ((aID acc, mk_key t v u ad ''USDC'') # ks) w1" using at law by (auto simp: at_j_def)
    moreover have "f acc w1 = (r, w')" using run g Inr by (simp add: bind_def)
    ultimately show ?thesis using assms [of acc] unfolding settles_def by blast
  qed
qed

lemma settles_uuid:
  assumes "\<And>i. settles (at_j j ks) j legs (f i)"
  shows "settles (at_j j ks) j legs (bind (new_uuid gen) f)"
  unfolding settles_def
proof (intro allI impI)
  fix w r w' assume at: "at_j j ks w" and run: "bind (new_uuid gen) f w = (r, w')"
  then have "at_j j ks (w \<lparr> drawn := drawn w + 1 \<rparr>)"
    and "f (gen (drawn w)) (w \<lparr> drawn := drawn w + 1 \<rparr>) = (r, w')"
    by (auto simp: bind_def new_uuid_def at_j_def)
  with assms [of "gen (drawn w)"]
  show "posted j legs w' \<and> (r = Inr () \<or> r = Inl DBFailure) \<or> inv (data w') \<and> jrn (data w') = j \<and> r \<noteq> Inr ()"
    unfolding settles_def by blast
qed

lemma settles_post:
  assumes "legs_of ks es legs"
  shows "settles (at_j j ks) j legs (PostEntries R es)"
  unfolding settles_def
proof (intro allI impI)
  fix w r w' assume at: "at_j j ks w" and run: "PostEntries R es w = (r, w')"
  have iw: "inv (data w)" and j: "jrn (data w) = j" using at by (auto simp: at_j_def)
  show "posted j legs w' \<and> (r = Inr () \<or> r = Inl DBFailure) \<or> inv (data w') \<and> jrn (data w') = j \<and> r \<noteq> Inr ()"
    using post [OF iw run] legs_of_sum [OF assms]
    unfolding posted_def legs_of_key [OF at assms] j ValidateBalanced_None_iff by auto
qed

lemma settles_transaction:
  assumes "hoare (at_j j []) body (\<lambda>_. posted j legs)"
  shows "settles (at_j j []) j legs (transaction body)"
  unfolding settles_def
proof (intro allI impI)
  fix w r w' assume at: "at_j j [] w" and run: "transaction body w = (r, w')"
  then have "at_j j [] (w \<lparr> sched := tl (sched w) \<rparr>)" by (simp add: at_j_def)
  from transaction_hoare [OF assms this run]
  show "posted j legs w' \<and> (r = Inr () \<or> r = Inl DBFailure) \<or> inv (data w') \<and> jrn (data w') = j \<and> r \<noteq> Inr ()"
  proof (elim disjE exE conjE)
    fix a w1 assume "posted j legs w1" "data w' = data w1" "r = Inr a"
    then show ?thesis by (simp add: posted_def)
  next
    fix a w1 assume "posted j legs w1" "data w' = data w1" "r = Inl DBFailure"
    then show ?thesis by (simp add: posted_def)
  next
    fix e assume "data w' = data w" "r = Inl e"
    then show ?thesis using at by (simp add: at_j_def)
  qed
qed

lemma settles_noop: "settles (at_j j ks) j [] (ret ())"
  by (auto simp: settles_def ret_def posted_def at_j_def)

lemma settles_fail: "settles (at_j j ks) j legs (fail e)"
  by (auto simp: settles_def fail_def at_j_def)

lemmas tx_rules = hoare_bind [OF tx_resolve] hoare_bind [OF tx_uuid] tx_post
lemmas settle_rules = settles_resolve settles_uuid settles_post

lemma deposit_settles:
  "hoare (at_j j []) (postDepositWithTx gen R v u x ev) (\<lambda>_. posted j (deposit_legs v u x))"
  "settles (at_j j []) j (deposit_legs v u x) (postDepositDirect gen R v u x ev)"
  unfolding postDepositWithTx_def postDepositDirect_def
  by (intro tx_rules settle_rules; simp add: legs_of_def depositEntries_def deposit_legs_def mkEntry_def mk_key_service)+

lemma withdrawal_settles:
  "hoare (at_j j []) (postWithdrawalWithTx gen R v u x ev) (\<lambda>_. posted j (withdrawal_legs v u x))"
  "settles (at_j j []) j (withdrawal_legs v u x) (postWithdrawalDirect gen R v u x ev)"
  unfolding postWithdrawalWithTx_def postWithdrawalDirect_def
  by (intro tx_rules settle_rules; simp add: legs_of_def withdrawalEntries_def withdrawal_legs_def mkEntry_def mk_key_service)+

lemma rebalance_settles:
  "hoare (at_j j []) (postRebalanceWithTx gen R v a b x ev) (\<lambda>_. posted j (rebalance_legs a b x))"
  "settles (at_j j []) j (rebalance_legs a b x) (postRebalanceDirect gen R v a b x ev)"
  unfolding postRebalanceWithTx_def postRebalanceDirect_def
  by (intro tx_rules settle_rules; simp add: legs_of_def rebalanceEntries_def rebalance_legs_def mkEntry_def mk_key_service)+

lemma harvest_filtered:
  assumes "ks = [(sa, suspense_key), (ya, yield_key ad), (fa, fee_key), (ua, user_key v u), (va, pool_key v)]"
    and "es = filter (\<lambda>e. Amount e \<noteq> 0) (harvestEntries txID ev va ua fa ya sa net fee gross)"
  shows "\<not> length es < 2 \<Longrightarrow> legs_of ks es (harvest_legs v u ad net fee gross)"
    and "length es < 2 \<Longrightarrow> harvest_legs v u ad net fee gross = []"
proof -
  let ?ls = "[(Some (pool_key v), net), (Some (user_key v u), net), (Some fee_key, fee),
      (Some (yield_key ad), wrap64 (- gross)), (Some suspense_key, wrap64 (- net))]"
  have "legs_of ks (harvestEntries txID ev va ua fa ya sa net fee gross) ?ls"
    by (simp add: legs_of_def harvestEntries_def mkEntry_def assms(1))
  then have f: "legs_of ks es (filter (\<lambda>(k, x). x \<noteq> 0) ?ls)"
    unfolding legs_of_def assms(2) by (rule list_all2_filter) auto
  then have len: "length es = length (filter (\<lambda>(k, x). x \<noteq> 0) ?ls)"
    unfolding legs_of_def by (rule list_all2_lengthD)
  show "\<not> length es < 2 \<Longrightarrow> legs_of ks es (harvest_legs v u ad net fee gross)"
    "length es < 2 \<Longrightarrow> harvest_legs v u ad net fee gross = []"
    using f len unfolding harvest_legs_def Let_def by (simp_all only: if_True if_False)
qed

lemma harvest_settles:
  "hoare (at_j j []) (postHarvestWithTx gen R v u net fee gross ad ev) (\<lambda>_. posted j (harvest_legs v u ad net fee gross))"
  "settles (at_j j []) j (harvest_legs v u ad net fee gross) (postHarvestDirect gen R v u net fee gross ad ev)"
proof -
  let ?es = "\<lambda>txID va ua fa ya sa. filter (\<lambda>e. Amount e \<noteq> 0) (harvestEntries txID ev va ua fa ya sa net fee gross)"
  let ?ks = "\<lambda>va ua fa ya sa. [(sa, suspense_key), (ya, yield_key ad), (fa, fee_key), (ua, user_key v u), (va, pool_key v)]"
  have tx: "hoare (at_j j (?ks va ua fa ya sa)) (if length (?es txID va ua fa ya sa) < 2 then ret ()
      else PostEntriesTx R True (?es txID va ua fa ya sa)) (\<lambda>_. posted j (harvest_legs v u ad net fee gross))"
    for txID va ua fa ya sa
    by (intro hoare_if hoare_ret tx_post harvest_filtered(1) [OF refl refl])
      (simp_all add: posted_def at_j_def harvest_filtered(2) [OF refl refl])
  have direct: "settles (at_j j (?ks va ua fa ya sa)) j (harvest_legs v u ad net fee gross)
      (if length (?es txID va ua fa ya sa) < 2 then ret () else PostEntries R (?es txID va ua fa ya sa))"
    for txID va ua fa ya sa
  proof (cases "length (?es txID va ua fa ya sa) < 2")
    case True
    then show ?thesis using settles_noop by (simp only: if_True harvest_filtered(2) [OF refl refl True])
  next
    case False
    show ?thesis unfolding if_not_P [OF False]
      by (rule settles_post, rule harvest_filtered(1) [OF refl refl False])
  qed
  show "hoare (at_j j []) (postHarvestWithTx gen R v u net fee gross ad ev) (\<lambda>_. posted j (harvest_legs v u ad net fee gross))"
    unfolding postHarvestWithTx_def Let_def
    by (intro tx_rules(1,2)) (simp only: mk_key_service, rule tx)
  show "settles (at_j j []) j (harvest_legs v u ad net fee gross) (postHarvestDirect gen R v u net fee gross ad ev)"
    unfolding postHarvestDirect_def Let_def
    by (intro settle_rules(1,2)) (simp only: mk_key_service, rule direct)
qed

lemma run_op_settles:
  assumes "repo s = R"
  shows "settles (at_j j []) j (op_legs dec op) (run_op gen dec s op)"
  by (cases op)
    (auto simp: PostDeposit_def PostWithdrawal_def PostHarvest_def PostRebalance_def Let_def assms
      settles_fail deposit_settles withdrawal_settles harvest_settles rebalance_settles settles_transaction)

end

section \<open>The PostgreSQL repository keeps the contract\<close>

definition svc_inv :: "ledger_db \<Rightarrow> bool" where
  "svc_inv d \<longleftrightarrow> ledger_inv d \<and> keyed d"

interpretation pg: ledger_repository "pgRepo gen" svc_inv journal keyOf
  for gen
proof unfold_locales
  show "svc_inv (data w') \<and> journal (data w') = journal (data w)
      \<and> keyOf (data w') (aID acc) = Some (mk_key t v u ad ''USDC'')
      \<and> (\<forall>i k. keyOf (data w) i = Some k \<longrightarrow> keyOf (data w') i = Some k)"
    if "svc_inv (data w)" "GetOrCreateAccountTx (pgRepo gen) t v u ad ''USDC'' w = (Inr acc, w')"
    for w t v u ad acc w'
    using hoareD [OF getOrCreateAccountTx_hoare [of "data w" "journal (data w)" gen t v u ad "''USDC''"], of w acc w'] that
    by (auto simp: pgRepo_def pgGetOrCreateAccountTx_def at_journal_def key_le_def svc_inv_def)
next
  show "svc_inv (data w') \<and> journal (data w') = journal (data w) @ map (\<lambda>e. (keyOf (data w) (AccountID e), Amount e)) es
      \<and> ValidateBalanced es = None"
    if "svc_inv (data w)" "PostEntriesTx (pgRepo gen) True es w = (Inr x, w')" for w es x w'
    using hoareD [OF postEntriesTx_hoare [of "data w" "journal (data w)" "keyOf (data w)" gen es], of w x w'] that
    by (auto simp: pgRepo_def pgPostEntriesTx_def at_journal_def key_le_def svc_inv_def fail_def split: option.splits)
next
  show "svc_inv (data w') \<and> journal (data w') = journal (data w)
      \<and> (\<forall>acc. r = Inr acc \<longrightarrow> keyOf (data w') (aID acc) = Some (mk_key t v u ad ''USDC''))
      \<and> (\<forall>i k. keyOf (data w) i = Some k \<longrightarrow> keyOf (data w') i = Some k)"
    if "svc_inv (data w)" "GetOrCreateAccount (pgRepo gen) t v u ad ''USDC'' w = (r, w')" for w t v u ad r w'
  proof -
    let ?w = "w \<lparr> sched := tl (sched w) \<rparr>"
    have at: "at_journal (data w) (journal (data w)) ?w" using that(1) by (simp add: at_journal_def svc_inv_def)
    have "transaction (getOrCreateAccountTx gen t v u ad ''USDC'') w = (r, w')"
      using that(2) by (simp add: pgRepo_def pgGetOrCreateAccount_def)
    from transaction_hoare [OF getOrCreateAccountTx_hoare at this] that(1) show ?thesis
      by (auto simp: at_journal_def key_le_def svc_inv_def)
  qed
next
  show "svc_inv (data w') \<and>
      (journal (data w') = journal (data w) \<and> q \<noteq> Inr ()
       \<or> journal (data w') = journal (data w) @ map (\<lambda>e. (keyOf (data w) (AccountID e), Amount e)) es
         \<and> ValidateBalanced es = None \<and> (q = Inr () \<or> q = Inl DBFailure))"
    if "svc_inv (data w)" "PostEntries (pgRepo gen) es w = (q, w')" for w es q w'
  proof (cases "ValidateBalanced es")
    case None
    let ?w = "w \<lparr> sched := tl (sched w) \<rparr>"
    have at: "at_journal (data w) (journal (data w)) ?w \<and> keyOf (data ?w) = keyOf (data w)"
      using that(1) by (simp add: at_journal_def svc_inv_def)
    have "transaction (postEntriesTx gen es) w = (q, w')"
      using that(2) None by (simp add: pgRepo_def pgPostEntries_def)
    from transaction_hoare [OF postEntriesTx_hoare at this] that(1) None show ?thesis
      by (auto simp: at_journal_def key_le_def svc_inv_def)
  next
    case (Some e)
    then show ?thesis using that by (auto simp: pgRepo_def pgPostEntries_def fail_def)
  qed
qed

section \<open>Properties of the service\<close>

lemma svc_inv_empty: "svc_inv empty_db"
  by (simp add: svc_inv_def keyed_def) (simp add: empty_db_def)

lemma run_op_outcome:
  assumes "svc_inv (data w)" and "repo s = pgRepo gen" and "run_op gen dec s op w = (r, w')"
  shows "svc_inv (data w')
    \<and> (journal (data w') = journal (data w) @ op_legs dec op \<and> wrap64 (sum_list (map snd (op_legs dec op))) = 0
         \<and> (r = Inr () \<or> r = Inl DBFailure)
       \<or> journal (data w') = journal (data w) \<and> r \<noteq> Inr ())"
  using pg.run_op_settles [OF assms(2), of "journal (data w)" dec op gen] assms(1,3)
  unfolding pg.settles_def pg.at_j_def pg.posted_def by fastforce

text \<open>
  C36: The service refines an append-only journal. On the PostgreSQL repository, with any schedule
  of database faults, a deposit, withdrawal, harvest or rebalance either appends exactly the legs
  of its double-entry specification, or appends nothing. Success means the legs are there, an
  error means they are not, except for the database failure that is the lost acknowledgement of a
  commit. The invariant of the tables is kept in every case.
\<close>

theorem ledger_service_refines_journal:
  assumes "svc_inv (data w)" and "repo s = pgRepo gen" and "run_op gen dec s op w = (r, w')"
  shows "svc_inv (data w')
    \<and> (journal (data w') = journal (data w) @ op_legs dec op \<and> wrap64 (sum_list (map snd (op_legs dec op))) = 0
         \<and> (r = Inr () \<or> r = Inl DBFailure)
       \<or> journal (data w') = journal (data w) \<and> r \<noteq> Inr ())"
  by (rule run_op_outcome [OF assms])

text \<open>A decimal library for concrete runs: rounding half away from zero, exact division.\<close>

definition dec0 :: decimal_lib where
  "dec0 = \<lparr> Round0 = (\<lambda>q. if q < 0 then of_int (- \<lfloor>- q + 1 / 2\<rfloor>) else of_int \<lfloor>q + 1 / 2\<rfloor>),
            IntPart = (\<lambda>q. wrap64 \<lfloor>q\<rfloor>), Div = (/) \<rparr>"

definition svc0 :: "bool \<Rightarrow> ledger_db ledger_service" where
  "svc0 b = \<lparr> repo = pgRepo Suc, hasDB = b \<rparr>"

theorem ledger_service_refines_journal_witness:
  "case run_op Suc dec0 (svc0 True) (Deposit 4 5 (3 / 2) ''d1'') (empty_world []) of (r, w') \<Rightarrow>
     r = Inr () \<and> journal (data w') = deposit_legs 4 5 15000000"
proof -
  let ?m = "run_op Suc dec0 (svc0 True) (Deposit 4 5 (3 / 2) ''d1'') (empty_world [])"
  obtain r w' where m: "?m = (r, w')" by fastforce
  have "case ?m of (r, w') \<Rightarrow> (case r of Inl e \<Rightarrow> False | Inr u \<Rightarrow> True)" by code_simp
  then have "r = Inr ()" unfolding m by (simp split: sum.splits)
  moreover have "decimalToStroops dec0 (3 / 2) = 15000000" by code_simp
  moreover have "svc_inv (data (empty_world []))" "repo (svc0 True) = pgRepo Suc"
    by (simp_all add: empty_world_def svc_inv_empty svc0_def)
  ultimately show ?thesis
    using ledger_service_refines_journal [OF _ _ m] unfolding m by (simp add: empty_world_def)
qed

subsection \<open>Books that balance\<close>

fun run_all :: "(nat \<Rightarrow> uuid) \<Rightarrow> decimal_lib \<Rightarrow> 'd ledger_service \<Rightarrow> svc_op list \<Rightarrow> 'd dbw \<Rightarrow> 'd dbw" where
  "run_all gen dec s [] w = w"
| "run_all gen dec s (op # ops) w = run_all gen dec s ops (snd (run_op gen dec s op w))"

text \<open>Amounts below 2^60 stroops, about 10^11 USDC.\<close>

fun modest :: "decimal_lib \<Rightarrow> svc_op \<Rightarrow> bool" where
  "modest dec (Deposit v u x ev) = (\<bar>decimalToStroops dec x\<bar> < 2 ^ 60)"
| "modest dec (Withdrawal v u x ev) = (\<bar>decimalToStroops dec x\<bar> < 2 ^ 60)"
| "modest dec (Harvest v u n f g ad ev) =
     (\<bar>decimalToStroops dec n\<bar> < 2 ^ 60 \<and> \<bar>decimalToStroops dec f\<bar> < 2 ^ 60 \<and> \<bar>decimalToStroops dec g\<bar> < 2 ^ 60)"
| "modest dec (Rebalance v a b x ev) = (\<bar>decimalToStroops dec x\<bar> < 2 ^ 60)"

lemma wrap64_modest:
  "\<bar>x\<bar> < 2 ^ 60 \<Longrightarrow> wrap64 (- x) = - x" "\<bar>x\<bar> < 2 ^ 60 \<Longrightarrow> wrap64 (2 * x) = 2 * x"
  "\<bar>x\<bar> < 2 ^ 60 \<Longrightarrow> wrap64 (- 2 * x) = - 2 * x" "\<bar>x\<bar> < 2 ^ 60 \<Longrightarrow> wrap64 (- (2 * x)) = - (2 * x)"
  by (rule wrap64_id; simp add: in_int64_def int64_min_def int64_max_def abs_less_iff)+

definition users_of :: "uuid \<Rightarrow> acct_key option \<Rightarrow> bool" where
  "users_of v k = (case k of None \<Rightarrow> False | Some k \<Rightarrow> kType k = ''user_vault_position'' \<and> kVault k = Some v)"

definition pool_of :: "uuid \<Rightarrow> acct_key option \<Rightarrow> bool" where
  "pool_of v k \<longleftrightarrow> k = Some (pool_key v)"

definition books_ok :: "leg list \<Rightarrow> bool" where
  "books_ok j \<longleftrightarrow> sum_list (map snd j) = 0 \<and> (\<forall>v. jsum (users_of v) j = jsum (pool_of v) j)"

lemma jsum_filter_nonzero: "jsum K (filter (\<lambda>(k, x). x \<noteq> 0) j) = jsum K j"
  by (induction j) auto

lemma sum_filter_nonzero: "sum_list (map snd (filter (\<lambda>(k, x). x \<noteq> 0) (j :: leg list))) = sum_list (map snd j)"
  by (induction j) auto

lemmas key_preds = users_of_def pool_of_def key_defs

lemma harvest_sum:
  assumes "\<bar>net\<bar> < 2 ^ 60" "\<bar>fee\<bar> < 2 ^ 60" "\<bar>gross\<bar> < 2 ^ 60"
    and "harvest_legs v u ad net fee gross \<noteq> []"
  shows "sum_list (map snd (harvest_legs v u ad net fee gross)) = net + fee - gross"
proof -
  let ?ls = "[(Some (pool_key v), net), (Some (user_key v u), net), (Some fee_key, fee),
      (Some (yield_key ad), wrap64 (- gross)), (Some suspense_key, wrap64 (- net))]"
  have "harvest_legs v u ad net fee gross = filter (\<lambda>(k, x). x \<noteq> 0) ?ls"
    using assms(4) unfolding harvest_legs_def Let_def by metis
  then show ?thesis
    using sum_filter_nonzero [of ?ls] assms(1-3) by (simp add: wrap64_modest)
qed

lemma op_legs_ok:
  assumes m: "modest dec op" and z: "wrap64 (sum_list (map snd (op_legs dec op))) = 0"
  shows "books_ok (op_legs dec op)"
proof (cases op)
  case (Harvest v u n f g ad ev)
  define net where "net = decimalToStroops dec n"
  define fee where "fee = decimalToStroops dec f"
  define gross where "gross = decimalToStroops dec g"
  have b: "\<bar>net\<bar> < 2 ^ 60" "\<bar>fee\<bar> < 2 ^ 60" "\<bar>gross\<bar> < 2 ^ 60"
    using m by (simp_all add: Harvest net_def fee_def gross_def)
  have legs: "op_legs dec op = harvest_legs v u ad net fee gross"
    by (simp add: Harvest net_def fee_def gross_def)
  show ?thesis
  proof (cases "harvest_legs v u ad net fee gross = []")
    case True
    then show ?thesis by (simp add: legs books_ok_def)
  next
    case False
    have sum: "sum_list (map snd (op_legs dec op)) = net + fee - gross"
      unfolding legs by (rule harvest_sum [OF b False])
    have "net + fee - gross = 0"
      using z b dvd_small_int_zero [of "net + fee - gross"] by (simp add: sum wrap64_eq_0_iff abs_less_iff)
    moreover have "op_legs dec op = filter (\<lambda>(k, x). x \<noteq> 0) [(Some (pool_key v), net), (Some (user_key v u), net),
        (Some fee_key, fee), (Some (yield_key ad), wrap64 (- gross)), (Some suspense_key, wrap64 (- net))]"
      using False unfolding legs harvest_legs_def Let_def by metis
    ultimately show ?thesis
      unfolding books_ok_def sum by (simp only: jsum_filter_nonzero) (simp add: key_preds)
  qed
qed (use m in \<open>auto simp: books_ok_def deposit_legs_def withdrawal_legs_def rebalance_legs_def wrap64_modest key_preds\<close>)

lemma run_all_ok:
  assumes "repo s = pgRepo gen"
  shows "svc_inv (data w) \<Longrightarrow> books_ok (journal (data w)) \<Longrightarrow> \<forall>op \<in> set ops. modest dec op \<Longrightarrow>
    svc_inv (data (run_all gen dec s ops w)) \<and> books_ok (journal (data (run_all gen dec s ops w)))"
proof (induction ops arbitrary: w)
  case (Cons op ops)
  obtain r w1 where r: "run_op gen dec s op w = (r, w1)" by fastforce
  have "svc_inv (data w1) \<and> books_ok (journal (data w1))"
    using run_op_outcome [OF Cons.prems(1) assms r] op_legs_ok [of dec op] Cons.prems
    by (auto simp: books_ok_def)
  with Cons r show ?case by simp
qed simp

lemma journal_total: "sum_list (map snd (journal d)) = sum_list (map Amount (entries d))"
  by (simp add: journal_def o_def)

lemma pool_key_iff: "account_key a = Some (pool_key v) \<longleftrightarrow>
    AccountType a = ''vault_asset_pool'' \<and> VaultID a = Some v \<and> aAssetCode a = ''USDC''"
  by (auto simp: pool_key_def account_key_def mk_key_def account_type_defs Let_def ValidAccountTypes_def)

lemma user_key_iff: "account_key a = Some (user_key v u) \<longleftrightarrow>
    AccountType a = ''user_vault_position'' \<and> VaultID a = Some v \<and> UserID a = Some u \<and> aAssetCode a = ''USDC''"
  by (auto simp: user_key_def account_key_def mk_key_def account_type_defs Let_def ValidAccountTypes_def)

lemma pool_balance_read:
  assumes "svc_inv d"
  shows "firstBalance (\<lambda>a. AccountType a = ''vault_asset_pool'' \<and> VaultID a = Some v \<and> aAssetCode a = ''USDC'') d
      = jsum (pool_of v) (journal d) \<and> in_int64 (jsum (pool_of v) (journal d))"
proof -
  have "ledger_inv d" using assms by (simp add: svc_inv_def)
  from firstBalance_journal [OF this, of _ "pool_key v", OF ballI, OF pool_key_iff [symmetric]]
  have "firstBalance (\<lambda>a. AccountType a = ''vault_asset_pool'' \<and> VaultID a = Some v \<and> aAssetCode a = ''USDC'') d
      = jsum (pool_of v) (journal d)"
    and "in_int64 (firstBalance (\<lambda>a. AccountType a = ''vault_asset_pool'' \<and> VaultID a = Some v \<and> aAssetCode a = ''USDC'') d)"
    unfolding pool_of_def [abs_def] by blast+
  then show ?thesis by simp
qed

lemma user_balance_read:
  assumes "svc_inv d"
  shows "firstBalance (\<lambda>a. AccountType a = ''user_vault_position'' \<and> VaultID a = Some v \<and> UserID a = Some u
           \<and> aAssetCode a = ''USDC'') d = jsum (\<lambda>k. k = Some (user_key v u)) (journal d)"
proof -
  have "ledger_inv d" using assms by (simp add: svc_inv_def)
  from firstBalance_journal [OF this, of _ "user_key v u", OF ballI, OF user_key_iff [symmetric]] show ?thesis
    by simp
qed

lemma users_sum_read:
  assumes "svc_inv d"
  shows "sum_list (map (\<lambda>(a, b). Bal b) (joinBalances (\<lambda>a. AccountType a = ''user_vault_position'' \<and> VaultID a = Some v) d))
      = jsum (users_of v) (journal d)"
proof (rule join_journal)
  show "ledger_inv d" using assms by (simp add: svc_inv_def)
  show "\<forall>a \<in> set (accounts d). (AccountType a = ''user_vault_position'' \<and> VaultID a = Some v) = users_of v (account_key a)"
    using assms by (auto simp: svc_inv_def keyed_def users_of_def account_key_def mk_key_def Let_def account_type_defs
        split: if_splits option.splits)
qed

lemma query_clean: "fst (query f (w \<lparr> sched := [] \<rparr>)) = f (data w)"
  by (auto simp: query_def stmt_def Let_def split: sum.splits)

lemma clean_reads:
  assumes "svc_inv (data w)" and "books_ok (journal (data w))"
  shows "fst (pgSumAllEntries (w \<lparr> sched := [] \<rparr>)) = Inr 0"
    and "fst (pgGetVaultPoolBalance v (w \<lparr> sched := [] \<rparr>)) = Inr (jsum (pool_of v) (journal (data w)))"
    and "fst (pgSumUserPositionBalances v (w \<lparr> sched := [] \<rparr>)) = Inr (jsum (pool_of v) (journal (data w)))"
  using assms pool_balance_read [OF assms(1), of v] users_sum_read [OF assms(1), of v]
  by (simp_all add: query_clean pgSumAllEntries_def pgGetVaultPoolBalance_def pgSumUserPositionBalances_def
      scanInt64_def books_ok_def journal_total in_int64_def int64_min_def int64_max_def)

lemma cached_in_int64:
  assumes "ledger_inv d"
  shows "in_int64 (cachedBalance d acc)"
proof -
  have "\<forall>b \<in> set (balances d). in_int64 (Bal b)" using assms by (simp add: ledger_inv_def)
  then show ?thesis
    by (cases "List.find (\<lambda>b. bAccountID b = acc) (balances d)")
      (auto simp: cachedBalance_def in_int64_def int64_min_def int64_max_def dest!: find_Some_iff_mem)
qed

lemma recompute_clean:
  assumes "ledger_inv (data w)"
  shows "fst (pgRecomputeBalances (w \<lparr> sched := [] \<rparr>)) = Inr []"
proof -
  have eq: "entrySum (data w) i = cachedBalance (data w) i" for i using assms by (simp add: ledger_inv_def)
  show ?thesis
    using cached_in_int64 [OF assms] by (simp add: query_clean pgRecomputeBalances_def eq)
qed

text \<open>
  C1: The books always balance, for amounts below 2^60 stroops. After any sequence of deposits, withdrawals, harvests and
  rebalances, each with every amount below that bound, through any database faults and lost commit
  acknowledgements, starting from empty tables: the sum of all entries is zero (so the check of
  the books passes), the recomputation finds no cached balance that differs from its entries,
  and for every vault the sum of the user positions equals the balance of the asset pool. The bound
  is needed: one larger deposit breaks the books (\<open>deposit_overflow_breaks_books\<close>).
\<close>

theorem ledger_books_balance:
  assumes "repo s = pgRepo gen" and "\<forall>op \<in> set ops. modest dec op"
    and "w' = run_all gen dec s ops (empty_world fs) \<lparr> sched := [] \<rparr>"
  shows "fst (ValidateBooks s w') = Inr () \<and> fst (VerifyBalances s w') = Inr []
    \<and> (\<exists>n. fst (SumUserPositionBalances (repo s) v w') = Inr n \<and> fst (GetVaultPoolBalance (repo s) v w') = Inr n)"
proof -
  let ?w = "run_all gen dec s ops (empty_world fs)"
  have "svc_inv (data ?w) \<and> books_ok (journal (data ?w))"
    by (rule run_all_ok [OF assms(1)]) (use assms(2) in \<open>simp_all add: empty_world_def svc_inv_empty books_ok_def\<close>)
  then have inv: "svc_inv (data ?w)" and ok: "books_ok (journal (data ?w))" and l: "ledger_inv (data ?w)"
    by (auto simp: svc_inv_def)
  have "fst (ValidateBooks s w') = Inr ()"
    using clean_reads(1) [OF inv ok] unfolding assms(3)
    by (auto simp: ValidateBooks_def assms(1) pgRepo_def bind_def ret_def split: prod.splits sum.splits)
  moreover have "fst (VerifyBalances s w') = Inr []"
    using recompute_clean [OF l] by (simp add: VerifyBalances_def assms(1,3) pgRepo_def)
  ultimately show ?thesis
    using clean_reads(2,3) [OF inv ok, of v] by (simp add: assms(1,3) pgRepo_def)
qed

definition ops0 :: "svc_op list" where
  "ops0 = [Deposit 4 5 (3 / 2) ''d1'', Deposit 4 6 2 ''d2'', Withdrawal 4 5 1 ''w1'',
           Harvest 4 6 (1 / 4) (1 / 20) (3 / 10) ''blend'' ''h1'', Rebalance 4 ''blend'' ''aave'' 1 ''r1'']"

theorem ledger_books_balance_witness:
  "fst (ValidateBooks (svc0 True) (run_all Suc dec0 (svc0 True) ops0 (empty_world [False, True]) \<lparr> sched := [] \<rparr>)) = Inr ()"
proof -
  have "list_all (modest dec0) ops0" by code_simp
  then have "\<forall>op \<in> set ops0. modest dec0 op" by (simp add: list_all_iff)
  with ledger_books_balance [of "svc0 True" Suc ops0 dec0 _ "[False, True]"] show ?thesis
    by (simp add: svc0_def)
qed

subsection \<open>The effect of a deposit\<close>

text \<open>
  An acknowledged deposit raises the balance of the user's
  position and the balance of the vault's pool by exactly the deposited amount, and changes the
  balance of no other user and of no other vault.
\<close>

theorem deposit_credits_exactly:
  assumes "svc_inv (data w)" and "repo s = pgRepo gen"
    and "PostDeposit gen dec s False v u amount ev w = (Inr (), w')"
    and "firstW = w \<lparr> sched := [] \<rparr>" and "lastW = w' \<lparr> sched := [] \<rparr>"
    and "fst (GetUserVaultBalance (repo s) u' v' firstW) = Inr b" and "fst (GetVaultPoolBalance (repo s) v' firstW) = Inr p"
  shows "fst (GetUserVaultBalance (repo s) u' v' lastW)
      = Inr (b + (if u' = u \<and> v' = v then decimalToStroops dec amount else 0))
    \<and> fst (GetVaultPoolBalance (repo s) v' lastW) = Inr (p + (if v' = v then decimalToStroops dec amount else 0))"
proof -
  have out: "svc_inv (data w')" "journal (data w') = journal (data w) @ deposit_legs v u (decimalToStroops dec amount)"
    using run_op_outcome [OF assms(1,2), of dec "Deposit v u amount ev" "Inr ()" w'] assms(3) by auto
  have b: "b = jsum (\<lambda>k. k = Some (user_key v' u')) (journal (data w))"
    and p: "p = jsum (pool_of v') (journal (data w))"
    using assms(4,6,7) user_balance_read [OF assms(1), of v' u'] pool_balance_read [OF assms(1), of v']
    by (simp_all add: assms(2) pgRepo_def pgGetUserVaultBalance_def pgGetVaultPoolBalance_def query_clean)
  show ?thesis
    using user_balance_read [OF out(1), of v' u'] pool_balance_read [OF out(1), of v']
    by (auto simp: assms(2,5) pgRepo_def pgGetUserVaultBalance_def pgGetVaultPoolBalance_def query_clean out(2)
        b p deposit_legs_def key_preds)
qed

theorem deposit_credits_exactly_witness:
  "case PostDeposit Suc dec0 (svc0 False) False 4 5 (3 / 2) ''d1'' (empty_world []) of (r, w') \<Rightarrow>
     r = Inr () \<and> fst (pgGetUserVaultBalance 5 4 (w' \<lparr> sched := [] \<rparr>)) = Inr 15000000"
proof -
  let ?m = "PostDeposit Suc dec0 (svc0 False) False 4 5 (3 / 2) ''d1'' (empty_world [])"
  obtain r w' where m: "?m = (r, w')" by fastforce
  have "case ?m of (r, w') \<Rightarrow> (case r of Inl e \<Rightarrow> False | Inr u \<Rightarrow> True)" by code_simp
  then have r: "r = Inr ()" unfolding m by (simp split: sum.splits)
  have d: "decimalToStroops dec0 (3 / 2) = 15000000" by code_simp
  have i: "svc_inv (data (empty_world []))" "repo (svc0 False) = pgRepo Suc"
    by (simp_all add: empty_world_def svc_inv_empty svc0_def)
  have reads: "fst (pgGetUserVaultBalance 5 4 (empty_world [])) = Inr 0" "fst (pgGetVaultPoolBalance 4 (empty_world [])) = Inr 0"
    by (simp_all add: pgGetUserVaultBalance_def pgGetVaultPoolBalance_def query_def stmt_def empty_world_def empty_db_def
        firstBalance_def joinBalances_def)
  have "empty_world [] = empty_world [] \<lparr> sched := [] \<rparr>" by (simp add: empty_world_def)
  from deposit_credits_exactly [OF i m [unfolded r] this refl, of 5 4 0 0] reads
  have "fst (pgGetUserVaultBalance 5 4 (w' \<lparr> sched := [] \<rparr>)) = Inr 15000000"
    by (simp add: i(2) pgRepo_def d)
  then show ?thesis unfolding m r by simp
qed

subsection \<open>Where the books can break\<close>

text \<open>
  A deposit of more than 2^62 stroops breaks the books without an error. The suspense leg,
  minus twice the amount, wraps around in int64, the balance check adds up in the same wrapping
  arithmetic and accepts the entries, and an acknowledged deposit leaves the sum of all entries
  2^64 stroops higher, which no check of the service can report as a difference because the sum
  no longer fits the column it is read into.
\<close>

theorem deposit_overflow_breaks_books:
  assumes "svc_inv (data w)" and "repo s = pgRepo gen"
    and "2 ^ 62 < decimalToStroops dec amount" and "decimalToStroops dec amount < 2 ^ 63"
    and "PostDeposit gen dec s False v u amount ev w = (Inr (), w')"
    and "sum_list (map Amount (entries (data w))) = 0"
  shows "sum_list (map Amount (entries (data w'))) = 2 ^ 64
    \<and> fst (ValidateBooks s (w' \<lparr> sched := [] \<rparr>)) = Inl DBFailure"
proof -
  let ?x = "decimalToStroops dec amount"
  have "wrap64 (- 2 * ?x) = 2 ^ 64 - 2 * ?x"
  proof -
    have "wrap64 (- 2 * ?x) = wrap64 (2 ^ 64 - 2 * ?x)"
      unfolding wrap64_eq_iff by (metis add.commute mod_add_self2 uminus_add_conv_diff mult_minus_left)
    also have "\<dots> = 2 ^ 64 - 2 * ?x"
      by (rule wrap64_id) (use assms(3,4) in \<open>simp add: in_int64_def int64_min_def int64_max_def\<close>)
    finally show ?thesis .
  qed
  moreover have "journal (data w') = journal (data w) @ deposit_legs v u ?x"
    using run_op_outcome [OF assms(1,2), of dec "Deposit v u amount ev" "Inr ()" w'] assms(5) by auto
  ultimately have sum: "sum_list (map Amount (entries (data w'))) = 2 ^ 64"
    using assms(6) journal_total [of "data w"] journal_total [of "data w'"] by (simp add: deposit_legs_def)
  then have "fst (pgSumAllEntries (w' \<lparr> sched := [] \<rparr>)) = Inl DBFailure"
    by (simp add: pgSumAllEntries_def query_clean scanInt64_def in_int64_def int64_max_def)
  then have "fst (ValidateBooks s (w' \<lparr> sched := [] \<rparr>)) = Inl DBFailure"
    by (auto simp: ValidateBooks_def assms(2) pgRepo_def bind_def split: prod.splits sum.splits)
  with sum show ?thesis by blast
qed

definition big_amount :: rat where "big_amount = 4611686018427387905 / 10000000"

theorem deposit_overflow_breaks_books_witness:
  "case PostDeposit Suc dec0 (svc0 True) False 4 5 big_amount ''d1'' (empty_world []) of (r, w') \<Rightarrow>
     r = Inr () \<and> sum_list (map Amount (entries (data w'))) = 2 ^ 64"
proof -
  let ?m = "PostDeposit Suc dec0 (svc0 True) False 4 5 big_amount ''d1'' (empty_world [])"
  obtain r w' where m: "?m = (r, w')" by fastforce
  have "case ?m of (r, w') \<Rightarrow> (case r of Inl e \<Rightarrow> False | Inr u \<Rightarrow> True)" by code_simp
  then have r: "r = Inr ()" unfolding m by (simp split: sum.splits)
  have d: "decimalToStroops dec0 big_amount = 4611686018427387905" by code_simp
  have i: "svc_inv (data (empty_world []))" "repo (svc0 True) = pgRepo Suc"
    by (simp_all add: empty_world_def svc_inv_empty svc0_def)
  show ?thesis unfolding m
    using deposit_overflow_breaks_books [OF i _ _ m [unfolded r]] r by (simp add: d empty_world_def empty_db_def)
qed

text \<open>
  A harvest whose gross amount is not net plus fee (in stroops) never changes the books. It is
  rejected, although the comment on the comparison announces that small rounding is allowed; with
  fewer than two legs that are not zero it is dropped without an error.
\<close>

theorem harvest_mismatch_posts_nothing:
  assumes "svc_inv (data w)" and "repo s = pgRepo gen"
    and "modest dec (Harvest v u n f g ad ev)"
    and "decimalToStroops dec g \<noteq> decimalToStroops dec n + decimalToStroops dec f"
    and "PostHarvest gen dec s False v u n f g ad ev w = (r, w')"
  shows "journal (data w') = journal (data w)
    \<and> (r = Inr () \<longrightarrow> length (filter (\<lambda>x. x \<noteq> 0) [decimalToStroops dec n, decimalToStroops dec n, decimalToStroops dec f,
          decimalToStroops dec g, decimalToStroops dec n]) < 2)"
proof -
  let ?L = "op_legs dec (Harvest v u n f g ad ev)"
  have b: "\<bar>decimalToStroops dec n\<bar> < 2 ^ 60" "\<bar>decimalToStroops dec f\<bar> < 2 ^ 60" "\<bar>decimalToStroops dec g\<bar> < 2 ^ 60"
    using assms(3) by auto
  have nz: "wrap64 (sum_list (map snd ?L)) \<noteq> 0" if "?L \<noteq> []"
    using harvest_sum [OF b] that b assms(4)
      dvd_small_int_zero [of "decimalToStroops dec n + decimalToStroops dec f - decimalToStroops dec g"]
    by (auto simp: wrap64_eq_0_iff abs_less_iff)
  have out: "journal (data w') = journal (data w) @ ?L \<and> wrap64 (sum_list (map snd ?L)) = 0
       \<or> journal (data w') = journal (data w) \<and> r \<noteq> Inr ()"
    using run_op_outcome [OF assms(1,2), of dec "Harvest v u n f g ad ev" r w'] assms(5) by auto
  have few: "length (filter (\<lambda>x. x \<noteq> 0) [decimalToStroops dec n, decimalToStroops dec n, decimalToStroops dec f,
          decimalToStroops dec g, decimalToStroops dec n]) < 2" if "?L = []"
    using b that by (auto simp: harvest_legs_def Let_def wrap64_modest split: if_splits)
  show ?thesis
  proof (cases "?L = []")
    case True
    then show ?thesis using out few [OF True] by (auto simp del: op_legs.simps filter.simps)
  next
    case False
    then show ?thesis using out nz [OF False] by (simp del: op_legs.simps)
  qed
qed

theorem harvest_mismatch_posts_nothing_witness:
  "case PostHarvest Suc dec0 (svc0 True) False 4 6 (1 / 4) (1 / 20) (31 / 100) ''blend'' ''h1'' (empty_world []) of (r, w') \<Rightarrow>
     r \<noteq> Inr () \<and> journal (data w') = []"
proof -
  let ?m = "PostHarvest Suc dec0 (svc0 True) False 4 6 (1 / 4) (1 / 20) (31 / 100) ''blend'' ''h1'' (empty_world [])"
  obtain r w' where m: "?m = (r, w')" by fastforce
  have d: "decimalToStroops dec0 (1 / 4) = 2500000" "decimalToStroops dec0 (1 / 20) = 500000"
    "decimalToStroops dec0 (31 / 100) = 3100000" by code_simp+
  have i: "svc_inv (data (empty_world []))" "repo (svc0 True) = pgRepo Suc"
    by (simp_all add: empty_world_def svc_inv_empty svc0_def)
  show ?thesis unfolding m
    using harvest_mismatch_posts_nothing [OF i _ _ m] by (simp add: d empty_world_def)
qed

subsection \<open>Reconciliation\<close>

lemma absDiff64_exact: "\<bar>a - b\<bar> < 2 ^ 63 \<Longrightarrow> absDiff64 a b = \<bar>a - b\<bar>"
  by (auto simp: absDiff64_def Let_def in_int64_def int64_min_def int64_max_def abs_less_iff)

text \<open>
  When every read and the write succeed, the reconciliation pass stores one record for the
  vault, without touching accounts, entries or balances, and marks it as drift exactly when the
  pool differs from the chain, or the user positions differ from a non-zero share value, by more
  than the tolerance. Amounts and their differences are taken within the int64 range.
\<close>

theorem reconcile_drift_exact:
  assumes "svc_inv (data w)" and "books_ok (journal (data w))"
    and "ReadVaultBalance chain contract = Some onChain" and "ReadTotalSharesTimesPrice chain contract = Some price"
    and "pool = jsum (pool_of v) (journal (data w))"
    and "\<bar>pool - onChain\<bar> < 2 ^ 63" and "\<bar>pool - price\<bar> < 2 ^ 63"
    and "tol = (if cfg \<le> 0 then 1000000 else cfg)"
    and "gen (drawn w) \<notin> rID ` set (reconciliations (data w))"
    and "reconcileVault (pgRepo gen) chain json cfg v contract (w \<lparr> sched := [] \<rparr>) = (r, w')"
  shows "\<exists>rec. r = Inr (Some rec)
    \<and> reconciliations (data w') = reconciliations (data w) @ [rec \<lparr> rID := gen (drawn w), rCreatedAt := wall w \<rparr>]
    \<and> accounts (data w') = accounts (data w) \<and> entries (data w') = entries (data w) \<and> balances (data w') = balances (data w)
    \<and> (Status rec = ''drift'' \<longleftrightarrow> \<bar>pool - onChain\<bar> > tol \<or> price \<noteq> 0 \<and> \<bar>pool - price\<bar> > tol)"
proof -
  let ?w = "w \<lparr> sched := [] \<rparr>"
  have q: "pgGetVaultPoolBalance v ?w = (Inr pool, ?w)" "pgSumUserPositionBalances v ?w = (Inr pool, ?w)"
    using clean_reads(2,3) [OF assms(1,2), of v] assms(5)
    by (auto simp: pgGetVaultPoolBalance_def pgSumUserPositionBalances_def query_def stmt_def Let_def split: sum.splits)
  show ?thesis
    using assms(3,4,6,7,8,9,10) q
    by (auto simp: reconcileVault_def pgRepo_def pgCreateReconciliationRecord_def bind_def attempt_def ret_def new_uuid_def
        time_now_def stmt_def uuid_nil_def Let_def absDiff64_exact split: if_splits)
qed

definition chain0 :: chain_reader where
  "chain0 = \<lparr> ReadVaultBalance = (\<lambda>_. Some 5), ReadTotalSharesTimesPrice = (\<lambda>_. Some 0) \<rparr>"

theorem reconcile_drift_exact_witness:
  "\<exists>rec. fst (reconcileVault (pgRepo Suc) chain0 (\<lambda>_ _ _ _. ''{}'') 3 4 ''C1'' (empty_world [] \<lparr> sched := [] \<rparr>)) = Inr (Some rec)
     \<and> Status rec = ''drift''"
proof -
  obtain r w' where m: "reconcileVault (pgRepo Suc) chain0 (\<lambda>_ _ _ _. ''{}'') 3 4 ''C1'' (empty_world [] \<lparr> sched := [] \<rparr>) = (r, w')"
    by fastforce
  have "\<exists>rec. r = Inr (Some rec) \<and> Status rec = ''drift''"
    using reconcile_drift_exact [OF _ _ _ _ _ _ _ _ _ m, of 5 0 0 3]
    by (simp add: empty_world_def svc_inv_empty books_ok_def chain0_def) (auto simp add: empty_db_def)
  then show ?thesis unfolding m by simp
qed

end
