(* ===== verification/Encoding.thy ===== *)
theory Encoding
  imports Prelude
begin

text \<open>
  The parts of Go's standard library that turn values into the bytes the signer and the
  audit log commit to: \<^verbatim>\<open>strconv.FormatInt\<close> in base ten, \<^verbatim>\<open>Time.Format(time.RFC3339Nano)\<close>
  of a UTC time, \<^verbatim>\<open>crypto/sha256\<close> and \<^verbatim>\<open>hex.EncodeToString\<close>. Strings are byte strings.
\<close>

unbundle bit_operations_syntax

section \<open>Decimal numbers\<close>

definition digit :: "int \<Rightarrow> char" where
  "digit n = char_of (48 + n)"

function digits :: "int \<Rightarrow> string" where
  "digits n = (if n < 10 then [digit n] else digits (n div 10) @ [digit (n mod 10)])"
  by pat_completeness auto
termination by (relation "measure nat") (simp_all add: nat_less_iff)

declare digits.simps [simp del]

definition itoa :: "int \<Rightarrow> string" where
  "itoa v = (if v < 0 then CHR ''-'' # digits (- v) else digits v)"

definition undigits :: "string \<Rightarrow> int" where
  "undigits s = foldl (\<lambda>a c. 10 * a + (of_char c - 48)) 0 s"

lemma of_char_digit [simp]: "0 \<le> n \<Longrightarrow> n < 10 \<Longrightarrow> of_char (digit n) = 48 + n"
  by (simp add: digit_def)

lemma undigits_digits [simp]: "0 \<le> n \<Longrightarrow> undigits (digits n) = n"
proof (induction n rule: digits.induct)
  case (1 n)
  then show ?case
    by (cases "n < 10") (simp_all add: digits.simps [of n] undigits_def)
qed

definition is_digit :: "char \<Rightarrow> bool" where
  "is_digit c \<longleftrightarrow> (48::int) \<le> of_char c \<and> of_char c < (58::int)"

lemma digits_are_digits: "0 \<le> n \<Longrightarrow> list_all is_digit (digits n)"
proof (induction n rule: digits.induct)
  case (1 n)
  then show ?case
    by (cases "n < 10") (simp_all add: digits.simps [of n] is_digit_def)
qed

lemma digits_inj: "0 \<le> m \<Longrightarrow> 0 \<le> n \<Longrightarrow> digits m = digits n \<longleftrightarrow> m = n"
  by (metis undigits_digits)

lemma itoa_inj: "itoa a = itoa b \<longleftrightarrow> a = b"
proof -
  have no: "digits n \<noteq> CHR ''-'' # s" if "0 \<le> n" for n s
    using digits_are_digits [OF that] by (auto simp: is_digit_def)
  show ?thesis
  proof (cases "a < 0"; cases "b < 0")
    assume "a < 0" "\<not> b < 0"
    then show ?thesis using no [of b "digits (- a)"] by (auto simp: itoa_def)
  next
    assume "\<not> a < 0" "b < 0"
    then show ?thesis using no [of a "digits (- b)"] by (auto simp: itoa_def)
  qed (auto simp: itoa_def digits_inj)
qed

lemma itoa_chars: "c \<in> set (itoa v) \<Longrightarrow> c = CHR ''-'' \<or> is_digit c"
  using digits_are_digits [of v] digits_are_digits [of "- v"] by (auto simp: itoa_def list_all_iff split: if_splits)

section \<open>Timestamps\<close>

text \<open>
  \<^verbatim>\<open>appendInt(b, x, width)\<close> pads with zeros on the left. The calendar is the proleptic
  Gregorian one, counted from January 1 of year 1 as \<^typ>\<open>time\<close> is.
\<close>

definition pad_int :: "nat \<Rightarrow> int \<Rightarrow> string" where
  "pad_int w x =
     (let s = digits \<bar>x\<bar> in (if x < 0 then ''-'' else '''') @ replicate (w - length s) (CHR ''0'') @ s)"

definition leap :: "int \<Rightarrow> bool" where
  "leap y \<longleftrightarrow> y mod 4 = 0 \<and> (y mod 100 \<noteq> 0 \<or> y mod 400 = 0)"

definition year_day :: "int \<Rightarrow> int \<times> int" where
  "year_day d =
     (let n400 = d div 146097; d1 = d - 146097 * n400;
          c0 = d1 div 36524; n100 = c0 - c0 div 4; d2 = d1 - 36524 * n100;
          n4 = d2 div 1461; d3 = d2 - 1461 * n4;
          y0 = d3 div 365; n1 = y0 - y0 div 4; d4 = d3 - 365 * n1
      in (400 * n400 + 100 * n100 + 4 * n4 + n1 + 1, d4))"

definition month_lengths :: "bool \<Rightarrow> int list" where
  "month_lengths lp = [31, if lp then 29 else 28, 31, 30, 31, 30, 31, 31, 30, 31, 30, 31]"

fun month_day :: "int \<Rightarrow> int list \<Rightarrow> int \<Rightarrow> int \<times> int" where
  "month_day m (l # ls) d = (if d < l \<or> ls = [] then (m, d + 1) else month_day (m + 1) ls (d - l))"
| "month_day m [] d = (m, d + 1)"

fun trim_zeros :: "string \<Rightarrow> string" where
  "trim_zeros s = rev (dropWhile (\<lambda>c. c = CHR ''0'') (rev s))"

definition fraction :: "int \<Rightarrow> string" where
  "fraction ns = (if ns = 0 then '''' else CHR ''.'' # trim_zeros (pad_int 9 ns))"

definition RFC3339Nano :: "time \<Rightarrow> string" where
  "RFC3339Nano t =
     (let d = t div (86400 * second); r = t mod (86400 * second);
          (y, yd) = year_day d; (m, md) = month_day 1 (month_lengths (leap y)) yd;
          s = r div second
      in pad_int 4 y @ ''-'' @ pad_int 2 m @ ''-'' @ pad_int 2 md @ ''T'' @
         pad_int 2 (s div 3600) @ '':'' @ pad_int 2 (s mod 3600 div 60) @ '':'' @ pad_int 2 (s mod 60) @
         fraction (r mod second) @ ''Z'')"

lemma pad_int_chars: "c \<in> set (pad_int w x) \<Longrightarrow> is_digit c \<or> c = CHR ''-''"
  using digits_are_digits [of "\<bar>x\<bar>"]
  by (auto simp: pad_int_def Let_def list_all_iff is_digit_def split: if_splits)

lemma RFC3339Nano_chars:
  assumes "c \<in> set (RFC3339Nano t)"
  shows "is_digit c \<or> c \<in> set ''-T:.Z''"
proof -
  have "c \<in> set (fraction n) \<Longrightarrow> is_digit c \<or> c \<in> set ''-.''" for n
    by (auto simp: fraction_def dest!: set_dropWhileD pad_int_chars split: if_splits)
  with assms show ?thesis
    by (auto simp: RFC3339Nano_def Let_def dest: pad_int_chars split: prod.splits)
qed

lemma RFC3339Nano_example: "RFC3339Nano (63907891200 * second + 120) = ''2026-02-28T16:00:00.00000012Z''"
  by code_simp

section \<open>SHA-256\<close>

type_synonym w32 = "32 word"

definition rotr :: "nat \<Rightarrow> w32 \<Rightarrow> w32" where
  "rotr n x = drop_bit n x OR push_bit (32 - n) x"

definition sha_K :: "w32 list" where
  "sha_K =
    [1116352408, 1899447441, 3049323471, 3921009573, 961987163,
     1508970993, 2453635748, 2870763221, 3624381080, 310598401,
     607225278, 1426881987, 1925078388, 2162078206, 2614888103,
     3248222580, 3835390401, 4022224774, 264347078, 604807628,
     770255983, 1249150122, 1555081692, 1996064986, 2554220882,
     2821834349, 2952996808, 3210313671, 3336571891, 3584528711,
     113926993, 338241895, 666307205, 773529912, 1294757372,
     1396182291, 1695183700, 1986661051, 2177026350, 2456956037,
     2730485921, 2820302411, 3259730800, 3345764771, 3516065817,
     3600352804, 4094571909, 275423344, 430227734, 506948616,
     659060556, 883997877, 958139571, 1322822218, 1537002063,
     1747873779, 1955562222, 2024104815, 2227730452, 2361852424,
     2428436474, 2756734187, 3204031479, 3329325298]"

definition sha_H :: "w32 list" where
  "sha_H = [1779033703, 3144134277, 1013904242, 2773480762, 1359893119,
     2600822924, 528734635, 1541459225]"

fun be_bytes :: "nat \<Rightarrow> int \<Rightarrow> int list" where
  "be_bytes 0 n = []"
| "be_bytes (Suc k) n = be_bytes k (n div 256) @ [n mod 256]"

definition sha_pad :: "int list \<Rightarrow> int list" where
  "sha_pad bs = bs @ [0x80] @ replicate ((119 - length bs mod 64) mod 64) 0 @ be_bytes 8 (8 * int (length bs))"

fun words_of :: "int list \<Rightarrow> w32 list" where
  "words_of (a # b # c # d # bs) = word_of_int (((a * 256 + b) * 256 + c) * 256 + d) # words_of bs"
| "words_of _ = []"

text \<open>The message schedule is kept as the window of its next sixteen words.\<close>

definition sha_next :: "w32 list \<Rightarrow> w32" where
  "sha_next ws =
     (let x = ws ! 1; y = ws ! 14
      in hd ws + (rotr 7 x XOR rotr 18 x XOR drop_bit 3 x) + ws ! 9
         + (rotr 17 y XOR rotr 19 y XOR drop_bit 10 y))"

fun sha_step :: "w32 \<Rightarrow> w32 list \<Rightarrow> w32 list" where
  "sha_step kx [a, b, c, d, e, f, g, h] =
     (let t1 = h + (rotr 6 e XOR rotr 11 e XOR rotr 25 e) + ((e AND f) XOR ((NOT e) AND g)) + kx;
          t2 = (rotr 2 a XOR rotr 13 a XOR rotr 22 a) + ((a AND b) XOR (a AND c) XOR (b AND c))
      in [t1 + t2, a, b, c, d + t1, e, f, g])"
| "sha_step kx v = v"

fun sha_rounds :: "w32 list \<Rightarrow> w32 list \<Rightarrow> w32 list \<Rightarrow> w32 list" where
  "sha_rounds [] ws v = v"
| "sha_rounds (k # ks) ws v = sha_rounds ks (tl ws @ [sha_next ws]) (sha_step (k + hd ws) v)"

fun sha_blocks :: "nat \<Rightarrow> w32 list \<Rightarrow> w32 list \<Rightarrow> w32 list" where
  "sha_blocks 0 h ws = h"
| "sha_blocks (Suc n) h ws = sha_blocks n (map2 (+) h (sha_rounds sha_K (take 16 ws) h)) (drop 16 ws)"

definition sum256 :: "string \<Rightarrow> int list" where
  "sum256 s = (let ws = words_of (sha_pad (map of_char s))
               in concat (map (\<lambda>w. be_bytes 4 (uint w)) (sha_blocks (length ws div 16) sha_H ws)))"

definition hexEncode :: "int list \<Rightarrow> string" where
  "hexEncode bs = concat (map (\<lambda>b. [''0123456789abcdef'' ! nat (b div 16), ''0123456789abcdef'' ! nat (b mod 16)]) bs)"

definition sha256_hex :: "string \<Rightarrow> string" where
  "sha256_hex s = hexEncode (sum256 s)"

end
