(* ===== verification/Vault.thy ===== *)
theory Vault
  imports Ledger_Service Float64 Encoding
begin

text \<open>
  \<^verbatim>\<open>internal/domain/vault\<close>: vaults, their allocations to yield sources, the status machine
  (\<^verbatim>\<open>model.go\<close>), the deactivation of yield sources and the migration away from them
  (\<^verbatim>\<open>deactivation.go\<close>), and the position of a user aggregated from the transactions
  (\<^verbatim>\<open>position.go\<close>). Decimal amounts are rationals: addition, subtraction, multiplication and
  comparison of the decimal library are exact; rounding, division and printing are parameters.
\<close>

section \<open>Vaults\<close>

record decimal_ops = decimal_lib +
  RoundTo :: "int \<Rightarrow> rat \<Rightarrow> rat"
  StringFixed :: "int \<Rightarrow> rat \<Rightarrow> string"
  DivRound :: "rat \<Rightarrow> rat \<Rightarrow> int \<Rightarrow> rat"
  NewFromString :: "string \<Rightarrow> rat option"

datatype vault_status = StatusActive | StatusPaused | StatusClosed

datatype verror =
    ErrVaultNotFound | ErrUserNotFound | ErrInvalidVault | ErrInvalidAmount | ErrInvalidAllocation
  | ErrInvalidPrecision | ErrInvalidTransition | ErrVaultClosed | ErrVaultNotActive | ErrInsufficientBalance
  | ErrWithdrawalExceedsPosition | ErrTxHashRequired | ErrChainVerificationUnavailable | ErrChainEventCallerMismatch
  | ErrVaultForbidden | ErrBelowMinDeposit | ErrInvalidHarvestFrequency | ErrDuplicateTransaction
  | ErrContractAddressRegistered | ErrInvalidSharePrice | ErrCapacityExceeded
  | ErrYieldSourceNotFound | ErrYieldSourceDeactivated | ErrMigrationTargetRequired | ErrMigrationTargetInactive
  | ErrMigrationSourceActive | ErrMigrationSourceEqualsTarget | ErrMigrationAmountInvalid | ErrMigrationAmountExceeded
  | ErrOperatorFundedDisabled | ErrOperatorFundedNotAllowed | ErrOperatorFundedCapExceeded
  | ErrPaused string | ErrUnknownOperation | ErrLedger "lerror db_error" | ErrOnChain string | ErrChainEvent string
  | ErrWalletRequired | ErrRequest string | PanicDivisionByZero

definition MaxAmountScale :: int where "MaxAmountScale = 8"
definition MaxAPYScale :: int where "MaxAPYScale = 4"
definition DefaultCapacityWarningThreshold :: rat where "DefaultCapacityWarningThreshold = 80"
definition HarvestFrequencyDaily :: string where "HarvestFrequencyDaily = ''daily''"
definition HarvestFrequencyWeekly :: string where "HarvestFrequencyWeekly = ''weekly''"

record allocation =
  alID :: uuid
  alVaultID :: uuid
  Protocol :: string
  alAmount :: rat
  APY :: rat
  alStatus :: string
  AllocatedAt :: time
  alUpdatedAt :: "time option"

record vault =
  vID :: uuid
  vUserID :: uuid
  ContractAddress :: string
  TotalDeposited :: rat
  CurrentBalance :: rat
  Currency :: string
  vStatus :: vault_status
  YieldEarned :: rat
  FeesPaid :: rat
  SoftCapacity :: "rat option"
  CapacityWarningPct :: "rat option"
  HarvestFrequency :: string
  LastHarvestedAt :: "time option"
  LastSyncedAt :: "time option"
  DeletedAt :: "time option"
  Allocations :: "allocation list"
  vCreatedAt :: time
  vUpdatedAt :: time

record vault_transaction =
  tID :: uuid
  tVaultID :: uuid
  tUserID :: "uuid option"
  tType :: string
  tAmount :: rat
  TransactionHash :: "string option"
  SharesMintedOrBurned :: "rat option"
  SharePriceAtTime :: "rat option"
  FeeCharged :: "rat option"
  tCreatedAt :: time

fun CanTransitionTo :: "vault_status \<Rightarrow> vault_status \<Rightarrow> bool" where
  "CanTransitionTo StatusActive next \<longleftrightarrow> next = StatusPaused \<or> next = StatusClosed"
| "CanTransitionTo StatusPaused next \<longleftrightarrow> next = StatusActive \<or> next = StatusClosed"
| "CanTransitionTo StatusClosed next \<longleftrightarrow> False"

definition ParseHarvestFrequency :: "string \<Rightarrow> verror + string" where
  "ParseHarvestFrequency value =
     (let v = to_lower (trim_space value)
      in if v = HarvestFrequencyDaily then Inr HarvestFrequencyDaily
         else if v = HarvestFrequencyWeekly then Inr HarvestFrequencyWeekly
         else Inl ErrInvalidHarvestFrequency)"

definition ParseStatus :: "string \<Rightarrow> verror + vault_status" where
  "ParseStatus value =
     (let v = to_lower (trim_space value)
      in if v = ''active'' then Inr StatusActive
         else if v = ''paused'' then Inr StatusPaused
         else if v = ''closed'' then Inr StatusClosed
         else Inl ErrInvalidVault)"

record capacity_status =
  HasLimit :: bool
  Capacity :: "rat option"
  csBalance :: rat
  UtilizationPct :: "rat option"
  Warning :: bool
  WarningThreshold :: rat

text \<open>\<^verbatim>\<open>Float64\<close> of a decimal is the nearest binary64 number.\<close>

definition calculateUtilizationPct :: "decimal_ops \<Rightarrow> rat \<Rightarrow> rat \<Rightarrow> rat" where
  "calculateUtilizationPct dec current capacity =
     (if capacity = 0 then 0 else f64_round (Div dec current capacity * 100))"

definition GetCapacityStatus :: "decimal_ops \<Rightarrow> vault \<Rightarrow> capacity_status" where
  "GetCapacityStatus dec v =
     (let threshold = (case CapacityWarningPct v of None \<Rightarrow> DefaultCapacityWarningThreshold | Some p \<Rightarrow> p)
      in case SoftCapacity v of
           None \<Rightarrow> \<lparr> HasLimit = False, Capacity = None, csBalance = CurrentBalance v, UtilizationPct = None,
                     Warning = False, WarningThreshold = threshold \<rparr>
         | Some cap \<Rightarrow>
             let u = calculateUtilizationPct dec (CurrentBalance v) cap
             in \<lparr> HasLimit = True, Capacity = Some cap, csBalance = CurrentBalance v, UtilizationPct = Some u,
                  Warning = (threshold \<le> u), WarningThreshold = threshold \<rparr>)"

definition CanAcceptDeposit :: "vault \<Rightarrow> rat \<Rightarrow> verror option" where
  "CanAcceptDeposit v amount =
     (case SoftCapacity v of None \<Rightarrow> None
      | Some cap \<Rightarrow> if cap < CurrentBalance v + amount then Some ErrCapacityExceeded else None)"

section \<open>Yield sources\<close>

definition AllocationStatusActive :: string where "AllocationStatusActive = ''active''"
definition AllocationStatusDeactivated :: string where "AllocationStatusDeactivated = ''deactivated''"

definition normalizeProtocol :: "string \<Rightarrow> string" where
  "normalizeProtocol p = to_lower (trim_space p)"

text \<open>The loops that mark, or find, the first allocation of a protocol.\<close>

fun deactivateFirst :: "string \<Rightarrow> allocation list \<Rightarrow> allocation list option" where
  "deactivateFirst p [] = None"
| "deactivateFirst p (a # as) =
     (if normalizeProtocol (Protocol a) = p then Some (a \<lparr> alStatus := AllocationStatusDeactivated \<rparr> # as)
      else map_option ((#) a) (deactivateFirst p as))"

definition findAllocation :: "string \<Rightarrow> allocation list \<Rightarrow> allocation option" where
  "findAllocation p as = List.find (\<lambda>a. normalizeProtocol (Protocol a) = p) as"

definition DeactivateYieldSource :: "string \<Rightarrow> vault \<Rightarrow> verror option \<times> vault" where
  "DeactivateYieldSource protocol v =
     (let p = normalizeProtocol protocol
      in if p = '''' then (Some ErrYieldSourceNotFound, v)
         else case deactivateFirst p (Allocations v) of
           None \<Rightarrow> (Some ErrYieldSourceNotFound, v)
         | Some as \<Rightarrow> (None, v \<lparr> Allocations := as \<rparr>))"

definition CanAcceptDepositTo :: "vault \<Rightarrow> string \<Rightarrow> rat \<Rightarrow> verror option" where
  "CanAcceptDepositTo v protocol amount =
     (let p = normalizeProtocol protocol
      in if p = '''' then Some ErrYieldSourceNotFound
         else case findAllocation p (Allocations v) of
           None \<Rightarrow> Some ErrYieldSourceNotFound
         | Some a \<Rightarrow> if alStatus a = AllocationStatusDeactivated then Some ErrYieldSourceDeactivated
                     else CanAcceptDeposit v amount)"

record migration_target =
  mtProtocol :: string
  mtAmount :: rat
  mtAPY :: rat

record migration_guide =
  SourceProtocol :: string
  SourceAmount :: rat
  Targets :: "migration_target list"

definition MigrationGuideFor :: "vault \<Rightarrow> string \<Rightarrow> verror + migration_guide" where
  "MigrationGuideFor v sourceProtocol =
     (let p = normalizeProtocol sourceProtocol
      in if p = '''' then Inl ErrYieldSourceNotFound
         else case findAllocation p (Allocations v) of
           None \<Rightarrow> Inl ErrYieldSourceNotFound
         | Some s \<Rightarrow>
             if alStatus s \<noteq> AllocationStatusDeactivated then Inl ErrMigrationSourceActive
             else Inr \<lparr> SourceProtocol = Protocol s, SourceAmount = alAmount s,
               Targets = map (\<lambda>a. \<lparr> mtProtocol = Protocol a, mtAmount = alAmount a, mtAPY = APY a \<rparr>)
                 (filter (\<lambda>a. \<not> (normalizeProtocol (Protocol a) = p \<or> alStatus a = AllocationStatusDeactivated)) (Allocations v)) \<rparr>)"

text \<open>The loop that finds both indices: later allocations override earlier ones.\<close>

fun findIndices :: "string \<Rightarrow> string \<Rightarrow> nat \<Rightarrow> allocation list \<Rightarrow> nat option \<times> nat option \<Rightarrow> nat option \<times> nat option" where
  "findIndices s t i [] ix = ix"
| "findIndices s t i (a # as) ix =
     (let p = normalizeProtocol (Protocol a)
      in findIndices s t (Suc i) as
           (if p = s then (Some i, snd ix) else if p = t then (fst ix, Some i) else ix))"

definition MigrateYieldSourcePosition :: "string \<Rightarrow> string \<Rightarrow> rat \<Rightarrow> vault \<Rightarrow> verror option \<times> vault" where
  "MigrateYieldSourcePosition sourceProtocol targetProtocol amount v =
     (let s = normalizeProtocol sourceProtocol; t = normalizeProtocol targetProtocol; as = Allocations v
      in if s = '''' then (Some ErrYieldSourceNotFound, v)
         else if t = '''' then (Some ErrMigrationTargetRequired, v)
         else if s = t then (Some ErrMigrationSourceEqualsTarget, v)
         else if \<not> 0 < amount then (Some ErrMigrationAmountInvalid, v)
         else case findIndices s t 0 as (None, None) of
           (None, _) \<Rightarrow> (Some ErrYieldSourceNotFound, v)
         | (Some si, None) \<Rightarrow> (Some ErrMigrationTargetRequired, v)
         | (Some si, Some ti) \<Rightarrow>
             if alStatus (as ! si) \<noteq> AllocationStatusDeactivated then (Some ErrMigrationSourceActive, v)
             else if alStatus (as ! ti) = AllocationStatusDeactivated then (Some ErrMigrationTargetInactive, v)
             else if alAmount (as ! si) < amount then (Some ErrMigrationAmountExceeded, v)
             else let as1 = as[si := (as ! si) \<lparr> alAmount := alAmount (as ! si) - amount \<rparr>]
                  in (None, v \<lparr> Allocations := as1[ti := (as1 ! ti) \<lparr> alAmount := alAmount (as1 ! ti) + amount \<rparr>] \<rparr>))"

section \<open>Positions\<close>

definition positionDecimalPlaces :: int where "positionDecimalPlaces = 6"

definition ComputeSharePrice :: "decimal_ops \<Rightarrow> vault \<Rightarrow> rat" where
  "ComputeSharePrice dec v =
     (if TotalDeposited v = 0 \<or> TotalDeposited v \<le> 0 then 1 else Div dec (CurrentBalance v) (TotalDeposited v))"

definition formatUSDC :: "decimal_ops \<Rightarrow> rat \<Rightarrow> string" where
  "formatUSDC dec x = StringFixed dec positionDecimalPlaces (RoundTo dec positionDecimalPlaces x)"

definition formatSignedUSDC :: "decimal_ops \<Rightarrow> rat \<Rightarrow> string" where
  "formatSignedUSDC dec x = (if x < 0 then ''-'' else ''+'') @
     StringFixed dec positionDecimalPlaces (RoundTo dec positionDecimalPlaces \<bar>x\<bar>)"

definition formatSignedPct :: "decimal_ops \<Rightarrow> rat \<Rightarrow> string" where
  "formatSignedPct dec x = (if x < 0 then ''-'' else ''+'') @ StringFixed dec 2 (RoundTo dec 2 \<bar>x\<bar>)"

record user_vault_position =
  pVaultID :: uuid
  pUserID :: uuid
  TotalDepositedUSDC :: string
  SharesHeld :: string
  CurrentValueUSDC :: string
  UnrealizedPnLUSDC :: string
  UnrealizedPnLPct :: string
  FeesPaidUSDC :: string
  FirstDepositAt :: "time option"
  LastActivityAt :: "time option"

definition EmptyUserVaultPosition :: "uuid \<Rightarrow> uuid \<Rightarrow> user_vault_position" where
  "EmptyUserVaultPosition vaultID userID =
     \<lparr> pVaultID = vaultID, pUserID = userID, TotalDepositedUSDC = ''0.000000'', SharesHeld = ''0.000000'',
       CurrentValueUSDC = ''0.000000'', UnrealizedPnLUSDC = ''+0.000000'', UnrealizedPnLPct = ''+0.00'',
       FeesPaidUSDC = ''0.000000'', FirstDepositAt = None, LastActivityAt = None \<rparr>"

text \<open>The variables of the loop over the transactions.\<close>

record position_sums =
  sDeposited :: rat
  sWithdrawn :: rat
  sShares :: rat
  sFees :: rat
  sFirst :: "time option"
  sLast :: "time option"

definition value_or_zero :: "rat option \<Rightarrow> rat" where
  "value_or_zero x = (case x of None \<Rightarrow> 0 | Some y \<Rightarrow> y)"

definition positionStep :: "vault_transaction \<Rightarrow> position_sums \<Rightarrow> position_sums" where
  "positionStep txn s0 =
     (let s1 = s0 \<lparr> sLast := (case sLast s0 of None \<Rightarrow> Some (tCreatedAt txn)
              | Some t \<Rightarrow> if t < tCreatedAt txn then Some (tCreatedAt txn) else Some t),
            sFees := sFees s0 + value_or_zero (FeeCharged txn) \<rparr>;
          shares = value_or_zero (SharesMintedOrBurned txn)
      in if tType txn = ''deposit''
         then s1 \<lparr> sDeposited := sDeposited s1 + tAmount txn, sShares := sShares s1 + shares,
                sFirst := (case sFirst s1 of None \<Rightarrow> Some (tCreatedAt txn)
                  | Some t \<Rightarrow> if tCreatedAt txn < t then Some (tCreatedAt txn) else Some t) \<rparr>
         else if tType txn = ''withdrawal''
         then s1 \<lparr> sWithdrawn := sWithdrawn s1 + tAmount txn, sShares := sShares s1 - shares \<rparr>
         else s1)"

definition BuildUserVaultPosition :: "decimal_ops \<Rightarrow> vault \<Rightarrow> uuid \<Rightarrow> vault_transaction list \<Rightarrow> user_vault_position" where
  "BuildUserVaultPosition dec v userID txns =
     (if txns = [] then EmptyUserVaultPosition (vID v) userID
      else let s = fold positionStep txns
                 \<lparr> sDeposited = 0, sWithdrawn = 0, sShares = 0, sFees = 0, sFirst = None, sLast = None \<rparr>;
               sharesHeld = (if sShares s < 0 then 0 else sShares s);
               currentValue = RoundTo dec positionDecimalPlaces (sharesHeld * ComputeSharePrice dec v);
               netInvested = sDeposited s - sWithdrawn s;
               unrealizedPnL = currentValue - netInvested;
               pnlPct = (if 0 < netInvested then RoundTo dec 2 (Div dec unrealizedPnL netInvested * 100) else 0)
           in \<lparr> pVaultID = vID v, pUserID = userID, TotalDepositedUSDC = formatUSDC dec (sDeposited s),
                SharesHeld = formatUSDC dec sharesHeld, CurrentValueUSDC = formatUSDC dec currentValue,
                UnrealizedPnLUSDC = formatSignedUSDC dec unrealizedPnL, UnrealizedPnLPct = formatSignedPct dec pnlPct,
                FeesPaidUSDC = formatUSDC dec (sFees s), FirstDepositAt = sFirst s, LastActivityAt = sLast s \<rparr>)"

section \<open>Migration\<close>

definition index_of :: "string \<Rightarrow> allocation list \<Rightarrow> nat option \<Rightarrow> bool" where
  "index_of p as ix \<longleftrightarrow> (\<forall>k. ix = Some k \<longrightarrow> k < length as \<and> normalizeProtocol (Protocol (as ! k)) = p)"

lemma index_of_snoc: "index_of p as ix \<Longrightarrow> index_of p (as @ [a]) ix"
  "normalizeProtocol (Protocol a) = p \<Longrightarrow> index_of p (as @ [a]) (Some (length as))"
  by (auto simp: index_of_def nth_append)

lemma findIndices_index:
  "findIndices s t (length pre) as (a, b) = (si, ti) \<Longrightarrow> index_of s pre a \<Longrightarrow> index_of t pre b \<Longrightarrow>
   index_of s (pre @ as) si \<and> index_of t (pre @ as) ti"
proof (induction as arbitrary: pre a b)
  case (Cons x as)
  define p where "p = normalizeProtocol (Protocol x)"
  let ?a = "if p = s then Some (length pre) else a" and ?b = "if p \<noteq> s \<and> p = t then Some (length pre) else b"
  have "findIndices s t (length (pre @ [x])) as (?a, ?b) = (si, ti)"
    using Cons.prems(1) by (auto simp: Let_def p_def split: if_splits)
  moreover have "index_of s (pre @ [x]) ?a" "index_of t (pre @ [x]) ?b"
    using Cons.prems(2,3) by (auto simp: p_def index_of_snoc)
  ultimately show ?case using Cons.IH [of "pre @ [x]"] by simp
qed simp

lemma findIndices_spec:
  assumes "findIndices s t 0 as (None, None) = (Some si, Some ti)" and "s \<noteq> t"
  shows "si < length as" "ti < length as" "si \<noteq> ti"
    "normalizeProtocol (Protocol (as ! si)) = s" "normalizeProtocol (Protocol (as ! ti)) = t"
  using findIndices_index [of s t "[]" as None None] assms by (auto simp: index_of_def)

lemma sum_list_update_rat: "i < length xs \<Longrightarrow> sum_list (xs[i := v]) = sum_list xs - xs ! i + (v :: rat)"
  by (induction xs arbitrary: i) (auto split: nat.splits)

text \<open>
  A migration moves value between two allocations and loses none. When it succeeds, the amount is
  positive and was there, exactly the allocation of the deactivated source loses it and exactly
  the allocation of the active target gains it, nothing else of the vault changes, the total over
  all allocations is the same and no allocation turns negative; when it is refused, the vault is
  unchanged.
\<close>

theorem migration_conserves_value:
  assumes "MigrateYieldSourcePosition src tgt amount v = (r, v')"
  shows "if r \<noteq> None then v' = v
    else 0 < amount \<and> (\<exists>i j. i < length (Allocations v) \<and> j < length (Allocations v) \<and> i \<noteq> j
      \<and> normalizeProtocol (Protocol (Allocations v ! i)) = normalizeProtocol src
      \<and> normalizeProtocol (Protocol (Allocations v ! j)) = normalizeProtocol tgt
      \<and> alStatus (Allocations v ! i) = AllocationStatusDeactivated
      \<and> alStatus (Allocations v ! j) \<noteq> AllocationStatusDeactivated
      \<and> amount \<le> alAmount (Allocations v ! i)
      \<and> v' = v \<lparr> Allocations := (Allocations v)
          [i := (Allocations v ! i) \<lparr> alAmount := alAmount (Allocations v ! i) - amount \<rparr>,
           j := (Allocations v ! j) \<lparr> alAmount := alAmount (Allocations v ! j) + amount \<rparr>] \<rparr>)
      \<and> sum_list (map alAmount (Allocations v')) = sum_list (map alAmount (Allocations v))
      \<and> ((\<forall>a \<in> set (Allocations v). 0 \<le> alAmount a) \<longrightarrow> (\<forall>a \<in> set (Allocations v'). 0 \<le> alAmount a))"
proof (cases "r = None")
  case False
  then show ?thesis using assms by (auto simp: MigrateYieldSourcePosition_def Let_def split: if_splits prod.splits option.splits)
next
  case True
  let ?as = "Allocations v"
  from assms True obtain i j where ix: "findIndices (normalizeProtocol src) (normalizeProtocol tgt) 0 ?as (None, None) = (Some i, Some j)"
    and ne: "normalizeProtocol src \<noteq> normalizeProtocol tgt" and pos: "0 < amount"
    and st: "alStatus (?as ! i) = AllocationStatusDeactivated" "alStatus (?as ! j) \<noteq> AllocationStatusDeactivated"
    and le: "amount \<le> alAmount (?as ! i)"
    and v': "v' = v \<lparr> Allocations := ?as[i := (?as ! i) \<lparr> alAmount := alAmount (?as ! i) - amount \<rparr>,
       j := (?as[i := (?as ! i) \<lparr> alAmount := alAmount (?as ! i) - amount \<rparr>] ! j)
         \<lparr> alAmount := alAmount (?as[i := (?as ! i) \<lparr> alAmount := alAmount (?as ! i) - amount \<rparr>] ! j) + amount \<rparr>] \<rparr>"
    by (auto simp: MigrateYieldSourcePosition_def Let_def split: if_splits prod.splits option.splits)
  note sp = findIndices_spec [OF ix ne]
  have v'': "v' = v \<lparr> Allocations := ?as[i := (?as ! i) \<lparr> alAmount := alAmount (?as ! i) - amount \<rparr>,
       j := (?as ! j) \<lparr> alAmount := alAmount (?as ! j) + amount \<rparr>] \<rparr>"
    unfolding v' using sp(3) by simp
  have tot: "sum_list (map alAmount (Allocations v')) = sum_list (map alAmount ?as)"
    unfolding v'' using sp by (simp add: map_update sum_list_update_rat)
  have nn: "(\<forall>a \<in> set ?as. 0 \<le> alAmount a) \<longrightarrow> (\<forall>a \<in> set (Allocations v'). 0 \<le> alAmount a)"
  proof (intro impI ballI)
    fix a assume h: "\<forall>a \<in> set ?as. 0 \<le> alAmount a" and "a \<in> set (Allocations v')"
    then obtain k where "k < length ?as" and a: "a = Allocations v' ! k" by (auto simp: v'' in_set_conv_nth)
    with h le pos sp show "0 \<le> alAmount a" unfolding a v'' by (auto simp: nth_list_update add_nonneg_nonneg)
  qed
  show ?thesis unfolding True
    by (simp only: simp_thms if_False, intro conjI pos tot nn exI [of _ i] exI [of _ j] sp st le v'')
qed

definition alloc0 :: "uuid \<Rightarrow> string \<Rightarrow> rat \<Rightarrow> string \<Rightarrow> allocation" where
  "alloc0 i p x st = \<lparr> alID = i, alVaultID = 1, Protocol = p, alAmount = x, APY = 4, alStatus = st, AllocatedAt = 0, alUpdatedAt = None \<rparr>"

definition vault0 :: "allocation list \<Rightarrow> vault" where
  "vault0 as = \<lparr> vID = 1, vUserID = 2, ContractAddress = ''C1'', TotalDeposited = 100, CurrentBalance = 100, Currency = ''USDC'',
     vStatus = StatusActive, YieldEarned = 0, FeesPaid = 0, SoftCapacity = None, CapacityWarningPct = None,
     HarvestFrequency = ''daily'', LastHarvestedAt = None, LastSyncedAt = None, DeletedAt = None, Allocations = as, vCreatedAt = 0, vUpdatedAt = 0 \<rparr>"

theorem migration_conserves_value_witness:
  "let v = vault0 [alloc0 1 ''Blend'' 60 ''deactivated'', alloc0 2 ''aqua'' 40 ''active''];
       (r, v') = MigrateYieldSourcePosition ''blend '' ''AQUA'' 25 v
   in r = None \<and> map alAmount (Allocations v') = [35, 65]
      \<and> sum_list (map alAmount (Allocations v')) = sum_list (map alAmount (Allocations v))"
proof -
  let ?v = "vault0 [alloc0 1 ''Blend'' 60 ''deactivated'', alloc0 2 ''aqua'' 40 ''active'']"
  obtain r v' where m: "MigrateYieldSourcePosition ''blend '' ''AQUA'' 25 ?v = (r, v')" by fastforce
  have "fst (MigrateYieldSourcePosition ''blend '' ''AQUA'' 25 ?v) = None
     \<and> map alAmount (Allocations (snd (MigrateYieldSourcePosition ''blend '' ''AQUA'' 25 ?v))) = [35, 65]" by code_simp
  with migration_conserves_value [OF m] m show ?thesis by simp
qed

text \<open>
  Deactivation marks the first allocation of a protocol and migration moves the last one. When a
  protocol is listed twice, which neither the service nor the table refuses, a source stays
  active for the migration after it was deactivated.
\<close>

lemma duplicate_protocol_stuck:
  "let v = snd (DeactivateYieldSource ''blend'' (vault0 [alloc0 1 ''blend'' 60 ''active'', alloc0 2 ''blend'' 10 ''active'',
       alloc0 3 ''aqua'' 30 ''active'']))
   in CanAcceptDepositTo v ''blend'' 1 = Some ErrYieldSourceDeactivated
      \<and> fst (MigrateYieldSourcePosition ''blend'' ''aqua'' 5 v) = Some ErrMigrationSourceActive"
  by code_simp

section \<open>What a position shows\<close>

definition of_type :: "string \<Rightarrow> vault_transaction list \<Rightarrow> vault_transaction list" where
  "of_type t txns = filter (\<lambda>x. tType x = t) txns"

definition total_of :: "(vault_transaction \<Rightarrow> rat) \<Rightarrow> vault_transaction list \<Rightarrow> rat" where
  "total_of f txns = sum_list (map f txns)"

lemma of_type_Cons: "of_type t (x # xs) = (if tType x = t then x # of_type t xs else of_type t xs)"
  by (simp add: of_type_def)

lemma fold_position:
  "let s = fold positionStep txns s0;
       sh = (\<lambda>x. value_or_zero (SharesMintedOrBurned x))
   in sDeposited s = sDeposited s0 + total_of tAmount (of_type ''deposit'' txns)
    \<and> sWithdrawn s = sWithdrawn s0 + total_of tAmount (of_type ''withdrawal'' txns)
    \<and> sShares s = sShares s0 + total_of sh (of_type ''deposit'' txns) - total_of sh (of_type ''withdrawal'' txns)
    \<and> sFees s = sFees s0 + total_of (\<lambda>x. value_or_zero (FeeCharged x)) txns"
proof (induction txns arbitrary: s0)
  case (Cons x txns)
  show ?case using Cons.IH [of "positionStep x s0"]
    by (auto simp: Let_def positionStep_def of_type_def total_of_def)
qed (simp add: Let_def of_type_def total_of_def)

lemma fold_times:
  "sLast (fold positionStep txns s0) = (if txns = [] then sLast s0
     else Some (Max (set (map tCreatedAt txns) \<union> set_option (sLast s0))))"
  "sFirst (fold positionStep txns s0) = (if of_type ''deposit'' txns = [] then sFirst s0
     else Some (Min (set (map tCreatedAt (of_type ''deposit'' txns)) \<union> set_option (sFirst s0))))"
proof (induction txns arbitrary: s0)
  case (Cons x txns)
  have l: "sLast (positionStep x s) = Some (case sLast s of None \<Rightarrow> tCreatedAt x | Some t \<Rightarrow> max t (tCreatedAt x))" for s
    by (auto simp: positionStep_def Let_def max_def split: option.splits)
  have f: "sFirst (positionStep x s) = (if tType x = ''deposit'' then Some (case sFirst s of None \<Rightarrow> tCreatedAt x | Some t \<Rightarrow> min t (tCreatedAt x)) else sFirst s)" for s
    by (auto simp: positionStep_def Let_def min_def split: option.splits)
  {
    case 1
    show ?case
      by (cases "sLast s0"; cases "txns = []") (simp_all add: Cons.IH(1) l Max_insert ac_simps)
  next
    case 2
    show ?case
      by (cases "sFirst s0"; cases "of_type ''deposit'' txns = []"; cases "tType x = ''deposit''")
        (simp_all add: Cons.IH(2) f of_type_Cons Min_insert ac_simps)
  }
qed (simp_all add: of_type_def)

text \<open>
  The position page adds up. For every transaction history it shows the sum of the deposits and of
  the fees, the shares minted by deposits minus those burned by withdrawals and never less than
  zero, their value at the current share price, the profit over deposits minus withdrawals, the
  time of the earliest deposit and the time of the latest transaction, whatever the order of the
  transactions.
\<close>

theorem position_adds_up:
  assumes "txns \<noteq> []" and "p = BuildUserVaultPosition dec v u txns"
    and "sh = (\<lambda>x. value_or_zero (SharesMintedOrBurned x))"
    and "held = max 0 (total_of sh (of_type ''deposit'' txns) - total_of sh (of_type ''withdrawal'' txns))"
    and "val = RoundTo dec 6 (held * ComputeSharePrice dec v)"
    and "net = total_of tAmount (of_type ''deposit'' txns) - total_of tAmount (of_type ''withdrawal'' txns)"
  shows "TotalDepositedUSDC p = formatUSDC dec (total_of tAmount (of_type ''deposit'' txns))
    \<and> FeesPaidUSDC p = formatUSDC dec (total_of (\<lambda>x. value_or_zero (FeeCharged x)) txns)
    \<and> SharesHeld p = formatUSDC dec held \<and> CurrentValueUSDC p = formatUSDC dec val
    \<and> UnrealizedPnLUSDC p = formatSignedUSDC dec (val - net)
    \<and> FirstDepositAt p = (if of_type ''deposit'' txns = [] then None else Some (Min (tCreatedAt ` set (of_type ''deposit'' txns))))
    \<and> LastActivityAt p = Some (Max (tCreatedAt ` set txns))"
proof -
  let ?s0 = "\<lparr> sDeposited = 0, sWithdrawn = 0, sShares = 0, sFees = 0, sFirst = None, sLast = None \<rparr>"
  define s where "s = fold positionStep txns ?s0"
  note f = fold_position [of txns ?s0, unfolded Let_def, folded s_def]
  have sums: "sDeposited s = total_of tAmount (of_type ''deposit'' txns)" "sWithdrawn s = total_of tAmount (of_type ''withdrawal'' txns)"
    "sFees s = total_of (\<lambda>x. value_or_zero (FeeCharged x)) txns" using f by simp_all
  have held: "(if sShares s < 0 then 0 else sShares s) = held" using f by (auto simp: assms(3,4) max_def)
  have times: "sLast s = Some (Max (tCreatedAt ` set txns))"
    "sFirst s = (if of_type ''deposit'' txns = [] then None else Some (Min (tCreatedAt ` set (of_type ''deposit'' txns))))"
    using assms(1) by (simp_all add: s_def fold_times)
  show ?thesis
    unfolding assms(2) BuildUserVaultPosition_def if_not_P [OF assms(1)] Let_def s_def [symmetric] held
    by (simp add: sums times assms(5,6) positionDecimalPlaces_def)
qed

text \<open>A concrete decimal library: exact division, rounding half away from zero.\<close>

definition half_away :: "rat \<Rightarrow> int" where
  "half_away x = (if 0 \<le> x then \<lfloor>x + 1 / 2\<rfloor> else - \<lfloor>- x + 1 / 2\<rfloor>)"

definition numeric :: "nat \<Rightarrow> rat \<Rightarrow> rat" where
  "numeric s x = of_int (half_away (x * 10 ^ s)) / 10 ^ s"

definition dec1 :: decimal_ops where
  "dec1 = \<lparr> Round0 = numeric 0, IntPart = (\<lambda>q. wrap64 \<lfloor>q\<rfloor>), Div = (/), RoundTo = (\<lambda>p. numeric (nat p)),
     StringFixed = (\<lambda>p x. itoa \<lfloor>x\<rfloor> @ ''.'' @ pad_int (nat p) (\<lfloor>x * 10 ^ nat p\<rfloor> mod 10 ^ nat p)),
     DivRound = (\<lambda>x y p. numeric (nat p) (x / y)), NewFromString = (\<lambda>s. if s = ''1'' then Some 1 else None) \<rparr>"

definition txn0 :: "string \<Rightarrow> rat \<Rightarrow> time \<Rightarrow> vault_transaction" where
  "txn0 ty x t = \<lparr> tID = 0, tVaultID = 1, tUserID = Some 2, tType = ty, tAmount = x, TransactionHash = None,
     SharesMintedOrBurned = Some x, SharePriceAtTime = Some 1, FeeCharged = None, tCreatedAt = t \<rparr>"

theorem position_adds_up_witness:
  "let p = BuildUserVaultPosition dec1 (vault0 []) 2 [txn0 ''withdrawal'' 3 30, txn0 ''deposit'' 10 20, txn0 ''deposit'' 1 25]
   in TotalDepositedUSDC p = formatUSDC dec1 11 \<and> SharesHeld p = formatUSDC dec1 8
      \<and> FirstDepositAt p = Some 20 \<and> LastActivityAt p = Some 30"
  using position_adds_up [of "[txn0 ''withdrawal'' 3 30, txn0 ''deposit'' 10 20, txn0 ''deposit'' 1 25]", OF _ refl refl refl refl refl, of dec1 "vault0 []" 2]
  by (simp add: of_type_def txn0_def total_of_def value_or_zero_def)


end
