(* ===== verification/Vault_Repository.thy ===== *)
theory Vault_Repository
  imports Vault
begin

text \<open>
  \<^verbatim>\<open>internal/repository/postgres/vault_repository.go\<close>: the tables of vaults, of their
  transactions and of their allocations, and the double-entry postings that every money movement
  makes in the same database transaction. The constraints of the migrations are part of the
  statements: non-negative balances, \<^verbatim>\<open>NUMERIC\<close> columns that round, the unique transaction hash
  (NULLs are distinct), the unique contract address of live vaults and the foreign keys. Errors
  that name a missing ledger table do not occur: the tables exist.
\<close>

section \<open>Tables\<close>

record vault_db =
  users :: "uuid list"
  vaults :: "vault list"
  txns :: "vault_transaction list"
  allocs :: "allocation list"
  books :: ledger_db

type_synonym 'a vdb = "(vault_db, verror, 'a) db"

text \<open>Values as the columns keep them, and what the columns refuse. A check constraint accepts NULL.\<close>

fun nullable :: "('a \<Rightarrow> bool) \<Rightarrow> 'a option \<Rightarrow> bool" where
  "nullable P None = True"
| "nullable P (Some x) = P x"

definition store_vault :: "vault \<Rightarrow> vault" where
  "store_vault v = v \<lparr> TotalDeposited := numeric 8 (TotalDeposited v), CurrentBalance := numeric 8 (CurrentBalance v),
     YieldEarned := numeric 8 (YieldEarned v), FeesPaid := numeric 8 (FeesPaid v) \<rparr>"

definition fits :: "nat \<Rightarrow> rat \<Rightarrow> bool" where
  "fits p x \<longleftrightarrow> \<bar>x\<bar> < 10 ^ p"

definition vault_ok :: "vault \<Rightarrow> bool" where
  "vault_ok v \<longleftrightarrow> 0 \<le> TotalDeposited v \<and> 0 \<le> CurrentBalance v \<and> 0 \<le> YieldEarned v \<and> 0 \<le> FeesPaid v
     \<and> fits 40 (TotalDeposited v) \<and> fits 40 (CurrentBalance v) \<and> fits 40 (YieldEarned v) \<and> fits 40 (FeesPaid v)
     \<and> ContractAddress v \<noteq> '''' \<and> Currency v \<noteq> '''' \<and> HarvestFrequency v \<in> {HarvestFrequencyDaily, HarvestFrequencyWeekly}"

definition live_address :: "vault list \<Rightarrow> uuid \<Rightarrow> string \<Rightarrow> bool" where
  "live_address vs i a \<longleftrightarrow> list_ex (\<lambda>v. vID v \<noteq> i \<and> DeletedAt v = None \<and> ContractAddress v = a) vs"

text \<open>\<^verbatim>\<open>UPDATE vaults SET ... WHERE id = $1 AND deleted_at IS NULL\<close>: the number of rows and the table.\<close>

definition updateVaultRow :: "uuid \<Rightarrow> (vault \<Rightarrow> vault) \<Rightarrow> vault_db \<Rightarrow> verror db_error + nat \<times> vault_db" where
  "updateVaultRow i f d =
     (let hit = (\<lambda>v. vID v = i \<and> DeletedAt v = None); new = map (store_vault \<circ> f) (filter hit (vaults d))
      in if \<not> list_all vault_ok new then Inl Violation
         else if list_ex (\<lambda>v. DeletedAt v = None \<and> live_address (vaults d) i (ContractAddress v)) new
         then Inl (App ErrContractAddressRegistered)
         else Inr (length new, d \<lparr> vaults := map (\<lambda>v. if hit v then store_vault (f v) else v) (vaults d) \<rparr>))"

definition store_txn :: "vault_transaction \<Rightarrow> vault_transaction" where
  "store_txn t = t \<lparr> tAmount := numeric 8 (tAmount t), SharesMintedOrBurned := map_option (numeric 8) (SharesMintedOrBurned t),
     SharePriceAtTime := map_option (numeric 8) (SharePriceAtTime t), FeeCharged := map_option (numeric 8) (FeeCharged t) \<rparr>"

definition txn_ok :: "vault_transaction \<Rightarrow> bool" where
  "txn_ok t \<longleftrightarrow> tType t \<in> {''deposit'', ''withdrawal'', ''harvest'', ''rebalance''} \<and> 0 < tAmount t \<and> fits 40 (tAmount t)
     \<and> nullable (\<lambda>x. 0 \<le> x \<and> fits 20 x) (SharesMintedOrBurned t)
     \<and> nullable (\<lambda>x. 0 < x \<and> fits 20 x) (SharePriceAtTime t) \<and> nullable (fits 40) (FeeCharged t)"

text \<open>\<^verbatim>\<open>INSERT INTO vault_transactions\<close>; \<open>False\<close> is a conflict on the transaction hash.\<close>

definition insertTxn :: "vault_transaction \<Rightarrow> vault_db \<Rightarrow> verror db_error + bool \<times> vault_db" where
  "insertTxn t0 d =
     (let t = store_txn t0
      in if \<not> txn_ok t then Inl Violation
         else if TransactionHash t \<noteq> None \<and> TransactionHash t \<in> TransactionHash ` set (txns d) then Inr (False, d)
         else if tID t \<in> tID ` set (txns d) then Inl Violation
         else if \<not> nullable (\<lambda>u. u \<in> set (users d)) (tUserID t) then Inl (App ErrUserNotFound)
         else if tVaultID t \<notin> vID ` set (vaults d) then Inl (App ErrVaultNotFound)
         else Inr (True, d \<lparr> txns := txns d @ [t] \<rparr>))"

definition nullif :: "string \<Rightarrow> string option" where
  "nullif s = (if s = '''' then None else Some s)"

section \<open>Ledger postings\<close>

text \<open>A program on the ledger tables, run inside a transaction on all tables.\<close>

definition on_books :: "(ledger_db, lerror, 'a) db \<Rightarrow> (vault_db, verror, 'a) db" where
  "on_books m w =
     (case m \<lparr> data = books (data w), sched = sched w, drawn = drawn w, wall = wall w \<rparr> of (r, b) \<Rightarrow>
        (case r of Inl e \<Rightarrow> Inl (App (ErrLedger e)) | Inr a \<Rightarrow> Inr a,
         w \<lparr> data := (data w) \<lparr> books := data b \<rparr>, sched := sched b, drawn := drawn b \<rparr>))"

definition stroopsOf :: "decimal_ops \<Rightarrow> rat \<Rightarrow> int" where
  "stroopsOf dec d = IntPart dec (Round0 dec (d * 10000000))"

definition default_adapter :: "string \<Rightarrow> string option \<Rightarrow> string option" where
  "default_adapter t ad = (if t = ''yield_source'' \<and> (ad = None \<or> ad = Some '''') then Some ''blend'' else ad)"

definition ledgerGetOrCreateAccountTx :: "(nat \<Rightarrow> uuid) \<Rightarrow> string \<Rightarrow> uuid option \<Rightarrow> uuid option \<Rightarrow> string option \<Rightarrow> string \<Rightarrow> uuid ldb" where
  "ledgerGetOrCreateAccountTx gen accountType vaultID userID adapterName assetCode0 =
     (let assetCode = (if assetCode0 = '''' then ''USDC'' else assetCode0);
          adapter = default_adapter accountType adapterName;
          select = (\<lambda>d. List.find (accountMatches accountType vaultID userID adapter assetCode) (accounts d))
      in case missingArg accountType vaultID userID adapter of
           Some e \<Rightarrow> fail (App e)
         | None \<Rightarrow>
             bind (query (\<lambda>d. Inr (select d))) (\<lambda>row.
               case row of
                 Some acc \<Rightarrow> ret (aID acc)
               | None \<Rightarrow>
                   bind (new_uuid gen) (\<lambda>newID.
                   bind time_now (\<lambda>now.
                   bind (stmt (insertAccount \<lparr> aID = newID, AccountType = accountType, VaultID = vaultID,
                          UserID = userID, AdapterName = adapter, aAssetCode = assetCode,
                          aAssetUnit = ''stroops'', Description = '''', aCreatedAt = now, aUpdatedAt = now \<rparr>)) (\<lambda>_.
                   bind (attempt (query (\<lambda>d. case select d of None \<Rightarrow> Inl ErrNoRows | Some acc \<Rightarrow> Inr acc))) (\<lambda>again.
                     case again of Inl _ \<Rightarrow> ret newID | Inr acc \<Rightarrow> ret (aID acc)))))))"

text \<open>The statements of the loop over the entries are those of \<^verbatim>\<open>postEntriesTx\<close>.\<close>

definition ledgerPostEntriesTx :: "(nat \<Rightarrow> uuid) \<Rightarrow> string \<Rightarrow> string \<Rightarrow> (uuid \<times> int) list \<Rightarrow> unit ldb" where
  "ledgerPostEntriesTx gen evType evID legs =
     (if length legs < 2 then fail (App ErrTooFewEntries)
      else if list_ex (\<lambda>(acc, x). x = 0) legs then fail (App ErrZeroAmount)
      else if wrap64 (sum_list (map snd legs)) \<noteq> 0 then fail (App ErrUnbalanced)
      else bind (new_uuid gen) (\<lambda>txID. postEntriesTx gen (map (\<lambda>(acc, x). mkEntry txID evType evID acc x) legs)))"

definition postDepositLedgerTx :: "(nat \<Rightarrow> uuid) \<Rightarrow> decimal_ops \<Rightarrow> uuid \<Rightarrow> uuid \<Rightarrow> rat \<Rightarrow> string \<Rightarrow> unit ldb" where
  "postDepositLedgerTx gen dec vaultID userID amount evID =
     (let stroops = stroopsOf dec amount
      in if stroops \<le> 0 then ret ()
         else bind (ledgerGetOrCreateAccountTx gen ''user_vault_position'' (Some vaultID) (Some userID) None ''USDC'') (\<lambda>userAcc.
              bind (ledgerGetOrCreateAccountTx gen ''vault_asset_pool'' (Some vaultID) None None ''USDC'') (\<lambda>vaultAcc.
              bind (ledgerGetOrCreateAccountTx gen ''system_suspense'' None None None ''USDC'') (\<lambda>suspense.
                ledgerPostEntriesTx gen ''deposit'' evID
                  [(userAcc, stroops), (vaultAcc, stroops), (suspense, wrap64 (- 2 * stroops))]))))"

definition postWithdrawalLedgerTx :: "(nat \<Rightarrow> uuid) \<Rightarrow> decimal_ops \<Rightarrow> uuid \<Rightarrow> uuid \<Rightarrow> rat \<Rightarrow> string \<Rightarrow> unit ldb" where
  "postWithdrawalLedgerTx gen dec vaultID userID amount evID =
     (let stroops = stroopsOf dec amount
      in if stroops \<le> 0 then ret ()
         else bind (ledgerGetOrCreateAccountTx gen ''user_vault_position'' (Some vaultID) (Some userID) None ''USDC'') (\<lambda>userAcc.
              bind (ledgerGetOrCreateAccountTx gen ''vault_asset_pool'' (Some vaultID) None None ''USDC'') (\<lambda>vaultAcc.
              bind (ledgerGetOrCreateAccountTx gen ''system_suspense'' None None None ''USDC'') (\<lambda>suspense.
                ledgerPostEntriesTx gen ''withdraw'' evID
                  [(userAcc, wrap64 (- stroops)), (vaultAcc, wrap64 (- stroops)), (suspense, wrap64 (2 * stroops))]))))"

definition postHarvestLedgerTx :: "(nat \<Rightarrow> uuid) \<Rightarrow> decimal_ops \<Rightarrow> uuid \<Rightarrow> uuid \<Rightarrow> rat \<Rightarrow> rat \<Rightarrow> string \<Rightarrow> string \<Rightarrow> unit ldb" where
  "postHarvestLedgerTx gen dec vaultID userID netYield perfFee adapterName evID =
     (let net = stroopsOf dec netYield; fee = stroopsOf dec perfFee; gross = wrap64 (net + fee)
      in if net \<le> 0 \<and> fee \<le> 0 then ret ()
         else bind (ledgerGetOrCreateAccountTx gen ''vault_asset_pool'' (Some vaultID) None None ''USDC'') (\<lambda>vaultAcc.
              bind (ledgerGetOrCreateAccountTx gen ''user_vault_position'' (Some vaultID) (Some userID) None ''USDC'') (\<lambda>userAcc.
              bind (ledgerGetOrCreateAccountTx gen ''fee_account'' None None None ''USDC'') (\<lambda>feeAcc.
              bind (ledgerGetOrCreateAccountTx gen ''yield_source'' None None (Some adapterName) ''USDC'') (\<lambda>yieldAcc.
              bind (ledgerGetOrCreateAccountTx gen ''system_suspense'' None None None ''USDC'') (\<lambda>suspense.
                ledgerPostEntriesTx gen ''harvest'' evID
                  ((if net \<noteq> 0 then [(vaultAcc, net), (userAcc, net), (suspense, wrap64 (- net))] else [])
                   @ (if fee \<noteq> 0 then [(feeAcc, fee)] else [])
                   @ (if gross \<noteq> 0 then [(yieldAcc, wrap64 (- gross))] else []))))))))"

definition postRebalanceLedgerTx :: "(nat \<Rightarrow> uuid) \<Rightarrow> decimal_ops \<Rightarrow> string \<Rightarrow> string \<Rightarrow> rat \<Rightarrow> string \<Rightarrow> unit ldb" where
  "postRebalanceLedgerTx gen dec fromProtocol toProtocol amount evID =
     (let stroops = stroopsOf dec amount
      in if stroops \<le> 0 then ret ()
         else if fromProtocol = toProtocol then ret ()
         else bind (ledgerGetOrCreateAccountTx gen ''yield_source'' None None (Some fromProtocol) ''USDC'') (\<lambda>fromID.
              bind (ledgerGetOrCreateAccountTx gen ''yield_source'' None None (Some toProtocol) ''USDC'') (\<lambda>toID.
                ledgerPostEntriesTx gen ''rebalance'' evID [(fromID, wrap64 (- stroops)), (toID, stroops)])))"

section \<open>Writes\<close>

record transaction_record =
  rUserID :: uuid
  rAmount :: rat
  rHash :: string
  rShares :: rat
  rPrice :: rat
  rFee :: rat

definition record_txn :: "uuid \<Rightarrow> uuid \<Rightarrow> string \<Rightarrow> transaction_record \<Rightarrow> time \<Rightarrow> vault_transaction" where
  "record_txn i vaultID ty rec now = \<lparr> tID = i, tVaultID = vaultID, tUserID = Some (rUserID rec), tType = ty, tAmount = rAmount rec,
     TransactionHash = nullif (rHash rec), SharesMintedOrBurned = Some (rShares rec), SharePriceAtTime = Some (rPrice rec),
     FeeCharged = Some (rFee rec), tCreatedAt = now \<rparr>"

text \<open>An insert without a conflict clause: the duplicate hash is an error.\<close>

definition insertTxnStrict :: "vault_transaction \<Rightarrow> unit vdb" where
  "insertTxnStrict t = bind (stmt (insertTxn t)) (\<lambda>inserted. if inserted then ret () else fail (App ErrDuplicateTransaction))"

definition credit :: "rat \<Rightarrow> time \<Rightarrow> vault \<Rightarrow> vault" where
  "credit x now v = v \<lparr> TotalDeposited := TotalDeposited v + x, CurrentBalance := CurrentBalance v + x, vUpdatedAt := now \<rparr>"

definition debit :: "rat \<Rightarrow> time \<Rightarrow> vault \<Rightarrow> vault" where
  "debit x now v = v \<lparr> CurrentBalance := CurrentBalance v - x, vUpdatedAt := now \<rparr>"

definition pgCreateVault :: "vault \<Rightarrow> vault vdb" where
  "pgCreateVault m0 = bind time_now (\<lambda>now.
     let m = m0 \<lparr> HarvestFrequency := (if HarvestFrequency m0 = '''' then HarvestFrequencyDaily else HarvestFrequency m0) \<rparr>;
         row = store_vault (m \<lparr> SoftCapacity := None, CapacityWarningPct := None, LastHarvestedAt := None, LastSyncedAt := None, DeletedAt := None,
           Allocations := [], vCreatedAt := now, vUpdatedAt := now \<rparr>)
     in stmt (\<lambda>d. if \<not> vault_ok row \<or> vID row \<in> vID ` set (vaults d) then Inl Violation
          else if live_address (vaults d) (vID row) (ContractAddress row) then Inl (App ErrContractAddressRegistered)
          else if vUserID row \<notin> set (users d) then Inl (App ErrUserNotFound)
          else Inr (m \<lparr> vCreatedAt := now, vUpdatedAt := now \<rparr>, d \<lparr> vaults := vaults d @ [row] \<rparr>)))"

definition pgGetVault :: "uuid \<Rightarrow> vault vdb" where
  "pgGetVault i =
     bind (query (\<lambda>d. case List.find (\<lambda>v. vID v = i \<and> DeletedAt v = None) (vaults d) of
        None \<Rightarrow> Inl (App ErrVaultNotFound) | Some v \<Rightarrow> Inr v)) (\<lambda>v.
     bind (query (\<lambda>d. Inr (rev (sort_key AllocatedAt (filter (\<lambda>a. alVaultID a = i) (allocs d)))))) (\<lambda>as.
       ret (v \<lparr> Allocations := as \<rparr>)))"

definition updateOne :: "uuid \<Rightarrow> (time \<Rightarrow> vault \<Rightarrow> vault) \<Rightarrow> unit vdb" where
  "updateOne i f = bind time_now (\<lambda>now. bind (stmt (updateVaultRow i (f now))) (\<lambda>n.
     if n = 0 then fail (App ErrVaultNotFound) else ret ()))"

definition pgUpdateVaultBalances :: "uuid \<Rightarrow> rat \<Rightarrow> rat \<Rightarrow> unit vdb" where
  "pgUpdateVaultBalances i deposited current =
     updateOne i (\<lambda>now v. v \<lparr> TotalDeposited := deposited, CurrentBalance := current, vUpdatedAt := now \<rparr>)"

definition pgUpdateVault :: "uuid \<Rightarrow> string \<Rightarrow> vault_status \<Rightarrow> unit vdb" where
  "pgUpdateVault i addr st = updateOne i (\<lambda>now v. v \<lparr> ContractAddress := addr, vStatus := st, vUpdatedAt := now \<rparr>)"

definition pgUpdateHarvestFrequency :: "uuid \<Rightarrow> string \<Rightarrow> unit vdb" where
  "pgUpdateHarvestFrequency i freq = updateOne i (\<lambda>now v. v \<lparr> HarvestFrequency := freq, vUpdatedAt := now \<rparr>)"

definition pgSoftDeleteVault :: "uuid \<Rightarrow> unit vdb" where
  "pgSoftDeleteVault i = updateOne i (\<lambda>now v. v \<lparr> DeletedAt := Some now \<rparr>)"

definition pgRecordDeposit :: "(nat \<Rightarrow> uuid) \<Rightarrow> decimal_ops \<Rightarrow> uuid \<Rightarrow> transaction_record \<Rightarrow> unit vdb" where
  "pgRecordDeposit gen dec i rec =
     (if rAmount rec \<le> 0 then fail (App ErrInvalidAmount)
      else transaction (
        bind (updateOne i (credit (rAmount rec))) (\<lambda>_.
        bind (new_uuid gen) (\<lambda>rowID.
        bind time_now (\<lambda>now.
        bind (stmt (insertTxn (record_txn rowID i ''deposit'' rec now))) (\<lambda>inserted.
          if \<not> inserted then fail (App ErrDuplicateTransaction)
          else on_books (postDepositLedgerTx gen dec i (rUserID rec) (rAmount rec) (rHash rec))))))))"

definition pgRecordWithdrawal :: "(nat \<Rightarrow> uuid) \<Rightarrow> decimal_ops \<Rightarrow> uuid \<Rightarrow> transaction_record \<Rightarrow> unit vdb" where
  "pgRecordWithdrawal gen dec i rec =
     (if rAmount rec \<le> 0 then fail (App ErrInvalidAmount)
      else transaction (
        bind (query (\<lambda>d. case List.find (\<lambda>v. vID v = i \<and> DeletedAt v = None) (vaults d) of
          None \<Rightarrow> Inl (App ErrVaultNotFound) | Some v \<Rightarrow> Inr (CurrentBalance v))) (\<lambda>balance.
          if balance < rAmount rec then fail (App ErrWithdrawalExceedsPosition)
          else bind time_now (\<lambda>now.
               bind (stmt (updateVaultRow i (debit (rAmount rec) now))) (\<lambda>_.
               bind (new_uuid gen) (\<lambda>rowID.
               bind (insertTxnStrict (record_txn rowID i ''withdrawal'' rec now)) (\<lambda>_.
                 on_books (postWithdrawalLedgerTx gen dec i (rUserID rec) (rAmount rec) (rHash rec)))))))))"

record harvest_input =
  hVaultID :: uuid
  hUserID :: uuid
  NetYield :: rat
  PerformanceFee :: rat
  Compounded :: bool
  NewSharesMinted :: "rat option"
  hHash :: string

definition harvest_row :: "harvest_input \<Rightarrow> time \<Rightarrow> vault \<Rightarrow> vault" where
  "harvest_row inp now v =
     (let net = NetYield inp; fee = PerformanceFee inp;
          v1 = (if Compounded inp then v \<lparr> TotalDeposited := TotalDeposited v + net, CurrentBalance := CurrentBalance v + net \<rparr>
                else v \<lparr> CurrentBalance := CurrentBalance v - net \<rparr>)
      in v1 \<lparr> YieldEarned := max (YieldEarned v - (net + fee)) 0, FeesPaid := FeesPaid v + fee,
              LastHarvestedAt := Some now, vUpdatedAt := now \<rparr>)"

definition pgRecordHarvest :: "(nat \<Rightarrow> uuid) \<Rightarrow> decimal_ops \<Rightarrow> harvest_input \<Rightarrow> unit vdb" where
  "pgRecordHarvest gen dec inp =
     (if NetYield inp < 0 \<or> PerformanceFee inp < 0 then fail (App ErrInvalidAmount)
      else transaction (
        bind (updateOne (hVaultID inp) (harvest_row inp)) (\<lambda>_.
        bind (new_uuid gen) (\<lambda>rowID.
        bind time_now (\<lambda>now.
        bind (insertTxnStrict \<lparr> tID = rowID, tVaultID = hVaultID inp, tUserID = Some (hUserID inp), tType = ''harvest'',
               tAmount = NetYield inp, TransactionHash = nullif (hHash inp), SharesMintedOrBurned = NewSharesMinted inp,
               SharePriceAtTime = None, FeeCharged = Some (PerformanceFee inp), tCreatedAt = now \<rparr>) (\<lambda>_.
          on_books (postHarvestLedgerTx gen dec (hVaultID inp) (hUserID inp) (NetYield inp) (PerformanceFee inp) ''blend'' (hHash inp))))))))"

definition ownerOf :: "uuid \<Rightarrow> vault_db \<Rightarrow> verror db_error + uuid" where
  "ownerOf i d = (case List.find (\<lambda>v. vID v = i) (vaults d) of None \<Rightarrow> Inl ErrNoRows | Some v \<Rightarrow> Inr (vUserID v))"

text \<open>
  An error that the code drops inside a transaction. After a failed statement PostgreSQL refuses
  the rest of the transaction and its \<^verbatim>\<open>COMMIT\<close>; an empty result, or an error of the Go code itself,
  leaves the transaction usable.
\<close>

fun aborts :: "verror db_error \<Rightarrow> bool" where
  "aborts DBFailure = True"
| "aborts Violation = True"
| "aborts (App (ErrLedger DBFailure)) = True"
| "aborts (App (ErrLedger Violation)) = True"
| "aborts _ = False"

definition dropped :: "'a vdb \<Rightarrow> (verror db_error + 'a) vdb" where
  "dropped m w = (case m w of
     (Inl e, w1) \<Rightarrow> if aborts e then (Inl DBFailure, w1) else (Inr (Inl e), w1)
   | (Inr a, w1) \<Rightarrow> (Inr (Inr a), w1))"

text \<open>
  The owner is read twice, the first result is dropped, and an owner that cannot be read is
  replaced by a fresh identifier whose posting errors are dropped.
\<close>

definition applyConfirmedBalanceChange :: "(nat \<Rightarrow> uuid) \<Rightarrow> decimal_ops \<Rightarrow> uuid \<Rightarrow> rat \<Rightarrow> string \<Rightarrow> string \<Rightarrow> unit vdb" where
  "applyConfirmedBalanceChange gen dec i amount txHash ty =
     (if amount \<le> 0 then fail (App ErrInvalidAmount)
      else if trim_space txHash = '''' then fail (App ErrInvalidVault)
      else let post = (\<lambda>u. on_books (if ty = ''deposit'' then postDepositLedgerTx gen dec i u amount txHash
                                     else postWithdrawalLedgerTx gen dec i u amount txHash))
      in transaction (
        bind (new_uuid gen) (\<lambda>rowID.
        bind time_now (\<lambda>now.
        bind (stmt (insertTxn \<lparr> tID = rowID, tVaultID = i, tUserID = None, tType = ty, tAmount = amount,
               TransactionHash = Some txHash, SharesMintedOrBurned = None, SharePriceAtTime = None, FeeCharged = None,
               tCreatedAt = now \<rparr>)) (\<lambda>inserted.
          if \<not> inserted then ret ()
          else bind (updateOne i (if ty = ''deposit'' then credit amount else debit amount)) (\<lambda>_.
               bind (dropped (query (ownerOf i))) (\<lambda>_.
               bind (dropped (query (ownerOf i))) (\<lambda>owner.
                 case owner of
                   Inr u \<Rightarrow> if u = uuid_nil then bind (new_uuid gen) (\<lambda>v. bind (dropped (post v)) (\<lambda>_. ret ())) else post u
                 | Inl _ \<Rightarrow> bind (new_uuid gen) (\<lambda>v. bind (dropped (post v)) (\<lambda>_. ret ()))))))))))"

definition pgApplyConfirmedDeposit :: "(nat \<Rightarrow> uuid) \<Rightarrow> decimal_ops \<Rightarrow> uuid \<Rightarrow> rat \<Rightarrow> string \<Rightarrow> unit vdb" where
  "pgApplyConfirmedDeposit gen dec i amount txHash = applyConfirmedBalanceChange gen dec i amount txHash ''deposit''"

definition pgApplyConfirmedWithdrawal :: "(nat \<Rightarrow> uuid) \<Rightarrow> decimal_ops \<Rightarrow> uuid \<Rightarrow> rat \<Rightarrow> string \<Rightarrow> unit vdb" where
  "pgApplyConfirmedWithdrawal gen dec i amount txHash = applyConfirmedBalanceChange gen dec i amount txHash ''withdrawal''"

record rebalance_input =
  bVaultID :: uuid
  bUserID :: uuid
  FromProtocol :: string
  ToProtocol :: string
  bAmount :: rat
  bHash :: string

definition pgRecordRebalance :: "(nat \<Rightarrow> uuid) \<Rightarrow> decimal_ops \<Rightarrow> rebalance_input \<Rightarrow> transaction_record \<Rightarrow> transaction_record \<Rightarrow> unit vdb" where
  "pgRecordRebalance gen dec inp wd dp = transaction (
     bind time_now (\<lambda>now.
     bind (stmt (updateVaultRow (bVaultID inp) (debit (rAmount wd) now))) (\<lambda>_.
     bind (new_uuid gen) (\<lambda>r1.
     bind (insertTxnStrict (record_txn r1 (bVaultID inp) ''withdrawal'' wd now)) (\<lambda>_.
     bind (stmt (updateVaultRow (bVaultID inp) (credit (rAmount dp) now))) (\<lambda>_.
     bind (new_uuid gen) (\<lambda>r2.
     bind (insertTxnStrict (record_txn r2 (bVaultID inp) ''deposit'' dp now)) (\<lambda>_.
     bind (new_uuid gen) (\<lambda>r3.
     bind (insertTxnStrict \<lparr> tID = r3, tVaultID = bVaultID inp, tUserID = Some (bUserID inp), tType = ''rebalance'',
            tAmount = bAmount inp, TransactionHash = nullif (bHash inp), SharesMintedOrBurned = None, SharePriceAtTime = None,
            FeeCharged = None, tCreatedAt = now \<rparr>) (\<lambda>_.
       on_books (postRebalanceLedgerTx gen dec (FromProtocol inp) (ToProtocol inp) (bAmount inp) (bHash inp))))))))))))"

definition insertAllocation :: "uuid \<Rightarrow> allocation \<Rightarrow> vault_db \<Rightarrow> verror db_error + unit \<times> vault_db" where
  "insertAllocation i a0 d =
     (let a = a0 \<lparr> alVaultID := i, alAmount := numeric 8 (alAmount a0), APY := numeric 4 (APY a0), alUpdatedAt := None \<rparr>
      in if Protocol a = '''' \<or> alAmount a < 0 \<or> \<not> fits 40 (alAmount a) \<or> APY a < 0 \<or> 100 < APY a \<or> 20 < length (alStatus a)
           \<or> alID a \<in> alID ` set (allocs d) then Inl Violation
         else if i \<notin> vID ` set (vaults d) then Inl (App ErrVaultNotFound)
         else Inr ((), d \<lparr> allocs := allocs d @ [a] \<rparr>))"

fun insertAllocations :: "uuid \<Rightarrow> allocation list \<Rightarrow> unit vdb" where
  "insertAllocations i [] = ret ()"
| "insertAllocations i (a # as) = bind (stmt (insertAllocation i a)) (\<lambda>_. insertAllocations i as)"

definition ensureVaultExists :: "uuid \<Rightarrow> unit vdb" where
  "ensureVaultExists i = query (\<lambda>d. if list_ex (\<lambda>v. vID v = i \<and> DeletedAt v = None) (vaults d) then Inr () else Inl (App ErrVaultNotFound))"

definition pgReplaceAllocations :: "uuid \<Rightarrow> allocation list \<Rightarrow> unit vdb" where
  "pgReplaceAllocations i as = transaction (
     bind (ensureVaultExists i) (\<lambda>_.
     bind (stmt (\<lambda>d. Inr ((), d \<lparr> allocs := filter (\<lambda>a. alVaultID a \<noteq> i) (allocs d) \<rparr>))) (\<lambda>_.
     bind (insertAllocations i as) (\<lambda>_.
     bind time_now (\<lambda>now.
       stmt (\<lambda>d. Inr ((), d \<lparr> vaults := map (\<lambda>v. if vID v = i then v \<lparr> vUpdatedAt := now \<rparr> else v) (vaults d) \<rparr>)))))))"

section \<open>Reads\<close>

definition pgListDeposits :: "uuid \<Rightarrow> vault_transaction list vdb" where
  "pgListDeposits i = query (\<lambda>d. Inr (rev (sort_key tCreatedAt (filter (\<lambda>t. tVaultID t = i \<and> tType t = ''deposit'') (txns d)))))"

definition pgListUserVaultTransactions :: "uuid \<Rightarrow> uuid \<Rightarrow> vault_transaction list vdb" where
  "pgListUserVaultTransactions u i = query (\<lambda>d. Inr (sort_key tCreatedAt (filter (\<lambda>t. tVaultID t = i \<and> tUserID t = Some u) (txns d))))"

definition withAllocations :: "vault_db \<Rightarrow> vault \<Rightarrow> vault" where
  "withAllocations d v = v \<lparr> Allocations := rev (sort_key AllocatedAt (filter (\<lambda>a. alVaultID a = vID v) (allocs d))) \<rparr>"

fun loadAll :: "vault list \<Rightarrow> vault list vdb" where
  "loadAll [] = ret []"
| "loadAll (v # vs) = bind (query (\<lambda>d. Inr (withAllocations d v))) (\<lambda>v'. bind (loadAll vs) (\<lambda>vs'. ret (v' # vs')))"

definition pgListActive :: "vault list vdb" where
  "pgListActive = bind (query (\<lambda>d. Inr (sort_key vCreatedAt (filter (\<lambda>v. DeletedAt v = None \<and> vStatus v = StatusActive) (vaults d))))) loadAll"

definition pgListVaults :: "vault_status option \<Rightarrow> nat \<Rightarrow> nat \<Rightarrow> (vault list \<times> nat) vdb" where
  "pgListVaults st limit offset =
     (let keep = filter (\<lambda>v. DeletedAt v = None \<and> (case st of None \<Rightarrow> True | Some s \<Rightarrow> vStatus v = s))
      in bind (query (\<lambda>d. Inr (length (keep (vaults d))))) (\<lambda>n.
         bind (query (\<lambda>d. Inr (take limit (drop offset (rev (sort_key vCreatedAt (keep (vaults d)))))))) (\<lambda>vs. ret (vs, n))))"

end
