(* ===== verification/Vault_Replay.thy ===== *)
theory Vault_Replay
  imports Vault_Repository
begin

text \<open>
  What holds of the tables of \<open>Vault_Repository\<close> after any history of calls and faults: the balance
  of a vault is the replay of its transaction rows, the pool account of the ledger agrees with it,
  and one transaction hash moves money once. The proofs follow the statements of each database
  transaction: \<open>gap\<close> says by how much the three records of a vault are apart in the middle of it.
\<close>

section \<open>What the postings do to the journal\<close>

text \<open>
  Between the statements of a posting: the ledger invariant holds, the journal is \<open>j\<close>, the accounts
  resolved so far have their keys, and every account identifier was drawn from the supply.
\<close>

definition drawn_ids :: "(nat \<Rightarrow> uuid) \<Rightarrow> nat \<Rightarrow> ledger_db \<Rightarrow> bool" where
  "drawn_ids gen n d \<longleftrightarrow> (\<forall>a \<in> set (accounts d). \<exists>m < n. aID a = gen m)"

definition lat :: "(nat \<Rightarrow> uuid) \<Rightarrow> leg list \<Rightarrow> (uuid \<times> acct_key) list \<Rightarrow> ledger_db dbw \<Rightarrow> bool" where
  "lat gen j ks w \<longleftrightarrow> svc_inv (data w) \<and> journal (data w) = j \<and> (\<forall>(i, k) \<in> set ks. keyOf (data w) i = Some k)
     \<and> drawn_ids gen (drawn w) (data w)"

lemma drawn_ids_mono: "drawn_ids gen n d \<Longrightarrow> n \<le> m \<Longrightarrow> drawn_ids gen m d"
  unfolding drawn_ids_def using order_less_le_trans by blast

lemma bind_uuid: "bind (new_uuid gen) f w = f (gen (drawn w)) (w \<lparr> drawn := drawn w + 1 \<rparr>)"
  and bind_now: "bind time_now g w = g (wall w) w"
  and bind_attempt: "bind (attempt m) h w = h (fst (m w)) (snd (m w))"
  by (simp_all add: bind_def new_uuid_def time_now_def attempt_def split: prod.splits)

lemma stmt_frame: "drawn (snd (stmt f w)) = drawn w" "wall (snd (stmt f w)) = wall w"
  and query_frame: "drawn (snd (query g w)) = drawn w" "wall (snd (query g w)) = wall w"
  by (auto simp: query_def stmt_def Let_def split: sum.splits)

lemma query_fst: "fst (query f w) = Inr a \<Longrightarrow> f (data w) = Inr a"
  by (auto simp: query_def stmt_def Let_def split: sum.splits if_splits)

lemma insert_new_account:
  assumes "uuid_source gen" and l: "lat gen j ks w" and m: "missingArg t v u ad = None"
    and none: "\<forall>b \<in> set (accounts (data w)). \<not> accountMatches t v u ad asset b"
    and a: "accountMatches t v u ad asset a" "aID a = gen (drawn w)"
    and ins: "insertAccount a (data w) = Inr (flag, d)"
  shows "svc_inv d \<and> journal d = j \<and> (\<forall>(i, k) \<in> set ks. keyOf d i = Some k) \<and> drawn_ids gen (drawn w + 1) d
    \<and> keyOf d (gen (drawn w)) = Some (mk_key t v u ad asset)"
proof -
  have ka: "account_key a = Some (mk_key t v u ad asset)" using accountMatches_key [OF m] a(1) by simp
  have new: "gen (drawn w) \<notin> aID ` set (accounts (data w))"
  proof
    assume "gen (drawn w) \<in> aID ` set (accounts (data w))"
    then obtain k where "k < drawn w" "gen (drawn w) = gen k" using l by (force simp: lat_def drawn_ids_def)
    then show False using uuid_sourceD(2) [OF assms(1), of "drawn w" k] by simp
  qed
  moreover have "\<not> same_key a b" if "b \<in> set (accounts (data w))" for b
    using none that accountMatches_key [OF m, of asset b] by (auto simp: same_key_def ka)
  ultimately have "\<not> (\<exists>b \<in> set (accounts (data w)). aID b = aID a \<or> same_key a b)" using a(2) by (auto simp: image_iff)
  then have d: "d = (data w) \<lparr> accounts := accounts (data w) @ [a] \<rparr>"
    using ins by (auto simp: insertAccount_def split: if_splits)
  have inv: "ledger_inv d \<and> journal d = journal (data w) \<and> key_le (data w) d"
    using insertAccount_inv [OF _ ins] l ka by (simp add: lat_def svc_inv_def)
  moreover have "keyOf d (gen (drawn w)) = Some (mk_key t v u ad asset)"
    unfolding d keyOf_append using new a(2) ka by simp
  moreover have "drawn_ids gen (drawn w + 1) d"
    using l a(2) by (auto simp: lat_def d drawn_ids_def less_Suc_eq intro: less_SucI)
  ultimately show ?thesis using l by (auto simp: lat_def key_le_def svc_inv_def)
qed

lemma resolve_hoare:
  assumes gen: "uuid_source gen"
  shows "hoare (lat gen j ks) (ledgerGetOrCreateAccountTx gen t v u ad0 ''USDC'')
    (\<lambda>acc. lat gen j ((acc, mk_key t v u (default_adapter t ad0) ''USDC'') # ks))"
  unfolding hoare_def
proof (intro allI impI)
  fix w acc w' assume l: "lat gen j ks w" and run: "ledgerGetOrCreateAccountTx gen t v u ad0 ''USDC'' w = (Inr acc, w')"
  define ad where "ad = default_adapter t ad0"
  let ?sel = "\<lambda>d. List.find (accountMatches t v u ad ''USDC'') (accounts d)"
  let ?K = "mk_key t v u ad ''USDC''"
  have m: "missingArg t v u ad = None"
    using run by (auto simp: ledgerGetOrCreateAccountTx_def Let_def ad_def fail_def split: option.splits)
  have found: "?sel (data x) = Some b \<Longrightarrow> svc_inv (data x) \<Longrightarrow> keyOf (data x) (aID b) = Some ?K" for x :: "ledger_db dbw" and b
    using find_Some_iff_mem [of "accountMatches t v u ad ''USDC''" "accounts (data x)" b] keyOf_known [of "data x" b]
      accountMatches_key [OF m] by (simp add: svc_inv_def ledger_inv_def)
  note run' = run [unfolded ledgerGetOrCreateAccountTx_def Let_def if_not_P [OF list.distinct(2)] ad_def [symmetric] m option.case]
  from run' obtain row w1 where q: "query (\<lambda>d. Inr (?sel d)) w = (Inr row :: lerror db_error + account option, w1)"
    and rest: "(case row of Some acc \<Rightarrow> ret (aID acc) | None \<Rightarrow>
       bind (new_uuid gen) (\<lambda>newID. bind time_now (\<lambda>now.
         bind (stmt (insertAccount \<lparr> aID = newID, AccountType = t, VaultID = v, UserID = u, AdapterName = ad,
           aAssetCode = ''USDC'', aAssetUnit = ''stroops'', Description = '''', aCreatedAt = now, aUpdatedAt = now \<rparr>)) (\<lambda>_.
         bind (attempt (query (\<lambda>d. case ?sel d of None \<Rightarrow> Inl ErrNoRows | Some acc \<Rightarrow> Inr acc))) (\<lambda>again.
           case again of Inl _ \<Rightarrow> ret newID | Inr acc \<Rightarrow> ret (aID acc)))))) w1 = (Inr acc, w')"
    by (simp only: bind_Inr) blast
  have sel: "?sel (data w) = row" and d1: "data w1 = data w" and n1: "drawn w1 = drawn w" 
    using query_Inr [OF q] q by (auto simp: query_def stmt_def Let_def split: if_splits)
  show "lat gen j ((acc, ?K) # ks) w'"
  proof (cases row)
    case (Some b)
    then have "acc = aID b" "w' = w1" using rest by (simp_all add: ret_Inr)
    then show ?thesis using l found [of w b] sel Some d1 n1 by (auto simp: lat_def)
  next
    case None
    define a where "a = \<lparr> aID = gen (drawn w), AccountType = t, VaultID = v, UserID = u, AdapterName = ad,
           aAssetCode = ''USDC'', aAssetUnit = ''stroops'', Description = '''', aCreatedAt = wall w1, aUpdatedAt = wall w1 \<rparr>"
    let ?q = "query (\<lambda>d. case ?sel d of None \<Rightarrow> Inl ErrNoRows | Some acc \<Rightarrow> Inr acc) :: account ldb"
    from rest have "bind (stmt (insertAccount a)) (\<lambda>_. bind (attempt ?q) (\<lambda>again.
        case again of Inl _ \<Rightarrow> ret (gen (drawn w)) | Inr acc \<Rightarrow> ret (aID acc))) (w1 \<lparr> drawn := drawn w1 + 1 \<rparr>) = (Inr acc, w')"
      unfolding None option.case bind_uuid bind_now a_def by (simp add: n1)
    then obtain flag w2 where s: "stmt (insertAccount a) (w1 \<lparr> drawn := drawn w1 + 1 \<rparr>) = (Inr flag, w2)"
      and k: "(case fst (?q w2) of Inl _ \<Rightarrow> ret (gen (drawn w)) | Inr acc \<Rightarrow> ret (aID acc)) (snd (?q w2)) = (Inr acc :: lerror db_error + uuid, w')"
      unfolding bind_Inr bind_attempt by blast
    have ins: "insertAccount a (data w) = Inr (flag, data w2)" using stmt_Inr [OF s] by (simp add: d1)
    have n2: "drawn w2 = drawn w + 1" using stmt_frame(1) [of "insertAccount a" "w1 \<lparr> drawn := drawn w1 + 1 \<rparr>"] unfolding s by (simp add: n1)
    have d3: "data w' = data w2" "drawn w' = drawn w2"
      using k query_data query_frame(1) by (auto simp: ret_Inr split: sum.splits)
    have again: "acc = gen (drawn w) \<or> (\<exists>b. ?sel (data w2) = Some b \<and> acc = aID b)"
      using k by (auto simp: ret_Inr dest!: query_fst split: sum.splits option.splits)
    have am: "accountMatches t v u ad ''USDC'' a"
      using m by (auto simp: a_def accountMatches_def missingArg_def account_type_defs split: if_splits)
    have none: "\<forall>b \<in> set (accounts (data w)). \<not> accountMatches t v u ad ''USDC'' b" using sel None by (simp add: find_None_mem)
    have new: "svc_inv (data w2)" "journal (data w2) = j" "\<forall>(i, k) \<in> set ks. keyOf (data w2) i = Some k"
        "drawn_ids gen (drawn w + 1) (data w2)" "keyOf (data w2) (gen (drawn w)) = Some ?K"
      using insert_new_account [OF gen l m none am _ ins] by (auto simp: a_def)
    then show ?thesis using again found [of w2] d3 n2 by (auto simp: lat_def)
  qed
qed

lemma insertEntry_accounts: "insertEntry e d = Inr (x, d') \<Longrightarrow> accounts d' = accounts d"
  by (auto simp: insertEntry_def split: if_splits)

lemma postEntriesTx_frame:
  "postEntriesTx gen es w = (r, w') \<Longrightarrow> accounts (data w') = accounts (data w) \<and> drawn w \<le> drawn w'"
proof (induction es arbitrary: w)
  case (Cons e es)
  define w0 where "w0 = snd ((if eID e = uuid_nil then new_uuid gen else ret (eID e)) w :: (lerror db_error + uuid) \<times> ledger_db dbw)"
  define i where "i = (if eID e = uuid_nil then gen (drawn w) else eID e)"
  have w0: "data w0 = data w" "drawn w \<le> drawn w0" by (auto simp: w0_def new_uuid_def ret_def)
  let ?e = "prepareEntry i (wall w0) e"
  let ?u = "upsertBalance (AccountID ?e) (Amount ?e) (eAssetCode ?e) (eAssetUnit ?e) (wall w0)"
  have run: "bind (stmt (insertEntry ?e)) (\<lambda>_. bind (stmt ?u) (\<lambda>_. postEntriesTx gen es)) w0 = (r, w')"
    using Cons.prems unfolding postEntriesTx.simps by (auto simp: bind_uuid bind_now w0_def i_def new_uuid_def ret_def bind_def [of "ret _"] Let_def)
  obtain r1 w1 where s1: "stmt (insertEntry ?e) w0 = (r1, w1)" by fastforce
  have f1: "accounts (data w1) = accounts (data w0)" "drawn w1 = drawn w0"
    using s1 insertEntry_accounts by (auto simp: stmt_def Let_def split: if_splits sum.splits)
  obtain r2 w2 where s2: "stmt ?u w1 = (r2, w2)" by fastforce
  have f2: "accounts (data w2) = accounts (data w1)" "drawn w2 = drawn w1"
    using s2 upsertBalance_frame by (auto simp: stmt_def Let_def split: if_splits sum.splits)
  have "w' = w1 \<or> w' = w2 \<or> postEntriesTx gen es w2 = (r, w')"
    using run s1 s2 by (auto simp: bind_def split: sum.splits)
  then show ?case using Cons.IH [of w2] f1 f2 w0 by auto
qed (simp add: ret_Inr)

definition legs_for :: "(uuid \<times> acct_key) list \<Rightarrow> (uuid \<times> int) list \<Rightarrow> leg list \<Rightarrow> bool" where
  "legs_for ks = list_all2 (\<lambda>(acc, x) (k, y). y = x \<and> (\<exists>k'. k = Some k' \<and> (acc, k') \<in> set ks))"

lemma post_hoare:
  assumes legs: "legs_for ks ls legs"
  shows "hoare (lat gen j ks) (ledgerPostEntriesTx gen ty ev ls)
    (\<lambda>_ w. lat gen (j @ legs) [] w \<and> wrap64 (sum_list (map snd legs)) = 0)"
  unfolding hoare_def
proof (intro allI impI)
  fix w a w' assume l: "lat gen j ks w" and run: "ledgerPostEntriesTx gen ty ev ls w = (Inr a, w')"
  let ?w = "w \<lparr> drawn := drawn w + 1 \<rparr>" and ?es = "map (\<lambda>(acc, x). mkEntry (gen (drawn w)) ty ev acc x) ls"
  from run have z: "wrap64 (sum_list (map snd ls)) = 0" and p: "postEntriesTx gen ?es ?w = (Inr a, w')"
    by (auto simp: ledgerPostEntriesTx_def bind_uuid fail_def split: if_splits)
  have at: "at_journal (data w) j ?w \<and> keyOf (data ?w) = keyOf (data w)" using l by (simp add: at_journal_def lat_def svc_inv_def)
  note post = hoareD [OF postEntriesTx_hoare at p]
  have eq: "map (\<lambda>e. (keyOf (data w) (AccountID e), Amount e)) ?es = legs \<and> sum_list (map snd legs) = sum_list (map snd ls)"
    using legs l unfolding legs_for_def
    by (induction ls legs rule: list_all2_induct) (auto simp: mkEntry_def lat_def)
  have f: "accounts (data w') = accounts (data w)" "drawn w \<le> drawn w'" using postEntriesTx_frame [OF p] by simp_all
  then have "drawn_ids gen (drawn w') (data w')" "keyed (data w')"
    using l drawn_ids_mono [of gen "drawn w" "data w" "drawn w'"] by (auto simp: lat_def drawn_ids_def keyed_def svc_inv_def)
  then show "lat gen (j @ legs) [] w' \<and> wrap64 (sum_list (map snd legs)) = 0"
    using post z eq by (auto simp: lat_def at_journal_def svc_inv_def)
qed

lemmas posting_rules = hoare_bind [OF resolve_hoare]

lemma mk_key_names:
  "mk_key ''user_vault_position'' (Some v) (Some u) (default_adapter ''user_vault_position'' ad) ''USDC'' = user_key v u"
  "mk_key ''vault_asset_pool'' (Some v) u' (default_adapter ''vault_asset_pool'' ad) ''USDC'' = pool_key v"
  "mk_key ''system_suspense'' v' u' (default_adapter ''system_suspense'' ad) ''USDC'' = suspense_key"
  "mk_key ''fee_account'' v' u' (default_adapter ''fee_account'' ad) ''USDC'' = fee_key"
  "mk_key ''yield_source'' v' u' (default_adapter ''yield_source'' ad) ''USDC'' = yield_key (the (default_adapter ''yield_source'' ad))"
  by (auto simp: mk_key_def key_defs account_type_defs default_adapter_def)

definition harvest_posting :: "uuid \<Rightarrow> uuid \<Rightarrow> int \<Rightarrow> int \<Rightarrow> leg list" where
  "harvest_posting v u net fee =
     (if net \<noteq> 0 then [(Some (pool_key v), net), (Some (user_key v u), net), (Some suspense_key, wrap64 (- net))] else [])
     @ (if fee \<noteq> 0 then [(Some fee_key, fee)] else [])
     @ (if wrap64 (net + fee) \<noteq> 0 then [(Some (yield_key ''blend''), wrap64 (- wrap64 (net + fee)))] else [])"

definition rebalance_posting :: "string \<Rightarrow> string \<Rightarrow> int \<Rightarrow> leg list" where
  "rebalance_posting a b x = [(Some (yield_key (the (default_adapter ''yield_source'' (Some a)))), wrap64 (- x)),
     (Some (yield_key (the (default_adapter ''yield_source'' (Some b)))), x)]"

definition posted :: "(nat \<Rightarrow> uuid) \<Rightarrow> leg list \<Rightarrow> leg list \<Rightarrow> unit ldb \<Rightarrow> bool" where
  "posted gen j legs m \<longleftrightarrow> hoare (lat gen j []) m (\<lambda>_ w. lat gen (j @ legs) [] w \<and> wrap64 (sum_list (map snd legs)) = 0)"

lemma posted_nothing: "posted gen j [] (ret ())"
  by (auto simp: posted_def intro: hoare_ret)

lemma postings:
  assumes "uuid_source gen"
  shows "posted gen j (if stroopsOf dec x \<le> 0 then [] else deposit_legs v u (stroopsOf dec x)) (postDepositLedgerTx gen dec v u x ev)"
    and "posted gen j (if stroopsOf dec x \<le> 0 then [] else withdrawal_legs v u (stroopsOf dec x)) (postWithdrawalLedgerTx gen dec v u x ev)"
    and "posted gen j (if stroopsOf dec n \<le> 0 \<and> stroopsOf dec f \<le> 0 then [] else harvest_posting v u (stroopsOf dec n) (stroopsOf dec f))
      (postHarvestLedgerTx gen dec v u n f ''blend'' ev)"
    and "posted gen j (if stroopsOf dec x \<le> 0 \<or> a = b then [] else rebalance_posting a b (stroopsOf dec x)) (postRebalanceLedgerTx gen dec a b x ev)"
proof -
  have blend: "the (default_adapter ''yield_source'' (Some ''blend'')) = ''blend''" by (simp add: default_adapter_def)
  note leg_simps = legs_for_def mk_key_names deposit_legs_def withdrawal_legs_def harvest_posting_def rebalance_posting_def
  show "posted gen j (if stroopsOf dec x \<le> 0 then [] else deposit_legs v u (stroopsOf dec x)) (postDepositLedgerTx gen dec v u x ev)"
  proof (cases "stroopsOf dec x \<le> 0")
    case False
    show ?thesis unfolding posted_def postDepositLedgerTx_def Let_def if_not_P [OF False]
      by (intro posting_rules [OF assms] post_hoare) (simp add: leg_simps)
  qed (simp add: posted_nothing postDepositLedgerTx_def Let_def)
  show "posted gen j (if stroopsOf dec x \<le> 0 then [] else withdrawal_legs v u (stroopsOf dec x)) (postWithdrawalLedgerTx gen dec v u x ev)"
  proof (cases "stroopsOf dec x \<le> 0")
    case False
    show ?thesis unfolding posted_def postWithdrawalLedgerTx_def Let_def if_not_P [OF False]
      by (intro posting_rules [OF assms] post_hoare) (simp add: leg_simps)
  qed (simp add: posted_nothing postWithdrawalLedgerTx_def Let_def)
  show "posted gen j (if stroopsOf dec n \<le> 0 \<and> stroopsOf dec f \<le> 0 then [] else harvest_posting v u (stroopsOf dec n) (stroopsOf dec f))
      (postHarvestLedgerTx gen dec v u n f ''blend'' ev)"
  proof (cases "stroopsOf dec n \<le> 0 \<and> stroopsOf dec f \<le> 0")
    case False
    show ?thesis unfolding posted_def postHarvestLedgerTx_def Let_def if_not_P [OF False]
      by (intro posting_rules [OF assms] post_hoare) (simp add: leg_simps blend)
  qed (simp add: posted_nothing postHarvestLedgerTx_def Let_def)
  show "posted gen j (if stroopsOf dec x \<le> 0 \<or> a = b then [] else rebalance_posting a b (stroopsOf dec x)) (postRebalanceLedgerTx gen dec a b x ev)"
  proof (cases "stroopsOf dec x \<le> 0 \<or> a = b")
    case False
    then have ne: "\<not> stroopsOf dec x \<le> 0" "a \<noteq> b" by auto
    show ?thesis unfolding posted_def postRebalanceLedgerTx_def Let_def if_not_P [OF False] if_not_P [OF ne(1)] if_not_P [OF ne(2)]
      by (intro posting_rules [OF assms] post_hoare) (simp add: leg_simps)
  qed (auto simp: posted_nothing postRebalanceLedgerTx_def Let_def)
qed

section \<open>Amounts\<close>

definition whole8 :: "rat \<Rightarrow> bool" where
  "whole8 x \<longleftrightarrow> numeric 8 x = x"

lemma half_away_int [simp]: "half_away (of_int n) = n"
proof (cases "0 \<le> n")
  case True
  then show ?thesis by (simp add: half_away_def floor_unique)
next
  case False
  then have "\<lfloor>- (of_int n :: rat) + 1 / 2\<rfloor> = - n" by (intro floor_unique) auto
  with False show ?thesis by (simp add: half_away_def)
qed

lemma whole8_iff: "whole8 x \<longleftrightarrow> (\<exists>n :: int. x * 10 ^ 8 = of_int n)"
proof
  assume "whole8 x"
  then have "x * 10 ^ 8 = of_int (half_away (x * 10 ^ 8))" by (simp add: whole8_def numeric_def field_simps)
  then show "\<exists>n :: int. x * 10 ^ 8 = of_int n" by blast
next
  assume "\<exists>n :: int. x * 10 ^ 8 = of_int n"
  then obtain n :: int where n: "x * 10 ^ 8 = of_int n" by blast
  have "numeric 8 x = of_int n / 10 ^ 8" unfolding numeric_def n by simp
  also have "\<dots> = x" using n [symmetric] by simp
  finally show "whole8 x" by (simp add: whole8_def)
qed

lemma whole8_add: "whole8 x \<Longrightarrow> whole8 y \<Longrightarrow> whole8 (x + y)"
  unfolding whole8_iff by (metis distrib_right of_int_add)

lemma whole8_minus: "whole8 x \<Longrightarrow> whole8 (- x)"
  unfolding whole8_iff by (metis mult_minus_left of_int_minus)

lemma whole8_0 [simp]: "whole8 0"
  unfolding whole8_iff by (rule exI [of _ 0]) simp

lemma numeric_whole8: "whole8 x \<Longrightarrow> numeric 8 x = x"
  by (simp add: whole8_def)

section \<open>Replay\<close>

text \<open>What a row of \<^verbatim>\<open>vault_transactions\<close> means for the balance, for the deposits and for the pool account.\<close>

definition balance_effect :: "vault_transaction \<Rightarrow> rat" where
  "balance_effect t =
     (if tType t = ''deposit'' then tAmount t else if tType t = ''withdrawal'' then - tAmount t
      else if tType t = ''harvest'' then (if SharesMintedOrBurned t \<noteq> None then tAmount t else - tAmount t) else 0)"

definition deposit_effect :: "vault_transaction \<Rightarrow> rat" where
  "deposit_effect t =
     (if tType t = ''deposit'' \<or> tType t = ''harvest'' \<and> SharesMintedOrBurned t \<noteq> None then tAmount t else 0)"

definition pool_effect :: "decimal_ops \<Rightarrow> vault_transaction \<Rightarrow> int" where
  "pool_effect dec t =
     (if tType t = ''deposit'' \<or> tType t = ''harvest'' then max 0 (stroopsOf dec (tAmount t))
      else if tType t = ''withdrawal'' then - max 0 (stroopsOf dec (tAmount t)) else 0)"

definition rows_of :: "uuid \<Rightarrow> vault_db \<Rightarrow> vault_transaction list" where
  "rows_of i d = filter (\<lambda>t. tVaultID t = i) (txns d)"

definition hashes :: "vault_db \<Rightarrow> string list" where
  "hashes d = List.map_filter TransactionHash (txns d)"

definition vaults_replay :: "uuid \<Rightarrow> rat \<Rightarrow> rat \<Rightarrow> vault_db \<Rightarrow> bool" where
  "vaults_replay i a b d \<longleftrightarrow> distinct (map vID (vaults d)) \<and>
     (\<forall>v \<in> set (vaults d). vault_ok v \<and> whole8 (CurrentBalance v) \<and> whole8 (TotalDeposited v)
        \<and> CurrentBalance v = sum_list (map balance_effect (rows_of (vID v) d)) + (if vID v = i then a else 0)
        \<and> TotalDeposited v = sum_list (map deposit_effect (rows_of (vID v) d)) + (if vID v = i then b else 0))"

definition rows_ok :: "vault_db \<Rightarrow> bool" where
  "rows_ok d \<longleftrightarrow> distinct (hashes d) \<and> (\<forall>t \<in> set (txns d). tVaultID t \<in> vID ` set (vaults d) \<and> 0 < tAmount t)"

definition books_replay :: "decimal_ops \<Rightarrow> uuid \<Rightarrow> int \<Rightarrow> vault_db \<Rightarrow> bool" where
  "books_replay dec i c d \<longleftrightarrow> svc_inv (books d) \<and> books_ok (journal (books d)) \<and>
     (\<forall>v. jsum (pool_of v) (journal (books d)) = sum_list (map (pool_effect dec) (rows_of v d)) + (if v = i then c else 0))"

text \<open>
  Inside a transaction on vault \<open>i\<close>, the three accounts of its balance may be apart by \<open>a\<close>, \<open>b\<close>
  and \<open>c\<close>; between transactions they are not apart.
\<close>

definition gap :: "(nat \<Rightarrow> uuid) \<Rightarrow> decimal_ops \<Rightarrow> uuid \<Rightarrow> rat \<Rightarrow> rat \<Rightarrow> int \<Rightarrow> vault_db dbw \<Rightarrow> bool" where
  "gap gen dec i a b c w \<longleftrightarrow> vaults_replay i a b (data w) \<and> rows_ok (data w) \<and> books_replay dec i c (data w)
     \<and> drawn_ids gen (drawn w) (books (data w))"

definition vault_inv :: "(nat \<Rightarrow> uuid) \<Rightarrow> decimal_ops \<Rightarrow> vault_db dbw \<Rightarrow> bool" where
  "vault_inv gen dec w \<longleftrightarrow> gap gen dec 0 0 0 0 w"

lemma gap_0: "gap gen dec i 0 0 0 w \<longleftrightarrow> vault_inv gen dec w"
  by (simp add: vault_inv_def gap_def vaults_replay_def books_replay_def)

definition live_in :: "uuid \<Rightarrow> vault_db \<Rightarrow> bool" where
  "live_in i d \<longleftrightarrow> (\<exists>v \<in> set (vaults d). vID v = i \<and> DeletedAt v = None)"

text \<open>The state of a transaction on a vault that has a live row.\<close>

definition gapL :: "(nat \<Rightarrow> uuid) \<Rightarrow> decimal_ops \<Rightarrow> uuid \<Rightarrow> rat \<Rightarrow> rat \<Rightarrow> int \<Rightarrow> vault_db dbw \<Rightarrow> bool" where
  "gapL gen dec i a b c w \<longleftrightarrow> gap gen dec i a b c w \<and> live_in i (data w)"

subsection \<open>Rules for the statements\<close>

lemma gap_frame:
  "gap gen dec i a b c w \<Longrightarrow> data w' = data w \<Longrightarrow> drawn w \<le> drawn w' \<Longrightarrow> gap gen dec i a b c w'"
  by (auto simp: gap_def intro: drawn_ids_mono)

lemma gapL_frame:
  "gapL gen dec i a b c w \<Longrightarrow> data w' = data w \<Longrightarrow> drawn w \<le> drawn w' \<Longrightarrow> gapL gen dec i a b c w'"
  by (auto simp: gapL_def intro: gap_frame)

lemma gap_reads:
  "hoare (gapL gen dec i a b c) (new_uuid gen') (\<lambda>_. gapL gen dec i a b c)"
  "hoare (gapL gen dec i a b c) time_now (\<lambda>_. gapL gen dec i a b c)"
  "hoare (gapL gen dec i a b c) (query q) (\<lambda>_. gapL gen dec i a b c)"
  "hoare (gapL gen dec i a b c) (dropped (query q)) (\<lambda>_. gapL gen dec i a b c)"
  "hoare (gap gen dec i a b c) (new_uuid gen') (\<lambda>_. gap gen dec i a b c)"
  "hoare (gap gen dec i a b c) time_now (\<lambda>_. gap gen dec i a b c)"
  "hoare (gap gen dec i a b c) (query q) (\<lambda>_. gap gen dec i a b c)"
proof -
  have q: "data w' = data w \<and> drawn w \<le> drawn w'" if "query q w = (r, w')" for r w w'
    using query_data [of q w] query_frame(1) [of q w] unfolding that by simp
  show "hoare (gapL gen dec i a b c) (query q) (\<lambda>_. gapL gen dec i a b c)"
    unfolding hoare_def using q gapL_frame by blast
  show "hoare (gap gen dec i a b c) (query q) (\<lambda>_. gap gen dec i a b c)"
    unfolding hoare_def using q gap_frame by blast
  show "hoare (gapL gen dec i a b c) (dropped (query q)) (\<lambda>_. gapL gen dec i a b c)"
    unfolding hoare_def dropped_def using q gapL_frame by (auto split: prod.splits sum.splits if_splits)
qed (auto simp: hoare_def new_uuid_def time_now_def intro: gapL_frame gap_frame)

definition shifts :: "rat \<Rightarrow> rat \<Rightarrow> (vault \<Rightarrow> vault) \<Rightarrow> bool" where
  "shifts x y f \<longleftrightarrow> (\<forall>v. vID (f v) = vID v \<and> CurrentBalance (f v) = CurrentBalance v + x \<and> TotalDeposited (f v) = TotalDeposited v + y)"

lemma updateVaultRow_replay:
  assumes inv: "vaults_replay i a b d" and f: "shifts x y f" and xy: "whole8 x" "whole8 y"
    and upd: "updateVaultRow i f d = Inr (n, d')"
  shows "txns d' = txns d" "books d' = books d" "vID ` set (vaults d') = vID ` set (vaults d)"
    and "live_in i d \<or> x = 0 \<and> y = 0 \<Longrightarrow> vaults_replay i (a + x) (b + y) d'"
    and "n \<noteq> 0 \<longleftrightarrow> live_in i d"
proof -
  let ?hit = "\<lambda>v. vID v = i \<and> DeletedAt v = None"
  let ?g = "\<lambda>v. if ?hit v then store_vault (f v) else v"
  have d': "d' = d \<lparr> vaults := map ?g (vaults d) \<rparr>" and ok: "\<forall>v \<in> set (vaults d). ?hit v \<longrightarrow> vault_ok (store_vault (f v))"
    and n: "n = length (filter ?hit (vaults d))"
    using upd by (auto simp: updateVaultRow_def Let_def list_all_iff split: if_splits)
  show "txns d' = txns d" "books d' = books d" by (simp_all add: d')
  have id: "vID (?g v) = vID v" for v using f by (simp add: shifts_def store_vault_def)
  have ids: "map vID (vaults d') = map vID (vaults d)" using f by (simp add: d' shifts_def store_vault_def)
  then show "vID ` set (vaults d') = vID ` set (vaults d)" by (metis set_map)
  show "n \<noteq> 0 \<longleftrightarrow> live_in i d" by (auto simp: n live_in_def filter_empty_conv)
  assume l: "live_in i d \<or> x = 0 \<and> y = 0"
  have rows: "rows_of k d' = rows_of k d" for k by (simp add: rows_of_def d')
  have dist: "distinct (map vID (vaults d))" using inv by (simp add: vaults_replay_def)
  show "vaults_replay i (a + x) (b + y) d'"
    unfolding vaults_replay_def
  proof (intro conjI ballI)
    show "distinct (map vID (vaults d'))" unfolding ids by (rule dist)
  next
    fix u assume "u \<in> set (vaults d')"
    then obtain v where v: "v \<in> set (vaults d)" and u: "u = ?g v" by (auto simp: d')
    have h: "vault_ok v" "whole8 (CurrentBalance v)" "whole8 (TotalDeposited v)"
      "CurrentBalance v = sum_list (map balance_effect (rows_of (vID v) d)) + (if vID v = i then a else 0)"
      "TotalDeposited v = sum_list (map deposit_effect (rows_of (vID v) d)) + (if vID v = i then b else 0)"
      using inv v unfolding vaults_replay_def by blast+
    have s: "CurrentBalance (store_vault (f v)) = CurrentBalance v + x" "TotalDeposited (store_vault (f v)) = TotalDeposited v + y"
      using f h(2,3) xy by (simp_all add: store_vault_def shifts_def numeric_whole8 whole8_add)
    have miss: "x = 0 \<and> y = 0" if "vID v = i" "DeletedAt v \<noteq> None"
    proof -
      have "\<not> live_in i d"
        using that v inj_onD [OF conjunct2 [OF dist [unfolded distinct_map]]] unfolding live_in_def by metis
      then show ?thesis using l by blast
    qed
    show "vault_ok u" using h(1) ok v by (simp add: u)
    show "whole8 (CurrentBalance u)" "whole8 (TotalDeposited u)" using h(2,3) s xy by (simp_all add: u whole8_add)
    show "CurrentBalance u = sum_list (map balance_effect (rows_of (vID u) d')) + (if vID u = i then a + x else 0)"
      "TotalDeposited u = sum_list (map deposit_effect (rows_of (vID u) d')) + (if vID u = i then b + y else 0)"
      using h(4,5) s miss unfolding rows u id by (auto simp: algebra_simps)
  qed
qed

lemma updated_gap:
  assumes g: "gap gen dec i a b c w" and f: "shifts x y f" "whole8 x" "whole8 y"
    and upd: "updateVaultRow i f (data w) = Inr (n, data w')" and l: "live_in i (data w) \<or> x = 0 \<and> y = 0"
    and n: "drawn w \<le> drawn w'"
  shows "gap gen dec i (a + x) (b + y) c w'"
proof -
  have v: "vaults_replay i a b (data w)" using g by (simp add: gap_def)
  note u = updateVaultRow_replay [OF v f upd]
  have "rows_of k (data w') = rows_of k (data w)" "hashes (data w') = hashes (data w)" for k
    by (simp_all add: rows_of_def hashes_def u(1))
  then show ?thesis
    using g u(4) [OF l] n by (auto simp: gap_def rows_ok_def books_replay_def u(1,2,3) intro: drawn_ids_mono)
qed

lemma updated_live:
  assumes "updateVaultRow i f d = Inr (n, d')" and "\<And>v. vID (f v) = vID v" "\<And>v. DeletedAt (f v) = DeletedAt v"
  shows "live_in i d' = live_in i d"
proof -
  have d': "d' = d \<lparr> vaults := map (\<lambda>v. if vID v = i \<and> DeletedAt v = None then store_vault (f v) else v) (vaults d) \<rparr>"
    using assms(1) by (auto simp: updateVaultRow_def Let_def split: if_splits)
  let ?g = "\<lambda>v. if vID v = i \<and> DeletedAt v = None then store_vault (f v) else v"
  have g: "vID (?g v) = i \<and> DeletedAt (?g v) = None \<longleftrightarrow> vID v = i \<and> DeletedAt v = None" for v
    using assms(2,3) by (simp add: store_vault_def)
  have vs: "vaults d' = map ?g (vaults d)" by (simp add: d')
  have "live_in i d' \<longleftrightarrow> (\<exists>v \<in> set (vaults d). vID (?g v) = i \<and> DeletedAt (?g v) = None)"
    unfolding live_in_def vs set_map by (rule bex_simps(7))
  then show ?thesis unfolding g live_in_def .
qed

lemma update_hoare:
  assumes "shifts x y f" "whole8 x" "whole8 y" and del: "\<And>v. DeletedAt (f v) = DeletedAt v"
  shows "hoare (gapL gen dec i a b c) (stmt (updateVaultRow i f)) (\<lambda>_. gapL gen dec i (a + x) (b + y) c)"
proof (rule hoare_stmt)
  fix w n d assume g: "gapL gen dec i a b c w" and upd: "updateVaultRow i f (data w) = Inr (n, d)"
  let ?w = "w \<lparr> sched := tl (sched w), data := d \<rparr>"
  have "gap gen dec i (a + x) (b + y) c ?w"
    by (rule updated_gap [of _ _ _ _ _ _ w, OF _ assms(1-3)]) (use g upd in \<open>simp_all add: gapL_def\<close>)
  moreover have "live_in i d"
    using updated_live [OF upd _ del] g assms(1) by (simp add: gapL_def shifts_def)
  ultimately show "gapL gen dec i (a + x) (b + y) c ?w" by (simp add: gapL_def)
qed

lemma updateOne_hoare:
  assumes sh: "\<And>now. shifts x y (f now)" and wh: "whole8 x" "whole8 y" and del: "\<And>now v. DeletedAt (f now v) = DeletedAt v"
  shows "hoare (gap gen dec i a b c) (updateOne i f) (\<lambda>_. gapL gen dec i (a + x) (b + y) c)"
  unfolding hoare_def
proof (intro allI impI)
  fix w r w' assume g: "gap gen dec i a b c w" and run: "updateOne i f w = (Inr r, w')"
  from run obtain n where n: "stmt (updateVaultRow i (f (wall w))) w = (Inr n, w')" "n \<noteq> 0"
    by (auto simp: updateOne_def bind_now bind_Inr fail_def ret_Inr split: if_splits)
  have upd: "updateVaultRow i (f (wall w)) (data w) = Inr (n, data w')" by (rule stmt_Inr [OF n(1)])
  have v: "vaults_replay i a b (data w)" using g by (simp add: gap_def)
  have l: "live_in i (data w)" using updateVaultRow_replay(5) [OF v sh wh upd] n(2) by simp
  have dr: "drawn w \<le> drawn w'" using stmt_frame(1) [of "updateVaultRow i (f (wall w))" w] by (simp add: n(1))
  have "gap gen dec i (a + x) (b + y) c w'" by (rule updated_gap [OF g sh wh upd _ dr]) (use l in simp)
  moreover have "live_in i (data w')" using updated_live [OF upd _ del] l sh by (simp add: shifts_def)
  ultimately show "gapL gen dec i (a + x) (b + y) c w'" by (simp add: gapL_def)
qed

lemma store_txn_effects:
  assumes "whole8 (tAmount t)"
  shows "balance_effect (store_txn t) = balance_effect t" "deposit_effect (store_txn t) = deposit_effect t"
    "pool_effect dec (store_txn t) = pool_effect dec t" "tVaultID (store_txn t) = tVaultID t" "TransactionHash (store_txn t) = TransactionHash t"
  using assms by (cases "SharesMintedOrBurned t", simp_all add: balance_effect_def deposit_effect_def pool_effect_def store_txn_def numeric_whole8)+

lemma insertTxn_gap:
  assumes g: "gap gen dec i a b c w" and i: "tVaultID t = i" and wh: "whole8 (tAmount t)"
    and ins: "insertTxn t (data w) = Inr (True, data w')" and n: "drawn w \<le> drawn w'"
  shows "gap gen dec i (a - balance_effect t) (b - deposit_effect t) (c - pool_effect dec t) w'"
proof -
  note e = store_txn_effects [OF wh]
  have d': "data w' = (data w) \<lparr> txns := txns (data w) @ [store_txn t] \<rparr>" and ok: "txn_ok (store_txn t)"
    and h: "TransactionHash t = None \<or> TransactionHash t \<notin> TransactionHash ` set (txns (data w))"
    and v: "i \<in> vID ` set (vaults (data w))"
    using ins i e by (auto simp: insertTxn_def Let_def split: if_splits)
  have rows: "rows_of k (data w') = (if k = i then rows_of k (data w) @ [store_txn t] else rows_of k (data w))" for k
    using i e by (auto simp: rows_of_def d')
  have "vaults_replay i (a - balance_effect t) (b - deposit_effect t) (data w')"
    using g e unfolding gap_def vaults_replay_def rows by (auto simp: d')
  moreover have "books_replay dec i (c - pool_effect dec t) (data w')"
    using g e unfolding gap_def books_replay_def rows by (auto simp: d')
  moreover have "rows_ok (data w')"
    using g e h ok v i unfolding gap_def rows_ok_def
    by (force simp: d' hashes_def map_filter_def txn_ok_def image_iff split: option.splits)
  ultimately show ?thesis using g n by (auto simp: gap_def d' intro: drawn_ids_mono)
qed

lemma insert_hoare:
  assumes "tVaultID t = i" and "whole8 (tAmount t)"
  shows "hoare (gapL gen dec i a b c) (insertTxnStrict t)
    (\<lambda>_. gapL gen dec i (a - balance_effect t) (b - deposit_effect t) (c - pool_effect dec t))"
  unfolding hoare_def
proof (intro allI impI)
  fix w r w' assume g: "gapL gen dec i a b c w" and run: "insertTxnStrict t w = (Inr r, w')"
  then have s: "stmt (insertTxn t) w = (Inr True, w')"
    by (auto simp: insertTxnStrict_def bind_Inr fail_def ret_Inr split: if_splits)
  have ins: "insertTxn t (data w) = Inr (True, data w')" by (rule stmt_Inr [OF s])
  then have "data w' = (data w) \<lparr> txns := txns (data w) @ [store_txn t] \<rparr>" by (simp add: insertTxn_def Let_def split: if_splits)
  then have "vaults (data w') = vaults (data w)" by simp
  moreover have dr: "drawn w \<le> drawn w'" using stmt_frame(1) [of "insertTxn t" w] by (simp add: s)
  ultimately show "gapL gen dec i (a - balance_effect t) (b - deposit_effect t) (c - pool_effect dec t) w'"
    using insertTxn_gap [OF _ assms ins dr] g by (simp add: gapL_def live_in_def)
qed

lemma books_ok_append: "books_ok j \<Longrightarrow> books_ok legs \<Longrightarrow> books_ok (j @ legs)"
  by (auto simp: books_ok_def)

lemma books_hoare:
  assumes post: "\<And>j. posted gen j legs m" and ok: "wrap64 (sum_list (map snd legs)) = 0 \<Longrightarrow> books_ok legs"
    and pool: "\<And>v. jsum (pool_of v) legs = (if v = i then x else 0)"
  shows "hoare (gapL gen dec i a b c) (on_books m) (\<lambda>_. gapL gen dec i a b (c + x))"
  unfolding hoare_def
proof (intro allI impI)
  fix w r w' assume g: "gapL gen dec i a b c w" and run: "on_books m w = (Inr r, w')"
  let ?b = "\<lparr> data = books (data w), sched = sched w, drawn = drawn w, wall = wall w \<rparr>"
  from run obtain b' where m: "m ?b = (Inr r, b')" and w': "data w' = (data w) \<lparr> books := data b' \<rparr>" "drawn w' = drawn b'"
    by (auto simp: on_books_def split: prod.splits sum.splits)
  have "lat gen (journal (books (data w))) [] ?b" using g by (simp add: lat_def gapL_def gap_def books_replay_def)
  from hoareD [OF post [unfolded posted_def] this m]
  have l: "lat gen (journal (books (data w)) @ legs) [] b'" and z: "books_ok legs" using ok by blast+
  have rows: "rows_of k (data w') = rows_of k (data w)" "hashes (data w') = hashes (data w)" for k
    by (simp_all add: rows_of_def hashes_def w')
  show "gapL gen dec i a b (c + x) w'"
    using g l books_ok_append [OF _ z] pool unfolding gapL_def gap_def vaults_replay_def books_replay_def rows_ok_def rows
    by (auto simp: w' lat_def live_in_def)
qed

subsection \<open>Calls that keep the replay\<close>

definition grows :: "('d, 'e, 'a) db \<Rightarrow> bool" where
  "grows m \<longleftrightarrow> (\<forall>w. drawn w \<le> drawn (snd (m w)))"

lemma growsD: "grows m \<Longrightarrow> m w = (r, w') \<Longrightarrow> drawn w \<le> drawn w'"
  unfolding grows_def by (metis snd_conv)

lemma grows_bind: "grows m \<Longrightarrow> (\<And>a. grows (f a)) \<Longrightarrow> grows (bind m f)"
  unfolding grows_def bind_def by (auto split: prod.splits sum.splits) (metis snd_conv order_trans)+

lemma grows_trivial [simp]:
  "grows (ret a)" "grows (fail e)" "grows time_now" "grows (new_uuid gen)" "grows (query q)" "grows (stmt f)"
  by (simp_all add: grows_def ret_def fail_def time_now_def new_uuid_def query_frame stmt_frame)

lemma grows_attempt: "grows m \<Longrightarrow> grows (attempt m)"
  by (auto simp: grows_def attempt_def split: prod.splits) (metis snd_conv)

lemma grows_if: "(b \<Longrightarrow> grows m) \<Longrightarrow> (\<not> b \<Longrightarrow> grows n) \<Longrightarrow> grows (if b then m else n)"
  by simp

lemma grows_option: "grows m \<Longrightarrow> (\<And>a. grows (f a)) \<Longrightarrow> grows (case x of None \<Rightarrow> m | Some a \<Rightarrow> f a)"
  by (cases x) auto

lemma grows_sum: "(\<And>a. grows (g a)) \<Longrightarrow> (\<And>a. grows (f a)) \<Longrightarrow> grows (case x of Inl a \<Rightarrow> g a | Inr a \<Rightarrow> f a)"
  by (cases x) auto

lemmas grows_rules = grows_bind grows_trivial grows_attempt grows_if grows_option grows_sum

lemma grows_posting:
  "grows (ledgerGetOrCreateAccountTx gen t v u ad a)" "grows (ledgerPostEntriesTx gen ty ev ls)"
proof -
  have "grows (postEntriesTx gen es)" for es unfolding grows_def using postEntriesTx_frame by (metis prod.collapse)
  then show "grows (ledgerPostEntriesTx gen ty ev ls)" unfolding ledgerPostEntriesTx_def by (intro grows_rules)
qed (auto simp: ledgerGetOrCreateAccountTx_def Let_def intro!: grows_rules)

lemma grows_postings:
  "grows (postDepositLedgerTx gen dec v u x ev)" "grows (postWithdrawalLedgerTx gen dec v u x ev)"
  "grows (postHarvestLedgerTx gen dec v u n f ad ev)" "grows (postRebalanceLedgerTx gen dec a b x ev)"
  unfolding postDepositLedgerTx_def postWithdrawalLedgerTx_def postHarvestLedgerTx_def postRebalanceLedgerTx_def Let_def
  by (intro grows_rules grows_posting)+

lemma grows_books: "grows m \<Longrightarrow> grows (on_books m)"
  by (auto simp: grows_def on_books_def split: prod.splits) (metis dbw.select_convs(3) snd_conv)

lemma grows_dropped: "grows m \<Longrightarrow> grows (dropped m)"
  by (auto simp: grows_def dropped_def split: prod.splits sum.splits) (metis snd_conv)+

lemma grows_vault_calls: "grows (updateOne i f)" "grows (insertTxnStrict t)"
  unfolding updateOne_def insertTxnStrict_def by (intro grows_rules)+

lemma transaction_from:
  assumes start: "P (w \<lparr> sched := tl (sched w) \<rparr>)" and h: "hoare P body (\<lambda>_. gap gen dec i 0 0 0)" and g: "grows body"
    and inv: "vault_inv gen dec w" and run: "transaction body w = (r, w')"
  shows "vault_inv gen dec w'"
proof -
  let ?w = "w \<lparr> sched := tl (sched w) \<rparr>"
  obtain x w2 where b: "body ?w = (x, w2)" by fastforce
  have dr: "drawn w \<le> drawn w2" using growsD [OF g b] by simp
  have kept: "vault_inv gen dec w2" if "x = Inr a" for a using hoareD [OF h start] b that by (simp add: gap_0)
  have old: "vault_inv gen dec u" if "data u = data w" "drawn w \<le> drawn u" for u
    using gap_frame [OF inv [folded gap_0 [of _ _ i]] that] by (simp add: gap_0)
  have new: "vault_inv gen dec u" if "data u = data w2" "drawn w2 \<le> drawn u" "x = Inr a" for u a
    using gap_frame [OF kept [OF that(3), folded gap_0 [of _ _ i]] that(1,2)] by (simp add: gap_0)
  show ?thesis
    using run b dr unfolding transaction_def Let_def
    by (cases x) (simp_all split: if_splits, (elim conjE, hypsubst, rule old new, simp_all)+)
qed

lemma transaction_inv:
  assumes "hoare (gap gen dec i 0 0 0) body (\<lambda>_. gap gen dec i 0 0 0)" and "grows body"
    and inv: "vault_inv gen dec w" and "transaction body w = (r, w')"
  shows "vault_inv gen dec w'"
  by (rule transaction_from [OF _ assms]) (use inv gap_frame [of gen dec i 0 0 0 w] in \<open>simp add: gap_0\<close>)

text \<open>Amounts that the columns keep exactly, below 2^60 stroops.\<close>

definition amount_ok :: "decimal_ops \<Rightarrow> rat \<Rightarrow> bool" where
  "amount_ok dec x \<longleftrightarrow> whole8 x \<and> 0 \<le> stroopsOf dec x \<and> stroopsOf dec x < 2 ^ 60"

lemma row_shifts:
  "shifts x x (credit x now)" "shifts (- x) 0 (debit x now)"
  "shifts (if Compounded h then NetYield h else - NetYield h) (if Compounded h then NetYield h else 0) (harvest_row h now)"
  and row_live: "DeletedAt (credit x now v) = DeletedAt v" "DeletedAt (debit x now v) = DeletedAt v"
  "DeletedAt (harvest_row h now v) = DeletedAt v"
  by (simp_all add: shifts_def credit_def debit_def harvest_row_def Let_def)

lemma posting_legs:
  assumes "0 < x" "x < 2 ^ 60"
  shows "books_ok (deposit_legs v u x)" "jsum (pool_of i) (deposit_legs v u x) = (if i = v then x else 0)"
    and "books_ok (withdrawal_legs v u x)" "jsum (pool_of i) (withdrawal_legs v u x) = (if i = v then - x else 0)"
    and "books_ok (rebalance_posting a b x)" "jsum (pool_of i) (rebalance_posting a b x) = 0"
  using assms by (auto simp: books_ok_def deposit_legs_def withdrawal_legs_def rebalance_posting_def wrap64_modest key_preds)

lemma harvest_legs_books:
  assumes "0 \<le> n" "n < 2 ^ 60" "0 \<le> f" "f < 2 ^ 60"
  shows "books_ok (harvest_posting v u n f)" "jsum (pool_of i) (harvest_posting v u n f) = (if i = v then n else 0)"
proof -
  have w: "wrap64 (- n) = - n" "wrap64 (n + f) = n + f" "wrap64 (- (n + f)) = - (n + f)"
    by (rule wrap64_id; use assms in \<open>simp add: in_int64_def int64_min_def int64_max_def\<close>)+
  show "books_ok (harvest_posting v u n f)" "jsum (pool_of i) (harvest_posting v u n f) = (if i = v then n else 0)"
    unfolding harvest_posting_def w by (auto simp: books_ok_def key_preds)
qed

lemma posting_hoare:
  assumes gen: "uuid_source gen" and x: "amount_ok dec x" "amount_ok dec f"
  shows "hoare (gapL gen dec i a b c) (on_books (postDepositLedgerTx gen dec i u x ev)) (\<lambda>_. gapL gen dec i a b (c + max 0 (stroopsOf dec x)))"
    and "hoare (gapL gen dec i a b c) (on_books (postWithdrawalLedgerTx gen dec i u x ev)) (\<lambda>_. gapL gen dec i a b (c - max 0 (stroopsOf dec x)))"
    and "hoare (gapL gen dec i a b c) (on_books (postHarvestLedgerTx gen dec i u x f ''blend'' ev)) (\<lambda>_. gapL gen dec i a b (c + max 0 (stroopsOf dec x)))"
    and "hoare (gapL gen dec i a b c) (on_books (postRebalanceLedgerTx gen dec p q x ev)) (\<lambda>_. gapL gen dec i a b c)"
proof -
  have none: "books_ok []" by (simp add: books_ok_def)
  note s = x [unfolded amount_ok_def]
  show "hoare (gapL gen dec i a b c) (on_books (postDepositLedgerTx gen dec i u x ev)) (\<lambda>_. gapL gen dec i a b (c + max 0 (stroopsOf dec x)))"
    by (rule books_hoare [OF postings(1) [OF gen]]) (use s posting_legs none in \<open>auto simp: max_def\<close>)
  show "hoare (gapL gen dec i a b c) (on_books (postWithdrawalLedgerTx gen dec i u x ev)) (\<lambda>_. gapL gen dec i a b (c - max 0 (stroopsOf dec x)))"
    unfolding diff_conv_add_uminus
    by (rule books_hoare [OF postings(2) [OF gen]]) (use s posting_legs none in \<open>auto simp: max_def\<close>)
  show "hoare (gapL gen dec i a b c) (on_books (postHarvestLedgerTx gen dec i u x f ''blend'' ev)) (\<lambda>_. gapL gen dec i a b (c + max 0 (stroopsOf dec x)))"
    by (rule books_hoare [OF postings(3) [OF gen]]) (use s harvest_legs_books none in \<open>auto simp: max_def\<close>)
  have "hoare (gapL gen dec i a b c) (on_books (postRebalanceLedgerTx gen dec p q x ev)) (\<lambda>_. gapL gen dec i a b (c + 0))"
    by (rule books_hoare [OF postings(4) [OF gen]]) (use s posting_legs none in \<open>auto\<close>)
  then show "hoare (gapL gen dec i a b c) (on_books (postRebalanceLedgerTx gen dec p q x ev)) (\<lambda>_. gapL gen dec i a b c)" by simp
qed

subsection \<open>The bodies of the transactions\<close>

lemma gapL_gap: "hoare P m (\<lambda>_. gapL gen dec i a b c) \<Longrightarrow> hoare P m (\<lambda>_. gap gen dec i a b c)"
  by (erule hoare_weaken) (simp_all add: gapL_def)

lemma strict_bind:
  "bind (stmt (insertTxn t)) (\<lambda>ins. if \<not> ins then fail (App ErrDuplicateTransaction) else k) = bind (insertTxnStrict t) (\<lambda>_. k)"
  by (rule ext) (auto simp: insertTxnStrict_def bind_def ret_def fail_def split: prod.splits sum.splits)

lemma record_effects:
  "balance_effect (record_txn r i ''deposit'' rec now) = rAmount rec" "deposit_effect (record_txn r i ''deposit'' rec now) = rAmount rec"
  "pool_effect dec (record_txn r i ''deposit'' rec now) = max 0 (stroopsOf dec (rAmount rec))"
  "balance_effect (record_txn r i ''withdrawal'' rec now) = - rAmount rec" "deposit_effect (record_txn r i ''withdrawal'' rec now) = 0"
  "pool_effect dec (record_txn r i ''withdrawal'' rec now) = - max 0 (stroopsOf dec (rAmount rec))"
  "tVaultID (record_txn r i ty rec now) = i" "tAmount (record_txn r i ty rec now) = rAmount rec"
  by (simp_all add: record_txn_def balance_effect_def deposit_effect_def pool_effect_def)

text \<open>A row that is inserted and then posted: the replay gains the amounts of the row.\<close>

lemma insert_record:
  assumes "amount_ok dec (rAmount rec)"
  shows "hoare (gapL gen dec i a b c) (insertTxnStrict (record_txn r i ''deposit'' rec now))
      (\<lambda>_. gapL gen dec i (a - rAmount rec) (b - rAmount rec) (c - max 0 (stroopsOf dec (rAmount rec))))"
    and "hoare (gapL gen dec i a b c) (insertTxnStrict (record_txn r i ''withdrawal'' rec now))
      (\<lambda>_. gapL gen dec i (a + rAmount rec) b (c + max 0 (stroopsOf dec (rAmount rec))))"
  using insert_hoare [of "record_txn r i ''deposit'' rec now" i gen dec a b c] insert_hoare [of "record_txn r i ''withdrawal'' rec now" i gen dec a b c] assms
  by (simp_all add: record_effects amount_ok_def)

lemma deposit_body:
  assumes gen: "uuid_source gen" and x: "amount_ok dec (rAmount rec)"
  shows "hoare (gap gen dec i 0 0 0)
    (bind (updateOne i (credit (rAmount rec))) (\<lambda>_. bind (new_uuid gen) (\<lambda>rowID. bind time_now (\<lambda>now.
       bind (insertTxnStrict (record_txn rowID i ''deposit'' rec now)) (\<lambda>_.
         on_books (postDepositLedgerTx gen dec i (rUserID rec) (rAmount rec) (rHash rec)))))))
    (\<lambda>_. gap gen dec i 0 0 0)"
proof (rule gapL_gap)
  have wh: "whole8 (rAmount rec)" using x by (simp add: amount_ok_def)
  note post = posting_hoare(1) [OF gen x x, of i 0 0 "- max 0 (stroopsOf dec (rAmount rec))", unfolded add.left_inverse]
  note ins = insert_record(1) [OF x, of gen i "rAmount rec" "rAmount rec" 0, unfolded diff_self diff_0]
  note upd = updateOne_hoare [OF row_shifts(1) wh wh row_live(1), of gen dec i 0 0 0, unfolded add_0]
  show "hoare (gap gen dec i 0 0 0)
    (bind (updateOne i (credit (rAmount rec))) (\<lambda>_. bind (new_uuid gen) (\<lambda>rowID. bind time_now (\<lambda>now.
       bind (insertTxnStrict (record_txn rowID i ''deposit'' rec now)) (\<lambda>_.
         on_books (postDepositLedgerTx gen dec i (rUserID rec) (rAmount rec) (rHash rec)))))))
    (\<lambda>_. gapL gen dec i 0 0 0)"
    by (rule hoare_bind [OF upd] hoare_bind [OF gap_reads(1)] hoare_bind [OF gap_reads(2)] hoare_bind [OF ins] post)+
qed

lemma deposit_keeps:
  assumes gen: "uuid_source gen" and x: "amount_ok dec (rAmount rec)" and inv: "vault_inv gen dec w"
    and run: "pgRecordDeposit gen dec i rec w = (r, w')"
  shows "vault_inv gen dec w'"
proof (cases "rAmount rec \<le> 0")
  case True
  then show ?thesis using run inv by (simp add: pgRecordDeposit_def fail_def)
next
  case False
  show ?thesis
    by (rule transaction_inv [OF deposit_body [OF gen x] _ inv run [unfolded pgRecordDeposit_def if_not_P [OF False] strict_bind]])
      (intro grows_rules grows_vault_calls grows_books grows_postings)
qed

lemma find_live:
  "hoare (gap gen dec i a b c) (query (\<lambda>d. case List.find (\<lambda>v. vID v = i \<and> DeletedAt v = None) (vaults d) of
     None \<Rightarrow> Inl e | Some v \<Rightarrow> Inr (f v))) (\<lambda>_. gapL gen dec i a b c)"
  unfolding hoare_def
proof (intro allI impI)
  fix w r w' assume g: "gap gen dec i a b c w" and run: "query (\<lambda>d. case List.find (\<lambda>v. vID v = i \<and> DeletedAt v = None) (vaults d) of
     None \<Rightarrow> Inl e | Some v \<Rightarrow> Inr (f v)) w = (Inr r, w')"
  have "live_in i (data w)"
    using query_Inr [OF run] by (auto simp: live_in_def find_Some_iff split: option.splits)
  moreover have "data w' = data w" using query_Inr [OF run] by blast
  moreover have "drawn w \<le> drawn w'" using growsD [OF grows_trivial(5) run] .
  ultimately show "gapL gen dec i a b c w'" using gap_frame [OF g] by (simp add: gapL_def)
qed

lemma withdrawal_body:
  assumes gen: "uuid_source gen" and x: "amount_ok dec (rAmount rec)"
  shows "hoare (gap gen dec i 0 0 0)
    (bind (query (\<lambda>d. case List.find (\<lambda>v. vID v = i \<and> DeletedAt v = None) (vaults d) of
          None \<Rightarrow> Inl (App ErrVaultNotFound) | Some v \<Rightarrow> Inr (CurrentBalance v))) (\<lambda>balance.
          if balance < rAmount rec then fail (App ErrWithdrawalExceedsPosition)
          else bind time_now (\<lambda>now.
               bind (stmt (updateVaultRow i (debit (rAmount rec) now))) (\<lambda>_.
               bind (new_uuid gen) (\<lambda>rowID.
               bind (insertTxnStrict (record_txn rowID i ''withdrawal'' rec now)) (\<lambda>_.
                 on_books (postWithdrawalLedgerTx gen dec i (rUserID rec) (rAmount rec) (rHash rec))))))))
    (\<lambda>_. gap gen dec i 0 0 0)"
proof (rule gapL_gap, rule hoare_bind [OF find_live], rule hoare_if, simp, rule hoare_bind [OF gap_reads(2)])
  fix now
  have wh: "whole8 (- rAmount rec)" using x by (simp add: amount_ok_def whole8_minus)
  note post = posting_hoare(2) [OF gen x x, of i 0 0 "max 0 (stroopsOf dec (rAmount rec))", unfolded diff_self]
  note ins = insert_record(2) [OF x, of gen i "- rAmount rec" 0 0, unfolded add.left_inverse add_0]
  note upd = update_hoare [OF row_shifts(2) wh whole8_0 row_live(2), of gen dec i 0 0 0, unfolded add_0]
  show "hoare (gapL gen dec i 0 0 0) (bind (stmt (updateVaultRow i (debit (rAmount rec) now))) (\<lambda>_.
               bind (new_uuid gen) (\<lambda>rowID. bind (insertTxnStrict (record_txn rowID i ''withdrawal'' rec now)) (\<lambda>_.
                 on_books (postWithdrawalLedgerTx gen dec i (rUserID rec) (rAmount rec) (rHash rec))))))
    (\<lambda>_. gapL gen dec i 0 0 0)"
    by (rule hoare_bind [OF upd] hoare_bind [OF gap_reads(1)] hoare_bind [OF ins] post)+
qed

lemma withdrawal_keeps:
  assumes gen: "uuid_source gen" and x: "amount_ok dec (rAmount rec)" and inv: "vault_inv gen dec w"
    and run: "pgRecordWithdrawal gen dec i rec w = (r, w')"
  shows "vault_inv gen dec w'"
proof (cases "rAmount rec \<le> 0")
  case True
  then show ?thesis using run inv by (simp add: pgRecordWithdrawal_def fail_def)
next
  case False
  show ?thesis
    by (rule transaction_inv [OF withdrawal_body [OF gen x] _ inv run [unfolded pgRecordWithdrawal_def if_not_P [OF False]]])
      (intro grows_rules grows_vault_calls grows_books grows_postings)
qed

definition harvest_ok :: "decimal_ops \<Rightarrow> harvest_input \<Rightarrow> bool" where
  "harvest_ok dec h \<longleftrightarrow> amount_ok dec (NetYield h) \<and> amount_ok dec (PerformanceFee h) \<and> (Compounded h \<longleftrightarrow> NewSharesMinted h \<noteq> None)"

lemma harvest_keeps:
  assumes gen: "uuid_source gen" and h: "harvest_ok dec inp" and inv: "vault_inv gen dec w"
    and run: "pgRecordHarvest gen dec inp w = (r, w')"
  shows "vault_inv gen dec w'"
proof (cases "NetYield inp < 0 \<or> PerformanceFee inp < 0")
  case True
  then show ?thesis using run inv by (simp add: pgRecordHarvest_def fail_def)
next
  case False
  let ?i = "hVaultID inp" and ?n = "NetYield inp" and ?a = "if Compounded inp then NetYield inp else - NetYield inp"
    and ?b = "if Compounded inp then NetYield inp else 0"
  let ?t = "\<lambda>rowID now. \<lparr> tID = rowID, tVaultID = ?i, tUserID = Some (hUserID inp), tType = ''harvest'',
               tAmount = ?n, TransactionHash = nullif (hHash inp), SharesMintedOrBurned = NewSharesMinted inp,
               SharePriceAtTime = None, FeeCharged = Some (PerformanceFee inp), tCreatedAt = now \<rparr>"
  have x: "amount_ok dec ?n" "amount_ok dec (PerformanceFee inp)" and sh: "Compounded inp \<longleftrightarrow> NewSharesMinted inp \<noteq> None"
    and wh: "whole8 ?a" "whole8 ?b" "whole8 ?n"
    using h by (auto simp: harvest_ok_def amount_ok_def whole8_minus)
  note upd = updateOne_hoare [OF row_shifts(3) wh(1,2) row_live(3), of gen dec ?i 0 0 0, unfolded add_0]
  have "balance_effect (?t rowID now) = ?a" "deposit_effect (?t rowID now) = ?b" "pool_effect dec (?t rowID now) = max 0 (stroopsOf dec ?n)" for rowID now
    using sh by (simp_all add: balance_effect_def deposit_effect_def pool_effect_def)
  then have ins: "hoare (gapL gen dec ?i ?a ?b 0) (insertTxnStrict (?t rowID now)) (\<lambda>_. gapL gen dec ?i 0 0 (- max 0 (stroopsOf dec ?n)))" for rowID now
    using insert_hoare [of "?t rowID now" ?i gen dec ?a ?b 0] wh(3) by simp
  note post = posting_hoare(3) [OF gen x, of ?i 0 0 "- max 0 (stroopsOf dec ?n)", unfolded add.left_inverse]
  show ?thesis
    by (rule transaction_inv [OF gapL_gap _ inv run [unfolded pgRecordHarvest_def if_not_P [OF False]], where i = ?i])
      ((rule hoare_bind [OF upd] hoare_bind [OF gap_reads(1)] hoare_bind [OF gap_reads(2)] hoare_bind [OF ins] post)+,
       intro grows_rules grows_vault_calls grows_books grows_postings)
qed

text \<open>Postings of accepted amounts fail only in the database.\<close>

definition db_only :: "('d, 'e, 'a) db \<Rightarrow> bool" where
  "db_only m \<longleftrightarrow> (\<forall>w e w'. m w = (Inl e, w') \<longrightarrow> e = DBFailure \<or> e = Violation)"

lemma db_only_bind: "db_only m \<Longrightarrow> (\<And>a. db_only (f a)) \<Longrightarrow> db_only (bind m f)"
  unfolding db_only_def bind_def by (auto split: prod.splits sum.splits)

lemma db_only_trivial [simp]:
  "db_only (ret a)" "db_only time_now" "db_only (new_uuid gen)" "db_only (query (\<lambda>d. Inr (g d)))" "db_only (attempt m)"
  by (auto simp: db_only_def ret_def time_now_def new_uuid_def query_def stmt_def attempt_def Let_def split: prod.splits sum.splits)

lemma db_only_stmt: "(\<And>d e. f d = Inl e \<Longrightarrow> e = Violation) \<Longrightarrow> db_only (stmt f)"
  by (auto simp: db_only_def stmt_def Let_def split: prod.splits sum.splits if_splits)

lemma db_only_option: "db_only m \<Longrightarrow> (\<And>a. db_only (f a)) \<Longrightarrow> db_only (case x of None \<Rightarrow> m | Some a \<Rightarrow> f a)"
  and db_only_sum: "(\<And>a. db_only (g a)) \<Longrightarrow> (\<And>a. db_only (h a)) \<Longrightarrow> db_only (case y of Inl a \<Rightarrow> g a | Inr a \<Rightarrow> h a)"
  by (cases x, auto) (cases y, auto)

lemma ledger_statements_db_only:
  "db_only (stmt (insertAccount acc))" "db_only (stmt (insertEntry e))" "db_only (stmt (upsertBalance acc' x code unit now))"
  by (rule db_only_stmt; auto simp: insertAccount_def insertEntry_def upsertBalance_def split: if_splits option.splits)+

lemmas db_only_rules = db_only_bind db_only_trivial db_only_option db_only_sum ledger_statements_db_only

lemma postEntriesTx_db_only: "db_only (postEntriesTx gen es)"
  by (induction es) (auto simp: Let_def intro!: db_only_rules)

lemma resolve_db_only: "missingArg t v u (default_adapter t ad) = None \<Longrightarrow> db_only (ledgerGetOrCreateAccountTx gen t v u ad a)"
  by (auto simp: ledgerGetOrCreateAccountTx_def Let_def intro!: db_only_rules)

lemma post_db_only:
  "2 \<le> length ls \<Longrightarrow> \<not> list_ex (\<lambda>(acc, x). x = 0) ls \<Longrightarrow> wrap64 (sum_list (map snd ls)) = 0 \<Longrightarrow> db_only (ledgerPostEntriesTx gen ty ev ls)"
  by (auto simp: ledgerPostEntriesTx_def intro!: db_only_rules postEntriesTx_db_only)

lemma postings_db_only:
  assumes "amount_ok dec x"
  shows "db_only (postDepositLedgerTx gen dec v u x ev)" "db_only (postWithdrawalLedgerTx gen dec v u x ev)"
proof -
  have w: "\<not> stroopsOf dec x \<le> 0 \<Longrightarrow> wrap64 (- 2 * stroopsOf dec x) = - 2 * stroopsOf dec x" "\<not> stroopsOf dec x \<le> 0 \<Longrightarrow> wrap64 (- stroopsOf dec x) = - stroopsOf dec x"
      "\<not> stroopsOf dec x \<le> 0 \<Longrightarrow> wrap64 (2 * stroopsOf dec x) = 2 * stroopsOf dec x" "wrap64 0 = 0"
    using assms by (auto simp: amount_ok_def wrap64_modest wrap64_id in_int64_def int64_min_def int64_max_def)
  have m: "missingArg ''user_vault_position'' (Some v) (Some u) (default_adapter ''user_vault_position'' None) = None"
    "missingArg ''vault_asset_pool'' (Some v) None (default_adapter ''vault_asset_pool'' None) = None"
    "missingArg ''system_suspense'' None None (default_adapter ''system_suspense'' None) = None"
    by (simp_all add: missingArg_def default_adapter_def account_type_defs)
  show "db_only (postDepositLedgerTx gen dec v u x ev)" "db_only (postWithdrawalLedgerTx gen dec v u x ev)"
    using w by (auto simp: postDepositLedgerTx_def postWithdrawalLedgerTx_def Let_def m intro!: db_only_bind resolve_db_only post_db_only)
qed

lemma dropped_posting:
  assumes h: "hoare P (on_books m) (\<lambda>_. Q)" and m: "db_only m"
  shows "hoare P (bind (dropped (on_books m)) (\<lambda>_. ret ())) (\<lambda>_. Q)"
  unfolding hoare_def
proof (intro allI impI)
  fix w r w' assume p: "P w" and run: "bind (dropped (on_books m)) (\<lambda>_. ret ()) w = (Inr r, w')"
  have ab: "aborts e" if "on_books m w = (Inl e, w1)" for e w1
    using that m unfolding on_books_def db_only_def by (auto split: prod.splits sum.splits) (metis aborts.simps(3,4))
  from run obtain a where "on_books m w = (Inr a, w')"
    by (auto simp: bind_Inr ret_Inr dropped_def dest: ab split: prod.splits sum.splits if_splits)
  then show "Q w'" using hoareD [OF h p] by blast
qed

lemma claim_hoare:
  assumes "tVaultID t = i" and "whole8 (tAmount t)"
  shows "hoare (gap gen dec i a b c) (stmt (insertTxn t))
    (\<lambda>ins. if ins then gap gen dec i (a - balance_effect t) (b - deposit_effect t) (c - pool_effect dec t) else gap gen dec i a b c)"
  unfolding hoare_def
proof (intro allI impI)
  fix w ins w' assume g: "gap gen dec i a b c w" and run: "stmt (insertTxn t) w = (Inr ins, w')"
  have dr: "drawn w \<le> drawn w'" using growsD [OF grows_trivial(6) run] .
  have s: "insertTxn t (data w) = Inr (ins, data w')" by (rule stmt_Inr [OF run])
  show "(if ins then gap gen dec i (a - balance_effect t) (b - deposit_effect t) (c - pool_effect dec t) else gap gen dec i a b c) w'"
  proof (cases ins)
    case True
    then show ?thesis using insertTxn_gap [OF g assms _ dr] s by simp
  next
    case False
    then have "data w' = data w" using s by (auto simp: insertTxn_def Let_def split: if_splits)
    then show ?thesis using False gap_frame [OF g _ dr] by simp
  qed
qed

lemma confirmed_keeps:
  assumes gen: "uuid_source gen" and x: "amount_ok dec x" and ty: "ty = ''deposit'' \<or> ty = ''withdrawal''" and inv: "vault_inv gen dec w"
    and run: "applyConfirmedBalanceChange gen dec i x h ty w = (r, w')"
  shows "vault_inv gen dec w'"
proof (cases "x \<le> 0 \<or> trim_space h = ''''")
  case True
  then show ?thesis using run inv by (cases "x \<le> 0") (auto simp: applyConfirmedBalanceChange_def fail_def)
next
  case False
  then have ok: "\<not> x \<le> 0" "trim_space h \<noteq> ''''" by auto
  define sx where "sx = (if ty = ''deposit'' then x else - x)"
  define dx where "dx = (if ty = ''deposit'' then x else 0)"
  define p where "p = (if ty = ''deposit'' then max 0 (stroopsOf dec x) else - max 0 (stroopsOf dec x))"
  let ?t = "\<lambda>rowID now. \<lparr> tID = rowID, tVaultID = i, tUserID = None, tType = ty, tAmount = x,
               TransactionHash = Some h, SharesMintedOrBurned = None, SharePriceAtTime = None, FeeCharged = None, tCreatedAt = now \<rparr>"
  let ?ledger = "\<lambda>u. if ty = ''deposit'' then postDepositLedgerTx gen dec i u x h else postWithdrawalLedgerTx gen dec i u x h"
  let ?f = "if ty = ''deposit'' then credit x else debit x"
  have wh: "whole8 x" "whole8 sx" "whole8 dx" using x by (auto simp: amount_ok_def sx_def dx_def whole8_minus)
  have "balance_effect (?t rowID now) = sx" "deposit_effect (?t rowID now) = dx" "pool_effect dec (?t rowID now) = p" for rowID now
    using ty by (auto simp: balance_effect_def deposit_effect_def pool_effect_def sx_def dx_def p_def)
  then have claim: "hoare (gap gen dec i 0 0 0) (stmt (insertTxn (?t rowID now)))
      (\<lambda>ins. if ins then gap gen dec i (- sx) (- dx) (- p) else gap gen dec i 0 0 0)" for rowID now
    using claim_hoare [of "?t rowID now" i gen dec 0 0 0] wh(1) by (simp cong: if_cong)
  have upd: "hoare (gap gen dec i (- sx) (- dx) (- p)) (updateOne i ?f) (\<lambda>_. gapL gen dec i 0 0 (- p))"
    using updateOne_hoare [of sx dx ?f gen dec i "- sx" "- dx" "- p"] wh row_shifts(1,2) row_live(1,2) by (auto simp: sx_def dx_def)
  have post: "hoare (gapL gen dec i 0 0 (- p)) (on_books (?ledger u)) (\<lambda>_. gapL gen dec i 0 0 0)" for u
    using posting_hoare(1,2) [OF gen x x, of i 0 0 "- p" u h] by (cases "ty = ''deposit''") (simp_all add: p_def)
  have "db_only (?ledger u)" for u using postings_db_only [OF x] by simp
  note lost = dropped_posting [OF post this]
  have g: "grows (on_books (?ledger u))" for u by (intro grows_books grows_if grows_postings)
  have owner: "hoare (gapL gen dec i 0 0 (- p))
      (case owner of Inr u \<Rightarrow> if u = uuid_nil then bind (new_uuid gen) (\<lambda>v. bind (dropped (on_books (?ledger v))) (\<lambda>_. ret ())) else on_books (?ledger u)
       | Inl _ \<Rightarrow> bind (new_uuid gen) (\<lambda>v. bind (dropped (on_books (?ledger v))) (\<lambda>_. ret ()))) (\<lambda>_. gapL gen dec i 0 0 0)"
    for owner :: "verror db_error + uuid"
    by (cases owner; simp only: sum.case) (rule hoare_if hoare_bind [OF gap_reads(1)] lost post)+
  show ?thesis
  proof (rule transaction_inv [OF _ _ inv run [unfolded applyConfirmedBalanceChange_def Let_def if_not_P [OF ok(1)] if_not_P [OF ok(2)]], where i = i],
      goal_cases body grows)
    case body
    show ?case
      by ((rule hoare_bind [OF gap_reads(5)] hoare_bind [OF gap_reads(6)] hoare_bind [OF claim])+, rule hoare_if, simp add: hoare_ret,
          simp only: not_not if_True, rule gapL_gap, (rule hoare_bind [OF upd] hoare_bind [OF gap_reads(4)] owner)+)
  next
    case grows
    show ?case
      by (intro grows_rules grows_vault_calls grows_dropped g)
  qed
qed

lemma rebalance_keeps:
  assumes gen: "uuid_source gen" and x: "amount_ok dec (rAmount wd)" "rAmount dp = rAmount wd" "amount_ok dec (bAmount inp)"
    and inv: "vault_inv gen dec w" and live: "live_in (bVaultID inp) (data w)"
    and run: "pgRecordRebalance gen dec inp wd dp w = (r, w')"
  shows "vault_inv gen dec w'"
proof -
  let ?i = "bVaultID inp" and ?x = "rAmount wd" and ?m = "max 0 (stroopsOf dec (rAmount wd))"
  let ?t = "\<lambda>r3 now. \<lparr> tID = r3, tVaultID = ?i, tUserID = Some (bUserID inp), tType = ''rebalance'',
            tAmount = bAmount inp, TransactionHash = nullif (bHash inp), SharesMintedOrBurned = None, SharePriceAtTime = None,
            FeeCharged = None, tCreatedAt = now \<rparr>"
  have wh: "whole8 ?x" "whole8 (- ?x)" "whole8 (bAmount inp)" and dp: "amount_ok dec (rAmount dp)"
    using x by (simp_all add: amount_ok_def whole8_minus)
  note u1 = update_hoare [OF row_shifts(2) wh(2) whole8_0 row_live(2), of gen dec ?i 0 0 0, unfolded add_0]
  note i1 = insert_record(2) [OF x(1), of gen ?i "- ?x" 0 0, unfolded add.left_inverse add_0]
  note u2 = update_hoare [OF row_shifts(1) wh(1) wh(1) row_live(1), of gen dec ?i 0 0 ?m, unfolded add_0]
  note i2 = insert_record(1) [OF dp, of gen ?i ?x ?x ?m, unfolded x(2) diff_self]
  have i3: "hoare (gapL gen dec ?i 0 0 0) (insertTxnStrict (?t r3 now)) (\<lambda>_. gapL gen dec ?i 0 0 0)" for r3 now
    using insert_hoare [of "?t r3 now" ?i gen dec 0 0 0] wh(3) by (simp add: balance_effect_def deposit_effect_def pool_effect_def)
  note reads = gap_reads(1,2) [where i = ?i and gen = gen and dec = dec]
  show ?thesis
  proof (rule transaction_from [where P = "gapL gen dec ?i 0 0 0" and i = ?i, OF _ _ _ inv run [unfolded pgRecordRebalance_def x(2)]], goal_cases start body grows)
    case start
    show ?case using inv live gap_frame [of gen dec ?i 0 0 0 w] by (simp add: gapL_def gap_0)
  next
    case body
    show ?case
      by (rule gapL_gap, (rule hoare_bind [OF reads(2)] hoare_bind [OF u1] hoare_bind [OF reads(1)] hoare_bind [OF i1]
          hoare_bind [OF u2] hoare_bind [OF i2] hoare_bind [OF i3] posting_hoare(4) [OF gen x(3) x(3)])+)
  next
    case grows
    show ?case by (intro grows_rules grows_vault_calls grows_books grows_postings)
  qed
qed

text \<open>Updates that leave the balances alone, in or out of a transaction, and the other calls.\<close>

lemma stmt_Inl: "stmt f w = (Inl e, w') \<Longrightarrow> data w' = data w"
  by (auto simp: stmt_def Let_def split: if_splits sum.splits)

lemma update_keeps:
  assumes sh: "\<And>now. shifts 0 0 (f now)" and inv: "vault_inv gen dec w" and run: "updateOne i f w = (r, w')"
  shows "vault_inv gen dec w'"
proof -
  let ?u = "updateVaultRow i (f (wall w))"
  obtain s where w': "stmt ?u w = (s, w')"
    using run by (auto simp: updateOne_def time_now_def bind_def fail_def ret_def split: prod.splits sum.splits if_splits)
  have dr: "drawn w \<le> drawn w'" by (rule growsD [OF grows_trivial(6) w'])
  show ?thesis
  proof (cases s)
    case (Inl e)
    then have "data w' = data w" using w' stmt_Inl by blast
    then show ?thesis using gap_frame [OF inv [unfolded vault_inv_def] _ dr] by (simp add: vault_inv_def)
  next
    case (Inr n)
    have "?u (data w) = Inr (n, data w')" using stmt_Inr w' unfolding Inr by metis
    from updated_gap [OF _ sh whole8_0 whole8_0 this _ dr, of gen dec 0 0 0] inv show ?thesis by (simp add: gap_0)
  qed
qed

lemma create_keeps:
  assumes inv: "vault_inv gen dec w" and zero: "TotalDeposited m = 0" "CurrentBalance m = 0" and run: "pgCreateVault m w = (r, w')"
  shows "vault_inv gen dec w'"
proof -
  define m1 where "m1 = m \<lparr> HarvestFrequency := (if HarvestFrequency m = '''' then HarvestFrequencyDaily else HarvestFrequency m) \<rparr>"
  define row where "row = store_vault (m1 \<lparr> SoftCapacity := None, CapacityWarningPct := None, LastHarvestedAt := None, LastSyncedAt := None, DeletedAt := None,
           Allocations := [], vCreatedAt := wall w, vUpdatedAt := wall w \<rparr>)"
  let ?ins = "\<lambda>d. if \<not> vault_ok row \<or> vID row \<in> vID ` set (vaults d) then Inl Violation
          else if live_address (vaults d) (vID row) (ContractAddress row) then Inl (App ErrContractAddressRegistered)
          else if vUserID row \<notin> set (users d) then Inl (App ErrUserNotFound)
          else Inr (m1 \<lparr> vCreatedAt := wall w, vUpdatedAt := wall w \<rparr>, d \<lparr> vaults := vaults d @ [row] \<rparr>)"
  have s: "stmt ?ins w = (r, w')" using run unfolding pgCreateVault_def bind_now Let_def m1_def row_def .
  have dr: "drawn w \<le> drawn w'" by (rule growsD [OF grows_trivial(6) s])
  show ?thesis
  proof (cases r)
    case (Inl e)
    then have "data w' = data w" using s stmt_Inl by blast
    then show ?thesis using gap_frame [OF inv [unfolded vault_inv_def] _ dr] by (simp add: vault_inv_def)
  next
    case (Inr v)
    then have ok: "vault_ok row" "vID row \<notin> vID ` set (vaults (data w))" and d': "data w' = (data w) \<lparr> vaults := vaults (data w) @ [row] \<rparr>"
      using stmt_Inr [OF s [unfolded Inr]] by (simp_all split: if_splits)
    have row: "CurrentBalance row = 0" "TotalDeposited row = 0"
      using zero by (simp_all add: row_def m1_def store_vault_def numeric_whole8)
    have "rows_of (vID row) (data w) = []" if "rows_ok (data w)"
      using that ok(2) unfolding rows_of_def rows_ok_def filter_empty_conv by metis
    moreover have "rows_of i (data w') = rows_of i (data w)" "hashes (data w') = hashes (data w)" "txns (data w') = txns (data w)"
        "books (data w') = books (data w)" for i
      by (simp_all add: rows_of_def hashes_def d')
    ultimately show ?thesis
      using inv ok row dr unfolding vault_inv_def gap_def vaults_replay_def rows_ok_def books_replay_def
      by (auto simp: d' intro: drawn_ids_mono)
  qed
qed

lemma gap_alike:
  assumes g: "gap gen dec i a b c w" and v: "vaults d = map f (vaults (data w))" "txns d = txns (data w)" "books d = books (data w)"
    and f: "\<And>v. vID (f v) = vID v \<and> CurrentBalance (f v) = CurrentBalance v \<and> TotalDeposited (f v) = TotalDeposited v \<and> vault_ok (f v) = vault_ok v"
  shows "gap gen dec i a b c (w \<lparr> sched := s, data := d \<rparr>)"
proof -
  have "rows_of k d = rows_of k (data w)" "hashes d = hashes (data w)" for k by (simp_all add: rows_of_def hashes_def v(2))
  moreover have "map vID (vaults d) = map vID (vaults (data w))" "vID ` set (vaults d) = vID ` set (vaults (data w))"
    using f by (simp_all add: v(1) image_image)
  moreover have "vaults_replay i a b d"
    unfolding vaults_replay_def
  proof (intro conjI ballI)
    show "distinct (map vID (vaults d))" using g calculation(3) by (simp add: gap_def vaults_replay_def)
    fix u assume "u \<in> set (vaults d)"
    then obtain x where x: "x \<in> set (vaults (data w))" and u: "u = f x" by (auto simp: v(1))
    have "vault_ok x \<and> whole8 (CurrentBalance x) \<and> whole8 (TotalDeposited x)
        \<and> CurrentBalance x = sum_list (map balance_effect (rows_of (vID x) (data w))) + (if vID x = i then a else 0)
        \<and> TotalDeposited x = sum_list (map deposit_effect (rows_of (vID x) (data w))) + (if vID x = i then b else 0)"
      using g x unfolding gap_def vaults_replay_def by blast
    then show "vault_ok u" "whole8 (CurrentBalance u)" "whole8 (TotalDeposited u)"
        "CurrentBalance u = sum_list (map balance_effect (rows_of (vID u) d)) + (if vID u = i then a else 0)"
        "TotalDeposited u = sum_list (map deposit_effect (rows_of (vID u) d)) + (if vID u = i then b else 0)"
      using f [of x] calculation(1) unfolding u by metis+
  qed
  ultimately show ?thesis
    using g unfolding gap_def rows_ok_def books_replay_def by (simp add: v(2,3))
qed

lemma replace_keeps:
  assumes inv: "vault_inv gen dec w" and run: "pgReplaceAllocations i as w = (r, w')"
  shows "vault_inv gen dec w'"
proof -
  let ?G = "gap gen dec i 0 0 0"
  have ex: "hoare ?G (ensureVaultExists i) (\<lambda>_. ?G)"
    unfolding ensureVaultExists_def by (rule gap_reads(7))
  have del: "hoare ?G (stmt (\<lambda>d. Inr ((), d \<lparr> allocs := filter (\<lambda>a. alVaultID a \<noteq> i) (allocs d) \<rparr>))) (\<lambda>_. ?G)"
    by (rule hoare_stmt) (auto intro!: gap_alike [where f = id])
  have one: "hoare ?G (stmt (insertAllocation i a)) (\<lambda>_. ?G)" for a
    by (rule hoare_stmt) (auto simp: insertAllocation_def Let_def split: if_splits intro!: gap_alike [where f = id])
  have ins: "hoare ?G (insertAllocations i as) (\<lambda>_. ?G)"
    by (induction as) (auto intro: hoare_ret hoare_bind [OF one])
  have touch: "vault_ok (v \<lparr> vUpdatedAt := now \<rparr>) = vault_ok v" for v now by (simp add: vault_ok_def)
  have upd: "hoare ?G (stmt (\<lambda>d. Inr ((), d \<lparr> vaults := map (\<lambda>v. if vID v = i then v \<lparr> vUpdatedAt := now \<rparr> else v) (vaults d) \<rparr>))) (\<lambda>_. ?G)" for now
    by (rule hoare_stmt)
      (auto simp: touch split: if_splits intro!: gap_alike [where f = "\<lambda>v. if vID v = i then v \<lparr> vUpdatedAt := now \<rparr> else v"])
  have gi: "grows (insertAllocations i as)" by (induction as) (auto intro!: grows_rules)
  show ?thesis
    by (rule transaction_inv [OF _ _ inv run [unfolded pgReplaceAllocations_def]])
      ((rule hoare_bind [OF ex] hoare_bind [OF del] hoare_bind [OF ins] hoare_bind [OF gap_reads(6)] upd)+,
       intro grows_rules gi, simp add: ensureVaultExists_def)
qed

section \<open>Histories\<close>

text \<open>
  The calls the services make on the tables, whatever their outcome. The conditions are on the
  callers, the repository itself enforces none of them: amounts have at most eight decimals and are
  not negative and below 2^60 stroops, a harvest mints shares exactly when it is compounded, a vault
  is created with zero balances, the two records of a rebalance carry one amount, and a rebalance
  starts on a live vault. \<open>Other\<close> is everything around a call: the clock moves, identifiers are
  drawn, faults come. Two writers of the balances are not among the steps:
  \<^const>\<open>pgUpdateVaultBalances\<close>, which overwrites them and which no service calls, and the
  chain indexer (\<^verbatim>\<open>indexer.go\<close>), which is not modelled.
\<close>

inductive vstep :: "(nat \<Rightarrow> uuid) \<Rightarrow> decimal_ops \<Rightarrow> vault_db dbw \<Rightarrow> vault_db dbw \<Rightarrow> bool" for gen dec where
  Create: "TotalDeposited m = 0 \<Longrightarrow> CurrentBalance m = 0 \<Longrightarrow> pgCreateVault m w = (r, w') \<Longrightarrow> vstep gen dec w w'"
| Deposit: "amount_ok dec (rAmount rec) \<Longrightarrow> pgRecordDeposit gen dec i rec w = (q, w') \<Longrightarrow> vstep gen dec w w'"
| Withdrawal: "amount_ok dec (rAmount rec) \<Longrightarrow> pgRecordWithdrawal gen dec i rec w = (q, w') \<Longrightarrow> vstep gen dec w w'"
| Harvest: "harvest_ok dec inp \<Longrightarrow> pgRecordHarvest gen dec inp w = (q, w') \<Longrightarrow> vstep gen dec w w'"
| ConfirmedDeposit: "amount_ok dec x \<Longrightarrow> pgApplyConfirmedDeposit gen dec i x h w = (q, w') \<Longrightarrow> vstep gen dec w w'"
| ConfirmedWithdrawal: "amount_ok dec x \<Longrightarrow> pgApplyConfirmedWithdrawal gen dec i x h w = (q, w') \<Longrightarrow> vstep gen dec w w'"
| Rebalance: "amount_ok dec (rAmount wd) \<Longrightarrow> rAmount dp = rAmount wd \<Longrightarrow> amount_ok dec (bAmount b) \<Longrightarrow> live_in (bVaultID b) (data w) \<Longrightarrow>
    pgRecordRebalance gen dec b wd dp w = (q, w') \<Longrightarrow> vstep gen dec w w'"
| Update: "pgUpdateVault i addr st w = (q, w') \<Longrightarrow> vstep gen dec w w'"
| Frequency: "pgUpdateHarvestFrequency i freq w = (q, w') \<Longrightarrow> vstep gen dec w w'"
| SoftDelete: "pgSoftDeleteVault i w = (q, w') \<Longrightarrow> vstep gen dec w w'"
| Replace: "pgReplaceAllocations i as w = (q, w') \<Longrightarrow> vstep gen dec w w'"
| Other: "data w' = data w \<Longrightarrow> drawn w \<le> drawn w' \<Longrightarrow> vstep gen dec w w'"

lemma vstep_keeps:
  assumes gen: "uuid_source gen" and step: "vstep gen dec w w'" and inv: "vault_inv gen dec w"
  shows "vault_inv gen dec w'"
  using step inv
proof (cases rule: vstep.cases)
  case (Other)
  then show ?thesis using gap_frame inv unfolding vault_inv_def by blast
next
  case (Update i addr st q)
  show ?thesis by (rule update_keeps [OF _ inv Update [unfolded pgUpdateVault_def]]) (simp add: shifts_def)
next
  case (Frequency i freq q)
  show ?thesis by (rule update_keeps [OF _ inv Frequency [unfolded pgUpdateHarvestFrequency_def]]) (simp add: shifts_def)
next
  case (SoftDelete i q)
  show ?thesis by (rule update_keeps [OF _ inv SoftDelete [unfolded pgSoftDeleteVault_def]]) (simp add: shifts_def)
next
  case (Create m r)
  then show ?thesis using create_keeps [OF inv] by blast
next
  case (Deposit rec i q)
  then show ?thesis using deposit_keeps [OF gen _ inv] by blast
next
  case (Withdrawal rec i q)
  then show ?thesis using withdrawal_keeps [OF gen _ inv] by blast
next
  case (Harvest h q)
  then show ?thesis using harvest_keeps [OF gen _ inv] by blast
next
  case (ConfirmedDeposit x i h q)
  then show ?thesis using confirmed_keeps [OF gen _ _ inv] unfolding pgApplyConfirmedDeposit_def by blast
next
  case (ConfirmedWithdrawal x i h q)
  then show ?thesis using confirmed_keeps [OF gen _ _ inv] unfolding pgApplyConfirmedWithdrawal_def by blast
next
  case (Rebalance wd dp b q)
  then show ?thesis using rebalance_keeps [OF gen _ _ _ inv] by blast
next
  case (Replace i as q)
  then show ?thesis using replace_keeps [OF inv] by blast
qed

definition fresh_tables :: "vault_db \<Rightarrow> bool" where
  "fresh_tables d \<longleftrightarrow> vaults d = [] \<and> txns d = [] \<and> books d = empty_db"

lemma history_inv:
  assumes gen: "uuid_source gen" and "fresh_tables (data w0)" and run: "(vstep gen dec)\<^sup>*\<^sup>* w0 w"
  shows "vault_inv gen dec w"
  using run
proof (induction rule: rtranclp_induct)
  case base
  show ?case using assms(2)
    by (simp add: vault_inv_def gap_def vaults_replay_def rows_ok_def books_replay_def fresh_tables_def rows_of_def hashes_def
        map_filter_def svc_inv_empty books_ok_def) (simp add: empty_db_def drawn_ids_def)
next
  case (step w1 w2)
  then show ?case using vstep_keeps [OF gen] by blast
qed

lemma inv_facts:
  assumes "vault_inv gen dec w"
  shows "v \<in> set (vaults (data w)) \<Longrightarrow> 0 \<le> CurrentBalance v"
    and "v \<in> set (vaults (data w)) \<Longrightarrow> CurrentBalance v = sum_list (map balance_effect (rows_of (vID v) (data w)))"
    and "v \<in> set (vaults (data w)) \<Longrightarrow> TotalDeposited v = sum_list (map deposit_effect (rows_of (vID v) (data w)))"
    and "t \<in> set (txns (data w)) \<Longrightarrow> 0 < tAmount t \<and> tVaultID t \<in> vID ` set (vaults (data w))"
    and "distinct (hashes (data w))"
    and "svc_inv (books (data w))" "books_ok (journal (books (data w)))"
    and "jsum (pool_of i) (journal (books (data w))) = sum_list (map (pool_effect dec) (rows_of i (data w)))"
  using assms unfolding vault_inv_def gap_def vaults_replay_def rows_ok_def books_replay_def vault_ok_def by auto

text \<open>
  C2: In every state that a history of \<^const>\<open>vstep\<close> reaches from empty tables, whatever fails on the
  way, a vault's current balance and its total of deposits are the sums of what its rows of
  \<^verbatim>\<open>vault_transactions\<close> say, the balance is not negative, every row belongs to a vault and no
  transaction hash occurs twice. Such a history consists of the calls of the services, with amounts
  of at most eight decimals that are not negative and below 2^60 stroops, harvests that mint shares
  exactly when they are compounded, vaults created with zero balances, and rebalances of one amount that start on
  a live vault. \<^const>\<open>pgUpdateVaultBalances\<close>, which no service calls and which would break the replay
  (\<open>overwritten_balances_diverge\<close>), and the chain indexer are not part of it.
\<close>

theorem vault_balances_replay:
  assumes "uuid_source gen" and "fresh_tables (data w0)" and "(vstep gen dec)\<^sup>*\<^sup>* w0 w"
  shows "(\<forall>v \<in> set (vaults (data w)). 0 \<le> CurrentBalance v
        \<and> CurrentBalance v = sum_list (map balance_effect (rows_of (vID v) (data w)))
        \<and> TotalDeposited v = sum_list (map deposit_effect (rows_of (vID v) (data w))))
    \<and> (\<forall>t \<in> set (txns (data w)). 0 < tAmount t \<and> tVaultID t \<in> vID ` set (vaults (data w)))
    \<and> distinct (hashes (data w))"
  using inv_facts [OF history_inv [OF assms]] by blast

definition table0 :: "faults \<Rightarrow> vault_db dbw" where
  "table0 fs = \<lparr> data = \<lparr> users = [2, 5], vaults = [], txns = [], allocs = [], books = empty_db \<rparr>, sched = fs, drawn = 0, wall = 1000 \<rparr>"

definition empty_vault :: vault where
  "empty_vault = (vault0 []) \<lparr> CurrentBalance := 0, TotalDeposited := 0 \<rparr>"

definition rec0 :: transaction_record where
  "rec0 = \<lparr> rUserID = 5, rAmount = 5 / 2, rHash = ''tx1'', rShares = 5 / 2, rPrice = 1, rFee = 0 \<rparr>"

definition funded :: "vault_db dbw" where
  "funded = snd (pgRecordDeposit Suc dec1 1 rec0 (snd (pgCreateVault empty_vault (table0 []))))"

lemma amount_ok_rec0: "amount_ok dec1 (rAmount rec0)"
  unfolding amount_ok_def whole8_def by code_simp

lemma funded_history: "(vstep Suc dec1)\<^sup>*\<^sup>* (table0 []) funded"
proof -
  obtain r w1 where c: "pgCreateVault empty_vault (table0 []) = (r, w1)" by fastforce
  obtain q where d: "pgRecordDeposit Suc dec1 1 rec0 w1 = (q, funded)" by (metis funded_def c prod.collapse snd_conv)
  have "vstep Suc dec1 (table0 []) w1" by (rule vstep.Create [OF _ _ c]) (simp_all add: empty_vault_def)
  moreover have "vstep Suc dec1 w1 funded" by (rule vstep.Deposit [OF amount_ok_rec0 d])
  ultimately show ?thesis by auto
qed

theorem vault_balances_replay_witness:
  "\<exists>v \<in> set (vaults (data funded)). CurrentBalance v = 5 / 2 \<and> sum_list (map balance_effect (rows_of (vID v) (data funded))) = 5 / 2"
proof -
  have "map CurrentBalance (vaults (data funded)) = [5 / 2]" by code_simp
  then obtain v where "v \<in> set (vaults (data funded))" "CurrentBalance v = 5 / 2" by (cases "vaults (data funded)") auto
  then show ?thesis
    using vault_balances_replay [OF uuid_source_Suc _ funded_history] by (auto simp: fresh_tables_def table0_def)
qed

text \<open>
  C3: The two records of a vault's money agree: for a vault on which no harvest was paid out and whose
  amounts are all whole stroops, the pool account of the double-entry ledger reads exactly 10^7 times
  the balance in the table of vaults, after any history of \<^const>\<open>vstep\<close> (under its conditions on
  amounts, creations and rebalances, without \<^const>\<open>pgUpdateVaultBalances\<close> and the indexer), with any
  faults. A harvest that is paid out does make them diverge (\<open>paid_out_harvest_diverges\<close>).
\<close>

theorem ledger_pool_matches_vault:
  assumes "uuid_source gen" and "fresh_tables (data w0)" and "(vstep gen dec)\<^sup>*\<^sup>* w0 w" and v: "v \<in> set (vaults (data w))"
    and stroops: "\<forall>t \<in> set (rows_of (vID v) (data w)). of_int (stroopsOf dec (tAmount t)) = tAmount t * 10 ^ 7"
    and compounded: "\<forall>t \<in> set (rows_of (vID v) (data w)). tType t = ''harvest'' \<longrightarrow> SharesMintedOrBurned t \<noteq> None"
  shows "\<exists>n. fst (on_books (pgGetVaultPoolBalance (vID v)) (w \<lparr> sched := [] \<rparr>)) = Inr n \<and> of_int n = CurrentBalance v * 10 ^ 7"
proof -
  note inv = inv_facts [OF history_inv [OF assms(1-3)]]
  have pos: "0 < tAmount t" if "t \<in> set (rows_of (vID v) (data w))" for t
    using inv(4) that by (simp add: rows_of_def)
  have row: "of_int (pool_effect dec t) = balance_effect t * 10 ^ 7" if t: "t \<in> set (rows_of (vID v) (data w))" for t
  proof -
    have s: "of_int (stroopsOf dec (tAmount t)) = tAmount t * 10 ^ 7" using stroops t by blast
    have "0 < (of_int (stroopsOf dec (tAmount t)) :: rat)" using pos [OF t] unfolding s by simp
    then show ?thesis using s compounded t by (auto simp: pool_effect_def balance_effect_def)
  qed
  have "of_int (sum_list (map (pool_effect dec) ts)) = sum_list (map balance_effect ts) * 10 ^ 7"
    if "\<forall>t \<in> set ts. of_int (pool_effect dec t) = balance_effect t * 10 ^ 7" for ts
    using that by (induction ts) (simp_all add: distrib_right)
  then have "of_int (jsum (pool_of (vID v)) (journal (books (data w)))) = CurrentBalance v * 10 ^ 7"
    using row inv(2) [OF v] inv(8) by simp
  moreover have "fst (on_books (pgGetVaultPoolBalance (vID v)) (w \<lparr> sched := [] \<rparr>)) = Inr (jsum (pool_of (vID v)) (journal (books (data w))))"
    using clean_reads(2) [of "\<lparr> data = books (data w), sched = [], drawn = drawn w, wall = wall w \<rparr>" "vID v"] inv(6,7)
    by (auto simp: on_books_def split: prod.splits)
  ultimately show ?thesis by blast
qed

theorem ledger_pool_matches_vault_witness:
  "\<exists>v \<in> set (vaults (data funded)). fst (on_books (pgGetVaultPoolBalance (vID v)) (funded \<lparr> sched := [] \<rparr>)) = Inr 25000000"
proof -
  have "map CurrentBalance (vaults (data funded)) = [5 / 2]" by code_simp
  then obtain v where v: "v \<in> set (vaults (data funded))" and b: "CurrentBalance v = 5 / 2" by (cases "vaults (data funded)") auto
  have "\<forall>t \<in> set (txns (data funded)). of_int (stroopsOf dec1 (tAmount t)) = tAmount t * 10 ^ 7" by code_simp
  moreover have "\<forall>t \<in> set (txns (data funded)). tType t \<noteq> ''harvest''" by code_simp
  ultimately obtain n :: int where n: "fst (on_books (pgGetVaultPoolBalance (vID v)) (funded \<lparr> sched := [] \<rparr>)) = Inr n" "of_int n = (25000000 :: rat)"
    using ledger_pool_matches_vault [OF uuid_source_Suc _ funded_history v] by (auto simp: b fresh_tables_def table0_def rows_of_def)
  then have "n = 25000000" by (metis of_int_eq_iff of_int_numeral)
  then show ?thesis using v n(1) by blast
qed

section \<open>One transaction hash, one movement\<close>

definition kept_rows :: "vault_db \<Rightarrow> vault_db \<Rightarrow> bool" where
  "kept_rows d d' \<longleftrightarrow> set (txns d) \<subseteq> set (txns d')"

lemma kept_order: "reflp kept_rows" "transp kept_rows"
  by (auto simp: kept_rows_def reflp_def transp_def)

lemma kept_statements:
  "moves kept_rows (stmt (updateVaultRow i f))" "moves kept_rows (stmt (insertTxn t))" "moves kept_rows (stmt (insertAllocation i a))"
  by (rule moves_stmt [OF kept_order(1)], auto simp: kept_rows_def updateVaultRow_def insertTxn_def insertAllocation_def Let_def split: if_splits)+

lemma kept_wrappers: "moves kept_rows (on_books m)" "moves kept_rows m1 \<Longrightarrow> moves kept_rows (dropped m1)" "moves kept_rows m2 \<Longrightarrow> moves kept_rows (transaction m2)"
proof -
  show "moves kept_rows (on_books m)" by (auto simp: moves_def on_books_def kept_rows_def split: prod.splits)
  show "moves kept_rows (dropped m1)" if "moves kept_rows m1"
    using movesD [OF that] by (auto simp: moves_def dropped_def split: prod.splits sum.splits)
  show "moves kept_rows (transaction m2)" if "moves kept_rows m2"
    using movesD [OF that] unfolding moves_def transaction_def Let_def
    by (auto simp: kept_rows_def split: prod.splits sum.splits) fastforce+
qed

lemmas kept_rules = moves_bind [OF kept_order(2)] moves_trivial [OF kept_order(1)] moves_if moves_option moves_sum kept_statements kept_wrappers

lemma kept_calls: "moves kept_rows (updateOne i f)" "moves kept_rows (insertTxnStrict t)" "moves kept_rows (insertAllocations i as)"
  unfolding updateOne_def insertTxnStrict_def by (intro kept_rules)+ (induction as; auto intro!: kept_rules)

inductive hash_call :: "(nat \<Rightarrow> uuid) \<Rightarrow> decimal_ops \<Rightarrow> string \<Rightarrow> unit vdb \<Rightarrow> bool" for gen dec h where
  "rHash rec = h \<Longrightarrow> hash_call gen dec h (pgRecordDeposit gen dec i rec)"
| "rHash rec = h \<Longrightarrow> hash_call gen dec h (pgRecordWithdrawal gen dec i rec)"
| "hHash inp = h \<Longrightarrow> hash_call gen dec h (pgRecordHarvest gen dec inp)"
| "hash_call gen dec h (pgApplyConfirmedDeposit gen dec i x h)"
| "hash_call gen dec h (pgApplyConfirmedWithdrawal gen dec i x h)"

definition claimed :: "string \<Rightarrow> vault_db dbw \<Rightarrow> bool" where
  "claimed h w \<longleftrightarrow> Some h \<in> TransactionHash ` set (txns (data w))"

lemma claimed_kept: "kept_rows (data w) (data w') \<Longrightarrow> claimed h w \<Longrightarrow> claimed h w'"
  by (auto simp: claimed_def kept_rows_def)

lemma keep_claim: "moves kept_rows m \<Longrightarrow> hoare (claimed h) m (\<lambda>_. claimed h)"
  unfolding hoare_def using movesD claimed_kept by blast

lemma hoare_absurd: "hoare (\<lambda>_. False) m Q"
  by (simp add: hoare_def)

lemma insert_claim:
  assumes "TransactionHash t = Some h"
  shows "hoare (claimed h) (insertTxnStrict t) (\<lambda>_ _. False)" "hoare P (insertTxnStrict t) (\<lambda>_. claimed h)"
    "hoare P (stmt (insertTxn t)) (\<lambda>_. claimed h)"
    "hoare (\<lambda>w. claimed h w \<and> data w = d) (stmt (insertTxn t)) (\<lambda>ins w. \<not> ins \<and> data w = d)"
proof -
  have h: "TransactionHash (store_txn t) = Some h" using assms by (simp add: store_txn_def)
  have old: "ins = False \<and> d' = d" if "Some h \<in> TransactionHash ` set (txns d)" "insertTxn t d = Inr (ins, d')" for d ins d'
    using that h by (auto simp: insertTxn_def Let_def split: if_splits)
  show ins: "hoare P (stmt (insertTxn t)) (\<lambda>_. claimed h)" for P
    by (rule hoare_stmt) (auto simp: claimed_def insertTxn_def Let_def h split: if_splits)
  show "hoare P (insertTxnStrict t) (\<lambda>_. claimed h)"
    unfolding insertTxnStrict_def by (rule hoare_bind [OF ins]) (auto intro: hoare_ret)
  show "hoare (\<lambda>w. claimed h w \<and> data w = d) (stmt (insertTxn t)) (\<lambda>ins w. \<not> ins \<and> data w = d)"
    by (rule hoare_stmt) (use old in \<open>auto simp: claimed_def\<close>)
  have "hoare (claimed h) (stmt (insertTxn t)) (\<lambda>ins w. \<not> ins)"
    by (rule hoare_stmt) (use old in \<open>auto simp: claimed_def\<close>)
  then show "hoare (claimed h) (insertTxnStrict t) (\<lambda>_ _. False)"
    unfolding insertTxnStrict_def by (rule hoare_bind) (auto simp: hoare_def fail_def ret_def)
qed

lemma never_commits:
  assumes "hoare (claimed h) body (\<lambda>_ _. False)" and "claimed h w" and "transaction body w = (r, w')"
  shows "data w' = data w"
  using transaction_hoare [OF assms(1) _ assms(3)] assms(2) by (auto simp: claimed_def)

lemma nothing_changes:
  assumes h: "hoare (\<lambda>u. claimed h u \<and> data u = data w) body (\<lambda>_ u. data u = data w)" and "claimed h w" and run: "transaction body w = (r, w')"
  shows "data w' = data w"
proof -
  have "claimed h (w \<lparr> sched := tl (sched w) \<rparr>) \<and> data (w \<lparr> sched := tl (sched w) \<rparr>) = data w" using assms(2) by (simp add: claimed_def)
  from transaction_hoare [where P = "\<lambda>u. claimed h u \<and> data u = data w", OF h this run] show ?thesis by auto
qed

lemma hash_of_record: "h \<noteq> '''' \<Longrightarrow> rHash rec = h \<Longrightarrow> TransactionHash (record_txn r i ty rec now) = Some h"
  by (auto simp: record_txn_def nullif_def)

lemma confirmed_claimed:
  assumes c: "claimed h w" and run: "applyConfirmedBalanceChange gen dec i x h ty w = (r, w')"
  shows "data w' = data w"
proof (cases "x \<le> 0 \<or> trim_space h = ''''")
  case True
  then show ?thesis using run by (cases "x \<le> 0") (auto simp: applyConfirmedBalanceChange_def fail_def)
next
  case False
  then have ok: "\<not> x \<le> 0" "trim_space h \<noteq> ''''" by auto
  let ?P = "\<lambda>u. claimed h u \<and> data u = data w"
  have drawn: "hoare ?P (new_uuid gen) (\<lambda>_. ?P)" "hoare ?P time_now (\<lambda>_. ?P)"
    by (auto simp: hoare_def new_uuid_def time_now_def claimed_def)
  show ?thesis
    by (rule nothing_changes [OF _ c run [unfolded applyConfirmedBalanceChange_def Let_def if_not_P [OF ok(1)] if_not_P [OF ok(2)]]])
      ((rule hoare_bind [OF drawn(1)] hoare_bind [OF drawn(2)] hoare_bind [OF insert_claim(4)])+, simp, auto simp: hoare_def ret_def)
qed

lemma hash_call_claimed:
  assumes "hash_call gen dec h m" and h: "h \<noteq> ''''" and c: "claimed h w" and "m w = (r, w')"
  shows "data w' = data w"
  using assms(1,4)
proof (cases rule: hash_call.cases)
  case (1 rec i)
  show ?thesis
  proof (cases "rAmount rec \<le> 0")
    case False
    note run = assms(4) [unfolded 1(1) pgRecordDeposit_def if_not_P [OF False] strict_bind]
    show ?thesis
      by (rule never_commits [OF _ c run])
        (rule hoare_bind [OF insert_claim(1) [OF hash_of_record [OF h 1(2)]]] hoare_absurd hoare_bind [OF keep_claim] kept_calls kept_rules)+
  qed (use assms(4) 1 in \<open>simp add: pgRecordDeposit_def fail_def\<close>)
next
  case (2 rec i)
  show ?thesis
  proof (cases "rAmount rec \<le> 0")
    case False
    note run = assms(4) [unfolded 2(1) pgRecordWithdrawal_def if_not_P [OF False]]
    show ?thesis
      by (rule never_commits [OF _ c run])
        (rule hoare_bind [OF insert_claim(1) [OF hash_of_record [OF h 2(2)]]] hoare_absurd hoare_if hoare_fail hoare_bind [OF keep_claim] kept_calls kept_rules)+
  qed (use assms(4) 2 in \<open>simp add: pgRecordWithdrawal_def fail_def\<close>)
next
  case (3 inp)
  show ?thesis
  proof (cases "NetYield inp < 0 \<or> PerformanceFee inp < 0")
    case False
    have n: "nullif (hHash inp) = Some h" using 3(2) h by (simp add: nullif_def)
    note run = assms(4) [unfolded 3(1) pgRecordHarvest_def if_not_P [OF False] n]
    show ?thesis
      by (rule never_commits [OF _ c run])
        (rule hoare_bind [OF insert_claim(1) [OF vault_transaction.select_convs(6)]] hoare_absurd hoare_bind [OF keep_claim] kept_calls kept_rules)+
  qed (use assms(4) 3 in \<open>simp add: pgRecordHarvest_def fail_def\<close>)
next
  case (4 i x)
  then show ?thesis using confirmed_claimed [OF c] assms(4) unfolding pgApplyConfirmedDeposit_def by blast
next
  case (5 i x)
  then show ?thesis using confirmed_claimed [OF c] assms(4) unfolding pgApplyConfirmedWithdrawal_def by blast
qed

lemma commit_claims:
  "hoare (\<lambda>_. True) body (\<lambda>_. claimed h) \<Longrightarrow> transaction body w = (Inr a, w') \<Longrightarrow> claimed h w'"
  unfolding claimed_def using transaction_Inr hoareD by metis

lemma hoare_any: "hoare (\<lambda>_. True) m (\<lambda>_ _. True)"
  by (simp add: hoare_def)

lemmas claim_rules = hoare_bind [OF hoare_any] hoare_if hoare_fail keep_claim kept_calls kept_rules

lemma confirmed_claims:
  assumes run: "applyConfirmedBalanceChange gen dec i x h ty w = (Inr (), w')"
  shows "claimed h w'"
proof -
  have ok: "\<not> x \<le> 0" "trim_space h \<noteq> []"
    using run by (auto simp: applyConfirmedBalanceChange_def fail_def split: if_splits)
  show ?thesis
    by (rule commit_claims [OF _ run [unfolded applyConfirmedBalanceChange_def Let_def if_not_P [OF ok(1)] if_not_P [OF ok(2)]]])
      (rule hoare_bind [OF insert_claim(3) [OF vault_transaction.select_convs(6)]] claim_rules)+
qed

lemma hash_call_claims:
  assumes "hash_call gen dec h m" and h: "h \<noteq> []" and "m w = (Inr (), w')"
  shows "claimed h w'"
  using assms(1)
proof (cases rule: hash_call.cases)
  case (1 rec i)
  have pos: "\<not> rAmount rec \<le> 0" using assms(3) unfolding 1(1) by (auto simp: pgRecordDeposit_def fail_def split: if_splits)
  show ?thesis
    by (rule commit_claims [OF _ assms(3) [unfolded 1(1) pgRecordDeposit_def if_not_P [OF pos] strict_bind]])
      (rule hoare_bind [OF insert_claim(2) [OF hash_of_record [OF h 1(2)]]] claim_rules)+
next
  case (2 rec i)
  have pos: "\<not> rAmount rec \<le> 0" using assms(3) unfolding 2(1) by (auto simp: pgRecordWithdrawal_def fail_def split: if_splits)
  show ?thesis
    by (rule commit_claims [OF _ assms(3) [unfolded 2(1) pgRecordWithdrawal_def if_not_P [OF pos]]])
      (rule hoare_bind [OF insert_claim(2) [OF hash_of_record [OF h 2(2)]]] claim_rules)+
next
  case (3 inp)
  have pos: "\<not> (NetYield inp < 0 \<or> PerformanceFee inp < 0)"
    using assms(3) unfolding 3(1) by (auto simp: pgRecordHarvest_def fail_def split: if_splits)
  have n: "nullif (hHash inp) = Some h" using 3(2) h by (simp add: nullif_def)
  show ?thesis
    by (rule commit_claims [OF _ assms(3) [unfolded 3(1) pgRecordHarvest_def if_not_P [OF pos] n]])
      (rule hoare_bind [OF insert_claim(2) [OF vault_transaction.select_convs(6)]] claim_rules)+
next
  case (4 i x)
  then show ?thesis using confirmed_claims assms(3) unfolding pgApplyConfirmedDeposit_def by blast
next
  case (5 i x)
  then show ?thesis using confirmed_claims assms(3) unfolding pgApplyConfirmedWithdrawal_def by blast
qed

text \<open>Rows are never deleted, by whatever call.\<close>

lemma repository_keeps_rows:
  "moves kept_rows (pgCreateVault m)" "moves kept_rows (pgRecordDeposit gen dec i rec)" "moves kept_rows (pgRecordWithdrawal gen dec i rec)"
  "moves kept_rows (pgRecordHarvest gen dec inp)" "moves kept_rows (applyConfirmedBalanceChange gen dec i x h ty)"
  "moves kept_rows (pgRecordRebalance gen dec b wd dp)" "moves kept_rows (pgReplaceAllocations i as)"
proof -
  show "moves kept_rows (pgCreateVault m)"
    unfolding pgCreateVault_def Let_def
    by (rule moves_bind [OF kept_order(2)], rule moves_trivial [OF kept_order(1)], rule moves_stmt [OF kept_order(1)]) (auto simp: kept_rows_def split: if_splits)
  show "moves kept_rows (pgReplaceAllocations i as)"
    unfolding pgReplaceAllocations_def ensureVaultExists_def
    by (intro kept_rules kept_calls moves_stmt [OF kept_order(1)]) (auto simp: kept_rows_def)
qed (unfold pgRecordDeposit_def pgRecordWithdrawal_def pgRecordHarvest_def applyConfirmedBalanceChange_def pgRecordRebalance_def Let_def,
    (intro kept_rules kept_calls)+)

lemma updates_keep_rows:
  "moves kept_rows (pgApplyConfirmedDeposit gen dec i x h)" "moves kept_rows (pgApplyConfirmedWithdrawal gen dec i x h)"
  "moves kept_rows (pgUpdateVault i addr st)" "moves kept_rows (pgUpdateHarvestFrequency i freq)" "moves kept_rows (pgSoftDeleteVault i)"
  unfolding pgApplyConfirmedDeposit_def pgApplyConfirmedWithdrawal_def pgUpdateVault_def pgUpdateHarvestFrequency_def pgSoftDeleteVault_def
  by (intro repository_keeps_rows kept_calls)+

lemmas step_rows = repository_keeps_rows [THEN movesD] updates_keep_rows [THEN movesD]

lemma vstep_rows: "vstep gen dec w w' \<Longrightarrow> kept_rows (data w) (data w')"
  by (erule vstep.cases) (blast dest: step_rows | simp add: kept_rows_def)+

lemma history_rows: "(vstep gen dec)\<^sup>*\<^sup>* w w' \<Longrightarrow> kept_rows (data w) (data w')"
  by (induction rule: rtranclp_induct) (auto simp: kept_order reflpD dest: vstep_rows transpD [OF kept_order(2)])

text \<open>
  C4: A transaction hash moves money once: when a deposit, withdrawal, harvest or chain
  confirmation with a hash has succeeded, then after any further history every call with that hash
  leaves all tables as they are, whether it reports the duplicate or treats it as done.
\<close>

theorem hash_moves_money_once:
  assumes "hash_call gen dec h m" and "h \<noteq> ''''" and "m w = (Inr (), w1)"
    and "(vstep gen dec)\<^sup>*\<^sup>* w1 w2" and "hash_call gen dec h m'" and "m' w2 = (r, w3)"
  shows "data w3 = data w2"
  using hash_call_claimed [OF assms(5,2) claimed_kept [OF history_rows [OF assms(4)] hash_call_claims [OF assms(1-3)]] assms(6)] .

theorem hash_moves_money_once_witness:
  "\<exists>w1. pgApplyConfirmedDeposit Suc dec1 1 2 ''tx9'' funded = (Inr (), w1)
     \<and> map CurrentBalance (vaults (data w1)) = [9 / 2]
     \<and> data (snd (pgApplyConfirmedDeposit Suc dec1 1 2 ''tx9'' w1)) = data w1"
proof -
  define w1 where "w1 = snd (pgApplyConfirmedDeposit Suc dec1 1 2 ''tx9'' funded)"
  have ok: "fst (pgApplyConfirmedDeposit Suc dec1 1 2 ''tx9'' funded) = Inr ()" by code_simp
  then have run: "pgApplyConfirmedDeposit Suc dec1 1 2 ''tx9'' funded = (Inr (), w1)" by (simp add: w1_def prod_eq_iff)
  have bal: "map CurrentBalance (vaults (data w1)) = [9 / 2]" unfolding w1_def by code_simp
  have same: "data (snd (pgApplyConfirmedDeposit Suc dec1 1 2 ''tx9'' w1)) = data w1"
    by (rule hash_moves_money_once [OF hash_call.intros(4) _ run rtranclp.rtrancl_refl hash_call.intros(4)]) (simp_all add: prod_eq_iff)
  show ?thesis by (rule exI [of _ w1]) (intro conjI run bal same)
qed

section \<open>Findings\<close>

text \<open>
  A rebalance with a transaction hash always fails: its second row carries the hash of the first,
  which the unique index refuses.
\<close>

lemma rebalance_with_hash_fails:
  assumes h: "h \<noteq> ''''" "rHash wd = h" "rHash dp = h" and run: "pgRecordRebalance gen dec inp wd dp w = (r, w')"
  shows "data w' = data w \<and> (\<exists>e. r = Inl e)"
proof -
  have "hoare (\<lambda>_. True) (bind time_now (\<lambda>now. bind (stmt (updateVaultRow (bVaultID inp) (debit (rAmount wd) now))) (\<lambda>_.
     bind (new_uuid gen) (\<lambda>r1. bind (insertTxnStrict (record_txn r1 (bVaultID inp) ''withdrawal'' wd now)) (\<lambda>_.
     bind (stmt (updateVaultRow (bVaultID inp) (credit (rAmount dp) now))) (\<lambda>_. bind (new_uuid gen) (\<lambda>r2.
     bind (insertTxnStrict (record_txn r2 (bVaultID inp) ''deposit'' dp now)) (\<lambda>_. k now)))))))) (\<lambda>_ _. False)" for k :: "time \<Rightarrow> unit vdb"
    by (rule hoare_bind [OF insert_claim(1) [OF hash_of_record [OF h(1,3)]]] hoare_bind [OF insert_claim(2) [OF hash_of_record [OF h(1,2)]]]
        hoare_absurd hoare_bind [OF hoare_any] hoare_bind [OF keep_claim] kept_rules)+
  from transaction_hoare [OF this TrueI run [unfolded pgRecordRebalance_def]] show ?thesis by blast
qed

text \<open>Overwriting the balances leaves the rows of the transactions as they are.\<close>

lemma overwritten_balances_diverge:
  "let w = snd (pgUpdateVaultBalances 1 7 9 funded) in
     map (\<lambda>v. (CurrentBalance v, sum_list (map balance_effect (rows_of (vID v) (data w))))) (vaults (data w)) = [(9, 5 / 2)]"
  by code_simp

text \<open>A harvest that is paid out lowers the balance of the table and raises the pool of the ledger.\<close>

definition payout :: harvest_input where
  "payout = \<lparr> hVaultID = 1, hUserID = 5, NetYield = 1, PerformanceFee = 0, Compounded = False, NewSharesMinted = None, hHash = ''tx2'' \<rparr>"

lemma paid_out_harvest_diverges:
  "let w = snd (pgRecordHarvest Suc dec1 payout funded) in
     map CurrentBalance (vaults (data w)) = [3 / 2] \<and> fst (on_books (pgGetVaultPoolBalance 1) w) = Inr 35000000"
  by code_simp

end
