(* ===== verification/Money_Path.thy ===== *)
theory Money_Path
  imports Vault "HOL-Library.AList"
begin

text \<open>
  The global pause switches of the money path: \<^verbatim>\<open>domain/moneypath\<close>, the repository
  \<^verbatim>\<open>repository/postgres/money_path_switch_repository.go\<close> and
  \<^verbatim>\<open>service/money_path_switch_service.go\<close>. The service caches each switch for two seconds; several
  instances share the table, and requests of one instance overlap. The theorems bound how long a
  pause can go unnoticed, and show that a switch that cannot be read refuses the operation.
\<close>

section \<open>Switches\<close>

definition OperationDeposit :: string where "OperationDeposit = ''deposit''"
definition OperationWithdrawal :: string where "OperationWithdrawal = ''withdrawal''"

definition Operations :: "string list" where
  "Operations = [OperationDeposit, OperationWithdrawal]"

definition Valid :: "string \<Rightarrow> bool" where
  "Valid op = list_ex (\<lambda>known. op = known) Operations"

record switch =
  swOperation :: string
  Paused :: bool
  Reason :: string
  ChangedBy :: "uuid option"
  swUpdatedAt :: time

record switch_db =
  rows :: "switch list"
  cached :: "(string \<times> switch \<times> time) list"
  swAudit :: "(string \<times> string \<times> bool \<times> bool) list"

type_synonym 'a swdb = "(switch_db, verror, 'a) db"

section \<open>Repository\<close>

definition pgGetSwitch :: "string \<Rightarrow> switch swdb" where
  "pgGetSwitch op = query (\<lambda>d. case List.find (\<lambda>s. swOperation s = op) (rows d) of
     None \<Rightarrow> Inl (App ErrUnknownOperation) | Some s \<Rightarrow> Inr s)"

definition pgListSwitches :: "switch list swdb" where
  "pgListSwitches = query (\<lambda>d. Inr (sort_key swOperation (rows d)))"

definition pgSetSwitch :: "string \<Rightarrow> bool \<Rightarrow> string \<Rightarrow> uuid option \<Rightarrow> switch swdb" where
  "pgSetSwitch op paused reason changedBy = bind time_now (\<lambda>now.
     stmt (\<lambda>d. case List.find (\<lambda>s. swOperation s = op) (rows d) of
         None \<Rightarrow> Inl (App ErrUnknownOperation)
       | Some s \<Rightarrow>
           let f = (\<lambda>s. s \<lparr> Paused := paused, Reason := reason, ChangedBy := changedBy, swUpdatedAt := now \<rparr>)
           in Inr (f s, d \<lparr> rows := map (\<lambda>s. if swOperation s = op then f s else s) (rows d) \<rparr>)))"

section \<open>Service\<close>

definition switchCacheTTL :: time where "switchCacheTTL = 2 * second"

text \<open>The two halves of \<^verbatim>\<open>get\<close>: the lookup under the read lock and the store under the write lock.\<close>

definition cacheHit :: "string \<Rightarrow> time \<Rightarrow> switch_db \<Rightarrow> switch option" where
  "cacheHit op now d = (case map_of (cached d) op of
     None \<Rightarrow> None | Some (s, expiresAt) \<Rightarrow> if now < expiresAt then Some s else None)"

definition cacheStore :: "string \<Rightarrow> switch \<Rightarrow> time \<Rightarrow> switch_db \<Rightarrow> switch_db" where
  "cacheStore op s now d = d \<lparr> cached := AList.update op (s, now + switchCacheTTL) (cached d) \<rparr>"

definition invalidate :: "string \<Rightarrow> switch_db \<Rightarrow> switch_db" where
  "invalidate op d = d \<lparr> cached := AList.delete op (cached d) \<rparr>"

definition getSwitch :: "string \<Rightarrow> switch swdb" where
  "getSwitch op =
     bind time_now (\<lambda>now.
     bind (peek (cacheHit op now)) (\<lambda>hit.
       case hit of
         Some s \<Rightarrow> ret s
       | None \<Rightarrow>
           bind (pgGetSwitch op) (\<lambda>s.
           bind time_now (\<lambda>now'.
           bind (local (cacheStore op s now')) (\<lambda>_. ret s)))))"

definition unreadableReason :: string where
  "unreadableReason = ''pause state is currently unreadable; refusing the operation until it can be confirmed''"

definition EnsureAllowed :: "string \<Rightarrow> unit swdb" where
  "EnsureAllowed op =
     (if \<not> Valid op then fail (App ErrUnknownOperation)
      else bind (attempt (getSwitch op)) (\<lambda>state.
        case state of
          Inl _ \<Rightarrow> fail (App (ErrPaused unreadableReason))
        | Inr s \<Rightarrow> if Paused s then fail (App (ErrPaused (Reason s))) else ret ()))"

definition GetSwitchState :: "string \<Rightarrow> switch swdb" where
  "GetSwitchState op = (if \<not> Valid op then fail (App ErrUnknownOperation) else pgGetSwitch op)"

text \<open>The audit entry is written last and its failure is ignored.\<close>

definition SetPaused :: "string \<Rightarrow> bool \<Rightarrow> string \<Rightarrow> uuid option \<Rightarrow> bool \<Rightarrow> switch swdb" where
  "SetPaused op paused reason0 actor auditFails =
     (if \<not> Valid op then fail (App ErrUnknownOperation)
      else let reason = trim_space reason0 in
        bind (pgGetSwitch op) (\<lambda>previous.
        bind (pgSetSwitch op paused reason actor) (\<lambda>updated.
        bind (local (invalidate op)) (\<lambda>_.
        bind (local (\<lambda>d. if auditFails then d else d \<lparr> swAudit := swAudit d @
            [(if paused then ''money_path.pause'' else ''money_path.release'', op, Paused previous, Paused updated)] \<rparr>)) (\<lambda>_.
          ret updated)))))"

section \<open>Overlapping requests and several instances\<close>

text \<open>
  A request that misses the cache reads the row in one step and stores it in a later one, at most
  \<open>L\<close> after; its copy is pending in between. Other instances write the same table.
\<close>

type_synonym pending = "(string \<times> switch \<times> time) list"

inductive swstep :: "time \<Rightarrow> switch_db dbw \<times> pending \<Rightarrow> switch_db dbw \<times> pending \<Rightarrow> bool" for L where
  Read: "pgGetSwitch op w = (Inr s, w') \<Longrightarrow> swstep L (w, P) (w', (op, s, wall w) # P)"
| Store: "(op, s, t) \<in> set P \<Longrightarrow> wall w \<le> t + L \<Longrightarrow>
    swstep L (w, P) (w \<lparr> data := cacheStore op s (wall w) (data w) \<rparr>, remove1 (op, s, t) P)"
| Local: "SetPaused op p r a f w = (x, w') \<Longrightarrow> swstep L (w, P) (w', P)"
| Remote: "pgSetSwitch op p r a w = (x, w') \<Longrightarrow> swstep L (w, P) (w', P)"
| Tick: "wall w \<le> t \<Longrightarrow> swstep L (w, P) (w \<lparr> wall := t, sched := fs \<rparr>, P)"

text \<open>The sequential \<^verbatim>\<open>get\<close> is a read and a store without a pause in between.\<close>

lemma getSwitch_steps:
  assumes "0 \<le> L" and "getSwitch op w = (Inr s, w')" and "cacheHit op (wall w) (data w) = None"
  shows "(swstep L)\<^sup>*\<^sup>* (w, P) (w', P)"
proof -
  from assms(2,3) obtain w1 where r: "pgGetSwitch op w = (Inr s, w1)"
    and w': "w' = w1 \<lparr> data := cacheStore op s (wall w1) (data w1) \<rparr>"
    by (auto simp: getSwitch_def bind_def time_now_def peek_def local_def ret_def split: prod.splits sum.splits)
  have "wall w1 = wall w"
    using r by (auto simp: pgGetSwitch_def query_def stmt_def Let_def split: sum.splits option.splits if_splits)
  then have "swstep L (w1, (op, s, wall w) # P) (w', P)"
    using swstep.Store [of op s "wall w" "(op, s, wall w) # P" w1 L] assms(1) by (simp add: w')
  then show ?thesis using swstep.Read [OF r, of L P] by (meson rtranclp.rtrancl_into_rtrancl rtranclp.rtrancl_refl)
qed

definition paused_row :: "string \<Rightarrow> switch_db \<Rightarrow> bool" where
  "paused_row op d \<longleftrightarrow> (case List.find (\<lambda>s. swOperation s = op) (rows d) of None \<Rightarrow> False | Some s \<Rightarrow> Paused s)"

text \<open>Every stored copy ends within the TTL, every pending copy was read in the past.\<close>

definition timely :: "switch_db dbw \<times> pending \<Rightarrow> bool" where
  "timely S \<longleftrightarrow> (\<forall>(op, s, e) \<in> set (cached (data (fst S))). e \<le> wall (fst S) + switchCacheTTL) \<and> (\<forall>(op, s, t) \<in> set (snd S). t \<le> wall (fst S))"

text \<open>Since the pause at \<open>T\<close>, copies that are not paused stem from before \<open>T\<close>.\<close>

definition outdated :: "string \<Rightarrow> time \<Rightarrow> time \<Rightarrow> switch_db dbw \<times> pending \<Rightarrow> bool" where
  "outdated op T L S \<longleftrightarrow> (\<forall>s e. (op, s, e) \<in> set (cached (data (fst S))) \<longrightarrow> \<not> Paused s \<longrightarrow> e \<le> T + L + switchCacheTTL)
     \<and> (\<forall>s t. (op, s, t) \<in> set (snd S) \<longrightarrow> \<not> Paused s \<longrightarrow> t \<le> T)"

lemma set_update: "set (AList.update k v xs) \<subseteq> insert (k, v) (set xs)"
  by (induction xs) auto

lemma set_delete: "set (AList.delete k xs) \<subseteq> set xs"
  by (induction xs) auto

lemma getSwitch_read:
  assumes "pgGetSwitch op w = (Inr s, w')"
  shows "data w' = data w" "wall w' = wall w" "List.find (\<lambda>s. swOperation s = op) (rows (data w)) = Some s"
  using assms by (auto simp: pgGetSwitch_def query_def stmt_def Let_def split: sum.splits option.splits if_splits)

lemma pgSetSwitch_frame:
  assumes "pgSetSwitch op p r a w = (x, w')"
  shows "cached (data w') = cached (data w)" "wall w' = wall w"
  using assms by (auto simp: pgSetSwitch_def bind_def time_now_def stmt_def Let_def split: sum.splits option.splits if_splits)

lemma SetPaused_frame:
  assumes "SetPaused op p r a f w = (x, w')"
  shows "set (cached (data w')) \<subseteq> set (cached (data w))" "wall w' = wall w"
proof -
  obtain r1 w1 where g: "pgGetSwitch op w = (r1, w1)" by fastforce
  obtain r2 w2 where s: "pgSetSwitch op p (trim_space r) a w1 = (r2, w2)" by fastforce
  have "data w1 = data w" "wall w1 = wall w"
    using g by (auto simp: pgGetSwitch_def query_def stmt_def Let_def split: sum.splits option.splits if_splits)
  then have w2: "cached (data w2) = cached (data w)" "wall w2 = wall w" "data w1 = data w" "wall w1 = wall w"
    using pgSetSwitch_frame [OF s] by simp_all
  have "w' = w \<or> w' = w1 \<or> w' = w2 \<or> cached (data w') = AList.delete op (cached (data w2)) \<and> wall w' = wall w2"
    using assms g s by (auto simp: SetPaused_def bind_def fail_def ret_def local_def invalidate_def Let_def split: if_splits sum.splits)
  then show "set (cached (data w')) \<subseteq> set (cached (data w))" "wall w' = wall w"
    using w2 set_delete [of op "cached (data w)"] by (elim disjE; simp)+
qed

lemma swstep_timely: "swstep L S S' \<Longrightarrow> timely S \<Longrightarrow> timely S' \<and> wall (fst S) \<le> wall (fst S')"
proof (induction rule: swstep.induct)
  case (Read op w s w' P)
  then show ?case using getSwitch_read [OF Read(1)] by (auto simp: timely_def)
next
  case (Store op s t P w)
  then show ?case
    using set_update [of op "(s, wall w + switchCacheTTL)" "cached (data w)"] set_remove1_subset [of "(op, s, t)" P]
    by (fastforce simp: timely_def cacheStore_def)
next
  case (Local op p r a f w x w' P)
  then show ?case using SetPaused_frame [OF Local(1)] by (auto simp: timely_def)
next
  case (Remote op p r a w x w' P)
  then show ?case using pgSetSwitch_frame [OF Remote(1)] by (auto simp: timely_def)
qed (fastforce simp: timely_def)

lemma swstep_outdated:
  assumes "swstep L S S'" and "paused_row op (data (fst S))" and "outdated op T L S"
  shows "outdated op T L S'"
  using assms
proof (induction rule: swstep.induct)
  case (Read op' w s w' P)
  then show ?case
    using getSwitch_read [OF Read(1)] by (cases "op' = op") (auto simp: outdated_def paused_row_def)
next
  case (Store op' s t P w)
  have up: "set (cached (cacheStore op' s (wall w) (data w))) \<subseteq> insert (op', s, wall w + switchCacheTTL) (set (cached (data w)))"
    by (simp add: cacheStore_def set_update)
  have "t \<le> T" if "op' = op" "\<not> Paused s" using Store that by (auto simp: outdated_def)
  then show ?case
    using Store(2,4) up set_remove1_subset [of "(op', s, t)" P] unfolding outdated_def by fastforce
next
  case (Local op' p r a f w x w' P)
  then show ?case using SetPaused_frame [OF Local(1)] by (auto simp: outdated_def)
next
  case (Remote op' p r a w x w' P)
  then show ?case using pgSetSwitch_frame [OF Remote(1)] by (auto simp: outdated_def)
qed (simp add: outdated_def)

definition refused :: "string \<Rightarrow> switch_db dbw \<Rightarrow> bool" where
  "refused op w \<longleftrightarrow> (case fst (EnsureAllowed op w) of Inl (App (ErrPaused why)) \<Rightarrow> True | _ \<Rightarrow> False)"

lemma refused_when_outdated:
  assumes op: "Valid op" and p: "paused_row op (data w)" and o: "outdated op T L (w, P)" and t: "T + L + switchCacheTTL \<le> wall w"
  shows "refused op w"
proof (cases "cacheHit op (wall w) (data w)")
  case (Some s)
  then obtain e where "map_of (cached (data w)) op = Some (s, e)" "wall w < e"
    by (auto simp: cacheHit_def split: option.splits if_splits)
  then have "Paused s" using o t map_of_SomeD unfolding outdated_def by fastforce
  then show ?thesis
    using op Some by (simp add: refused_def EnsureAllowed_def getSwitch_def bind_def time_now_def peek_def attempt_def ret_def fail_def)
next
  case None
  have "case fst (getSwitch op w) of Inl e \<Rightarrow> True | Inr s \<Rightarrow> Paused s"
    using None p by (auto simp: getSwitch_def bind_def time_now_def peek_def local_def ret_def pgGetSwitch_def query_def stmt_def
        Let_def paused_row_def split: option.splits sum.splits prod.splits if_splits)
  then show ?thesis
    using op by (auto simp: refused_def EnsureAllowed_def bind_def attempt_def fail_def split: prod.splits sum.splits)
qed

definition switches0 :: "switch_db dbw \<times> pending" where
  "switches0 = (\<lparr> data = \<lparr> rows = map (\<lambda>op. \<lparr> swOperation = op, Paused = False, Reason = '''', ChangedBy = None, swUpdatedAt = 0 \<rparr>) Operations,
     cached = [], swAudit = [] \<rparr>, sched = [], drawn = 0, wall = 0 \<rparr>, [])"

text \<open>
  C22: A pause is noticed in time: from the moment a switch is engaged in the database, by whatever
  instance, and as long as it stays engaged, every request that comes later than the two seconds of
  the cache and the longest read \<open>L\<close> is refused, with all overlaps of reads, stores, pauses and
  releases and with every failing read.
\<close>

theorem pause_noticed_within_ttl:
  assumes "Valid op" and "0 \<le> L" and "(swstep L)\<^sup>*\<^sup>* switches0 S" and p: "paused_row op (data (fst S))"
    and "(\<lambda>A B. swstep L A B \<and> paused_row op (data (fst B)))\<^sup>*\<^sup>* S S'" and late: "wall (fst S) + L + switchCacheTTL \<le> wall (fst S')"
  shows "refused op (fst S')"
proof -
  have "timely S"
    using assms(3) by (induction rule: rtranclp_induct) (auto simp: switches0_def timely_def [of "(_, [])"] dest: swstep_timely)
  then have "outdated op (wall (fst S)) L S" using assms(2) by (fastforce simp: timely_def outdated_def)
  with assms(5) p have "paused_row op (data (fst S')) \<and> outdated op (wall (fst S)) L S'"
    by (induction rule: rtranclp_induct) (auto intro: swstep_outdated)
  then show ?thesis using refused_when_outdated [of op "fst S'" "wall (fst S)" L "snd S'"] assms(1) late by simp
qed

theorem pause_noticed_within_ttl_witness:
  "let w = snd (pgSetSwitch ''deposit'' True ''incident'' None (fst switches0)) in refused ''deposit'' (w \<lparr> wall := 2000000000, sched := [] \<rparr>)"
proof -
  let ?w = "snd (pgSetSwitch ''deposit'' True ''incident'' None (fst switches0))"
  let ?S = "(?w, [])" and ?S' = "(?w \<lparr> wall := 2000000000, sched := [] \<rparr>, [])"
  have 1: "(swstep 0)\<^sup>*\<^sup>* switches0 ?S"
    using swstep.Remote [OF prod.collapse [symmetric], where P = "[]"] by (simp add: switches0_def r_into_rtranclp)
  have p: "paused_row ''deposit'' (data ?w)" "wall ?w = 0" by code_simp+
  have "swstep 0 ?S ?S'" using swstep.Tick [of ?w "2000000000" 0 "[]" "[]"] p(2) by simp
  then have 2: "(\<lambda>A B. swstep 0 A B \<and> paused_row ''deposit'' (data (fst B)))\<^sup>*\<^sup>* ?S ?S'"
    using p(1) by (intro r_into_rtranclp) simp
  have "Valid ''deposit''" by code_simp
  from pause_noticed_within_ttl [OF this _ 1 _ 2] p show ?thesis
    by (simp add: Let_def switchCacheTTL_def second_def millisecond_def microsecond_def)
qed

text \<open>
  The operator's own instance can miss the pause as well: a request that read the row before the
  pause stores its copy after the cache was cleared, and the next request is let through.
\<close>

lemma own_pause_missed:
  "\<exists>S. (swstep 0)\<^sup>*\<^sup>* switches0 S \<and> fst (SetPaused ''deposit'' True ''incident'' None False (fst switches0)) \<noteq> Inl DBFailure
     \<and> paused_row ''deposit'' (data (fst S)) \<and> fst (EnsureAllowed ''deposit'' (fst S)) = Inr ()"
proof -
  define old where "old = \<lparr> swOperation = ''deposit'', Paused = False, Reason = '''', ChangedBy = None, swUpdatedAt = 0 \<rparr>"
  let ?w0 = "fst switches0"
  let ?w1 = "snd (SetPaused ''deposit'' True ''incident'' None False ?w0)"
  let ?w2 = "?w1 \<lparr> data := cacheStore ''deposit'' old (wall ?w1) (data ?w1) \<rparr>"
  have "pgGetSwitch ''deposit'' ?w0 = (Inr old, ?w0)" unfolding old_def
    by (simp add: pgGetSwitch_def query_def stmt_def switches0_def Operations_def OperationDeposit_def OperationWithdrawal_def)
  then have "swstep 0 switches0 (?w0, [(''deposit'', old, wall ?w0)])"
    using swstep.Read [of "''deposit''" ?w0 old ?w0 0 "[]"] by (simp add: switches0_def)
  moreover have "swstep 0 (?w0, [(''deposit'', old, wall ?w0)]) (?w1, [(''deposit'', old, wall ?w0)])"
    by (rule swstep.Local [OF prod.collapse [symmetric]])
  moreover have "wall ?w1 = wall ?w0" by code_simp
  then have "swstep 0 (?w1, [(''deposit'', old, wall ?w0)]) (?w2, [])"
    using swstep.Store [of "''deposit''" old "wall ?w0" "[(''deposit'', old, wall ?w0)]" ?w1 0] by simp
  ultimately have "(swstep 0)\<^sup>*\<^sup>* switches0 (?w2, [])"
    by (meson rtranclp.rtrancl_into_rtrancl rtranclp.rtrancl_refl)
  moreover have "paused_row ''deposit'' (data ?w2)" "fst (EnsureAllowed ''deposit'' ?w2) = Inr ()"
    "fst (SetPaused ''deposit'' True ''incident'' None False ?w0) \<noteq> Inl DBFailure" unfolding old_def by code_simp+
  ultimately show ?thesis by (intro exI [of _ "(?w2, [])"]) simp
qed

text \<open>A switch that cannot be read refuses the operation.\<close>

lemma unreadable_refuses:
  "Valid op \<Longrightarrow> fst (getSwitch op w) = Inl e \<Longrightarrow> fst (EnsureAllowed op w) = Inl (App (ErrPaused unreadableReason))"
  by (auto simp: EnsureAllowed_def bind_def attempt_def fail_def split: prod.splits)

end
