(* ===== verification/Vault_Service.thy ===== *)
theory Vault_Service
  imports Vault_Replay Money_Path
begin

text \<open>
  \<^verbatim>\<open>service/vault_service.go\<close> and \<^verbatim>\<open>service/operator_funded_deposits.go\<close>: what the HTTP handlers call.
  The state of the service is the tables, the pause switches, the calls made to the chain, the
  spending of the operator account, the yield credited to goals and the cache of share prices.
  The chain invoker and the event verifier are interfaces and therefore parameters; the answer of
  the invoker may depend on all earlier calls, that of the verifier on the time. A division by
  zero, which panics in the decimal library, is the error \<open>PanicDivisionByZero\<close>.
\<close>

section \<open>Interfaces and state\<close>

text \<open>A decimal of a request keeps its exponent, because the service checks the scale.\<close>

type_synonym decimal = "int \<times> int"

definition decimal_value :: "decimal \<Rightarrow> rat" where
  "decimal_value d = (case d of (c, e) \<Rightarrow> if 0 \<le> e then of_int c * 10 ^ nat e else of_int c / 10 ^ nat (- e))"

definition decimalScale :: "decimal \<Rightarrow> int" where
  "decimalScale d = (case d of (c, e) \<Rightarrow> if 0 \<le> e then 0 else - e)"

datatype chain_call =
    DepositCall string int
  | WithdrawCall string int int
  | HarvestCall string string bool
  | EmergencyCall string

record invoker =
  DepositToVault :: "chain_call list \<Rightarrow> string \<Rightarrow> int \<Rightarrow> string option"
  WithdrawFromVault :: "chain_call list \<Rightarrow> string \<Rightarrow> int \<Rightarrow> int \<Rightarrow> string + string"
  invPreviewDeposit :: "chain_call list \<Rightarrow> string \<Rightarrow> int \<Rightarrow> string + int"
  invPreviewWithdraw :: "chain_call list \<Rightarrow> string \<Rightarrow> int \<Rightarrow> string + int"
  invHarvestVault :: "chain_call list \<Rightarrow> string \<Rightarrow> string \<Rightarrow> bool \<Rightarrow> string + string"
  EmergencyWithdrawAll :: "chain_call list \<Rightarrow> string \<Rightarrow> string option"

record verified_event =
  evAmount :: rat
  evAccount :: string

type_synonym verifier = "time \<Rightarrow> string \<Rightarrow> string \<Rightarrow> string \<Rightarrow> string + verified_event"

record goal_router =
  GetAutoCompoundForVault :: "uuid \<Rightarrow> string + (uuid \<times> bool) option"
  CreditGoalYieldBalance :: "uuid \<Rightarrow> rat \<Rightarrow> string option"

record deposit_policy =
  enabled :: bool
  allowedVaults :: "uuid list"
  maxAmount :: rat

record vault_service =
  depositInvoker :: "invoker option"
  operatorFundedDeposits :: "deposit_policy option"
  chainVerifier :: "verifier option"
  defaultHarvestCompound :: bool
  yieldRecorder :: "(uuid \<Rightarrow> rat \<Rightarrow> bool) option"
  goalYieldRouter :: "goal_router option"
  moneyPathSwitches :: bool

record share_price_response =
  spVaultID :: uuid
  SharesPerUSDC :: string
  USDCPerShare :: string
  TotalShares :: string
  TotalAssetsUSDC :: string
  AsOfLedger :: int

record svc_state =
  tables :: vault_db
  switches :: switch_db
  chainLog :: "chain_call list"
  spent :: "(uuid \<times> rat) list"
  goalCredits :: "(uuid \<times> rat) list"
  yieldRecords :: "(uuid \<times> rat) list"
  priceCache :: "(uuid \<times> share_price_response \<times> time) list"

type_synonym 'a sdb = "(svc_state, verror, 'a) db"

text \<open>A program on a part of the state.\<close>

definition zoom :: "('s \<Rightarrow> 'd) \<Rightarrow> ('d \<Rightarrow> 's \<Rightarrow> 's) \<Rightarrow> ('d, 'e, 'a) db \<Rightarrow> ('s, 'e, 'a) db" where
  "zoom get put m w =
     (case m \<lparr> data = get (data w), sched = sched w, drawn = drawn w, wall = wall w \<rparr> of (r, b) \<Rightarrow>
        (r, w \<lparr> data := put (data b) (data w), sched := sched b, drawn := drawn b \<rparr>))"

definition on_tables :: "'a vdb \<Rightarrow> 'a sdb" where
  "on_tables = zoom tables (\<lambda>d s. s \<lparr> tables := d \<rparr>)"

definition on_switches :: "'a swdb \<Rightarrow> 'a sdb" where
  "on_switches = zoom switches (\<lambda>d s. s \<lparr> switches := d \<rparr>)"

definition invoke :: "(chain_call list \<Rightarrow> 'r) \<Rightarrow> chain_call \<Rightarrow> 'r sdb" where
  "invoke f c = bind (peek (\<lambda>s. f (chainLog s))) (\<lambda>r. bind (local (\<lambda>s. s \<lparr> chainLog := chainLog s @ [c] \<rparr>)) (\<lambda>_. ret r))"

definition verify :: "verifier \<Rightarrow> string \<Rightarrow> string \<Rightarrow> string \<Rightarrow> verified_event sdb" where
  "verify ver txHash contractID eventType = bind time_now (\<lambda>now.
     case ver now txHash contractID eventType of Inl e \<Rightarrow> fail (App (ErrChainEvent e)) | Inr ev \<Rightarrow> ret ev)"

definition ensureMoneyPathAllowed :: "vault_service \<Rightarrow> string \<Rightarrow> unit sdb" where
  "ensureMoneyPathAllowed s op = (if \<not> moneyPathSwitches s then ret () else on_switches (EnsureAllowed op))"

definition contains :: "string \<Rightarrow> string \<Rightarrow> bool" where
  "contains s pat = list_ex (\<lambda>n. take (length pat) (drop n s) = pat) [0..<Suc (length s)]"

definition to_upper :: "string \<Rightarrow> string" where
  "to_upper = map (\<lambda>c. if CHR ''a'' \<le> c \<and> c \<le> CHR ''z'' then char_of (of_char c - 32 :: nat) else c)"

text \<open>Equality of ASCII text up to case.\<close>

definition EqualFold :: "string \<Rightarrow> string \<Rightarrow> bool" where
  "EqualFold a b \<longleftrightarrow> to_lower a = to_lower b"

section \<open>Operator-funded deposits\<close>

definition NewOperatorFundedDepositPolicy :: "bool \<Rightarrow> uuid list \<Rightarrow> rat \<Rightarrow> deposit_policy" where
  "NewOperatorFundedDepositPolicy en allowed mx = \<lparr> enabled = en, allowedVaults = filter (\<lambda>i. i \<noteq> uuid_nil) allowed, maxAmount = mx \<rparr>"

definition Authorize :: "deposit_policy option \<Rightarrow> uuid \<Rightarrow> rat \<Rightarrow> unit sdb" where
  "Authorize pol vaultID amount =
     (case pol of
        None \<Rightarrow> fail (App ErrOperatorFundedDisabled)
      | Some p \<Rightarrow>
          if \<not> enabled p then fail (App ErrOperatorFundedDisabled)
          else if vaultID \<notin> set (allowedVaults p) then fail (App ErrOperatorFundedNotAllowed)
          else if maxAmount p \<le> 0 \<or> maxAmount p < amount then fail (App ErrOperatorFundedCapExceeded)
          else local (\<lambda>s. s \<lparr> spent := AList.update vaultID ((case map_of (spent s) vaultID of None \<Rightarrow> 0 | Some x \<Rightarrow> x) + amount) (spent s) \<rparr>))"

section \<open>Vaults\<close>

record create_vault_input =
  cvUserID :: uuid
  cvContractAddress :: string
  cvCurrency :: string
  cvStatus :: string

definition CreateVault :: "(nat \<Rightarrow> uuid) \<Rightarrow> create_vault_input \<Rightarrow> vault sdb" where
  "CreateVault gen inp =
     (let addr = trim_space (cvContractAddress inp); cur = to_upper (trim_space (cvCurrency inp)); st = trim_space (cvStatus inp)
      in if cvUserID inp = uuid_nil then fail (App ErrInvalidVault)
         else if addr = '''' then fail (App ErrInvalidVault)
         else if cur = '''' then fail (App ErrInvalidVault)
         else case (if st = '''' then Inr StatusActive else ParseStatus st) of
           Inl e \<Rightarrow> fail (App e)
         | Inr status \<Rightarrow>
             bind time_now (\<lambda>now.
             bind (new_uuid gen) (\<lambda>i.
               if i = uuid_nil then fail (App ErrInvalidVault)
               else on_tables (pgCreateVault \<lparr> vID = i, vUserID = cvUserID inp, ContractAddress = addr, TotalDeposited = 0,
                 CurrentBalance = 0, Currency = cur, vStatus = status, YieldEarned = 0, FeesPaid = 0, SoftCapacity = None,
                 CapacityWarningPct = None, HarvestFrequency = '''', LastHarvestedAt = None, LastSyncedAt = None, DeletedAt = None,
                 Allocations = [], vCreatedAt = now, vUpdatedAt = now \<rparr>))))"

definition GetVault :: "uuid \<Rightarrow> vault sdb" where
  "GetVault i = (if i = uuid_nil then fail (App ErrInvalidVault) else on_tables (pgGetVault i))"

text \<open>The shares of an amount: the decimal library panics on a zero price.\<close>

definition sharesFor :: "decimal_ops \<Rightarrow> rat \<Rightarrow> rat \<Rightarrow> rat sdb" where
  "sharesFor dec amount price = (if price = 0 then fail (App PanicDivisionByZero) else ret (RoundTo dec 6 (Div dec amount price)))"

record deposit_input =
  dVaultID :: uuid
  dUserID :: uuid
  dAmount :: decimal
  dTxHash :: string
  dFee :: rat
  dWalletAddress :: string

text \<open>The event of a transaction, checked against the caller.\<close>

definition verifiedAmount :: "verifier \<Rightarrow> string \<Rightarrow> string \<Rightarrow> string \<Rightarrow> string \<Rightarrow> rat sdb" where
  "verifiedAmount ver txHash contract kind wallet =
     (if txHash = '''' then fail (App ErrTxHashRequired)
      else bind (verify ver txHash contract kind) (\<lambda>event.
        let caller = trim_space wallet
        in if caller \<noteq> '''' \<and> evAccount event \<noteq> '''' \<and> \<not> EqualFold caller (evAccount event)
           then fail (App ErrChainEventCallerMismatch)
           else if evAmount event \<le> 0 then fail (App ErrInvalidAmount)
           else ret (evAmount event)))"

definition operatorDeposit :: "vault_service \<Rightarrow> decimal_ops \<Rightarrow> uuid \<Rightarrow> string \<Rightarrow> rat \<Rightarrow> unit sdb" where
  "operatorDeposit s dec vaultID contract amount =
     (case depositInvoker s of
        None \<Rightarrow> ret ()
      | Some chn \<Rightarrow>
          bind (Authorize (operatorFundedDeposits s) vaultID amount) (\<lambda>_.
          let stroops = stroopsOf dec amount in
          bind (invoke (\<lambda>cs. DepositToVault chn cs contract stroops) (DepositCall contract stroops)) (\<lambda>err.
            case err of
              None \<Rightarrow> ret ()
            | Some e \<Rightarrow> fail (App (if contains e ''#21'' then ErrBelowMinDeposit else ErrOnChain e)))))"

definition creditDeposit :: "(nat \<Rightarrow> uuid) \<Rightarrow> decimal_ops \<Rightarrow> deposit_input \<Rightarrow> vault \<Rightarrow> string \<Rightarrow> rat \<Rightarrow> vault sdb" where
  "creditDeposit gen dec inp existing txHash amount =
     (let userID = (if dUserID inp = uuid_nil then vUserID existing else dUserID inp); sharePrice = ComputeSharePrice dec existing
      in bind (sharesFor dec amount sharePrice) (\<lambda>shares.
         bind (on_tables (pgRecordDeposit gen dec (dVaultID inp)
           \<lparr> rUserID = userID, rAmount = amount, rHash = txHash, rShares = shares, rPrice = sharePrice, rFee = dFee inp \<rparr>)) (\<lambda>_.
           on_tables (pgGetVault (dVaultID inp)))))"

definition RecordDeposit :: "(nat \<Rightarrow> uuid) \<Rightarrow> decimal_ops \<Rightarrow> vault_service \<Rightarrow> deposit_input \<Rightarrow> vault sdb" where
  "RecordDeposit gen dec s inp =
     bind (ensureMoneyPathAllowed s OperationDeposit) (\<lambda>_.
       if dVaultID inp = uuid_nil then fail (App ErrInvalidVault)
       else if decimal_value (dAmount inp) \<le> 0 then fail (App ErrInvalidAmount)
       else if MaxAmountScale < decimalScale (dAmount inp) then fail (App ErrInvalidPrecision)
       else bind (on_tables (pgGetVault (dVaultID inp))) (\<lambda>existing.
         let txHash = trim_space (dTxHash inp)
         in if txHash \<noteq> '''' \<and> chainVerifier s = None then fail (App ErrChainVerificationUnavailable)
            else bind (if txHash = '''' then operatorDeposit s dec (dVaultID inp) (ContractAddress existing) (decimal_value (dAmount inp)) else ret ()) (\<lambda>_.
                 bind (case chainVerifier s of
                         None \<Rightarrow> ret (decimal_value (dAmount inp))
                       | Some ver \<Rightarrow> verifiedAmount ver txHash (ContractAddress existing) ''deposit'' (dWalletAddress inp)) (\<lambda>amount.
                   creditDeposit gen dec inp existing txHash amount))))"

record alloc_input =
  aiAllocation :: allocation
  aiAmount :: decimal
  aiAPY :: decimal

fun normalizeAllocations :: "(nat \<Rightarrow> uuid) \<Rightarrow> uuid \<Rightarrow> time \<Rightarrow> alloc_input list \<Rightarrow> (allocation list \<times> rat) sdb" where
  "normalizeAllocations gen vid now [] = ret ([], 0)"
| "normalizeAllocations gen vid now (a # as) =
     (if trim_space (Protocol (aiAllocation a)) = '''' \<or> decimal_value (aiAmount a) < 0 \<or> decimal_value (aiAPY a) < 0
      then fail (App ErrInvalidAllocation)
      else if MaxAmountScale < decimalScale (aiAmount a) \<or> MaxAPYScale < decimalScale (aiAPY a) then fail (App ErrInvalidPrecision)
      else bind (if alID (aiAllocation a) = uuid_nil then new_uuid gen else ret (alID (aiAllocation a))) (\<lambda>i.
           bind (normalizeAllocations gen vid now as) (\<lambda>(rest, n).
             ret ((aiAllocation a) \<lparr> alID := i, alVaultID := vid, Protocol := to_lower (trim_space (Protocol (aiAllocation a))),
               alAmount := decimal_value (aiAmount a), APY := decimal_value (aiAPY a),
               AllocatedAt := (if time_is_zero (AllocatedAt (aiAllocation a)) then now else AllocatedAt (aiAllocation a)) \<rparr> # rest,
               decimal_value (aiAmount a) + n))))"

definition UpdateAllocations :: "(nat \<Rightarrow> uuid) \<Rightarrow> uuid \<Rightarrow> alloc_input list \<Rightarrow> vault sdb" where
  "UpdateAllocations gen vid as =
     (if vid = uuid_nil then fail (App ErrInvalidVault)
      else bind time_now (\<lambda>now.
           bind (normalizeAllocations gen vid now as) (\<lambda>(normalized, n).
             if n \<noteq> 100 then fail (App ErrInvalidAllocation)
             else bind (on_tables (pgReplaceAllocations vid normalized)) (\<lambda>_. on_tables (pgGetVault vid)))))"

definition UpdateVault :: "uuid \<Rightarrow> string \<Rightarrow> string \<Rightarrow> vault sdb" where
  "UpdateVault vid addr st =
     (if vid = uuid_nil then fail (App ErrInvalidVault)
      else bind (on_tables (pgGetVault vid)) (\<lambda>existing.
        let contractAddress = (if trim_space addr \<noteq> '''' then trim_space addr else ContractAddress existing)
        in case (if trim_space st = '''' then Inr (vStatus existing)
                 else case ParseStatus st of
                   Inl e \<Rightarrow> Inl e
                 | Inr p \<Rightarrow> if p \<noteq> vStatus existing \<and> \<not> CanTransitionTo (vStatus existing) p then Inl ErrInvalidTransition else Inr p) of
             Inl e \<Rightarrow> fail (App e)
           | Inr newStatus \<Rightarrow>
               bind (on_tables (pgUpdateVault vid contractAddress newStatus)) (\<lambda>_. on_tables (pgGetVault vid))))"

definition UpdateHarvestFrequency :: "uuid \<Rightarrow> uuid \<Rightarrow> string \<Rightarrow> vault sdb" where
  "UpdateHarvestFrequency vid user freq =
     (if vid = uuid_nil then fail (App ErrInvalidVault)
      else case ParseHarvestFrequency freq of
        Inl e \<Rightarrow> fail (App e)
      | Inr parsed \<Rightarrow>
          bind (on_tables (pgGetVault vid)) (\<lambda>existing.
            if vUserID existing \<noteq> user then fail (App ErrVaultForbidden)
            else bind (on_tables (pgUpdateHarvestFrequency vid parsed)) (\<lambda>_. on_tables (pgGetVault vid))))"

definition CloseVault :: "uuid \<Rightarrow> bool \<Rightarrow> vault sdb" where
  "CloseVault vid force =
     (if vid = uuid_nil then fail (App ErrInvalidVault)
      else bind (on_tables (pgGetVault vid)) (\<lambda>existing.
        if vStatus existing = StatusClosed then fail (App ErrVaultClosed)
        else if \<not> force \<and> 0 < CurrentBalance existing then fail (App ErrInsufficientBalance)
        else bind (on_tables (pgUpdateVault vid (ContractAddress existing) StatusClosed)) (\<lambda>_. on_tables (pgGetVault vid))))"

definition PauseVault :: "uuid \<Rightarrow> vault sdb" where
  "PauseVault vid =
     (if vid = uuid_nil then fail (App ErrInvalidVault)
      else bind (on_tables (pgGetVault vid)) (\<lambda>existing.
        if vStatus existing = StatusClosed then fail (App ErrVaultClosed)
        else if vStatus existing \<noteq> StatusActive then fail (App ErrVaultNotActive)
        else bind (on_tables (pgUpdateVault vid (ContractAddress existing) StatusPaused)) (\<lambda>_. on_tables (pgGetVault vid))))"

definition UnpauseVault :: "uuid \<Rightarrow> vault sdb" where
  "UnpauseVault vid =
     (if vid = uuid_nil then fail (App ErrInvalidVault)
      else bind (on_tables (pgGetVault vid)) (\<lambda>existing.
        if vStatus existing = StatusClosed then fail (App ErrVaultClosed)
        else if vStatus existing \<noteq> StatusPaused then fail (App ErrInvalidTransition)
        else bind (on_tables (pgUpdateVault vid (ContractAddress existing) StatusActive)) (\<lambda>_. on_tables (pgGetVault vid))))"

definition DeleteVault :: "uuid \<Rightarrow> unit sdb" where
  "DeleteVault vid =
     (if vid = uuid_nil then fail (App ErrInvalidVault)
      else bind (on_tables (pgGetVault vid)) (\<lambda>_. on_tables (pgSoftDeleteVault vid)))"

section \<open>Withdrawals\<close>

record withdrawal_input =
  wVaultID :: uuid
  wUserID :: uuid
  wAmount :: decimal
  wTxHash :: string
  wFee :: rat
  wWalletAddress :: string
  SlippageBps :: int

definition resolveWithdrawalShares :: "decimal_ops \<Rightarrow> invoker \<Rightarrow> vault \<Rightarrow> rat \<Rightarrow> int sdb" where
  "resolveWithdrawalShares dec chn existing assetAmount =
     (let sharePrice = ComputeSharePrice dec existing
      in if sharePrice \<le> 0 then fail (App ErrInvalidSharePrice)
         else let sharesStroops = IntPart dec (Round0 dec (Div dec assetAmount sharePrice * 10000000))
         in if sharesStroops \<le> 0 then fail (App ErrInvalidAmount)
            else bind (peek (\<lambda>s. invPreviewWithdraw chn (chainLog s) (ContractAddress existing) sharesStroops)) (\<lambda>preview.
              case preview of
                Inl _ \<Rightarrow> ret sharesStroops
              | Inr previewed \<Rightarrow>
                  if previewed \<le> 0 then ret sharesStroops
                  else let corrected = IntPart dec (Round0 dec
                         (Div dec (of_int sharesStroops * (assetAmount * 10000000)) (of_int previewed)))
                       in ret (if corrected \<le> 0 then sharesStroops else corrected)))"

text \<open>A withdrawal without a hash is submitted by the service: the hash and the shares it burned.\<close>

definition submitWithdrawal :: "decimal_ops \<Rightarrow> vault_service \<Rightarrow> withdrawal_input \<Rightarrow> vault \<Rightarrow> (string \<times> rat) sdb" where
  "submitWithdrawal dec s inp existing =
     (let txHash = trim_space (wTxHash inp)
      in case (txHash, depositInvoker s) of
           ([], Some chn) \<Rightarrow>
             bind (resolveWithdrawalShares dec chn existing (decimal_value (wAmount inp))) (\<lambda>sharesStroops.
             bind (invoke (\<lambda>cs. WithdrawFromVault chn cs (ContractAddress existing) sharesStroops (SlippageBps inp))
                     (WithdrawCall (ContractAddress existing) sharesStroops (SlippageBps inp))) (\<lambda>r.
               case r of
                 Inl e \<Rightarrow> fail (App (ErrOnChain e))
               | Inr submitted \<Rightarrow> ret (trim_space submitted, Div dec (of_int sharesStroops) 10000000)))
         | _ \<Rightarrow> ret (txHash, 0))"

definition withdrawnAmount :: "vault_service \<Rightarrow> withdrawal_input \<Rightarrow> vault \<Rightarrow> string \<Rightarrow> rat sdb" where
  "withdrawnAmount s inp existing txHash = (case chainVerifier s of
     None \<Rightarrow> ret (decimal_value (wAmount inp))
   | Some ver \<Rightarrow>
       bind (verifiedAmount ver txHash (ContractAddress existing) ''withdraw'' (wWalletAddress inp)) (\<lambda>amount.
         if CurrentBalance existing < amount then fail (App ErrWithdrawalExceedsPosition) else ret amount))"

definition debitWithdrawal :: "(nat \<Rightarrow> uuid) \<Rightarrow> decimal_ops \<Rightarrow> withdrawal_input \<Rightarrow> vault \<Rightarrow> string \<Rightarrow> rat \<Rightarrow> rat \<Rightarrow> vault sdb" where
  "debitWithdrawal gen dec inp existing txHash submittedShares amount =
     (let userID = (if wUserID inp = uuid_nil then vUserID existing else wUserID inp); sharePrice = ComputeSharePrice dec existing
      in bind (sharesFor dec amount sharePrice) (\<lambda>shares0.
         let shares = (if 0 < submittedShares then RoundTo dec 6 submittedShares else shares0) in
         bind (on_tables (pgRecordWithdrawal gen dec (wVaultID inp)
           \<lparr> rUserID = userID, rAmount = amount, rHash = txHash, rShares = shares, rPrice = sharePrice, rFee = wFee inp \<rparr>)) (\<lambda>_.
           on_tables (pgGetVault (wVaultID inp)))))"

definition RecordWithdrawal :: "(nat \<Rightarrow> uuid) \<Rightarrow> decimal_ops \<Rightarrow> vault_service \<Rightarrow> withdrawal_input \<Rightarrow> vault sdb" where
  "RecordWithdrawal gen dec s inp =
     bind (ensureMoneyPathAllowed s OperationWithdrawal) (\<lambda>_.
       if wVaultID inp = uuid_nil then fail (App ErrInvalidVault)
       else if decimal_value (wAmount inp) \<le> 0 then fail (App ErrInvalidAmount)
       else if MaxAmountScale < decimalScale (wAmount inp) then fail (App ErrInvalidPrecision)
       else bind (on_tables (pgGetVault (wVaultID inp))) (\<lambda>existing.
         if vStatus existing = StatusClosed then fail (App ErrVaultClosed)
         else if CurrentBalance existing < decimal_value (wAmount inp) then fail (App ErrWithdrawalExceedsPosition)
         else if trim_space (wTxHash inp) \<noteq> '''' \<and> chainVerifier s = None then fail (App ErrChainVerificationUnavailable)
         else bind (submitWithdrawal dec s inp existing) (\<lambda>(txHash, submittedShares).
              bind (withdrawnAmount s inp existing txHash) (\<lambda>amount.
                debitWithdrawal gen dec inp existing txHash submittedShares amount))))"

section \<open>Harvests\<close>

definition defaultHarvestPerformanceFeeBPS :: rat where "defaultHarvestPerformanceFeeBPS = 1000"

record harvest_result =
  GrossYieldUSDC :: string
  PerformanceFeeUSDC :: string
  NetYieldUSDC :: string
  hrCompounded :: bool
  hrNewSharesMinted :: string
  hrTxHash :: string

definition formatUSDCAmount :: "decimal_ops \<Rightarrow> rat \<Rightarrow> string" where
  "formatUSDCAmount dec x = StringFixed dec 6 (RoundTo dec 6 x)"

definition harvestableYield :: "vault \<Rightarrow> rat" where
  "harvestableYield v =
     (if 0 < YieldEarned v then YieldEarned v
      else let delta = CurrentBalance v - TotalDeposited v in if 0 < delta then delta else 0)"

definition estimateSharesMinted :: "decimal_ops \<Rightarrow> vault \<Rightarrow> rat \<Rightarrow> rat" where
  "estimateSharesMinted dec v net =
     (if net \<le> 0 then 0
      else if TotalDeposited v \<le> 0 then net
      else let price = Div dec (CurrentBalance v) (TotalDeposited v)
           in if price \<le> 0 then net else RoundTo dec MaxAmountScale (Div dec net price))"

definition performanceFeeOf :: "decimal_ops \<Rightarrow> rat \<Rightarrow> rat" where
  "performanceFeeOf dec gross = RoundTo dec MaxAmountScale (Div dec (gross * defaultHarvestPerformanceFeeBPS) 10000)"

record harvest_vault_input =
  hvVaultID :: uuid
  hvUserID :: uuid
  hvWalletAddress :: string
  hvCompound :: "bool option"

definition linkedGoal :: "vault_service \<Rightarrow> uuid \<Rightarrow> (uuid \<times> bool) option sdb" where
  "linkedGoal s vid = (case goalYieldRouter s of
     None \<Rightarrow> ret None
   | Some r \<Rightarrow> (case GetAutoCompoundForVault r vid of Inl e \<Rightarrow> fail (App (ErrRequest e)) | Inr g \<Rightarrow> ret g))"

definition HarvestVault :: "(nat \<Rightarrow> uuid) \<Rightarrow> decimal_ops \<Rightarrow> vault_service \<Rightarrow> harvest_vault_input \<Rightarrow> harvest_result sdb" where
  "HarvestVault gen dec s inp =
     (if hvVaultID inp = uuid_nil \<or> hvUserID inp = uuid_nil then fail (App ErrInvalidVault)
      else bind (on_tables (pgGetVault (hvVaultID inp))) (\<lambda>existing.
        if vUserID existing \<noteq> hvUserID inp then fail (App ErrVaultForbidden)
        else if vStatus existing = StatusClosed then fail (App ErrVaultClosed)
        else if vStatus existing \<noteq> StatusActive then fail (App ErrVaultNotActive)
        else bind (linkedGoal s (hvVaultID inp)) (\<lambda>goal.
          let compound = (case hvCompound inp of Some b \<Rightarrow> b | None \<Rightarrow> (case goal of Some (_, auto) \<Rightarrow> auto | None \<Rightarrow> defaultHarvestCompound s));
              gross = harvestableYield existing
          in if gross \<le> 0
             then ret \<lparr> GrossYieldUSDC = formatUSDCAmount dec 0, PerformanceFeeUSDC = formatUSDCAmount dec 0,
                        NetYieldUSDC = formatUSDCAmount dec 0, hrCompounded = compound, hrNewSharesMinted = '''', hrTxHash = '''' \<rparr>
             else let fee = performanceFeeOf dec gross; net = gross - fee in
               bind (case depositInvoker s of
                       None \<Rightarrow> ret ''''
                     | Some chn \<Rightarrow>
                         let user = trim_space (hvWalletAddress inp)
                         in if user = '''' then fail (App ErrWalletRequired)
                            else bind (invoke (\<lambda>cs. invHarvestVault chn cs (ContractAddress existing) user compound)
                                         (HarvestCall (ContractAddress existing) user compound)) (\<lambda>r.
                              case r of Inl e \<Rightarrow> fail (App (ErrOnChain e)) | Inr h \<Rightarrow> ret h)) (\<lambda>txHash.
               let shares = (if compound then Some (estimateSharesMinted dec existing net) else None) in
               bind (on_tables (pgRecordHarvest gen dec \<lparr> hVaultID = hvVaultID inp, hUserID = hvUserID inp, NetYield = net,
                 PerformanceFee = fee, Compounded = compound, NewSharesMinted = shares, hHash = txHash \<rparr>)) (\<lambda>_.
               bind (case (compound, goal, goalYieldRouter s) of
                       (False, Some (g, _), Some r) \<Rightarrow>
                         (case CreditGoalYieldBalance r g net of
                            Some e \<Rightarrow> fail (App (ErrRequest e))
                          | None \<Rightarrow> local (\<lambda>st. st \<lparr> goalCredits := goalCredits st @ [(g, net)] \<rparr>))
                     | _ \<Rightarrow> ret ()) (\<lambda>_.
               bind (case yieldRecorder s of
                       None \<Rightarrow> ret ()
                     | Some stores \<Rightarrow> local (\<lambda>st. if stores (hvVaultID inp) net
                         then st \<lparr> yieldRecords := yieldRecords st @ [(hvVaultID inp, net)] \<rparr> else st)) (\<lambda>_.
                 ret \<lparr> GrossYieldUSDC = formatUSDCAmount dec gross, PerformanceFeeUSDC = formatUSDCAmount dec fee,
                       NetYieldUSDC = formatUSDCAmount dec net, hrCompounded = compound,
                       hrNewSharesMinted = (case shares of None \<Rightarrow> '''' | Some x \<Rightarrow> formatUSDCAmount dec x), hrTxHash = txHash \<rparr>)))))))"

record harvest_preview =
  hpVaultID :: uuid
  hpGross :: string
  hpFee :: string
  hpNet :: string
  hpCompounded :: bool
  EstimatedNewShares :: string
  Impaired :: bool

definition PreviewHarvest :: "decimal_ops \<Rightarrow> uuid \<Rightarrow> uuid \<Rightarrow> bool \<Rightarrow> harvest_preview sdb" where
  "PreviewHarvest dec vid user compound =
     (if vid = uuid_nil \<or> user = uuid_nil then fail (App ErrInvalidVault)
      else bind (on_tables (pgGetVault vid)) (\<lambda>existing.
        if vUserID existing \<noteq> user then fail (App ErrVaultForbidden)
        else let gross = harvestableYield existing in
          if gross \<le> 0
          then ret \<lparr> hpVaultID = vID existing, hpGross = formatUSDCAmount dec 0, hpFee = formatUSDCAmount dec 0, hpNet = formatUSDCAmount dec 0,
                     hpCompounded = False, EstimatedNewShares = '''', Impaired = (CurrentBalance existing < TotalDeposited existing) \<rparr>
          else let fee = performanceFeeOf dec gross; net = gross - fee in
            ret \<lparr> hpVaultID = vID existing, hpGross = formatUSDCAmount dec gross, hpFee = formatUSDCAmount dec fee,
                  hpNet = formatUSDCAmount dec net, hpCompounded = compound,
                  EstimatedNewShares = (if compound then formatUSDCAmount dec (estimateSharesMinted dec existing net) else ''''), Impaired = False \<rparr>))"

section \<open>Reads, the emergency exit and rebalancing\<close>

definition ListDeposits :: "uuid \<Rightarrow> vault_transaction list sdb" where
  "ListDeposits vid = (if vid = uuid_nil then fail (App ErrInvalidVault)
     else bind (on_tables (pgGetVault vid)) (\<lambda>_. on_tables (pgListDeposits vid)))"

definition GetMyPosition :: "decimal_ops \<Rightarrow> uuid \<Rightarrow> uuid \<Rightarrow> user_vault_position sdb" where
  "GetMyPosition dec user vid =
     (if user = uuid_nil \<or> vid = uuid_nil then fail (App ErrInvalidVault)
      else bind (on_tables (pgGetVault vid)) (\<lambda>v.
           bind (on_tables (pgListUserVaultTransactions user vid)) (\<lambda>txns. ret (BuildUserVaultPosition dec v user txns))))"

definition EmergencyWithdraw :: "vault_service \<Rightarrow> uuid \<Rightarrow> (uuid \<times> (string \<times> rat) list \<times> (string \<times> rat) list) sdb" where
  "EmergencyWithdraw s vid =
     (if vid = uuid_nil then fail (App ErrInvalidVault)
      else bind (on_tables (pgGetVault vid)) (\<lambda>existing.
           bind (case depositInvoker s of
                   None \<Rightarrow> ret ()
                 | Some chn \<Rightarrow> bind (invoke (\<lambda>cs. EmergencyWithdrawAll chn cs (ContractAddress existing)) (EmergencyCall (ContractAddress existing))) (\<lambda>err.
                     case err of None \<Rightarrow> ret () | Some e \<Rightarrow> fail (App (ErrOnChain e)))) (\<lambda>_.
             ret (vid, map (\<lambda>a. (Protocol a, alAmount a)) (filter (\<lambda>a. 0 < alAmount a) (Allocations existing)), []))))"

record rebalance_position_input =
  rbVaultID :: uuid
  rbUserID :: uuid
  rbFrom :: string
  rbTo :: string
  rbAmount :: rat
  rbTxHash :: string

text \<open>The balance shown for a protocol is that of its last allocation.\<close>

definition lastAmount :: "string \<Rightarrow> allocation list \<Rightarrow> rat" where
  "lastAmount p as = foldl (\<lambda>x a. if Protocol a = p then alAmount a else x) 0 as"

definition RebalancePosition :: "(nat \<Rightarrow> uuid) \<Rightarrow> decimal_ops \<Rightarrow> vault_service \<Rightarrow> rebalance_position_input \<Rightarrow> (vault \<times> rat \<times> rat) sdb" where
  "RebalancePosition gen dec s inp =
     bind (ensureMoneyPathAllowed s OperationWithdrawal) (\<lambda>_.
       if rbVaultID inp = uuid_nil \<or> rbUserID inp = uuid_nil then fail (App ErrInvalidVault)
       else if rbAmount inp \<le> 0 then fail (App ErrInvalidAmount)
       else if rbFrom inp = '''' \<or> rbTo inp = '''' then fail (App ErrInvalidVault)
       else if rbFrom inp = rbTo inp then fail (App ErrInvalidVault)
       else bind (on_tables (pgGetVault (rbVaultID inp))) (\<lambda>existing.
         if vUserID existing \<noteq> rbUserID inp then fail (App ErrVaultForbidden)
         else if vStatus existing \<noteq> StatusActive then fail (App ErrVaultNotActive)
         else if CurrentBalance existing < rbAmount inp then fail (App ErrInsufficientBalance)
         else let sharePrice = ComputeSharePrice dec existing in
           bind (sharesFor dec (rbAmount inp) sharePrice) (\<lambda>shares.
           let rec = \<lparr> rUserID = rbUserID inp, rAmount = rbAmount inp, rHash = rbTxHash inp, rShares = shares, rPrice = sharePrice, rFee = 0 \<rparr> in
           bind (on_tables (pgRecordRebalance gen dec \<lparr> bVaultID = rbVaultID inp, bUserID = rbUserID inp, FromProtocol = rbFrom inp,
             ToProtocol = rbTo inp, bAmount = rbAmount inp, bHash = rbTxHash inp \<rparr> rec rec)) (\<lambda>_.
           bind (on_tables (pgGetVault (rbVaultID inp))) (\<lambda>updated.
             ret (updated, lastAmount (rbFrom inp) (Allocations updated), lastAmount (rbTo inp) (Allocations updated)))))))"

section \<open>Share prices and previews\<close>

definition priceTTL :: time where "priceTTL = 30 * second"

definition priceCacheGet :: "uuid \<Rightarrow> time \<Rightarrow> svc_state \<Rightarrow> share_price_response option" where
  "priceCacheGet vid now s = (case map_of (priceCache s) vid of
     None \<Rightarrow> None | Some (resp, t) \<Rightarrow> if priceTTL < time_sub now t then None else Some resp)"

definition sharePriceOf :: "decimal_ops \<Rightarrow> vault \<Rightarrow> share_price_response" where
  "sharePriceOf dec v =
     (let usdcPerShare = ComputeSharePrice dec v;
          sharesPerUSDC = (if usdcPerShare = 0 then 1 else Div dec 1 usdcPerShare);
          totalShares = (if usdcPerShare \<noteq> 0 \<and> usdcPerShare \<noteq> 1 then Div dec (CurrentBalance v) usdcPerShare else TotalDeposited v)
      in \<lparr> spVaultID = vID v, SharesPerUSDC = formatUSDCAmount dec sharesPerUSDC, USDCPerShare = formatUSDCAmount dec usdcPerShare,
           TotalShares = formatUSDCAmount dec totalShares, TotalAssetsUSDC = formatUSDCAmount dec (CurrentBalance v), AsOfLedger = 0 \<rparr>)"

definition GetSharePrice :: "decimal_ops \<Rightarrow> uuid \<Rightarrow> share_price_response sdb" where
  "GetSharePrice dec vid =
     bind time_now (\<lambda>now. bind (peek (priceCacheGet vid now)) (\<lambda>hit.
       case hit of
         Some resp \<Rightarrow> ret resp
       | None \<Rightarrow>
           bind (on_tables (pgGetVault vid)) (\<lambda>v.
           bind time_now (\<lambda>now'.
           bind (local (\<lambda>s. s \<lparr> priceCache := AList.update vid (sharePriceOf dec v, now') (priceCache s) \<rparr>)) (\<lambda>_.
             ret (sharePriceOf dec v))))))"

definition InvalidateSharePriceCache :: "uuid \<Rightarrow> unit sdb" where
  "InvalidateSharePriceCache vid = local (\<lambda>s. s \<lparr> priceCache := AList.delete vid (priceCache s) \<rparr>)"

definition parseDecimal :: "decimal_ops \<Rightarrow> string \<Rightarrow> rat sdb" where
  "parseDecimal dec s = (case NewFromString dec s of None \<Rightarrow> fail (App (ErrRequest s)) | Some x \<Rightarrow> ret x)"

definition Convert :: "decimal_ops \<Rightarrow> uuid \<Rightarrow> string \<Rightarrow> string \<Rightarrow> (string \<times> string) sdb" where
  "Convert dec vid reqShares reqUSDC =
     bind (GetSharePrice dec vid) (\<lambda>price.
     bind (parseDecimal dec (USDCPerShare price)) (\<lambda>usdcPerShare.
       if reqShares \<noteq> '''' \<and> reqUSDC \<noteq> '''' then fail (App (ErrRequest ''must provide either shares or usdc, not both''))
       else if reqShares = '''' \<and> reqUSDC = '''' then fail (App (ErrRequest ''must provide either shares or usdc''))
       else if reqShares \<noteq> ''''
       then bind (parseDecimal dec reqShares) (\<lambda>shares. ret (formatUSDCAmount dec shares, formatUSDCAmount dec (shares * usdcPerShare)))
       else bind (parseDecimal dec reqUSDC) (\<lambda>usdc.
              if usdcPerShare = 0 then fail (App PanicDivisionByZero)
              else ret (formatUSDCAmount dec (Div dec usdc usdcPerShare), formatUSDCAmount dec usdc))))"

record preview_output =
  GrossAmount :: rat
  ManagementFee :: rat
  NetAmount :: rat
  SharesReceived :: rat
  CurrentPricePerShare :: rat

definition PreviewDeposit :: "decimal_ops \<Rightarrow> vault_service \<Rightarrow> uuid \<Rightarrow> rat \<Rightarrow> preview_output sdb" where
  "PreviewDeposit dec s vid amount =
     (if vid = uuid_nil then fail (App ErrInvalidVault)
      else if amount \<le> 0 then fail (App ErrInvalidAmount)
      else bind (on_tables (pgGetVault vid)) (\<lambda>existing.
           bind (case depositInvoker s of
                   None \<Rightarrow> ret amount
                 | Some chn \<Rightarrow> bind (peek (\<lambda>st. invPreviewDeposit chn (chainLog st) (ContractAddress existing) (stroopsOf dec amount))) (\<lambda>r.
                     case r of Inl e \<Rightarrow> fail (App (ErrOnChain e)) | Inr n \<Rightarrow> ret (Div dec (of_int n) 10000000))) (\<lambda>shares.
             ret \<lparr> GrossAmount = amount, ManagementFee = 0, NetAmount = amount, SharesReceived = shares,
                   CurrentPricePerShare = (if 0 < shares then DivRound dec amount shares 6 else 0) \<rparr>)))"

definition PreviewWithdraw :: "decimal_ops \<Rightarrow> vault_service \<Rightarrow> uuid \<Rightarrow> rat \<Rightarrow> preview_output sdb" where
  "PreviewWithdraw dec s vid shares =
     (if vid = uuid_nil then fail (App ErrInvalidVault)
      else if shares \<le> 0 then fail (App ErrInvalidAmount)
      else bind (on_tables (pgGetVault vid)) (\<lambda>existing.
           bind (case depositInvoker s of
                   None \<Rightarrow> ret shares
                 | Some chn \<Rightarrow> bind (peek (\<lambda>st. invPreviewWithdraw chn (chainLog st) (ContractAddress existing) (stroopsOf dec shares))) (\<lambda>r.
                     case r of Inl e \<Rightarrow> fail (App (ErrOnChain e)) | Inr n \<Rightarrow> ret (Div dec (of_int n) 10000000))) (\<lambda>gross.
           let fee = RoundTo dec 6 (gross * (5 / 1000)) in
             ret \<lparr> GrossAmount = gross, ManagementFee = fee, NetAmount = gross - fee, SharesReceived = 0,
                   CurrentPricePerShare = DivRound dec gross shares 6 \<rparr>)))"

section \<open>What a recorded movement does to the row of the vault\<close>

definition tables_of :: "svc_state dbw \<Rightarrow> vault_db dbw" where
  "tables_of w = \<lparr> data = tables (data w), sched = sched w, drawn = drawn w, wall = wall w \<rparr>"

lemma on_tables_Inr:
  assumes "on_tables m w = (r, w')"
  obtains b where "m (tables_of w) = (r, b)" "tables (data w') = data b" "chainLog (data w') = chainLog (data w)"
    "spent (data w') = spent (data w)" "switches (data w') = switches (data w)" "wall w' = wall w" "drawn w' = drawn b"
  using assms by (auto simp: on_tables_def zoom_def tables_of_def split: prod.splits)

definition hit :: "uuid \<Rightarrow> vault \<Rightarrow> bool" where
  "hit i v \<longleftrightarrow> vID v = i \<and> DeletedAt v = None"

definition rewritten :: "uuid \<Rightarrow> (vault \<Rightarrow> vault) \<Rightarrow> vault_db \<Rightarrow> vault_db \<Rightarrow> bool" where
  "rewritten i f d d' \<longleftrightarrow> vaults d' = map (\<lambda>v. if hit i v then store_vault (f v) else v) (vaults d)"

lemma updateVaultRow_rewritten: "updateVaultRow i f d = Inr (n, d') \<Longrightarrow> rewritten i f d d'"
  by (auto simp: updateVaultRow_def rewritten_def hit_def Let_def split: if_splits)

lemma updateOne_rewritten:
  "updateOne i f w = (Inr a, w') \<Longrightarrow> rewritten i (f (wall w)) (data w) (data w') \<and> wall w' = wall w"
  by (auto simp: updateOne_def bind_now bind_Inr fail_def ret_Inr stmt_def Let_def intro: updateVaultRow_rewritten split: if_splits sum.splits)

lemma vaults_kept:
  "insertTxn t d = Inr (b, d') \<Longrightarrow> vaults d' = vaults d"
  "stmt (insertTxn t) w = (r, w1) \<Longrightarrow> vaults (data w1) = vaults (data w)"
  "insertTxnStrict t w = (r2, w2) \<Longrightarrow> vaults (data w2) = vaults (data w)"
  "on_books m w = (r3, w3) \<Longrightarrow> vaults (data w3) = vaults (data w)"
  by (auto simp: insertTxn_def insertTxnStrict_def on_books_def stmt_def bind_def ret_def fail_def Let_def split: if_splits sum.splits prod.splits)

lemma pgRecordDeposit_row:
  assumes "pgRecordDeposit gen dec i rec w = (Inr a, w')"
  shows "\<exists>now. rewritten i (credit (rAmount rec) now) (data w) (data w')"
proof -
  have pos: "\<not> rAmount rec \<le> 0" using assms by (auto simp: pgRecordDeposit_def fail_def split: if_splits)
  from transaction_Inr [OF assms [unfolded pgRecordDeposit_def if_not_P [OF pos] strict_bind]]
  obtain w1 where d: "data w' = data w1" and b: "bind (updateOne i (credit (rAmount rec))) (\<lambda>_. bind (new_uuid gen) (\<lambda>rowID. bind time_now (\<lambda>now.
       bind (insertTxnStrict (record_txn rowID i ''deposit'' rec now)) (\<lambda>_.
         on_books (postDepositLedgerTx gen dec i (rUserID rec) (rAmount rec) (rHash rec)))))) (w \<lparr> sched := tl (sched w) \<rparr>) = (Inr a, w1)"
    by blast
  from b obtain u1 u2 where u: "updateOne i (credit (rAmount rec)) (w \<lparr> sched := tl (sched w) \<rparr>) = (Inr (), u1)"
    and ins: "insertTxnStrict (record_txn (gen (drawn u1)) i ''deposit'' rec (wall u1)) (u1 \<lparr> drawn := drawn u1 + 1 \<rparr>) = (Inr (), u2)"
    and bk: "on_books (postDepositLedgerTx gen dec i (rUserID rec) (rAmount rec) (rHash rec)) u2 = (Inr a, w1)"
    by (auto simp: bind_Inr new_uuid_def time_now_def)
  show ?thesis
    using updateOne_rewritten [OF u] vaults_kept(3) [OF ins] vaults_kept(4) [OF bk] by (auto simp: rewritten_def d)
qed

lemma pgRecordWithdrawal_row:
  assumes "pgRecordWithdrawal gen dec i rec w = (Inr a, w')"
  shows "\<exists>now. rewritten i (debit (rAmount rec) now) (data w) (data w')"
    and "\<exists>v. List.find (hit i) (vaults (data w)) = Some v \<and> rAmount rec \<le> CurrentBalance v"
proof -
  have pos: "\<not> rAmount rec \<le> 0" using assms by (auto simp: pgRecordWithdrawal_def fail_def split: if_splits)
  let ?q = "query (\<lambda>d. case List.find (\<lambda>v. vID v = i \<and> DeletedAt v = None) (vaults d) of
          None \<Rightarrow> Inl (App ErrVaultNotFound) | Some v \<Rightarrow> Inr (CurrentBalance v)) :: rat vdb"
  from transaction_Inr [OF assms [unfolded pgRecordWithdrawal_def if_not_P [OF pos]]]
  obtain w1 bal u0 where d: "data w' = data w1" and q: "?q (w \<lparr> sched := tl (sched w) \<rparr>) = (Inr bal, u0)" and enough: "\<not> bal < rAmount rec"
    and b: "bind time_now (\<lambda>now. bind (stmt (updateVaultRow i (debit (rAmount rec) now))) (\<lambda>_. bind (new_uuid gen) (\<lambda>rowID.
               bind (insertTxnStrict (record_txn rowID i ''withdrawal'' rec now)) (\<lambda>_.
                 on_books (postWithdrawalLedgerTx gen dec i (rUserID rec) (rAmount rec) (rHash rec)))))) u0 = (Inr a, w1)"
    by (auto simp: bind_Inr [of ?q] fail_def split: if_splits)
  from b obtain n u1 u2 where u: "stmt (updateVaultRow i (debit (rAmount rec) (wall u0))) u0 = (Inr n, u1)"
    and ins: "insertTxnStrict (record_txn (gen (drawn u1)) i ''withdrawal'' rec (wall u0)) (u1 \<lparr> drawn := drawn u1 + 1 \<rparr>) = (Inr (), u2)"
    and bk: "on_books (postWithdrawalLedgerTx gen dec i (rUserID rec) (rAmount rec) (rHash rec)) u2 = (Inr a, w1)"
    by (auto simp: bind_Inr new_uuid_def time_now_def)
  have d0: "data u0 = data w" using query_Inr [OF q] by simp
  show "\<exists>now. rewritten i (debit (rAmount rec) now) (data w) (data w')"
    using updateVaultRow_rewritten [OF stmt_Inr [OF u]] vaults_kept(3) [OF ins] vaults_kept(4) [OF bk] by (auto simp: rewritten_def d d0)
  show "\<exists>v. List.find (hit i) (vaults (data w)) = Some v \<and> rAmount rec \<le> CurrentBalance v"
    using query_Inr [OF q] enough by (auto simp: hit_def [abs_def] split: option.splits)
qed

lemma pgGetVault_row:
  assumes "pgGetVault i w = (Inr v, w')"
  obtains v0 as where "List.find (hit i) (vaults (data w)) = Some v0" "v = v0 \<lparr> Allocations := as \<rparr>" "data w' = data w"
proof -
  from assms obtain v0 w1 as where q: "query (\<lambda>d. case List.find (\<lambda>v. vID v = i \<and> DeletedAt v = None) (vaults d) of
        None \<Rightarrow> Inl (App ErrVaultNotFound) | Some v \<Rightarrow> Inr v) w = (Inr v0 :: verror db_error + vault, w1)"
    and q2: "query (\<lambda>d. Inr (rev (sort_key AllocatedAt (filter (\<lambda>a. alVaultID a = i) (allocs d))))) w1 = (Inr as :: verror db_error + allocation list, w')"
    and v: "v = v0 \<lparr> Allocations := as \<rparr>"
    by (auto simp: pgGetVault_def bind_Inr ret_Inr)
  show thesis
    by (rule that [of v0 as]) (use query_Inr [OF q] query_Inr [OF q2] v in \<open>auto simp: hit_def [abs_def] split: option.splits\<close>)
qed

lemma find_rewritten:
  assumes "rewritten i f d d'" and "\<And>v. vID (f v) = vID v \<and> DeletedAt (f v) = DeletedAt v"
  shows "List.find (hit i) (vaults d') = map_option (\<lambda>v. store_vault (f v)) (List.find (hit i) (vaults d))"
proof -
  have h: "hit i (store_vault (f v)) = hit i v" for v using assms(2) by (simp add: hit_def store_vault_def)
  have "List.find (hit i) (map (\<lambda>v. if hit i v then store_vault (f v) else v) vs) = map_option (\<lambda>v. store_vault (f v)) (List.find (hit i) vs)" for vs
    by (induction vs) (auto simp: h)
  then show ?thesis using assms(1) by (simp add: rewritten_def)
qed

lemma recorded_balance:
  assumes "rewritten i f d d'" and "\<And>v. vID (f v) = vID v \<and> DeletedAt (f v) = DeletedAt v"
    and "List.find (hit i) (vaults d) = Some v0" and "pgGetVault i b = (Inr v, b')" and "data b = d'"
  shows "vID v = i \<and> CurrentBalance v = numeric 8 (CurrentBalance (f v0))"
proof -
  obtain v1 as where "List.find (hit i) (vaults d') = Some v1" "v = v1 \<lparr> Allocations := as \<rparr>"
    using pgGetVault_row [OF assms(4)] assms(5) by metis
  then show ?thesis
    using find_rewritten [OF assms(1,2)] assms(2,3) find_Some_iff_mem [OF assms(3)] by (auto simp: store_vault_def hit_def)
qed

definition fields_kept :: "svc_state dbw \<Rightarrow> svc_state dbw \<Rightarrow> bool" where
  "fields_kept w w' \<longleftrightarrow> chainLog (data w') = chainLog (data w) \<and> spent (data w') = spent (data w) \<and> tables (data w') = tables (data w)"

lemma ensure_frame:
  "ensureMoneyPathAllowed s op w = (r, w') \<Longrightarrow> fields_kept w w' \<and> wall w' = wall w"
  by (auto simp: ensureMoneyPathAllowed_def on_switches_def zoom_def ret_def fields_kept_def split: if_splits prod.splits)

lemma verifiedAmount_Inr:
  assumes "verifiedAmount ver h addr kind wallet w = (Inr x, w')"
  obtains ev where "h \<noteq> ''''" "ver (wall w) h addr kind = Inr ev" "x = evAmount ev" "0 < x" "w' = w"
    "trim_space wallet = '''' \<or> evAccount ev = '''' \<or> EqualFold (trim_space wallet) (evAccount ev)"
proof -
  from assms have h: "h \<noteq> ''''" by (auto simp: verifiedAmount_def fail_def split: if_splits)
  with assms obtain ev where v: "ver (wall w) h addr kind = Inr ev"
    by (auto simp: verifiedAmount_def verify_def bind_def time_now_def fail_def ret_def split: sum.splits)
  show thesis
    by (rule that [OF h v]) (use assms h v in \<open>auto simp: verifiedAmount_def verify_def bind_def time_now_def fail_def ret_def Let_def split: if_splits\<close>)
qed

lemma creditDeposit_Inr:
  assumes "creditDeposit gen dec inp ex h x w = (Inr v, w')"
  obtains rec w1 where "rAmount rec = x" "rHash rec = h" "on_tables (pgRecordDeposit gen dec (dVaultID inp) rec) w = (Inr (), w1)"
    "on_tables (pgGetVault (dVaultID inp)) w1 = (Inr v, w')"
proof -
  from assms obtain shares w1 where r: "on_tables (pgRecordDeposit gen dec (dVaultID inp) \<lparr> rUserID = (if dUserID inp = uuid_nil then vUserID ex else dUserID inp),
      rAmount = x, rHash = h, rShares = shares, rPrice = ComputeSharePrice dec ex, rFee = dFee inp \<rparr>) w = (Inr (), w1)"
    and g: "on_tables (pgGetVault (dVaultID inp)) w1 = (Inr v, w')"
    by (auto simp: creditDeposit_def Let_def sharesFor_def bind_Inr fail_def ret_Inr split: if_splits)
  show thesis by (rule that [OF _ _ r g]) simp_all
qed

lemma credited:
  assumes "creditDeposit gen dec inp ex h x w = (Inr v, w')" and "List.find (hit (dVaultID inp)) (vaults (tables (data w))) = Some v0"
  shows "vID v = dVaultID inp \<and> CurrentBalance v = numeric 8 (CurrentBalance v0 + x)
    \<and> chainLog (data w') = chainLog (data w) \<and> spent (data w') = spent (data w)"
proof -
  obtain rec w1 where rec: "rAmount rec = x" and r: "on_tables (pgRecordDeposit gen dec (dVaultID inp) rec) w = (Inr (), w1)"
    and g: "on_tables (pgGetVault (dVaultID inp)) w1 = (Inr v, w')"
    using creditDeposit_Inr [OF assms(1)] by metis
  obtain b where b: "pgRecordDeposit gen dec (dVaultID inp) rec (tables_of w) = (Inr (), b)" "tables (data w1) = data b"
      "chainLog (data w1) = chainLog (data w)" "spent (data w1) = spent (data w)"
    using on_tables_Inr [OF r] by metis
  obtain b' where b': "pgGetVault (dVaultID inp) (tables_of w1) = (Inr v, b')" "chainLog (data w') = chainLog (data w1)" "spent (data w') = spent (data w1)"
    using on_tables_Inr [OF g] by metis
  obtain now where "rewritten (dVaultID inp) (credit x now) (tables (data w)) (data b)"
    using pgRecordDeposit_row [OF b(1)] by (auto simp: tables_of_def rec)
  from recorded_balance [OF this _ assms(2) b'(1)] b b' show ?thesis by (simp add: credit_def tables_of_def)
qed

lemma getVault_Inr:
  assumes "on_tables (pgGetVault i) w = (Inr ex, w')"
  obtains v0 as where "List.find (hit i) (vaults (tables (data w))) = Some v0" "ex = v0 \<lparr> Allocations := as \<rparr>" "fields_kept w w'" "wall w' = wall w"
proof -
  obtain b where b: "pgGetVault i (tables_of w) = (Inr ex, b)" "tables (data w') = data b" "chainLog (data w') = chainLog (data w)"
    "spent (data w') = spent (data w)" "wall w' = wall w"
    using on_tables_Inr [OF assms] by metis
  obtain v0 as where "List.find (hit i) (vaults (data (tables_of w))) = Some v0" "ex = v0 \<lparr> Allocations := as \<rparr>" "data b = data (tables_of w)"
    using pgGetVault_row [OF b(1)] by metis
  then show thesis by (intro that [of v0 as]) (use b in \<open>simp_all add: fields_kept_def tables_of_def\<close>)
qed

lemma RecordDeposit_Inr:
  assumes "RecordDeposit gen dec s inp w = (Inr v, w')"
  obtains w1 ex w2 w3 x w4 where "ensureMoneyPathAllowed s OperationDeposit w = (Inr (), w1)" "0 < decimal_value (dAmount inp)"
    "decimalScale (dAmount inp) \<le> MaxAmountScale" "on_tables (pgGetVault (dVaultID inp)) w1 = (Inr ex, w2)"
    "(if trim_space (dTxHash inp) = '''' then operatorDeposit s dec (dVaultID inp) (ContractAddress ex) (decimal_value (dAmount inp)) else ret ()) w2 = (Inr (), w3)"
    "(case chainVerifier s of None \<Rightarrow> ret (decimal_value (dAmount inp))
       | Some ver \<Rightarrow> verifiedAmount ver (trim_space (dTxHash inp)) (ContractAddress ex) ''deposit'' (dWalletAddress inp)) w3 = (Inr x, w4)"
    "creditDeposit gen dec inp ex (trim_space (dTxHash inp)) x w4 = (Inr v, w')"
  using assms unfolding RecordDeposit_def bind_Inr Let_def by (auto simp: fail_def bind_Inr split: if_splits)

text \<open>
  C20: With a verifier, a recorded deposit credits exactly the amount of the verified chain event: the
  event belongs to the submitted hash and to the contract of the vault, was emitted for the caller,
  and the request's own amount does not enter. Nothing is spent from the operator account.
\<close>

theorem deposit_credits_verified_event:
  assumes run: "RecordDeposit gen dec s inp w = (Inr v, w')" and ver: "chainVerifier s = Some ver"
  shows "\<exists>v0 ev. List.find (hit (dVaultID inp)) (vaults (tables (data w))) = Some v0
    \<and> ver (wall w) (trim_space (dTxHash inp)) (ContractAddress v0) ''deposit'' = Inr ev \<and> 0 < evAmount ev
    \<and> (trim_space (dWalletAddress inp) = '''' \<or> evAccount ev = '''' \<or> EqualFold (trim_space (dWalletAddress inp)) (evAccount ev))
    \<and> vID v = dVaultID inp \<and> CurrentBalance v = numeric 8 (CurrentBalance v0 + evAmount ev)
    \<and> chainLog (data w') = chainLog (data w) \<and> spent (data w') = spent (data w)"
  using run
proof (rule RecordDeposit_Inr)
  fix w1 ex w2 w3 x w4
  assume e: "ensureMoneyPathAllowed s OperationDeposit w = (Inr (), w1)" and g: "on_tables (pgGetVault (dVaultID inp)) w1 = (Inr ex, w2)"
    and o: "(if trim_space (dTxHash inp) = '''' then operatorDeposit s dec (dVaultID inp) (ContractAddress ex) (decimal_value (dAmount inp)) else ret ()) w2 = (Inr (), w3)"
    and a: "(case chainVerifier s of None \<Rightarrow> ret (decimal_value (dAmount inp))
       | Some ver \<Rightarrow> verifiedAmount ver (trim_space (dTxHash inp)) (ContractAddress ex) ''deposit'' (dWalletAddress inp)) w3 = (Inr x, w4)"
    and c: "creditDeposit gen dec inp ex (trim_space (dTxHash inp)) x w4 = (Inr v, w')"
  obtain v0 as where v0: "List.find (hit (dVaultID inp)) (vaults (tables (data w1))) = Some v0" "ex = v0 \<lparr> Allocations := as \<rparr>"
      "fields_kept w1 w2" "wall w2 = wall w1"
    using getVault_Inr [OF g] by metis
  obtain ev where ev: "trim_space (dTxHash inp) \<noteq> ''''" "ver (wall w3) (trim_space (dTxHash inp)) (ContractAddress ex) ''deposit'' = Inr ev"
      "x = evAmount ev" "0 < x" "w4 = w3"
      "trim_space (dWalletAddress inp) = '''' \<or> evAccount ev = '''' \<or> EqualFold (trim_space (dWalletAddress inp)) (evAccount ev)"
    using verifiedAmount_Inr [OF a [unfolded ver option.case]] by metis
  have w3: "w3 = w2" using o ev(1) by (simp add: ret_Inr)
  note f = ensure_frame [OF e, unfolded fields_kept_def] v0(3) [unfolded fields_kept_def]
  have "List.find (hit (dVaultID inp)) (vaults (tables (data w4))) = Some v0" using v0(1) f by (simp add: ev(5) w3)
  from credited [OF c this] show ?thesis using v0 ev f by (intro exI [of _ v0] exI [of _ ev]) (simp add: w3)
qed

section \<open>Histories of service calls\<close>

datatype svc_call =
    CallCreate create_vault_input | CallDeposit deposit_input | CallWithdraw withdrawal_input
  | CallHarvest harvest_vault_input | CallRebalance rebalance_position_input
  | CallAllocations uuid "alloc_input list" | CallUpdate uuid string string | CallFrequency uuid uuid string
  | CallClose uuid bool | CallPause uuid | CallUnpause uuid | CallDelete uuid | CallEmergency uuid | CallPrice uuid

fun run_call :: "(nat \<Rightarrow> uuid) \<Rightarrow> decimal_ops \<Rightarrow> vault_service \<Rightarrow> svc_call \<Rightarrow> svc_state dbw \<Rightarrow> svc_state dbw" where
  "run_call gen dec s (CallCreate inp) w = snd (CreateVault gen inp w)"
| "run_call gen dec s (CallDeposit inp) w = snd (RecordDeposit gen dec s inp w)"
| "run_call gen dec s (CallWithdraw inp) w = snd (RecordWithdrawal gen dec s inp w)"
| "run_call gen dec s (CallHarvest inp) w = snd (HarvestVault gen dec s inp w)"
| "run_call gen dec s (CallRebalance inp) w = snd (RebalancePosition gen dec s inp w)"
| "run_call gen dec s (CallAllocations i as) w = snd (UpdateAllocations gen i as w)"
| "run_call gen dec s (CallUpdate i a st) w = snd (UpdateVault i a st w)"
| "run_call gen dec s (CallFrequency i u f) w = snd (UpdateHarvestFrequency i u f w)"
| "run_call gen dec s (CallClose i f) w = snd (CloseVault i f w)"
| "run_call gen dec s (CallPause i) w = snd (PauseVault i w)"
| "run_call gen dec s (CallUnpause i) w = snd (UnpauseVault i w)"
| "run_call gen dec s (CallDelete i) w = snd (DeleteVault i w)"
| "run_call gen dec s (CallEmergency i) w = snd (EmergencyWithdraw s i w)"
| "run_call gen dec s (CallPrice i) w = snd (GetSharePrice dec i w)"

text \<open>
  One call after the other, with confirmations by the worker, switches flipped by operators, the
  clock, identifiers drawn elsewhere and faults in between.
\<close>

inductive sstep :: "(nat \<Rightarrow> uuid) \<Rightarrow> decimal_ops \<Rightarrow> vault_service \<Rightarrow> svc_state dbw \<Rightarrow> svc_state dbw \<Rightarrow> bool" for gen dec s where
  Call: "sstep gen dec s w (run_call gen dec s c w)"
| Confirm: "on_tables (applyConfirmedBalanceChange gen dec i x h ty) w = (r, w') \<Longrightarrow> sstep gen dec s w w'"
| Around: "data w' = (data w) \<lparr> switches := d \<rparr> \<Longrightarrow> drawn w \<le> drawn w' \<Longrightarrow> sstep gen dec s w w'"

text \<open>Invariants of single parts of the state pass through the programs on the other parts.\<close>

lemma always_local: "(\<And>d. I d \<Longrightarrow> I (f d)) \<Longrightarrow> always I (local f)"
  and always_peek [simp]: "always I (peek g)"
  by (auto simp: always_def local_def peek_def)

lemma always_tables: "(\<And>d t. I d \<Longrightarrow> I (d \<lparr> tables := t \<rparr>)) \<Longrightarrow> always I (on_tables m)"
  and always_on_tables: "always J n \<Longrightarrow> always (\<lambda>d. J (tables d)) (on_tables n)"
  and always_switches: "(\<And>d t. I d \<Longrightarrow> I (d \<lparr> switches := t \<rparr>)) \<Longrightarrow> always I (on_switches m')"
  unfolding always_def on_tables_def on_switches_def zoom_def by (auto split: prod.splits) (metis dbw.select_convs(1) snd_conv)

lemma always_option: "always I m \<Longrightarrow> (\<And>a. always I (f a)) \<Longrightarrow> always I (case x of None \<Rightarrow> m | Some a \<Rightarrow> f a)"
  and always_sum: "(\<And>a. always I (g a)) \<Longrightarrow> (\<And>a. always I (h a)) \<Longrightarrow> always I (case y of Inl a \<Rightarrow> g a | Inr a \<Rightarrow> h a)"
  and always_prod: "(\<And>a b. always I (k a b)) \<Longrightarrow> always I (case z of (a, b) \<Rightarrow> k a b)"
  and always_list: "always I n \<Longrightarrow> (\<And>a as. always I (l a as)) \<Longrightarrow> always I (case xs of [] \<Rightarrow> n | a # as \<Rightarrow> l a as)"
  and always_bool: "always I m1 \<Longrightarrow> always I m2 \<Longrightarrow> always I (case t of True \<Rightarrow> m1 | False \<Rightarrow> m2)"
  by (cases x, auto) (cases y, auto, cases z, auto, cases xs, auto, cases t, auto)

lemmas svc_rules = always_bind always_ret always_fail always_uuid always_now always_peek always_if always_option always_sum always_prod always_list always_bool

lemma always_invoke: "(\<And>d. I d \<Longrightarrow> I (d \<lparr> chainLog := chainLog d @ [c] \<rparr>)) \<Longrightarrow> always I (invoke f c)"
  unfolding invoke_def by (intro svc_rules always_local)

text \<open>
  The deposits the operator account was asked for, in order. Every program but
  \<^const>\<open>operatorDeposit\<close> leaves them alone.
\<close>

fun is_deposit :: "chain_call \<Rightarrow> bool" where
  "is_deposit (DepositCall addr n) \<longleftrightarrow> True"
| "is_deposit _ \<longleftrightarrow> False"

definition asked :: "chain_call list \<Rightarrow> svc_state \<Rightarrow> bool" where
  "asked L d \<longleftrightarrow> filter is_deposit (chainLog d) = L"

lemma asked_frame:
  "asked L d \<Longrightarrow> asked L (d \<lparr> tables := t \<rparr>)" "asked L d \<Longrightarrow> asked L (d \<lparr> switches := t' \<rparr>)"
  "asked L d \<Longrightarrow> asked L (d \<lparr> spent := x \<rparr>)" "asked L d \<Longrightarrow> asked L (d \<lparr> goalCredits := y \<rparr>)"
  "asked L d \<Longrightarrow> asked L (d \<lparr> yieldRecords := z \<rparr>)" "asked L d \<Longrightarrow> asked L (d \<lparr> priceCache := q \<rparr>)"
  "asked L d \<Longrightarrow> \<not> is_deposit c \<Longrightarrow> asked L (d \<lparr> chainLog := chainLog d @ [c] \<rparr>)"
  by (auto simp: asked_def)

lemma other_calls_asked:
  "always (asked L) (invoke f (WithdrawCall a n k))" "always (asked L) (invoke g (HarvestCall a b c))"
  "always (asked L) (invoke h (EmergencyCall a))" "always (asked L) (on_tables m)" "always (asked L) (ensureMoneyPathAllowed s' op)"
  by (rule always_invoke, auto intro: asked_frame)+
    (auto simp: ensureMoneyPathAllowed_def intro!: always_tables always_if always_switches intro: asked_frame)

lemmas asked_rules = svc_rules other_calls_asked always_local asked_frame

lemma asked_allocations: "always (asked L) (normalizeAllocations gen i now as)"
  by (induction as) (auto intro!: svc_rules split: prod.splits)

lemma helpers_asked:
  "always (asked L) (sharesFor dec' x y)" "always (asked L) (verifiedAmount ver h a k w)" "always (asked L) (linkedGoal s' i)"
  "always (asked L) (submitWithdrawal dec' s' inp ex)" "always (asked L) (withdrawnAmount s' inp ex h)"
  "always (asked L) (creditDeposit gen dec' dinp ex h x)" "always (asked L) (debitWithdrawal gen dec' inp ex h y x)"
  unfolding sharesFor_def verifiedAmount_def verify_def linkedGoal_def submitWithdrawal_def resolveWithdrawalShares_def withdrawnAmount_def
    creditDeposit_def debitWithdrawal_def Let_def
  by (intro asked_rules)+

lemma other_calls_keep_asked:
  assumes "\<forall>inp. c \<noteq> CallDeposit inp" and "asked L (data w)"
  shows "asked L (data (run_call gen dec s c w))"
proof -
  have "always (asked L) (CreateVault gen i1)"
    "always (asked L) (RecordWithdrawal gen dec s i3)" "always (asked L) (HarvestVault gen dec s i4)"
    "always (asked L) (RebalancePosition gen dec s i5)" "always (asked L) (UpdateAllocations gen v as)"
    "always (asked L) (UpdateVault v a st)" "always (asked L) (UpdateHarvestFrequency v u f)"
    "always (asked L) (CloseVault v b)" "always (asked L) (PauseVault v)" "always (asked L) (UnpauseVault v)"
    "always (asked L) (DeleteVault v)" "always (asked L) (EmergencyWithdraw s v)" "always (asked L) (GetSharePrice dec v)"
    for i1 i3 i4 i5 v as a st u f b
    unfolding CreateVault_def RecordWithdrawal_def HarvestVault_def RebalancePosition_def UpdateAllocations_def UpdateVault_def
      UpdateHarvestFrequency_def CloseVault_def PauseVault_def UnpauseVault_def DeleteVault_def EmergencyWithdraw_def GetSharePrice_def Let_def
    by (intro asked_rules helpers_asked asked_allocations; simp add: asked_def)+
  then show ?thesis using assms by (cases c) (simp_all add: always_def)
qed

text \<open>The operator account is asked for exactly the authorised amount, or not at all.\<close>

definition authorised :: "vault_service \<Rightarrow> deposit_policy \<Rightarrow> uuid \<Rightarrow> rat \<Rightarrow> bool" where
  "authorised s p i x \<longleftrightarrow> operatorFundedDeposits s = Some p \<and> enabled p \<and> i \<in> set (allowedVaults p) \<and> x \<le> maxAmount p"

lemma Authorize_Inr:
  assumes "Authorize pol i x w = (Inr u, w')"
  shows "\<exists>p. pol = Some p \<and> enabled p \<and> i \<in> set (allowedVaults p) \<and> x \<le> maxAmount p"
  using assms by (auto simp: Authorize_def fail_def split: option.splits if_splits)

lemma Authorize_asked: "always (asked L) (Authorize pol i x)"
  unfolding Authorize_def by (intro svc_rules always_local asked_frame)

lemma operatorDeposit_asked:
  assumes "operatorDeposit s dec i addr x w = (r, w')" and "asked L (data w)"
  shows "asked L (data w') \<or> (\<exists>p. authorised s p i x \<and> asked (L @ [DepositCall addr (stroopsOf dec x)]) (data w'))"
proof (cases "depositInvoker s")
  case None
  then show ?thesis using assms by (simp add: operatorDeposit_def ret_def)
next
  case (Some chn)
  obtain a w1 where a: "Authorize (operatorFundedDeposits s) i x w = (a, w1)" by fastforce
  have l: "asked L (data w1)" by (rule alwaysD [OF Authorize_asked assms(2) a])
  show ?thesis
  proof (cases a)
    case (Inl e)
    then show ?thesis using assms(1) a l by (simp add: operatorDeposit_def Some bind_def)
  next
    case (Inr u)
    then obtain p where "authorised s p i x" using Authorize_Inr a by (metis authorised_def)
    moreover have "asked (L @ [DepositCall addr (stroopsOf dec x)]) (data w')"
      using assms(1) a Inr l
      by (auto simp: operatorDeposit_def Some bind_def invoke_def peek_def local_def ret_def fail_def asked_def Let_def split: option.splits)
    ultimately show ?thesis by blast
  qed
qed

definition funded_call :: "decimal_ops \<Rightarrow> vault_service \<Rightarrow> deposit_input \<Rightarrow> svc_state dbw \<Rightarrow> deposit_policy \<Rightarrow> vault \<Rightarrow> bool" where
  "funded_call dec s inp u p v \<longleftrightarrow> authorised s p (dVaultID inp) (decimal_value (dAmount inp)) \<and> 0 < decimal_value (dAmount inp)
     \<and> trim_space (dTxHash inp) = '''' \<and> List.find (hit (dVaultID inp)) (vaults (tables (data u))) = Some v"

lemma RecordDeposit_asked:
  assumes "asked L (data w)"
  shows "asked L (data (snd (RecordDeposit gen dec s inp w)))
    \<or> (\<exists>p v. funded_call dec s inp w p v
        \<and> asked (L @ [DepositCall (ContractAddress v) (stroopsOf dec (decimal_value (dAmount inp)))]) (data (snd (RecordDeposit gen dec s inp w))))"
proof -
  let ?x = "decimal_value (dAmount inp)" and ?h = "trim_space (dTxHash inp)"
  obtain r0 w1 where e: "ensureMoneyPathAllowed s OperationDeposit w = (r0, w1)" by fastforce
  obtain r1 w2 where g: "on_tables (pgGetVault (dVaultID inp)) w1 = (r1, w2)" by fastforce
  have l1: "asked L (data w1)" by (rule alwaysD [OF other_calls_asked(5) assms e])
  have l2: "asked L (data w2)" by (rule alwaysD [OF other_calls_asked(4) l1 g])
  let ?ok = "(\<exists>u. r0 = Inr u) \<and> dVaultID inp \<noteq> uuid_nil \<and> 0 < ?x \<and> decimalScale (dAmount inp) \<le> MaxAmountScale
      \<and> (\<exists>ex. r1 = Inr ex) \<and> (?h \<noteq> '''' \<longrightarrow> chainVerifier s \<noteq> None)"
  show ?thesis
  proof (cases ?ok)
    case False
    then have "snd (RecordDeposit gen dec s inp w) \<in> {w1, w2}"
      using e g by (auto simp: RecordDeposit_def bind_def fail_def Let_def split: sum.splits)
    then show ?thesis using l1 l2 by auto
  next
    case True
    then obtain u ex where ok: "r0 = Inr u" "r1 = Inr ex" "0 < ?x" by blast
    define rest where "rest = (\<lambda>_ :: unit. bind (case chainVerifier s of None \<Rightarrow> ret ?x
        | Some ver \<Rightarrow> verifiedAmount ver ?h (ContractAddress ex) ''deposit'' (dWalletAddress inp)) (\<lambda>amount. creditDeposit gen dec inp ex ?h amount))"
    have rest: "always (asked M) (rest a)" for M a
      unfolding rest_def by (intro asked_rules helpers_asked)
    obtain r3 w3 where op: "(if ?h = '''' then operatorDeposit s dec (dVaultID inp) (ContractAddress ex) ?x else ret ()) w2 = (r3, w3)" by fastforce
    have fin: "snd (RecordDeposit gen dec s inp w) = (case r3 of Inl _ \<Rightarrow> w3 | Inr a \<Rightarrow> snd (rest a w3))"
      using True e g ok op unfolding RecordDeposit_def rest_def bind_def Let_def by (auto split: sum.splits prod.splits)
    have keep: "asked M (data (snd (RecordDeposit gen dec s inp w)))" if "asked M (data w3)" for M
      using that rest unfolding fin always_def by (auto split: sum.splits)
    show ?thesis
    proof (cases "?h = ''''")
      case False
      then have "asked L (data w3)" using op l2 by (simp add: ret_def)
      then show ?thesis using keep by blast
    next
      case True
      obtain v as where v: "List.find (hit (dVaultID inp)) (vaults (tables (data w1))) = Some v" "ex = v \<lparr> Allocations := as \<rparr>"
        using getVault_Inr [OF g [unfolded ok(2)]] by metis
      have "tables (data w1) = tables (data w)" using ensure_frame [OF e] by (simp add: fields_kept_def)
      then show ?thesis
        using operatorDeposit_asked [OF op [unfolded True, simplified] l2] keep True ok(3) v by (auto simp: funded_call_def)
    qed
  qed
qed

text \<open>
  What the code relies on from the decimal library: \<^verbatim>\<open>Round(0)\<close> yields a nearest integer and
  \<^verbatim>\<open>IntPart\<close> of an integer that fits 64 bits is that integer.
\<close>

definition rounds_to_nearest :: "decimal_ops \<Rightarrow> bool" where
  "rounds_to_nearest dec \<longleftrightarrow> (\<forall>x. \<exists>k. Round0 dec x = of_int k \<and> \<bar>of_int k - x\<bar> \<le> 1 / 2)
     \<and> (\<forall>k. in_int64 k \<longrightarrow> IntPart dec (of_int k) = k)"

lemma stroops_bounded:
  assumes "rounds_to_nearest dec" and "0 < x" and "x \<le> m" and "m * 10 ^ 7 < 2 ^ 62"
  shows "0 \<le> stroopsOf dec x" and "of_int (stroopsOf dec x) \<le> m * 10 ^ 7 + 1 / 2"
proof -
  obtain k where k: "Round0 dec (x * 10000000) = of_int k" "\<bar>of_int k - x * 10000000\<bar> \<le> 1 / 2"
    using assms(1) unfolding rounds_to_nearest_def by blast
  have kx: "of_int k - x * 10000000 \<le> 1 / 2" "x * 10000000 - of_int k \<le> 1 / 2" using k(2) by linarith+
  have "x * 10000000 \<le> m * 10000000" using assms(3) by simp
  with kx assms(2) have b: "of_int k \<le> m * 10 ^ 7 + 1 / 2" "- (1 / 2) < (of_int k :: rat)" by simp_all
  then have "(of_int k :: rat) < of_int (2 ^ 63)" "(of_int (- 1) :: rat) < of_int k" using assms(4) by auto
  then have k2: "0 \<le> k" "k < 2 ^ 63" unfolding of_int_less_iff by simp_all
  then have "IntPart dec (of_int k) = k"
    using assms(1) unfolding rounds_to_nearest_def by (simp add: in_int64_def int64_min_def int64_max_def)
  then show "0 \<le> stroopsOf dec x" and "of_int (stroopsOf dec x) \<le> m * 10 ^ 7 + 1 / 2"
    using k(1) k2(1) b(1) by (simp_all add: stroopsOf_def)
qed

lemma asked_step:
  assumes "sstep gen dec s y z" and "DepositCall addr n \<in> set (chainLog (data z))"
  shows "DepositCall addr n \<in> set (chainLog (data y)) \<or> (\<exists>inp p v. z = run_call gen dec s (CallDeposit inp) y
    \<and> funded_call dec s inp y p v \<and> addr = ContractAddress v \<and> n = stroopsOf dec (decimal_value (dAmount inp)))"
proof -
  let ?L = "filter is_deposit (chainLog (data y))"
  have y: "asked ?L (data y)" by (simp add: asked_def)
  have z: "DepositCall addr n \<in> set (filter is_deposit (chainLog (data z)))" using assms(2) by simp
  have old: ?thesis if "asked ?L (data z)"
  proof -
    have "DepositCall addr n \<in> set ?L" using z that unfolding asked_def by (simp only:)
    then show ?thesis by simp
  qed
  from assms(1) show ?thesis
  proof (cases rule: sstep.cases)
    case (Call c)
    show ?thesis
    proof (cases "\<exists>inp. c = CallDeposit inp")
      case False
      then show ?thesis using other_calls_keep_asked [OF _ y] old Call by blast
    next
      case True
      then obtain inp where c: "z = run_call gen dec s (CallDeposit inp) y" using Call by blast
      from RecordDeposit_asked [OF y, of gen dec s inp] show ?thesis
      proof (elim disjE exE conjE)
        fix p v assume f: "funded_call dec s inp y p v"
          and "asked (?L @ [DepositCall (ContractAddress v) (stroopsOf dec (decimal_value (dAmount inp)))]) (data (snd (RecordDeposit gen dec s inp y)))"
        then have l: "filter is_deposit (chainLog (data z)) = ?L @ [DepositCall (ContractAddress v) (stroopsOf dec (decimal_value (dAmount inp)))]"
          by (simp add: asked_def c)
        show ?thesis using z f c unfolding l by auto
      qed (use old c in simp)
    qed
  next
    case (Confirm i x h ty r)
    then show ?thesis using old alwaysD [OF other_calls_asked(4) y] by blast
  next
    case (Around d)
    then show ?thesis using old asked_frame(2) [OF y] by simp
  qed
qed


section \<open>The life of a vault\<close>

definition closed :: "uuid \<Rightarrow> vault_db \<Rightarrow> bool" where
  "closed i d \<longleftrightarrow> i \<in> vID ` set (vaults d) \<and> (\<forall>v \<in> set (vaults d). vID v = i \<longrightarrow> vStatus v = StatusClosed)"

lemma closed_update:
  assumes "\<And>v. vID (f v) = vID v" and "j = i \<Longrightarrow> (\<And>v. vStatus v = StatusClosed \<Longrightarrow> vStatus (f v) = StatusClosed)"
  shows "always (closed i) (stmt (updateVaultRow j f))"
proof (rule always_stmt)
  fix d n d' assume c: "closed i d" and "updateVaultRow j f d = Inr (n, d')"
  then have vs: "vaults d' = map (\<lambda>v. if hit j v then store_vault (f v) else v) (vaults d)"
    using updateVaultRow_rewritten by (simp add: rewritten_def)
  have "vID (if hit j v then store_vault (f v) else v) = vID v" for v using assms(1) by (simp add: store_vault_def)
  then have "map vID (vaults d') = map vID (vaults d)" unfolding vs map_map o_def by simp
  then have "vID ` set (vaults d') = vID ` set (vaults d)" by (metis set_map)
  moreover have "vStatus v = StatusClosed" if m: "v \<in> set (vaults d')" and e: "vID v = i" for v
  proof -
    obtain v0 where v0: "v0 \<in> set (vaults d)" "v = (if hit j v0 then store_vault (f v0) else v0)"
      using m unfolding vs set_map by blast
    moreover from this have "vStatus v0 = StatusClosed" using c e assms(1) by (auto simp: closed_def store_vault_def split: if_splits)
    ultimately show ?thesis using assms e by (auto simp: store_vault_def hit_def split: if_splits)
  qed
  ultimately show "closed i d'" using c by (simp add: closed_def)
qed

lemma closed_updateOne:
  assumes "\<And>now v. vID (f now v) = vID v" and "j = i \<Longrightarrow> (\<And>now v. vStatus v = StatusClosed \<Longrightarrow> vStatus (f now v) = StatusClosed)"
  shows "always (closed i) (updateOne j f)"
  unfolding updateOne_def by (intro svc_rules closed_update assms)

lemma closed_same: "vaults d' = vaults d \<Longrightarrow> closed i d \<Longrightarrow> closed i d'"
  by (simp add: closed_def)

lemma closed_kept: "(\<And>w r w'. m w = (r, w') \<Longrightarrow> vaults (data w') = vaults (data w)) \<Longrightarrow> always (closed i) m"
  unfolding always_def by (metis closed_same prod.collapse)

lemma always_dropped: "always I m \<Longrightarrow> always I (dropped m)"
  unfolding always_def dropped_def by (fastforce split: prod.splits sum.splits)

lemma closed_statements:
  "always (closed i) (insertTxnStrict t)" "always (closed i) (stmt (insertTxn t))" "always (closed i) (on_books m)"
  by (rule closed_kept, erule vaults_kept)+

lemma row_status:
  "vID (credit x now v) = vID v" "vID (debit x now v) = vID v" "vID (harvest_row h now v) = vID v"
  "vStatus (credit x now v) = vStatus v" "vStatus (debit x now v) = vStatus v" "vStatus (harvest_row h now v) = vStatus v"
  by (simp_all add: credit_def debit_def harvest_row_def Let_def)

lemma closed_transaction: "always (closed i) m \<Longrightarrow> always (closed i) (transaction m)"
  by (rule transaction_always [OF always_hoare])

lemmas closed_rules = svc_rules always_query closed_transaction closed_statements always_dropped closed_updateOne closed_update

lemma closed_repository:
  "always (closed i) (pgRecordDeposit gen dec j rec)" "always (closed i) (pgRecordWithdrawal gen dec j rec)" "always (closed i) (pgRecordHarvest gen dec inp)"
  "always (closed i) (applyConfirmedBalanceChange gen dec j x h ty)" "always (closed i) (pgRecordRebalance gen dec b wd dp)"
  "always (closed i) (pgUpdateHarvestFrequency j freq)" "always (closed i) (pgSoftDeleteVault j)"
  unfolding pgRecordDeposit_def pgRecordWithdrawal_def pgRecordHarvest_def applyConfirmedBalanceChange_def pgRecordRebalance_def
    pgUpdateHarvestFrequency_def pgSoftDeleteVault_def Let_def
  by (intro closed_rules; simp add: row_status)+

lemma closed_create: "always (closed i) (pgCreateVault m)"
  unfolding pgCreateVault_def Let_def
  by (intro svc_rules always_stmt) (auto simp: closed_def store_vault_def split: if_splits)

lemma closed_replace: "always (closed i) (pgReplaceAllocations j as)"
proof -
  have "always (closed i) (stmt (insertAllocation j a))" for a
    by (rule closed_kept) (auto simp: stmt_def insertAllocation_def Let_def split: if_splits sum.splits)
  then have ins: "always (closed i) (insertAllocations j as)" by (induction as) (auto intro: svc_rules)
  have touch: "vID (if vID v = j then v \<lparr> vUpdatedAt := now \<rparr> else v) = vID v" "vStatus (if vID v = j then v \<lparr> vUpdatedAt := now \<rparr> else v) = vStatus v" for v now
    by simp_all
  have upd: "always (closed i) (stmt (\<lambda>d. Inr ((), d \<lparr> vaults := map (\<lambda>v. if vID v = j then v \<lparr> vUpdatedAt := now \<rparr> else v) (vaults d) \<rparr>)))" for now
  proof (rule always_stmt)
    fix d a d' assume c: "closed i d" and "(Inr ((), d \<lparr> vaults := map (\<lambda>v. if vID v = j then v \<lparr> vUpdatedAt := now \<rparr> else v) (vaults d) \<rparr>) :: 'e db_error + _) = Inr (a, d')"
    then have vs: "vaults d' = map (\<lambda>v. if vID v = j then v \<lparr> vUpdatedAt := now \<rparr> else v) (vaults d)" by auto
    have "map vID (vaults d') = map vID (vaults d)" unfolding vs map_map o_def touch ..
    then have "vID ` set (vaults d') = vID ` set (vaults d)" by (metis set_map)
    with c show "closed i d'" unfolding closed_def by (auto simp only: vs set_map ball_simps touch)
  qed
  have "always (closed i) (stmt (\<lambda>d. Inr ((), d \<lparr> allocs := filter (\<lambda>a. alVaultID a \<noteq> j) (allocs d) \<rparr>)))"
    by (rule closed_kept) (auto simp: stmt_def Let_def split: if_splits)
  note del = this
  show ?thesis
    unfolding pgReplaceAllocations_def ensureVaultExists_def by (intro ins upd del svc_rules always_query closed_transaction)
qed

definition shut :: "uuid \<Rightarrow> svc_state \<Rightarrow> bool" where
  "shut i d \<longleftrightarrow> closed i (tables d)"

lemma shut_tables: "always (closed i) m \<Longrightarrow> always (shut i) (on_tables m)"
  using always_on_tables [of "closed i" m] by (simp add: shut_def [abs_def])

lemma shut_memory:
  "always (shut i) (on_switches m)" "always (shut i) (invoke f c)" "(\<And>d. tables (g d) = tables d) \<Longrightarrow> always (shut i) (local g)"
  "always (shut i) (ensureMoneyPathAllowed s op)" "always (shut i) (Authorize pol v x)"
  unfolding ensureMoneyPathAllowed_def Authorize_def
  by (auto intro!: always_switches always_invoke always_local svc_rules simp: shut_def)

lemma shut_getVault:
  assumes "\<And>ex. (j = i \<Longrightarrow> vStatus ex = StatusClosed) \<Longrightarrow> always (shut i) (f ex)"
  shows "always (shut i) (bind (on_tables (pgGetVault j)) f)"
  unfolding always_def
proof (intro allI impI)
  fix w :: "svc_state dbw" assume c: "shut i (data w)"
  obtain r w1 where g: "on_tables (pgGetVault j) w = (r, w1)" by fastforce
  have "always (closed i) (pgGetVault j)" unfolding pgGetVault_def by (intro closed_rules)
  then have c1: "shut i (data w1)" using alwaysD [OF shut_tables c g] by blast
  show "shut i (data (snd (bind (on_tables (pgGetVault j)) f w)))"
  proof (cases r)
    case (Inr ex)
    obtain v0 as where v0: "List.find (hit j) (vaults (tables (data w))) = Some v0" "ex = v0 \<lparr> Allocations := as \<rparr>"
      using getVault_Inr [OF g [unfolded Inr]] by metis
    have "vStatus ex = StatusClosed" if "j = i"
      using c that v0 find_Some_iff_mem [OF v0(1)] by (auto simp: shut_def closed_def hit_def)
    from assms [OF this] show ?thesis using c1 g by (simp add: bind_def Inr always_def)
  qed (use g c1 in \<open>simp add: bind_def\<close>)
qed

lemma shut_pgUpdateVault: "(j = i \<Longrightarrow> st = StatusClosed) \<Longrightarrow> always (shut i) (on_tables (pgUpdateVault j addr st))"
  unfolding pgUpdateVault_def by (intro shut_tables closed_updateOne) auto

lemma shut_plain_getVault: "always (shut i) (on_tables (pgGetVault j))"
  unfolding pgGetVault_def by (intro shut_tables closed_rules)

lemma shut_operatorDeposit: "always (shut i) (operatorDeposit s dec j addr x)"
  unfolding operatorDeposit_def Let_def by (intro svc_rules shut_memory)

lemmas shut_rules = shut_plain_getVault svc_rules shut_memory shut_operatorDeposit shut_tables closed_repository closed_create closed_replace

lemma shut_helpers:
  "always (shut i) (sharesFor dec x y)" "always (shut i) (verifiedAmount ver h a k w)" "always (shut i) (linkedGoal s j)"
  "always (shut i) (submitWithdrawal dec s inp ex)" "always (shut i) (withdrawnAmount s inp ex h)" "always (shut i) (normalizeAllocations gen j now as)"
  "always (shut i) (creditDeposit gen dec dinp ex h x)" "always (shut i) (debitWithdrawal gen dec inp ex h y x)"
proof -
  show "always (shut i) (normalizeAllocations gen j now as)" by (induction as) (auto intro!: svc_rules split: prod.splits)
qed (unfold sharesFor_def verifiedAmount_def verify_def linkedGoal_def submitWithdrawal_def resolveWithdrawalShares_def withdrawnAmount_def
    creditDeposit_def debitWithdrawal_def Let_def, (intro shut_rules)+)

lemma status_changes_shut:
  "always (shut i) (UpdateVault j a st)" "always (shut i) (CloseVault j b)" "always (shut i) (PauseVault j)" "always (shut i) (UnpauseVault j)"
proof -
  show "always (shut i) (UpdateVault j a st)"
    unfolding UpdateVault_def Let_def
    by (intro always_if always_fail shut_getVault) (auto intro!: svc_rules shut_plain_getVault shut_pgUpdateVault split: sum.splits if_splits)
qed (unfold CloseVault_def PauseVault_def UnpauseVault_def,
    (intro always_if always_fail shut_getVault always_bind shut_plain_getVault shut_pgUpdateVault; simp)+)

lemma calls_shut: "shut i (data w) \<Longrightarrow> shut i (data (run_call gen dec s c w))"
proof -
  have "always (shut i) (CreateVault gen i1)" "always (shut i) (RecordDeposit gen dec s i2)"
    "always (shut i) (RecordWithdrawal gen dec s i3)" "always (shut i) (HarvestVault gen dec s i4)"
    "always (shut i) (RebalancePosition gen dec s i5)" "always (shut i) (UpdateAllocations gen v as)" "always (shut i) (UpdateHarvestFrequency v u f)"
    "always (shut i) (DeleteVault v)" "always (shut i) (EmergencyWithdraw s v)" "always (shut i) (GetSharePrice dec v)"
    for i1 i2 i3 i4 i5 v as u f
    unfolding CreateVault_def RecordDeposit_def RecordWithdrawal_def HarvestVault_def RebalancePosition_def UpdateAllocations_def
      UpdateHarvestFrequency_def DeleteVault_def EmergencyWithdraw_def GetSharePrice_def Let_def
    by (intro shut_helpers shut_rules; simp)+
  then show "shut i (data w) \<Longrightarrow> ?thesis" using status_changes_shut by (cases c) (simp_all add: always_def)
qed

text \<open>
  A closed vault stays closed: no sequence of service calls, confirmations and faults gives it
  another status.
\<close>

theorem closed_vault_stays_closed:
  assumes "(sstep gen dec s)\<^sup>*\<^sup>* w w'" and "closed i (tables (data w))"
  shows "closed i (tables (data w'))"
  using assms
proof (induction rule: rtranclp_induct)
  case (step u v)
  from step(2) step(3) [OF step(4)] show ?case
  proof (cases rule: sstep.cases)
    case (Call c)
    then show ?thesis using calls_shut [of i u] step(3) [OF step(4)] by (simp add: shut_def)
  next
    case (Confirm j x h ty r)
    then show ?thesis
      using alwaysD [OF shut_tables [OF closed_repository(4)]] step(3) [OF step(4)] unfolding shut_def by blast
  qed simp
qed simp

definition service0 :: vault_service where
  "service0 = \<lparr> depositInvoker = None, operatorFundedDeposits = None, chainVerifier = None, defaultHarvestCompound = True,
     yieldRecorder = None, goalYieldRouter = None, moneyPathSwitches = True \<rparr>"

definition svc_world :: "vault_db \<Rightarrow> svc_state dbw" where
  "svc_world d = \<lparr> data = \<lparr> tables = d, switches = data (fst switches0), chainLog = [], spent = [], goalCredits = [], yieldRecords = [], priceCache = [] \<rparr>,
     sched = [], drawn = 20, wall = 1000 \<rparr>"

definition deposit0 :: "string \<Rightarrow> deposit_input" where
  "deposit0 h = \<lparr> dVaultID = 1, dUserID = 0, dAmount = (15, - 1), dTxHash = h, dFee = 0, dWalletAddress = ''GA'' \<rparr>"

lemma one_call: "(sstep gen dec s)\<^sup>*\<^sup>* w (run_call gen dec s c w)"
  by (intro r_into_rtranclp sstep.Call)

theorem closed_vault_stays_closed_witness:
  "let w = run_call Suc dec1 service0 (CallClose 1 True) (svc_world (data funded))
   in closed 1 (tables (data w)) \<and> closed 1 (tables (data (run_call Suc dec1 service0 (CallUnpause 1) w)))"
proof -
  let ?w = "run_call Suc dec1 service0 (CallClose 1 True) (svc_world (data funded))"
  have c: "closed 1 (tables (data ?w))" by code_simp
  from closed_vault_stays_closed [OF one_call [where c = "CallUnpause 1"] c] c show ?thesis by (simp add: Let_def)
qed

definition chain0 :: invoker where
  "chain0 = \<lparr> DepositToVault = (\<lambda>_ _ _. None), WithdrawFromVault = (\<lambda>_ _ _ _. Inr ''tx''), invPreviewDeposit = (\<lambda>_ _ n. Inr n),
     invPreviewWithdraw = (\<lambda>_ _ n. Inr n), invHarvestVault = (\<lambda>_ _ _ _. Inr ''tx''), EmergencyWithdrawAll = (\<lambda>_ _. None) \<rparr>"

definition verifier0 :: verifier where
  "verifier0 now h addr kind = (if h = ''tx7'' \<and> addr = ''C1'' then Inr \<lparr> evAmount = 2, evAccount = ''ga'' \<rparr> else Inl ''not found'')"

theorem deposit_credits_verified_event_witness:
  "case RecordDeposit Suc dec1 (service0 \<lparr> chainVerifier := Some verifier0 \<rparr>) (deposit0 '' tx7'') (svc_world (data funded)) of
     (Inr v, w') \<Rightarrow> CurrentBalance v = 9 / 2 \<and> chainLog (data w') = [] | _ \<Rightarrow> False"
proof -
  let ?s = "service0 \<lparr> chainVerifier := Some verifier0 \<rparr>" and ?w = "svc_world (data funded)"
  obtain v w' where run: "RecordDeposit Suc dec1 ?s (deposit0 '' tx7'') ?w = (Inr v, w')"
  proof -
    have "case fst (RecordDeposit Suc dec1 ?s (deposit0 '' tx7'') ?w) of Inr _ \<Rightarrow> True | Inl _ \<Rightarrow> False" by code_simp
    then show thesis using that by (cases "RecordDeposit Suc dec1 ?s (deposit0 '' tx7'') ?w") (auto split: sum.splits)
  qed
  have "map_option CurrentBalance (List.find (hit (dVaultID (deposit0 '' tx7''))) (vaults (tables (data ?w)))) = Some (5 / 2)" by code_simp
  then have b: "CurrentBalance v0 = 5 / 2"
    if "List.find (hit (dVaultID (deposit0 '' tx7''))) (vaults (tables (data ?w))) = Some v0" for v0 using that by simp
  have n: "numeric 8 (5 / 2 + 2) = 9 / 2" by code_simp
  have "trim_space (dTxHash (deposit0 '' tx7'')) = ''tx7''" by code_simp
  then obtain v0 where "List.find (hit (dVaultID (deposit0 '' tx7''))) (vaults (tables (data ?w))) = Some v0"
    "CurrentBalance v = numeric 8 (CurrentBalance v0 + 2)" "chainLog (data w') = chainLog (data ?w)"
    using deposit_credits_verified_event [OF run, of verifier0] by (auto simp: verifier0_def split: if_splits)
  then have "CurrentBalance v = numeric 8 (5 / 2 + 2)" "chainLog (data w') = []" using b by (auto simp: svc_world_def)
  then show ?thesis using run n by simp
qed

lemma half_away_near: "\<bar>of_int (half_away x) - x\<bar> \<le> 1 / 2"
proof (cases "0 \<le> x")
  case True
  have "of_int \<lfloor>x + 1 / 2\<rfloor> \<le> x + 1 / 2" "x + 1 / 2 < of_int \<lfloor>x + 1 / 2\<rfloor> + 1" using floor_correct [of "x + 1 / 2"] by auto
  then have "\<bar>of_int \<lfloor>x + 1 / 2\<rfloor> - x\<bar> \<le> 1 / 2" by linarith
  then show ?thesis using True by (simp add: half_away_def)
next
  case False
  have "of_int \<lfloor>- x + 1 / 2\<rfloor> \<le> - x + 1 / 2" "- x + 1 / 2 < of_int \<lfloor>- x + 1 / 2\<rfloor> + 1" using floor_correct [of "- x + 1 / 2"] by auto
  then have "\<bar>- of_int \<lfloor>- x + 1 / 2\<rfloor> - x\<bar> \<le> 1 / 2" by linarith
  then show ?thesis using False by (simp add: half_away_def)
qed

lemma dec1_rounds: "rounds_to_nearest dec1"
  unfolding rounds_to_nearest_def
proof (intro conjI allI impI)
  show "\<exists>k. Round0 dec1 x = of_int k \<and> \<bar>of_int k - x\<bar> \<le> 1 / 2" for x
    using half_away_near [of x] by (auto simp: dec1_def numeric_def)
  show "IntPart dec1 (of_int k) = k" if "in_int64 k" for k
    using that by (simp add: dec1_def wrap64_id)
qed


end
