(* ===== verification/Vault_Guards.thy ===== *)
theory Vault_Guards
  imports Vault_Service
begin

text \<open>
  What the guards of the vault service ensure: a withdrawal takes out the verified amount and never
  more than the vault holds, a paused money path stops a request before it reaches the chain or the
  tables, and the cases in which the guards are not enough.
\<close>

section \<open>Withdrawals\<close>

lemma RecordWithdrawal_Inr:
  assumes "RecordWithdrawal gen dec s inp w = (Inr v, w')"
  obtains w1 ex w2 h sh w3 x w4 where "ensureMoneyPathAllowed s OperationWithdrawal w = (Inr (), w1)" "0 < decimal_value (wAmount inp)"
    "on_tables (pgGetVault (wVaultID inp)) w1 = (Inr ex, w2)" "vStatus ex \<noteq> StatusClosed" "decimal_value (wAmount inp) \<le> CurrentBalance ex"
    "submitWithdrawal dec s inp ex w2 = (Inr (h, sh), w3)" "withdrawnAmount s inp ex h w3 = (Inr x, w4)"
    "debitWithdrawal gen dec inp ex h sh x w4 = (Inr v, w')"
  using assms unfolding RecordWithdrawal_def bind_Inr by (auto simp: fail_def bind_Inr split: if_splits)

lemma debitWithdrawal_Inr:
  assumes "debitWithdrawal gen dec inp ex h sh x w = (Inr v, w')"
  obtains rec w1 where "rAmount rec = x" "rHash rec = h" "on_tables (pgRecordWithdrawal gen dec (wVaultID inp) rec) w = (Inr (), w1)"
    "on_tables (pgGetVault (wVaultID inp)) w1 = (Inr v, w')"
proof -
  from assms obtain shares w1 where r: "on_tables (pgRecordWithdrawal gen dec (wVaultID inp) \<lparr> rUserID = (if wUserID inp = uuid_nil then vUserID ex else wUserID inp),
      rAmount = x, rHash = h, rShares = shares, rPrice = ComputeSharePrice dec ex, rFee = wFee inp \<rparr>) w = (Inr (), w1)"
    and g: "on_tables (pgGetVault (wVaultID inp)) w1 = (Inr v, w')"
    by (auto simp: debitWithdrawal_def Let_def sharesFor_def bind_Inr fail_def ret_Inr split: if_splits)
  show thesis by (rule that [OF _ _ r g]) simp_all
qed

lemma debited:
  assumes "debitWithdrawal gen dec inp ex h sh x w = (Inr v, w')" and "List.find (hit (wVaultID inp)) (vaults (tables (data w))) = Some v0"
  shows "vID v = wVaultID inp \<and> CurrentBalance v = numeric 8 (CurrentBalance v0 - x) \<and> x \<le> CurrentBalance v0
    \<and> chainLog (data w') = chainLog (data w)"
proof -
  obtain rec w1 where rec: "rAmount rec = x" and r: "on_tables (pgRecordWithdrawal gen dec (wVaultID inp) rec) w = (Inr (), w1)"
    and g: "on_tables (pgGetVault (wVaultID inp)) w1 = (Inr v, w')"
    using debitWithdrawal_Inr [OF assms(1)] by metis
  obtain b where b: "pgRecordWithdrawal gen dec (wVaultID inp) rec (tables_of w) = (Inr (), b)" "tables (data w1) = data b"
      "chainLog (data w1) = chainLog (data w)"
    using on_tables_Inr [OF r] by metis
  obtain b' where b': "pgGetVault (wVaultID inp) (tables_of w1) = (Inr v, b')" "chainLog (data w') = chainLog (data w1)"
    using on_tables_Inr [OF g] by metis
  obtain now where "rewritten (wVaultID inp) (debit x now) (tables (data w)) (data b)"
    using pgRecordWithdrawal_row(1) [OF b(1)] by (auto simp: tables_of_def rec)
  from recorded_balance [OF this _ assms(2) b'(1)] pgRecordWithdrawal_row(2) [OF b(1)] assms(2) b b' rec
  show ?thesis by (simp add: debit_def tables_of_def)
qed

lemma submitWithdrawal_frame:
  assumes "submitWithdrawal dec s inp ex w = (Inr (h, sh), w')"
  shows "tables (data w') = tables (data w) \<and> wall w' = wall w \<and>
    (chainLog (data w') = chainLog (data w) \<and> h = trim_space (wTxHash inp) \<or>
     trim_space (wTxHash inp) = '''' \<and> (\<exists>n. 0 < n \<and> chainLog (data w') = chainLog (data w) @ [WithdrawCall (ContractAddress ex) n (SlippageBps inp)]))"
  using assms
  by (auto simp: submitWithdrawal_def resolveWithdrawalShares_def invoke_def bind_def peek_def local_def ret_def fail_def Let_def
      split: list.splits option.splits if_splits sum.splits prod.splits)

lemma withdrawnAmount_Inr:
  assumes "withdrawnAmount s inp ex h w = (Inr x, w')"
  shows "w' = w \<and> (case chainVerifier s of None \<Rightarrow> x = decimal_value (wAmount inp)
    | Some ver \<Rightarrow> \<exists>ev. ver (wall w) h (ContractAddress ex) ''withdraw'' = Inr ev \<and> x = evAmount ev \<and> 0 < x
        \<and> (trim_space (wWalletAddress inp) = '''' \<or> evAccount ev = '''' \<or> EqualFold (trim_space (wWalletAddress inp)) (evAccount ev)))"
proof (cases "chainVerifier s")
  case (Some ver)
  with assms obtain w1 where v: "verifiedAmount ver h (ContractAddress ex) ''withdraw'' (wWalletAddress inp) w = (Inr x, w1)" and "w' = w1"
    by (auto simp: withdrawnAmount_def bind_Inr fail_def ret_Inr split: if_splits)
  with verifiedAmount_Inr [OF v] show ?thesis unfolding Some option.case by metis
qed (use assms in \<open>simp add: withdrawnAmount_def ret_Inr\<close>)

text \<open>
  C21: A recorded withdrawal comes from a vault that is open, takes out no more than the vault holds,
  and leaves exactly the rest in it. With a verifier the amount is that of the chain event, emitted by
  the contract of the vault for the caller, and at most one withdrawal was submitted to the chain.
\<close>

theorem withdrawal_takes_verified_amount:
  assumes run: "RecordWithdrawal gen dec s inp w = (Inr v, w')"
  shows "\<exists>v0 h x. List.find (hit (wVaultID inp)) (vaults (tables (data w))) = Some v0 \<and> vStatus v0 \<noteq> StatusClosed
    \<and> vID v = wVaultID inp \<and> CurrentBalance v = numeric 8 (CurrentBalance v0 - x) \<and> 0 < x \<and> x \<le> CurrentBalance v0
    \<and> (case chainVerifier s of None \<Rightarrow> x = decimal_value (wAmount inp)
       | Some ver \<Rightarrow> \<exists>ev. ver (wall w) h (ContractAddress v0) ''withdraw'' = Inr ev \<and> x = evAmount ev
           \<and> (trim_space (wWalletAddress inp) = '''' \<or> evAccount ev = '''' \<or> EqualFold (trim_space (wWalletAddress inp)) (evAccount ev)))
    \<and> (chainLog (data w') = chainLog (data w) \<and> h = trim_space (wTxHash inp) \<or> trim_space (wTxHash inp) = ''''
       \<and> (\<exists>n. 0 < n \<and> chainLog (data w') = chainLog (data w) @ [WithdrawCall (ContractAddress v0) n (SlippageBps inp)]))"
  using run
proof (rule RecordWithdrawal_Inr)
  fix w1 ex w2 h sh w3 x w4
  assume e: "ensureMoneyPathAllowed s OperationWithdrawal w = (Inr (), w1)" and pos: "0 < decimal_value (wAmount inp)"
    and g: "on_tables (pgGetVault (wVaultID inp)) w1 = (Inr ex, w2)" and st: "vStatus ex \<noteq> StatusClosed"
    and m: "submitWithdrawal dec s inp ex w2 = (Inr (h, sh), w3)" and a: "withdrawnAmount s inp ex h w3 = (Inr x, w4)"
    and c: "debitWithdrawal gen dec inp ex h sh x w4 = (Inr v, w')"
  obtain v0 as where v0: "List.find (hit (wVaultID inp)) (vaults (tables (data w1))) = Some v0" "ex = v0 \<lparr> Allocations := as \<rparr>"
      "fields_kept w1 w2" "wall w2 = wall w1"
    using getVault_Inr [OF g] by metis
  note f = ensure_frame [OF e, unfolded fields_kept_def] v0(3) [unfolded fields_kept_def] submitWithdrawal_frame [OF m] withdrawnAmount_Inr [OF a]
  have "List.find (hit (wVaultID inp)) (vaults (tables (data w4))) = Some v0" using v0(1) f by simp
  note d = debited [OF c this]
  have "0 < x" using f pos by (auto split: option.splits)
  then show ?thesis
    using v0 st f d by (intro exI [of _ v0] exI [of _ h] exI [of _ x]) (auto split: option.splits)
qed

section \<open>Paused money paths\<close>

definition switches_of :: "svc_state dbw \<Rightarrow> switch_db dbw" where
  "switches_of w = \<lparr> data = switches (data w), sched = sched w, drawn = drawn w, wall = wall w \<rparr>"

lemma refused_bind:
  assumes "moneyPathSwitches s" and "refused op (switches_of w)"
  shows "\<exists>why w'. bind (ensureMoneyPathAllowed s op) k w = (Inl (App (ErrPaused why)), w') \<and> fields_kept w w'"
proof -
  obtain r w1 where r: "ensureMoneyPathAllowed s op w = (r, w1)" by fastforce
  with assms have "\<exists>why. r = Inl (App (ErrPaused why))"
    by (auto simp: ensureMoneyPathAllowed_def on_switches_def zoom_def refused_def switches_of_def split: prod.splits sum.splits db_error.splits verror.splits)
  then show ?thesis using r ensure_frame [OF r] by (auto simp: bind_def)
qed

text \<open>
  C23: While a money path is refused, deposits, withdrawals and rebalancings fail with the reason of
  the pause before they reach the chain, the operator's budget or the tables.
\<close>

theorem paused_path_moves_nothing:
  assumes "moneyPathSwitches s"
  shows "(refused OperationDeposit (switches_of w) \<longrightarrow>
      (\<exists>why w'. RecordDeposit gen dec s di w = (Inl (App (ErrPaused why)), w') \<and> fields_kept w w'))
    \<and> (refused OperationWithdrawal (switches_of w) \<longrightarrow>
      (\<exists>why w'. RecordWithdrawal gen dec s wi w = (Inl (App (ErrPaused why)), w') \<and> fields_kept w w')
      \<and> (\<exists>why w'. RebalancePosition gen dec s ri w = (Inl (App (ErrPaused why)), w') \<and> fields_kept w w'))"
  unfolding RecordDeposit_def RecordWithdrawal_def RebalancePosition_def by (intro conjI impI refused_bind assms)

definition paused_world :: "svc_state dbw" where
  "paused_world = (let w = svc_world (data funded)
     in w \<lparr> data := (data w) \<lparr> switches := data (snd (pgSetSwitch ''deposit'' True ''incident'' None (fst switches0))) \<rparr> \<rparr>)"

theorem paused_path_moves_nothing_witness:
  "let r = RecordDeposit Suc dec1 service0 (deposit0 '''') paused_world
   in fst r = Inl (App (ErrPaused ''incident'')) \<and> vaults (tables (data (snd r))) = vaults (tables (data paused_world))"
proof -
  let ?r = "RecordDeposit Suc dec1 service0 (deposit0 '''') paused_world"
  have "refused OperationDeposit (switches_of paused_world)" "fst ?r = Inl (App (ErrPaused ''incident''))" by code_simp+
  moreover have "moneyPathSwitches service0" by (simp add: service0_def)
  ultimately show ?thesis
    using paused_path_moves_nothing [of service0 paused_world Suc dec1 "deposit0 ''''" undefined undefined]
    by (auto simp: Let_def fields_kept_def)
qed

definition withdrawal0 :: "string \<Rightarrow> withdrawal_input" where
  "withdrawal0 h = \<lparr> wVaultID = 1, wUserID = 0, wAmount = (15, - 1), wTxHash = h, wFee = 0, wWalletAddress = ''GA'', SlippageBps = 50 \<rparr>"

definition verifier1 :: verifier where
  "verifier1 now h addr kind = (if h = ''tx'' \<and> addr = ''C1'' then Inr \<lparr> evAmount = 2, evAccount = '''' \<rparr> else Inl ''not found'')"

theorem withdrawal_takes_verified_amount_witness:
  "let s = service0 \<lparr> depositInvoker := Some chain0, chainVerifier := Some verifier1 \<rparr>;
       r = RecordWithdrawal Suc dec1 s (withdrawal0 '''') (svc_world (data funded))
   in \<exists>v n. fst r = Inr v \<and> CurrentBalance v = 1 / 2 \<and> chainLog (data (snd r)) = [WithdrawCall ''C1'' n 50]"
proof -
  let ?s = "service0 \<lparr> depositInvoker := Some chain0, chainVerifier := Some verifier1 \<rparr>" and ?w = "svc_world (data funded)"
  let ?r = "RecordWithdrawal Suc dec1 ?s (withdrawal0 '''') ?w"
  obtain v w' where run: "?r = (Inr v, w')"
  proof -
    have "case fst ?r of Inr _ \<Rightarrow> True | Inl _ \<Rightarrow> False" by code_simp
    then show thesis by (cases ?r) (use that in \<open>auto split: sum.splits\<close>)
  qed
  have "map_option CurrentBalance (List.find (hit 1) (vaults (tables (data ?w)))) = Some (5 / 2)" by code_simp
  moreover have "numeric 8 (y - 2) * 2 = 1" if "y * 2 = 5" for y
  proof -
    have y: "y = 5 / 2" using that by simp
    show ?thesis unfolding y by code_simp
  qed
  moreover have "chainLog (data (snd ?r)) \<noteq> []" by code_simp
  moreover have "trim_space '''' = ''''" by code_simp
  moreover have "map_option ContractAddress (List.find (hit 1) (vaults (tables (data ?w)))) = Some ''C1''" by code_simp
  moreover have "chainLog (data ?w) = []" by (simp add: svc_world_def)
  ultimately show ?thesis
    using withdrawal_takes_verified_amount [OF run] run
    by (auto simp: withdrawal0_def verifier1_def Let_def split: if_splits)
qed

section \<open>Where the guards are not enough\<close>

text \<open>
  A deposit does not look at the status of the vault: a closed vault takes money that a withdrawal
  then refuses to give back.
\<close>

lemma closed_vault_takes_deposits:
  "let s = service0 \<lparr> chainVerifier := Some verifier0 \<rparr>;
       w = run_call Suc dec1 s (CallClose 1 True) (svc_world (data funded));
       d = RecordDeposit Suc dec1 s (deposit0 ''tx7'') w
   in closed 1 (tables (data w)) \<and> (case fst d of Inr v \<Rightarrow> CurrentBalance v = 9 / 2 | Inl _ \<Rightarrow> False)
      \<and> fst (RecordWithdrawal Suc dec1 s (withdrawal0 ''tx8'') (snd d)) = Inl (App ErrVaultClosed)"
  by code_simp

text \<open>
  With a verifier, a deposit without a hash is paid by the operator on the chain and then refused: the
  money is in the contract and no vault shows it.
\<close>

lemma operator_deposit_never_recorded:
  assumes "chainVerifier s = Some ver" and "trim_space (dTxHash inp) = ''''"
  shows "\<nexists>v w'. RecordDeposit gen dec s inp w = (Inr v, w')"
proof (intro notI, elim exE)
  fix v w' assume "RecordDeposit gen dec s inp w = (Inr v, w')"
  then show False
  proof (rule RecordDeposit_Inr)
    fix ex x w3 w4
    assume "(case chainVerifier s of None \<Rightarrow> ret (decimal_value (dAmount inp))
       | Some ver \<Rightarrow> verifiedAmount ver (trim_space (dTxHash inp)) (ContractAddress ex) ''deposit'' (dWalletAddress inp)) w3 = (Inr x, w4)"
    from verifiedAmount_Inr [OF this [unfolded assms(1) option.case]] assms(2) show False by metis
  qed
qed

lemma operator_deposit_paid_and_lost:
  "let s = service0 \<lparr> depositInvoker := Some chain0, chainVerifier := Some verifier0,
             operatorFundedDeposits := Some (NewOperatorFundedDepositPolicy True [1] 5) \<rparr>;
       r = RecordDeposit Suc dec1 s (deposit0 '''') (svc_world (data funded))
   in fst r = Inl (App ErrTxHashRequired) \<and> chainLog (data (snd r)) = [DepositCall ''C1'' 15000000] \<and> spent (data (snd r)) = [(1, 3 / 2)]"
  by code_simp

text \<open>
  The status is read and written in two statements: a vault that is closed between the read and the
  write of an unpause is active again.
\<close>

lemma unpause_race_reopens:
  "let w = run_call Suc dec1 service0 (CallPause 1) (svc_world (data funded));
       r = GetVault 1 w;
       w' = run_call Suc dec1 service0 (CallClose 1 True) (snd r)
   in closed 1 (tables (data w')) \<and>
      (case fst r of
         Inl _ \<Rightarrow> False
       | Inr ex \<Rightarrow> vStatus ex = StatusPaused \<and> (\<exists>v \<in> set (vaults (tables (data (snd (on_tables (pgUpdateVault 1 (ContractAddress ex) StatusActive) w'))))).
           vID v = 1 \<and> vStatus v = StatusActive))"
  by code_simp

text \<open>A vault that was emptied has a share price of zero and panics on the next deposit.\<close>

lemma emptied_vault_panics:
  "let s = service0 \<lparr> chainVerifier := Some (\<lambda>_ _ _ _. Inr \<lparr> evAmount = 5 / 2, evAccount = '''' \<rparr>) \<rparr>;
       w = run_call Suc dec1 s (CallWithdraw (withdrawal0 ''tx8'')) (svc_world (data funded))
   in fst (RecordDeposit Suc dec1 s (deposit0 ''tx9'') w) = Inl (App PanicDivisionByZero)"
  by code_simp

text \<open>
  A compounding harvest of yield that shows only as balance above the deposits leaves that difference
  as large as before: the next harvest takes its fee on the same yield again.
\<close>

lemma harvest_repeats:
  "let w = svc_world (data funded); d = data w;
       w0 = w \<lparr> data := d \<lparr> tables := (tables d) \<lparr> vaults := map (\<lambda>v. v \<lparr> CurrentBalance := 12, TotalDeposited := 10, YieldEarned := 0 \<rparr>) (vaults (tables d)) \<rparr> \<rparr> \<rparr>;
       inp = \<lparr> hvVaultID = 1, hvUserID = 2, hvWalletAddress = ''GA'', hvCompound = Some True \<rparr>;
       r1 = HarvestVault Suc dec1 service0 inp w0;
       r2 = HarvestVault Suc dec1 service0 inp (snd r1)
   in (case (fst r1, fst r2) of (Inr a, Inr b) \<Rightarrow> (GrossYieldUSDC a, GrossYieldUSDC b) | _ \<Rightarrow> ('''', '''')) = (''2.000000'', ''2.000000'')"
  by code_simp

end
