(* ===== verification/Calendar.thy ===== *)
theory Calendar
  imports Encoding
begin

text \<open>
  Dates of Go's \<^verbatim>\<open>time\<close> package in UTC: \<^verbatim>\<open>Time.Date\<close>, \<^verbatim>\<open>time.Date\<close> with its normalisation of
  the month, and \<^verbatim>\<open>time.Parse\<close> of RFC 3339 text. Days are counted from January 1 of year 1, as in
  \<^typ>\<open>time\<close>. The lemmas show that the calendar functions are inverse to each other.
\<close>

section \<open>Days and dates\<close>

definition days_before :: "int \<Rightarrow> int \<Rightarrow> int" where
  "days_before y m = (let p = y - 1 in 365 * p + p div 4 - p div 100 + p div 400 + sum_list (take (nat (m - 1)) (month_lengths (leap y))))"

definition civil :: "int \<Rightarrow> int \<times> int \<times> int" where
  "civil d = (let (y, yd) = year_day d; (m, md) = month_day 1 (month_lengths (leap y)) yd in (y, m, md))"

definition month_length :: "int \<Rightarrow> int \<Rightarrow> int" where
  "month_length y m = month_lengths (leap y) ! nat (m - 1)"

definition valid_date :: "int \<Rightarrow> int \<Rightarrow> int \<Rightarrow> bool" where
  "valid_date y m md \<longleftrightarrow> 1 \<le> m \<and> m \<le> 12 \<and> 1 \<le> md \<and> md \<le> month_length y m"

lemma year_start:
  assumes p: "p = 400 * a + 100 * b + 4 * c + e" and "0 \<le> b" "b \<le> 3" "0 \<le> c" "c \<le> 24" "0 \<le> e" "e \<le> 3"
  shows "365 * p + p div 4 - p div 100 + p div 400 = 146097 * a + 36524 * b + 1461 * c + 365 * (e :: int)"
proof -
  have "p div 4 = 100 * a + 25 * b + c" by (rule int_div_pos_eq [of _ _ _ e]) (use assms in simp_all)
  moreover have "p div 100 = 4 * a + b" by (rule int_div_pos_eq [of _ _ _ "4 * c + e"]) (use assms in simp_all)
  moreover have "p div 400 = a" by (rule int_div_pos_eq [of _ _ _ "100 * b + 4 * c + e"]) (use assms in simp_all)
  ultimately show ?thesis using p by simp
qed

lemma year_day_spec:
  assumes "year_day d = (y, yd)"
  shows "days_before y 1 + yd = d" "0 \<le> yd" "yd < (if leap y then 366 else 365)"
proof -
  define a where "a = d div 146097"
  define d1 where "d1 = d - 146097 * a"
  define c0 where "c0 = d1 div 36524"
  define b where "b = c0 - c0 div 4"
  define d2 where "d2 = d1 - 36524 * b"
  define c where "c = d2 div 1461"
  define d3 where "d3 = d2 - 1461 * c"
  define y0 where "y0 = d3 div 365"
  define e where "e = y0 - y0 div 4"
  have y: "y = 400 * a + 100 * b + 4 * c + e + 1" and yd: "yd = d3 - 365 * e"
    using assms [unfolded year_day_def Let_def, folded a_def, folded d1_def, folded c0_def, folded b_def, folded d2_def, folded c_def,
        folded d3_def, folded y0_def, folded e_def] by simp_all
  have q: "k * (x div k) \<le> x" "x < k * (x div k) + k" if "0 < k" for x k :: int
    using pos_mod_bound [OF that, of x] pos_mod_sign [OF that, of x] mult_div_mod_eq [of k x] by linarith+
  note d1 = q [of 146097 d, folded a_def, simplified] and d1' = q [of 36524 d1, folded c0_def, simplified] and d2' = q [of 1461 d2, folded c_def, simplified]
    and d3' = q [of 365 d3, folded y0_def, simplified]
  have d1b: "0 \<le> d1" "d1 < 146097" using d1 unfolding d1_def by linarith+
  have c0: "0 \<le> c0" "c0 \<le> 4" using d1b d1' by linarith+
  then have "c0 \<in> {0, 1, 2, 3, 4}" by auto
  then have b: "0 \<le> b" "b \<le> 3" "b = (if c0 = 4 then 3 else c0)" unfolding b_def by auto
  have d2: "0 \<le> d2" "d2 < (if b = 3 then 36525 else 36524)"
    using d1b d1' b(2,3) unfolding d2_def by (cases "c0 = 4"; cases "b = 3"; simp)+
  then have d2b: "d2 < 36525" by (cases "b = 3") simp_all
  have c: "0 \<le> c" "c \<le> 24" using d2(1) d2b d2' by linarith+
  have d3: "0 \<le> d3" "d3 < 1461" using d2' unfolding d3_def by linarith+
  have y0: "0 \<le> y0" "y0 \<le> 4" using d3 d3' by linarith+
  then have "y0 \<in> {0, 1, 2, 3, 4}" by auto
  then have e: "0 \<le> e" "e \<le> 3" "e = (if y0 = 4 then 3 else y0)" unfolding e_def by auto
  show "days_before y 1 + yd = d"
    using year_start [OF refl b(1,2) c e(1,2), of a] y yd by (simp add: days_before_def Let_def d3_def d2_def d1_def)
  show "0 \<le> yd" using d3 d3' e(3) unfolding yd by (cases "y0 = 4") simp_all
  have r: "yd < 366" "yd = 365 \<Longrightarrow> y0 = 4" using d3 d3' e(3) unfolding yd by (cases "y0 = 4"; simp)+
  moreover have "leap y" if "y0 = 4"
  proof -
    have e3: "e = 3" "d3 = 1460" using that e(3) d3 d3' by simp_all
    have y4: "y mod 4 = 0" by (rule int_mod_pos_eq [of _ _ "100 * a + 25 * b + c + 1"]) (use y e3(1) in simp_all)
    show ?thesis
    proof (cases "c = 24")
      case True
      have "b = 3" using d2 e3(2) True unfolding d3_def by (auto split: if_splits)
      then have "y mod 400 = 0" by (intro int_mod_pos_eq [of _ _ "a + 1"]) (use y e3(1) True in simp_all)
      then show ?thesis using y4 by (simp add: leap_def)
    next
      case False
      then have "c \<le> 23" using c(2) by simp
      then have "y mod 100 = 4 * c + 4" by (intro int_mod_pos_eq [of _ _ "4 * a + b"]) (use y e3(1) c(1) in simp_all)
      then have "y mod 100 \<noteq> 0" using c(1) by simp
      then show ?thesis using y4 by (simp add: leap_def)
    qed
  qed
  ultimately show "yd < (if leap y then 366 else 365)" by (cases "yd = 365") auto
qed

lemma month_day_spec:
  assumes "month_day k ls d = (m, md)" and "ls \<noteq> []" and "0 \<le> d" and "d < sum_list ls"
  shows "\<exists>i < length ls. m = k + int i \<and> md = d - sum_list (take i ls) + 1 \<and> sum_list (take i ls) \<le> d \<and> d < sum_list (take i ls) + ls ! i"
  using assms
proof (induction k ls d rule: month_day.induct)
  case (1 k l ls d)
  show ?case
  proof (cases "d < l \<or> ls = []")
    case True
    then show ?thesis using 1(2,4,5) by (intro exI [of _ 0]) auto
  next
    case False
    then obtain i where "i < length ls" "m = k + 1 + int i" "md = d - l - sum_list (take i ls) + 1"
      "sum_list (take i ls) \<le> d - l" "d - l < sum_list (take i ls) + ls ! i"
      using 1 by auto
    then show ?thesis by (intro exI [of _ "Suc i"]) auto
  qed
qed simp

lemma month_lengths_facts: "length (month_lengths lp) = 12" "sum_list (month_lengths lp) = (if lp then 366 else 365)"
  by (simp_all add: month_lengths_def)

lemma civil_spec:
  assumes "civil d = (y, m, md)"
  shows "valid_date y m md" "days_before y m + md - 1 = d"
proof -
  obtain yd where yd: "year_day d = (y, yd)" and md: "month_day 1 (month_lengths (leap y)) yd = (m, md)"
    using assms by (auto simp: civil_def Let_def split: prod.splits)
  obtain i where i: "i < 12" "m = 1 + int i" "md = yd - sum_list (take i (month_lengths (leap y))) + 1"
    "sum_list (take i (month_lengths (leap y))) \<le> yd" "yd < sum_list (take i (month_lengths (leap y))) + month_lengths (leap y) ! i"
    using month_day_spec [OF md _ year_day_spec(2) [OF yd]] year_day_spec(3) [OF yd] month_lengths_facts [of "leap y"]
    by (cases "month_lengths (leap y) = []") auto
  have k: "nat (m - 1) = i" using i(2) by simp
  show "valid_date y m md" using i by (simp add: valid_date_def month_length_def)
  show "days_before y m + md - 1 = d"
    using year_day_spec(1) [OF yd] i(3) by (simp add: days_before_def Let_def k)
qed

lemma year_length: "days_before (y + 1) 1 = days_before y 1 + (if leap y then 366 else 365)"
proof -
  define u where "u k = (if y mod k = 0 then 1 else 0 :: int)" for k
  have s: "y div k = (y - 1) div k + u k" if "1 < k" for k :: int
  proof (cases "y mod k = 0")
    case True
    then have "y - 1 = k * (y div k - 1) + (k - 1)" using mult_div_mod_eq [of k y] by (simp add: algebra_simps)
    then have "(y - 1) div k = y div k - 1" by (rule int_div_pos_eq) (use that in simp_all)
    then show ?thesis using True by (simp add: u_def)
  next
    case False
    then have "y - 1 = k * (y div k) + (y mod k - 1)" "0 < y mod k" "y mod k < k"
      using mult_div_mod_eq [of k y] pos_mod_sign [of k y] pos_mod_bound [of k y] that False by linarith+
    then have "(y - 1) div k = y div k" by (intro int_div_pos_eq [of _ _ _ "y mod k - 1"]) simp_all
    then show ?thesis using False by (simp add: u_def)
  qed
  have "y mod 400 = 0 \<Longrightarrow> y mod 100 = 0" "y mod 100 = 0 \<Longrightarrow> y mod 4 = 0" by presburger+
  then have "(if leap y then 366 else 365) = 365 + u 4 - u 100 + u 400"
    unfolding leap_def u_def by (cases "y mod 4 = 0"; cases "y mod 100 = 0"; cases "y mod 400 = 0") simp_all
  moreover have "days_before (y + 1) 1 = 365 * y + y div 4 - y div 100 + y div 400" "days_before y 1 = 365 * (y - 1) + (y - 1) div 4 - (y - 1) div 100 + (y - 1) div 400"
    by (simp_all add: days_before_def Let_def)
  ultimately show ?thesis using s [of 4] s [of 100] s [of 400] by (simp only:) (simp add: algebra_simps)
qed

lemma year_mono: "y < y' \<Longrightarrow> days_before (y + 1) 1 \<le> days_before y' 1"
proof (induction "nat (y' - y - 1)" arbitrary: y')
  case (Suc n)
  have "days_before (y + 1) 1 \<le> days_before (y' - 1) 1" using Suc by (intro Suc(1)) auto
  also have "\<dots> \<le> days_before y' 1" using year_length [of "y' - 1"] by simp
  finally show ?case .
qed (auto intro!: eq_refl arg_cong [of _ _ "\<lambda>y. days_before y 1"])

lemma month_offset:
  assumes "valid_date y m md"
  shows "days_before y 1 < days_before y m + md" "days_before y m + md \<le> days_before (y + 1) 1"
    "m < m' \<Longrightarrow> m' \<le> 12 \<Longrightarrow> days_before y m + md \<le> days_before y m'"
proof -
  let ?ls = "month_lengths (leap y)"
  have pos: "0 \<le> sum_list (take n ls)" if "list_all ((\<le>) 0) ls" for n and ls :: "int list"
    using that by (intro sum_list_nonneg) (auto simp: list_all_iff dest: in_set_takeD)
  have all: "list_all ((\<le>) 0) ?ls" by (simp add: month_lengths_def)
  have step: "sum_list (take (nat (m - 1)) ?ls) + md \<le> sum_list (take n ?ls)" if "nat (m - 1) < n" "n \<le> 12" for n
  proof -
    have k: "nat (m - 1) < length ?ls" using that by (simp add: month_lengths_facts)
    have "take n ?ls = take (nat (m - 1)) ?ls @ [?ls ! nat (m - 1)] @ take (n - Suc (nat (m - 1))) (drop (Suc (nat (m - 1))) ?ls)"
      using that(1) take_Suc_conv_app_nth [OF k] by (metis Suc_leI append.assoc le_add_diff_inverse take_add)
    moreover have "0 \<le> sum_list (take (n - Suc (nat (m - 1))) (drop (Suc (nat (m - 1))) ?ls))"
      by (rule pos) (use all in \<open>auto simp: list_all_iff dest: in_set_dropD\<close>)
    ultimately show ?thesis using assms by (simp add: valid_date_def month_length_def)
  qed
  show "days_before y 1 < days_before y m + md" using assms pos [OF all, of "nat (m - 1)"] by (simp add: days_before_def Let_def valid_date_def)
  show "days_before y m + md \<le> days_before (y + 1) 1"
  proof -
    have "sum_list (take 12 ?ls) = (if leap y then 366 else 365)" using month_lengths_facts [of "leap y"] by simp
    then have "sum_list (take (nat (m - 1)) ?ls) + md \<le> (if leap y then 366 else 365)" using step [of 12] assms unfolding valid_date_def by linarith
    then show ?thesis unfolding year_length unfolding days_before_def Let_def by simp
  qed
  show "m < m' \<Longrightarrow> m' \<le> 12 \<Longrightarrow> days_before y m + md \<le> days_before y m'"
    using step [of "nat (m' - 1)"] assms by (simp add: days_before_def Let_def valid_date_def)
qed

lemma days_before_inj:
  assumes "valid_date y m md" and "valid_date y' m' md'" and "days_before y m + md = days_before y' m' + md'"
  shows "y = y' \<and> m = m' \<and> md = md'"
proof -
  have one: False if "valid_date a b c" "valid_date a' b' c'" "days_before a b + c = days_before a' b' + c'" "a < a'" for a b c a' b' c'
    using month_offset(2) [OF that(1)] month_offset(1) [OF that(2)] year_mono [OF that(4)] that(3) by linarith
  have y: "y = y'" using one [OF assms] one [OF assms(2,1) assms(3) [symmetric]] by (meson linorder_less_linear)
  have two: False if "valid_date a b c" "valid_date a b' c'" "days_before a b + c = days_before a b' + c'" "b < b'" for a b c b' c'
  proof -
    have "b' \<le> 12" "1 \<le> c'" using that(2) by (simp_all add: valid_date_def)
    then show False using month_offset(3) [OF that(1,4)] that(3) by linarith
  qed
  have "m = m'" using two [OF assms(1) assms(2) [folded y] assms(3) [folded y]]
      two [OF assms(2) [folded y] assms(1) assms(3) [folded y, symmetric]] by (meson linorder_less_linear)
  then show ?thesis using y assms(3) by simp
qed

lemma civil_days: "valid_date y m md \<Longrightarrow> civil (days_before y m + md - 1) = (y, m, md)"
  using civil_spec days_before_inj by (cases "civil (days_before y m + md - 1)") fastforce

section \<open>Making and shifting times\<close>

text \<open>
  \<^verbatim>\<open>time.Date\<close> in UTC: a month outside 1 to 12 carries into the year, a day of any value counts on
  from the start of the month. The clock of a time is the rest within its day.
\<close>

definition day_nanos :: duration where "day_nanos = 86400 * second"

definition goDate :: "int \<Rightarrow> int \<Rightarrow> int \<Rightarrow> int \<Rightarrow> time" where
  "goDate y m d clock = (days_before (y + (m - 1) div 12) ((m - 1) mod 12 + 1) + d - 1) * day_nanos + clock"

definition dateOf :: "time \<Rightarrow> int \<times> int \<times> int" where
  "dateOf t = civil (t div day_nanos)"

definition clockOf :: "time \<Rightarrow> int" where
  "clockOf t = t mod day_nanos"

definition AddDate :: "time \<Rightarrow> int \<Rightarrow> int \<Rightarrow> int \<Rightarrow> time" where
  "AddDate t years months days = (case dateOf t of (y, m, d) \<Rightarrow> goDate (y + years) (m + months) (d + days) (clockOf t))"

lemma day_nanos_pos: "0 < day_nanos"
  by (simp add: day_nanos_def second_def)

lemma goDate_normal: "1 \<le> m \<Longrightarrow> m \<le> 12 \<Longrightarrow> goDate y m d c = (days_before y m + d - 1) * day_nanos + c"
  by (simp add: goDate_def)

lemma goDate_of: "dateOf t = (y, m, d) \<Longrightarrow> goDate y m d (clockOf t) = t"
  using civil_spec [of "t div day_nanos" y m d] by (simp add: dateOf_def clockOf_def goDate_normal valid_date_def)

lemma dateOf_goDate:
  assumes "valid_date y m d" and "0 \<le> c" and "c < day_nanos"
  shows "dateOf (goDate y m d c) = (y, m, d)" "clockOf (goDate y m d c) = c"
proof -
  have m: "1 \<le> m" "m \<le> 12" using assms(1) by (simp_all add: valid_date_def)
  have "((days_before y m + d - 1) * day_nanos + c) div day_nanos = days_before y m + d - 1"
    by (rule int_div_pos_eq [of _ _ _ c]) (use assms in simp_all)
  then show "dateOf (goDate y m d c) = (y, m, d)"
    using civil_days [OF assms(1)] by (simp add: dateOf_def goDate_normal [OF m])
  show "clockOf (goDate y m d c) = c" using assms(2,3) by (simp add: clockOf_def goDate_normal [OF m])
qed

lemma clockOf_bounds: "0 \<le> clockOf t" "clockOf t < day_nanos"
  by (simp_all add: clockOf_def day_nanos_pos)

lemma AddDate_days: "AddDate t 0 0 n = t + n * day_nanos"
proof -
  obtain y m d where e: "dateOf t = (y, m, d)" by (cases "dateOf t") auto
  have "AddDate t 0 0 n = goDate y m d (clockOf t) + n * day_nanos"
    unfolding AddDate_def e goDate_def by (simp add: algebra_simps)
  then show ?thesis by (simp add: goDate_of [OF e])
qed

text \<open>The first day of the month after the given one.\<close>

lemma month_after:
  assumes "1 \<le> m" and "m \<le> 12"
  shows "goDate y (m + 1) d c = (days_before y m + month_length y m + d - 1) * day_nanos + c"
proof (cases "m = 12")
  case True
  have "sum_list (take 12 (month_lengths (leap y))) = (if leap y then 366 else 365)" using month_lengths_facts [of "leap y"] by simp
  moreover have "take 12 (month_lengths (leap y)) = take 11 (month_lengths (leap y)) @ [month_lengths (leap y) ! 11]"
    by (simp add: month_lengths_def)
  ultimately have "days_before (y + 1) 1 = days_before y 12 + month_length y 12"
    unfolding year_length by (simp add: days_before_def Let_def month_length_def del: month_lengths_def)
  then show ?thesis using True by (simp add: goDate_def)
next
  case False
  then have "1 \<le> m + 1" "m + 1 \<le> 12" using assms by simp_all
  moreover have "days_before y (m + 1) = days_before y m + month_length y m"
  proof -
    have k: "nat (m - 1) < length (month_lengths (leap y))" "nat m = Suc (nat (m - 1))" using assms False by (simp_all add: month_lengths_facts)
    show ?thesis using take_Suc_conv_app_nth [OF k(1)] by (simp add: days_before_def Let_def month_length_def k(2))
  qed
  ultimately show ?thesis by (simp add: goDate_normal)
qed

lemma month_length_bounds:
  assumes "1 \<le> m" and "m \<le> 12"
  shows "28 \<le> month_length y m" "month_length y m \<le> 31"
proof -
  have "nat (m - 1) < length (month_lengths (leap y))" using assms by (simp add: month_lengths_facts)
  then have "month_length y m \<in> set (month_lengths (leap y))" unfolding month_length_def by (rule nth_mem)
  moreover have "\<forall>l \<in> set (month_lengths lp). 28 \<le> l \<and> l \<le> 31" for lp by (simp add: month_lengths_def)
  ultimately show "28 \<le> month_length y m" "month_length y m \<le> 31" by blast+
qed

lemma last_day:
  assumes "1 \<le> m" and "m \<le> 12"
  shows "dateOf (goDate y (m + 1) 0 0) = (y, m, month_length y m)"
proof -
  have v: "valid_date y m (month_length y m)" using assms month_length_bounds [OF assms, of y] by (simp add: valid_date_def)
  show ?thesis using dateOf_goDate(1) [OF v, of 0] day_nanos_pos unfolding month_after [OF assms] goDate_normal [OF assms] by simp
qed

end
