(* ===== verification/Transactions.thy ===== *)
theory Transactions
  imports Vault_Service Calendar
begin

text \<open>
  \<^verbatim>\<open>domain/transaction/model.go\<close>, \<^verbatim>\<open>repository/postgres/transaction_repository.go\<close>,
  \<^verbatim>\<open>service/transaction_service.go\<close>, \<^verbatim>\<open>service/transaction_chain_claim.go\<close>,
  \<^verbatim>\<open>service/transaction_poller.go\<close> and the two writing handlers of
  \<^verbatim>\<open>handler/transaction_handler.go\<close>: a client registers the hash of a transaction it sent, and a
  poller asks Horizon what became of it, checks the operations of the transaction against the
  claim and moves the balance of the vault. Horizon is a parameter: the reply to each request.
\<close>

section \<open>The model and its table\<close>

datatype tx_status = StatusPending | StatusCompleted | StatusFailed

fun status_text :: "tx_status \<Rightarrow> string" where
  "status_text StatusPending = ''pending''"
| "status_text StatusCompleted = ''completed''"
| "status_text StatusFailed = ''failed''"

definition TypeDeposit :: string where "TypeDeposit = ''deposit''"
definition TypeWithdrawal :: string where "TypeWithdrawal = ''withdrawal''"

definition ReasonNoMatchingOperation :: string where "ReasonNoMatchingOperation = ''chain_no_matching_operation''"
definition ReasonAmountMismatch :: string where "ReasonAmountMismatch = ''chain_amount_mismatch''"
definition ReasonAssetMismatch :: string where "ReasonAssetMismatch = ''chain_asset_mismatch''"
definition ReasonDestinationMismatch :: string where "ReasonDestinationMismatch = ''chain_destination_mismatch''"
definition ReasonVaultUnresolvable :: string where "ReasonVaultUnresolvable = ''chain_vault_unresolvable''"

text \<open>\<open>ErrHorizon\<close> carries whether the breaker or the retry runner refused the request.\<close>

datatype tx_error =
    ErrTransactionNotFound | ErrInvalidTransaction | ErrInvalidStatus | ErrInvalidType
  | ErrChainClaimMismatch | errTransactionPending | ErrUnverifiedChainTx
  | ErrHorizon bool string | ErrVault "verror db_error"

record tx_model =
  xID :: uuid
  xVaultID :: uuid
  xType :: string
  xAmount :: rat
  xCurrency :: string
  TxHash :: string
  xStatus :: tx_status
  ErrorReason :: string
  xCreatedAt :: time
  xUpdatedAt :: time
  ConfirmedAt :: "time option"

record tx_state =
  vaultTables :: vault_db
  txRows :: "tx_model list"
  notified :: "tx_model list"
  reconcileRuns :: "bool list"
  divergences :: nat
  pendingSubmissions :: "nat \<times> duration"
  lastTickEnd :: time

type_synonym 'a tdb = "(tx_state, tx_error, 'a) db"

text \<open>A call of the vault repository, on the same database.\<close>

definition on_vaults :: "'a vdb \<Rightarrow> 'a tdb" where
  "on_vaults m w =
     (case m \<lparr> data = vaultTables (data w), sched = sched w, drawn = drawn w, wall = wall w \<rparr> of (r, b) \<Rightarrow>
        (case r of Inl e \<Rightarrow> Inl (App (ErrVault e)) | Inr a \<Rightarrow> Inr a,
         w \<lparr> data := (data w) \<lparr> vaultTables := data b \<rparr>, sched := sched b, drawn := drawn b \<rparr>))"

text \<open>What the columns keep and what the check constraints of the migrations accept.\<close>

definition store_tx :: "tx_model \<Rightarrow> tx_model" where
  "store_tx m = m \<lparr> xAmount := numeric 8 (xAmount m), ErrorReason := trim_space (ErrorReason m),
     ConfirmedAt := map_option timestamptz (ConfirmedAt m) \<rparr>"

definition tx_ok :: "tx_model \<Rightarrow> bool" where
  "tx_ok m \<longleftrightarrow> xType m \<in> {''deposit'', ''withdrawal'', ''allocation'', ''settlement''} \<and> 0 < xAmount m \<and> fits 40 (xAmount m)
     \<and> xCurrency m \<noteq> ''''"

text \<open>
  \<^verbatim>\<open>INSERT ... ON CONFLICT (tx_hash) DO UPDATE\<close>: an existing row keeps its identifier and its
  creation time and takes everything else from the new model. The returned model keeps the new identifier.
\<close>

definition overwrite :: "tx_model \<Rightarrow> time \<Rightarrow> tx_model \<Rightarrow> tx_model" where
  "overwrite new now old = new \<lparr> xID := xID old, TxHash := TxHash old, xCreatedAt := xCreatedAt old, xUpdatedAt := now \<rparr>"

definition pgUpsert :: "tx_model \<Rightarrow> tx_model tdb" where
  "pgUpsert m = bind time_now (\<lambda>now. stmt (\<lambda>d.
     let new = store_tx (m \<lparr> xCreatedAt := now, xUpdatedAt := now \<rparr>);
         existing = List.find (\<lambda>r. TxHash r = TxHash m) (txRows d);
         result = (\<lambda>created. m \<lparr> xCreatedAt := created, xUpdatedAt := now, ConfirmedAt := ConfirmedAt new \<rparr>)
     in if \<not> tx_ok new then Inl Violation
        else if existing = None \<and> xID m \<in> xID ` set (txRows d) then Inl (App ErrInvalidTransaction)
        else if xVaultID m \<notin> vID ` set (vaults (vaultTables d)) then Inl (App ErrInvalidTransaction)
        else case existing of
          None \<Rightarrow> Inr (result now, d \<lparr> txRows := txRows d @ [new] \<rparr>)
        | Some old \<Rightarrow> Inr (result (xCreatedAt old),
            d \<lparr> txRows := map (\<lambda>r. if TxHash r = TxHash m then overwrite new now r else r) (txRows d) \<rparr>)))"

definition scanTransaction :: "tx_model \<Rightarrow> tx_model" where
  "scanTransaction r = r \<lparr> ErrorReason := trim_space (ErrorReason r) \<rparr>"

definition pgGetByHash :: "string \<Rightarrow> tx_model tdb" where
  "pgGetByHash h = query (\<lambda>d. case List.find (\<lambda>r. TxHash r = h) (txRows d) of
     None \<Rightarrow> Inl (App ErrTransactionNotFound) | Some r \<Rightarrow> Inr (scanTransaction r))"

definition pgListPendingOlderThan :: "time \<Rightarrow> tx_model list tdb" where
  "pgListPendingOlderThan cutoff = query (\<lambda>d. Inr (map scanTransaction
     (sort_key xCreatedAt (filter (\<lambda>r. xStatus r = StatusPending \<and> xCreatedAt r \<le> cutoff) (txRows d)))))"

definition set_status :: "tx_status \<Rightarrow> time option \<Rightarrow> string \<Rightarrow> time \<Rightarrow> tx_model \<Rightarrow> tx_model" where
  "set_status st confirmed reason now r = r \<lparr> xStatus := st, ConfirmedAt := map_option timestamptz confirmed,
     ErrorReason := trim_space reason, xUpdatedAt := now \<rparr>"

definition pgUpdateStatus :: "string \<Rightarrow> tx_status \<Rightarrow> time option \<Rightarrow> string \<Rightarrow> tx_model tdb" where
  "pgUpdateStatus h st confirmed reason = bind time_now (\<lambda>now.
     bind (stmt (\<lambda>d. Inr (length (filter (\<lambda>r. TxHash r = h) (txRows d)),
        d \<lparr> txRows := map (\<lambda>r. if TxHash r = h then set_status st confirmed reason now r else r) (txRows d) \<rparr>))) (\<lambda>n.
       if n = 0 then fail (App ErrTransactionNotFound) else pgGetByHash h))"

record list_filter =
  fUserID :: uuid
  fVaultID :: uuid
  fType :: string
  fStatus :: string
  fLimit :: int
  fOffset :: int

definition list_match :: "list_filter \<Rightarrow> tx_state \<Rightarrow> tx_model \<Rightarrow> bool" where
  "list_match f d r \<longleftrightarrow>
     list_ex (\<lambda>v. vID v = xVaultID r \<and> vUserID v = fUserID f \<and> DeletedAt v = None) (vaults (vaultTables d))
     \<and> (fVaultID f = uuid_nil \<or> xVaultID r = fVaultID f) \<and> (fType f = '''' \<or> xType r = fType f)
     \<and> (fStatus f = '''' \<or> status_text (xStatus r) = fStatus f)"

definition pgListUserTransactions :: "list_filter \<Rightarrow> (tx_model list \<times> nat) tdb" where
  "pgListUserTransactions f =
     bind (query (\<lambda>d. Inr (length (filter (list_match f d) (txRows d))))) (\<lambda>count.
     bind (query (\<lambda>d. Inr (map scanTransaction (take (nat (fLimit f)) (drop (nat (fOffset f))
       (rev (sort_key xCreatedAt (filter (list_match f d) (txRows d))))))))) (\<lambda>page.
       ret (page, count)))"

section \<open>Horizon\<close>

text \<open>
  \<^verbatim>\<open>time.Parse(time.RFC3339, s)\<close> on RFC 3339 text: the ranges of the fields, a fraction of any
  length cut to nanoseconds, and \<open>Z\<close> or a numeric offset. Text outside that format is an error.
\<close>

definition parse_uint :: "string \<Rightarrow> int \<Rightarrow> int \<Rightarrow> int option" where
  "parse_uint s lo hi = (if s = [] \<or> \<not> list_all is_digit s \<or> undigits s < lo \<or> hi < undigits s then None else Some (undigits s))"

definition parse_fraction :: "string \<Rightarrow> int \<times> string" where
  "parse_fraction s = (case s of
     c # r \<Rightarrow> if c = CHR ''.'' \<and> r \<noteq> [] \<and> is_digit (hd r)
       then let ds = take 9 (takeWhile is_digit r) in (undigits ds * 10 ^ (9 - length ds), dropWhile is_digit r) else (0, s)
   | [] \<Rightarrow> (0, s))"

definition parse_zone :: "string \<Rightarrow> int option" where
  "parse_zone s =
     (if s = ''Z'' then Some 0
      else if length s \<noteq> 6 \<or> s ! 3 \<noteq> CHR '':'' \<or> s ! 0 \<notin> {CHR ''+'', CHR ''-''} then None
      else case (parse_uint (take 2 (drop 1 s)) 0 23, parse_uint (drop 4 s) 0 59) of
        (Some h, Some m) \<Rightarrow> Some ((if s ! 0 = CHR ''-'' then -1 else 1) * (h * 60 + m) * 60)
      | _ \<Rightarrow> None)"

definition ParseRFC3339 :: "string \<Rightarrow> time option" where
  "ParseRFC3339 s =
     (let num = (\<lambda>i n. parse_uint (take n (drop i s)))
      in if length s < 19 \<or> s ! 4 \<noteq> CHR ''-'' \<or> s ! 7 \<noteq> CHR ''-'' \<or> s ! 10 \<noteq> CHR ''T'' \<or> s ! 13 \<noteq> CHR '':'' \<or> s ! 16 \<noteq> CHR '':'' then None
         else case (num 0 4 0 9999, num 5 2 1 12, num 11 2 0 23, num 14 2 0 59, num 17 2 0 59) of
           (Some y, Some m, Some hh, Some mm, Some ss) \<Rightarrow>
             (case (num 8 2 1 (month_lengths (leap y) ! nat (m - 1)), parse_fraction (drop 19 s)) of
                (Some d, ns, rest) \<Rightarrow>
                  map_option (\<lambda>off. ((days_before y m + d - 1) * 86400 + hh * 3600 + mm * 60 + ss - off) * second + ns) (parse_zone rest)
              | _ \<Rightarrow> None)
         | _ \<Rightarrow> None)"

lemma ParseRFC3339_example:
  "ParseRFC3339 ''2026-02-28T16:00:00.00000012Z'' = Some (63907891200 * second + 120)"
  "ParseRFC3339 ''2026-02-28T18:00:00+02:00'' = Some (63907891200 * second)"
  "ParseRFC3339 ''2026-02-29T16:00:00Z'' = None"
  by code_simp+

record horizon_operation =
  opType :: string
  AssetType :: string
  AssetCode :: string
  AssetIssuer :: string
  opAmount :: string
  opFrom :: string
  opTo :: string
  opAccount :: string
  opInto :: string
  AssetName :: string

record horizon_transaction =
  Successful :: bool
  hzCreatedAt :: string
  ResultXdr :: string

text \<open>
  A request either is not answered, or has a status and a body, which decodes or not. An
  unanswered request says whether the breaker or the retry runner refused it.
\<close>

datatype 'a reply = DoError bool string | Response int "'a option"

record horizon =
  getTransaction :: "string \<Rightarrow> horizon_transaction reply"
  getOperations :: "string \<Rightarrow> horizon_operation list reply"

definition candidate :: "string list \<Rightarrow> string" where
  "candidate cs = (case List.find (\<lambda>c. c \<noteq> '''') (map trim_space cs) of None \<Rightarrow> '''' | Some c \<Rightarrow> c)"

definition destination :: "horizon_operation \<Rightarrow> string" where
  "destination o1 = candidate [opTo o1, opInto o1, opAccount o1]"

definition assetCode :: "horizon_operation \<Rightarrow> string" where
  "assetCode o1 = (if EqualFold (trim_space (AssetType o1)) ''native'' then ''XLM'' else to_upper (trim_space (AssetCode o1)))"

definition isValueTransfer :: "horizon_operation \<Rightarrow> bool" where
  "isValueTransfer o1 \<longleftrightarrow> to_lower (trim_space (opType o1)) \<in> {''payment'', ''create_account'', ''account_merge'',
     ''path_payment_strict_receive'', ''path_payment_strict_send'', ''invoke_host_function''}"

record chain_claim =
  Destination :: string
  Asset :: string
  claimAmount :: rat

text \<open>The walk over the operations: the on-chain amount, or how far the best operation matched.\<close>

fun scanOps :: "decimal_ops \<Rightarrow> chain_claim \<Rightarrow> bool \<Rightarrow> bool \<Rightarrow> horizon_operation list \<Rightarrow> (bool \<times> bool) + rat" where
  "scanOps dec claim dm am [] = Inl (dm, am)"
| "scanOps dec claim dm am (o1 # os) =
     (if \<not> isValueTransfer o1 then scanOps dec claim dm am os
      else if \<not> EqualFold (destination o1) (Destination claim) then scanOps dec claim dm am os
      else if Asset claim \<noteq> '''' \<and> \<not> EqualFold (assetCode o1) (Asset claim) then scanOps dec claim True am os
      else case NewFromString dec (trim_space (opAmount o1)) of
        None \<Rightarrow> scanOps dec claim True True os
      | Some onChain \<Rightarrow>
          if onChain \<le> 0 then scanOps dec claim True True os
          else if onChain \<noteq> claimAmount claim then scanOps dec claim True True os
          else Inr onChain)"

definition claimVerdict :: "decimal_ops \<Rightarrow> chain_claim \<Rightarrow> horizon_operation list \<Rightarrow> string + rat" where
  "claimVerdict dec claim ops = (case scanOps dec claim False False ops of
     Inr x \<Rightarrow> Inr x
   | Inl (destinationMatched, assetMatched) \<Rightarrow>
       if \<not> destinationMatched then (if ops = [] then Inl ReasonNoMatchingOperation else Inl ReasonDestinationMismatch)
       else if \<not> assetMatched then Inl ReasonAssetMismatch
       else Inl ReasonAmountMismatch)"

definition lookupHorizonOperations :: "horizon \<Rightarrow> string \<Rightarrow> tx_error + horizon_operation list" where
  "lookupHorizonOperations hz hash = (case getOperations hz hash of
     DoError shed e \<Rightarrow> Inl (ErrHorizon shed e)
   | Response code body \<Rightarrow>
       if code = 404 then Inl errTransactionPending
       else if code \<noteq> 200 then Inl (ErrHorizon False ''horizon operations lookup failed'')
       else case body of None \<Rightarrow> Inl (ErrHorizon False ''decode operations'') | Some ops \<Rightarrow> Inr ops)"

text \<open>The result is the amount, or a reason and an error.\<close>

definition verifyChainClaim :: "decimal_ops \<Rightarrow> horizon \<Rightarrow> string \<Rightarrow> chain_claim \<Rightarrow> (string \<times> tx_error) + rat" where
  "verifyChainClaim dec hz hash claim = (case lookupHorizonOperations hz hash of
     Inl e \<Rightarrow> Inl ('''', e)
   | Inr ops \<Rightarrow> (case claimVerdict dec claim ops of Inl why \<Rightarrow> Inl (why, ErrChainClaimMismatch) | Inr x \<Rightarrow> Inr x))"

section \<open>The service\<close>

record applier =
  ApplyConfirmedDeposit :: "uuid \<Rightarrow> rat \<Rightarrow> string \<Rightarrow> unit vdb"
  ApplyConfirmedWithdrawal :: "uuid \<Rightarrow> rat \<Rightarrow> string \<Rightarrow> unit vdb"

record tx_service =
  horizonURL :: string
  balance :: "applier option"
  vaultLookup :: bool

text \<open>The production wiring: the vault repository is the applier and the vault lookup.\<close>

definition pgApplier :: "(nat \<Rightarrow> uuid) \<Rightarrow> decimal_ops \<Rightarrow> applier" where
  "pgApplier gen dec = \<lparr> ApplyConfirmedDeposit = pgApplyConfirmedDeposit gen dec, ApplyConfirmedWithdrawal = pgApplyConfirmedWithdrawal gen dec \<rparr>"

definition trim_right_slash :: "string \<Rightarrow> string" where
  "trim_right_slash s = rev (dropWhile (\<lambda>c. c = CHR ''/'') (rev s))"

definition NewTransactionService :: "string \<Rightarrow> tx_service" where
  "NewTransactionService url = \<lparr> horizonURL = trim_right_slash (trim_space url), balance = None, vaultLookup = False \<rparr>"

definition wired :: "(nat \<Rightarrow> uuid) \<Rightarrow> decimal_ops \<Rightarrow> string \<Rightarrow> tx_service" where
  "wired gen dec url = (NewTransactionService url) \<lparr> balance := Some (pgApplier gen dec), vaultLookup := True \<rparr>"

definition verifyConfirmedClaim :: "decimal_ops \<Rightarrow> tx_service \<Rightarrow> horizon \<Rightarrow> tx_model \<Rightarrow> ((string \<times> tx_error) + rat) tdb" where
  "verifyConfirmedClaim dec s hz m =
     (if \<not> vaultLookup s \<or> balance s = None then ret (Inr (xAmount m))
      else if xType m \<noteq> TypeDeposit then ret (Inr (xAmount m))
      else bind (attempt (on_vaults (pgGetVault (xVaultID m)))) (\<lambda>found.
        case found of
          Inl e \<Rightarrow> ret (Inl (ReasonVaultUnresolvable, case e of App err \<Rightarrow> err | _ \<Rightarrow> ErrVault DBFailure))
        | Inr v \<Rightarrow>
            let dest = trim_space (ContractAddress v)
            in if dest = '''' then ret (Inl (ReasonVaultUnresolvable, ErrUnverifiedChainTx))
               else ret (verifyChainClaim dec hz (TxHash m)
                 \<lparr> Destination = dest, Asset = to_upper (trim_space (Currency v)), claimAmount = xAmount m \<rparr>)))"

definition lookupHorizonTransaction :: "tx_service \<Rightarrow> horizon \<Rightarrow> string \<Rightarrow> tx_error + tx_status \<times> time option \<times> string" where
  "lookupHorizonTransaction s hz hash =
     (if horizonURL s = '''' then Inr (StatusPending, None, '''')
      else case getTransaction hz hash of
        DoError shed e \<Rightarrow> Inl (ErrHorizon shed e)
      | Response code body \<Rightarrow>
          if code = 404 then Inl errTransactionPending
          else if code \<noteq> 200 then Inl (ErrHorizon False ''horizon status lookup failed'')
          else case body of
            None \<Rightarrow> Inl (ErrHorizon False ''decode transaction'')
          | Some p \<Rightarrow> (case ParseRFC3339 (hzCreatedAt p) of
              None \<Rightarrow> Inl (ErrHorizon False ''parse created_at'')
            | Some t \<Rightarrow> if Successful p then Inr (StatusCompleted, Some t, '''')
                        else Inr (StatusFailed, Some t, trim_space (ResultXdr p))))"

definition applyConfirmedBalance :: "tx_service \<Rightarrow> tx_model \<Rightarrow> unit tdb" where
  "applyConfirmedBalance s m = (case balance s of
     None \<Rightarrow> ret ()
   | Some ap \<Rightarrow>
       if xType m = TypeDeposit then on_vaults (ApplyConfirmedDeposit ap (xVaultID m) (xAmount m) (TxHash m))
       else if xType m = TypeWithdrawal then on_vaults (ApplyConfirmedWithdrawal ap (xVaultID m) (xAmount m) (TxHash m))
       else ret ())"

definition ReconcileTransaction :: "decimal_ops \<Rightarrow> tx_service \<Rightarrow> horizon \<Rightarrow> tx_model \<Rightarrow> (tx_model \<times> bool) tdb" where
  "ReconcileTransaction dec s hz m =
     (if xStatus m = StatusCompleted \<or> xStatus m = StatusFailed then ret (m, False)
      else case lookupHorizonTransaction s hz (TxHash m) of
        Inl e \<Rightarrow> if e = errTransactionPending then ret (m, False) else fail (App e)
      | Inr (st, confirmedAt, errorReason) \<Rightarrow>
          if st = StatusCompleted then
            bind (verifyConfirmedClaim dec s hz m) (\<lambda>verified.
              case verified of
                Inl (reason, e) \<Rightarrow>
                  if e = ErrChainClaimMismatch
                  then bind (pgUpdateStatus (TxHash m) StatusFailed confirmedAt reason) (\<lambda>u. ret (u, True))
                  else fail (App e)
              | Inr x \<Rightarrow>
                  let m1 = m \<lparr> xAmount := x \<rparr>
                  in bind (applyConfirmedBalance s m1) (\<lambda>_.
                     bind (pgUpdateStatus (TxHash m1) st confirmedAt errorReason) (\<lambda>u. ret (u, True))))
          else if st = StatusFailed then bind (pgUpdateStatus (TxHash m) st confirmedAt errorReason) (\<lambda>u. ret (u, True))
          else ret (m, False))"

record register_input =
  rgVaultID :: uuid
  rgType :: string
  rgAmount :: rat
  rgCurrency :: string
  rgTxHash :: string

definition isSupportedTransactionType :: "string \<Rightarrow> bool" where
  "isSupportedTransactionType t \<longleftrightarrow> t = TypeDeposit \<or> t = TypeWithdrawal"

definition RegisterTransaction :: "(nat \<Rightarrow> uuid) \<Rightarrow> register_input \<Rightarrow> tx_model tdb" where
  "RegisterTransaction gen inp =
     (if rgVaultID inp = uuid_nil \<or> rgAmount inp \<le> 0 \<or> trim_space (rgCurrency inp) = '''' \<or> trim_space (rgTxHash inp) = ''''
      then fail (App ErrInvalidTransaction)
      else let normalizedType = to_lower (trim_space (rgType inp))
      in if \<not> isSupportedTransactionType normalizedType then fail (App ErrInvalidType)
         else bind (new_uuid gen) (\<lambda>i. bind time_now (\<lambda>now.
           pgUpsert \<lparr> xID = i, xVaultID = rgVaultID inp, xType = normalizedType, xAmount = rgAmount inp,
             xCurrency = to_upper (trim_space (rgCurrency inp)), TxHash = trim_space (rgTxHash inp), xStatus = StatusPending,
             ErrorReason = '''', xCreatedAt = now, xUpdatedAt = now, ConfirmedAt = None \<rparr>)))"

definition GetTransaction :: "decimal_ops \<Rightarrow> tx_service \<Rightarrow> horizon \<Rightarrow> string \<Rightarrow> tx_model tdb" where
  "GetTransaction dec s hz hash =
     (if trim_space hash = '''' then fail (App ErrInvalidTransaction)
      else bind (pgGetByHash hash) (\<lambda>m. bind (ReconcileTransaction dec s hz m) (\<lambda>(u, changed). ret u)))"

definition ListPendingOlderThan :: "duration \<Rightarrow> tx_model list tdb" where
  "ListPendingOlderThan minAge = bind time_now (\<lambda>now. pgListPendingOlderThan (now - minAge))"

record list_input =
  liUserID :: uuid
  liVaultID :: uuid
  liType :: string
  liStatus :: string
  liLimit :: int
  liOffset :: int

definition defaultTransactionListLimit :: int where "defaultTransactionListLimit = 20"
definition maxTransactionListLimit :: int where "maxTransactionListLimit = 100"

definition ListUserTransactions :: "list_input \<Rightarrow> (tx_model list \<times> nat) tdb" where
  "ListUserTransactions inp =
     (if liUserID inp = uuid_nil then fail (App ErrInvalidTransaction)
      else let limit0 = (if liLimit inp \<le> 0 then defaultTransactionListLimit else liLimit inp);
               limit = (if maxTransactionListLimit < limit0 then maxTransactionListLimit else limit0);
               offset = (if liOffset inp < 0 then 0 else liOffset inp);
               dbStatus = (if liStatus inp = ''confirmed'' then status_text StatusCompleted else liStatus inp)
           in pgListUserTransactions \<lparr> fUserID = liUserID inp, fVaultID = liVaultID inp, fType = liType inp, fStatus = dbStatus,
                fLimit = limit, fOffset = offset \<rparr>)"

section \<open>The poller\<close>

record poller_config =
  pollEnabled :: bool
  Interval :: duration
  MinAge :: duration

definition defaultPollerInterval :: duration where "defaultPollerInterval = 15 * second"
definition defaultPollerMinAge :: duration where "defaultPollerMinAge = 30 * second"

definition pollerConfig :: "poller_config \<Rightarrow> poller_config" where
  "pollerConfig cfg = cfg \<lparr> Interval := (if Interval cfg \<le> 0 then defaultPollerInterval else Interval cfg),
     MinAge := (if MinAge cfg \<le> 0 then defaultPollerMinAge else MinAge cfg) \<rparr>"

fun oldestAge :: "time \<Rightarrow> tx_model list \<Rightarrow> duration \<Rightarrow> duration" where
  "oldestAge now [] oldest = oldest"
| "oldestAge now (m # ms) oldest =
     (let age = time_sub now (xCreatedAt m) in oldestAge now ms (if oldest < age then age else oldest))"

fun reconcilePending :: "decimal_ops \<Rightarrow> tx_service \<Rightarrow> horizon \<Rightarrow> tx_model list \<Rightarrow> unit tdb" where
  "reconcilePending dec s hz [] = ret ()"
| "reconcilePending dec s hz (m # ms) =
     bind (attempt (ReconcileTransaction dec s hz m)) (\<lambda>r.
     bind (case r of
             Inl _ \<Rightarrow> ret ()
           | Inr (u, changed) \<Rightarrow>
               if \<not> changed then local (\<lambda>d. d \<lparr> divergences := divergences d + 1 \<rparr>)
               else local (\<lambda>d. d \<lparr> notified := notified d @ [u] \<rparr>)) (\<lambda>_.
       reconcilePending dec s hz ms))"

text \<open>
  The argument of the deferred \<^verbatim>\<open>lastTickEnd.Store(time.Now().UnixNano())\<close> is evaluated where the
  statement stands, at the start of the tick.
\<close>

definition PollerTick :: "decimal_ops \<Rightarrow> tx_service \<Rightarrow> horizon \<Rightarrow> poller_config \<Rightarrow> unit tdb" where
  "PollerTick dec s hz cfg =
     bind time_now (\<lambda>started.
     bind (attempt (ListPendingOlderThan (MinAge cfg))) (\<lambda>listed.
     bind (case listed of
             Inl _ \<Rightarrow> local (\<lambda>d. d \<lparr> reconcileRuns := reconcileRuns d @ [False] \<rparr>)
           | Inr pending \<Rightarrow>
               bind time_now (\<lambda>now.
               bind (local (\<lambda>d. d \<lparr> pendingSubmissions := (length pending, oldestAge now pending 0) \<rparr>)) (\<lambda>_.
               bind (reconcilePending dec s hz pending) (\<lambda>_.
                 local (\<lambda>d. d \<lparr> reconcileRuns := reconcileRuns d @ [True] \<rparr>))))) (\<lambda>_.
       local (\<lambda>d. d \<lparr> lastTickEnd := started \<rparr>))))"

section \<open>The handlers\<close>

text \<open>
  A handler answers with a status code and, when it succeeds, the transaction. The caller and the
  vault of the request are what the token and \<^verbatim>\<open>uuid.Parse\<close> gave. A vault of another user is
  answered like a missing one.
\<close>

record create_request =
  rqVaultID :: "uuid option"
  rqType :: string
  rqAmount :: string
  rqCurrency :: string
  rqTxHash :: string

fun writeDomainError :: "tx_error db_error \<Rightarrow> int" where
  "writeDomainError (App ErrTransactionNotFound) = 404"
| "writeDomainError (App ErrInvalidTransaction) = 400"
| "writeDomainError (App ErrInvalidStatus) = 400"
| "writeDomainError (App ErrInvalidType) = 400"
| "writeDomainError (App (ErrHorizon True e)) = 503"
| "writeDomainError _ = 500"

definition ownVault :: "uuid \<Rightarrow> uuid \<Rightarrow> int option tdb" where
  "ownVault vaultID user = bind (attempt (on_vaults (pgGetVault vaultID))) (\<lambda>found.
     case found of
       Inl e \<Rightarrow> ret (Some (if e = App (ErrVault (App ErrVaultNotFound)) then 404 else 500))
     | Inr v \<Rightarrow> ret (if vUserID v \<noteq> user then Some 404 else None))"

definition createTransaction :: "(nat \<Rightarrow> uuid) \<Rightarrow> decimal_ops \<Rightarrow> uuid option \<Rightarrow> create_request \<Rightarrow> (int \<times> tx_model option) tdb" where
  "createTransaction gen dec caller req = (case rqVaultID req of
     None \<Rightarrow> ret (400, None)
   | Some vaultID \<Rightarrow> (case caller of
       None \<Rightarrow> ret (401, None)
     | Some user \<Rightarrow>
         bind (ownVault vaultID user) (\<lambda>denied. case denied of
           Some code \<Rightarrow> ret (code, None)
         | None \<Rightarrow> (case NewFromString dec (rqAmount req) of
             None \<Rightarrow> ret (400, None)
           | Some amount \<Rightarrow>
               if rqType req \<noteq> TypeDeposit \<and> rqType req \<noteq> TypeWithdrawal then ret (400, None)
               else bind (attempt (RegisterTransaction gen \<lparr> rgVaultID = vaultID, rgType = rqType req, rgAmount = amount,
                      rgCurrency = rqCurrency req, rgTxHash = rqTxHash req \<rparr>)) (\<lambda>r.
                 case r of Inl e \<Rightarrow> ret (writeDomainError e, None) | Inr m \<Rightarrow> ret (201, Some m))))))"

definition getTransactionByHash :: "decimal_ops \<Rightarrow> tx_service \<Rightarrow> horizon \<Rightarrow> uuid option \<Rightarrow> string \<Rightarrow> (int \<times> tx_model option) tdb" where
  "getTransactionByHash dec s hz caller hash =
     (if hash = '''' then ret (400, None)
      else case caller of
        None \<Rightarrow> ret (401, None)
      | Some user \<Rightarrow>
          bind (attempt (GetTransaction dec s hz hash)) (\<lambda>r. case r of
            Inl e \<Rightarrow> ret (writeDomainError e, None)
          | Inr m \<Rightarrow> bind (ownVault (xVaultID m) user) (\<lambda>denied. case denied of
              Some code \<Rightarrow> ret (code, None)
            | None \<Rightarrow> ret (200, Some m))))"

section \<open>What a claim is checked against\<close>

text \<open>The three tests as predicates on one operation, each on top of the one before.\<close>

definition pays_to :: "chain_claim \<Rightarrow> horizon_operation \<Rightarrow> bool" where
  "pays_to claim o1 \<longleftrightarrow> isValueTransfer o1 \<and> EqualFold (destination o1) (Destination claim)"

definition pays_asset :: "chain_claim \<Rightarrow> horizon_operation \<Rightarrow> bool" where
  "pays_asset claim o1 \<longleftrightarrow> pays_to claim o1 \<and> (Asset claim = '''' \<or> EqualFold (assetCode o1) (Asset claim))"

definition pays_claim :: "decimal_ops \<Rightarrow> chain_claim \<Rightarrow> horizon_operation \<Rightarrow> bool" where
  "pays_claim dec claim o1 \<longleftrightarrow> pays_asset claim o1 \<and> 0 < claimAmount claim
     \<and> NewFromString dec (trim_space (opAmount o1)) = Some (claimAmount claim)"

lemma scanOps_exact:
  "scanOps dec claim dm am ops =
     (if list_ex (pays_claim dec claim) ops then Inr (claimAmount claim)
      else Inl (dm \<or> list_ex (pays_to claim) ops, am \<or> list_ex (pays_asset claim) ops))"
  by (induction ops arbitrary: dm am)
    (auto simp: pays_to_def pays_asset_def pays_claim_def split: option.splits)

text \<open>
  C8: The check of a claim is exact: it answers the claimed amount exactly when some operation
  of the transaction moves value to the claimed destination, in the claimed asset and in exactly
  that positive amount, and refuses every other transaction. A refusal is reported as an amount
  mismatch exactly when some operation pays the destination in the asset but none in that amount, and as an
  asset mismatch exactly when some operation pays the destination but none in the asset. (Which of the two
  remaining reasons an operation list without any payment to the destination gets is not as the
  constants are documented: \<open>unrelated_hash_reason\<close>.)
\<close>

theorem claim_verdict_exact:
  "(claimVerdict dec claim ops = Inr x \<longleftrightarrow> list_ex (pays_claim dec claim) ops \<and> x = claimAmount claim) \<and>
   ((\<exists>why. claimVerdict dec claim ops = Inl why) \<longleftrightarrow> \<not> list_ex (pays_claim dec claim) ops) \<and>
   (claimVerdict dec claim ops = Inl ReasonAmountMismatch \<longleftrightarrow>
      list_ex (pays_asset claim) ops \<and> \<not> list_ex (pays_claim dec claim) ops) \<and>
   (claimVerdict dec claim ops = Inl ReasonAssetMismatch \<longleftrightarrow>
      list_ex (pays_to claim) ops \<and> \<not> list_ex (pays_asset claim) ops)"
proof -
  have sub: "list_ex (pays_claim dec claim) ops \<Longrightarrow> list_ex (pays_asset claim) ops" "list_ex (pays_asset claim) ops \<Longrightarrow> list_ex (pays_to claim) ops"
    by (auto simp: list_ex_iff pays_claim_def pays_asset_def)
  have diff: "ReasonAmountMismatch \<noteq> ReasonAssetMismatch" "ReasonAmountMismatch \<noteq> ReasonDestinationMismatch" "ReasonAmountMismatch \<noteq> ReasonNoMatchingOperation"
    "ReasonAssetMismatch \<noteq> ReasonDestinationMismatch" "ReasonAssetMismatch \<noteq> ReasonNoMatchingOperation"
    by (simp_all add: ReasonAmountMismatch_def ReasonAssetMismatch_def ReasonDestinationMismatch_def ReasonNoMatchingOperation_def)
  have "claimVerdict dec claim ops =
     (if list_ex (pays_claim dec claim) ops then Inr (claimAmount claim)
      else if ops = [] then Inl ReasonNoMatchingOperation
      else if \<not> list_ex (pays_to claim) ops then Inl ReasonDestinationMismatch
      else if \<not> list_ex (pays_asset claim) ops then Inl ReasonAssetMismatch
      else Inl ReasonAmountMismatch)"
    by (auto simp: claimVerdict_def scanOps_exact)
  then show ?thesis using sub diff diff [symmetric] by (cases "ops = []") auto
qed

section \<open>What a confirmation does to the vault\<close>

definition vaults_same :: "vault_db \<Rightarrow> vault_db \<Rightarrow> bool" where
  "vaults_same d d' \<longleftrightarrow> vaults d' = vaults d"

lemma vaults_same_order: "reflp vaults_same" "transp vaults_same"
  by (auto simp: vaults_same_def reflp_def transp_def)

lemma vaults_same_wrappers: "moves vaults_same (on_books m)" "moves vaults_same m1 \<Longrightarrow> moves vaults_same (dropped m1)"
proof -
  show "moves vaults_same (on_books m)" by (auto simp: moves_def on_books_def vaults_same_def split: prod.splits)
  show "moves vaults_same (dropped m1)" if "moves vaults_same m1"
    using movesD [OF that] by (auto simp: moves_def dropped_def split: prod.splits sum.splits)
qed

lemmas vaults_same_rules = moves_bind [OF vaults_same_order(2)] moves_trivial [OF vaults_same_order(1)] moves_if moves_option moves_sum
  vaults_same_wrappers

lemma rewritten_same: "vaults_same d1 d2 \<Longrightarrow> rewritten i f d d1 \<Longrightarrow> rewritten i f d d2"
  by (simp add: rewritten_def vaults_same_def)

lemma confirmed_row:
  assumes run: "applyConfirmedBalanceChange gen dec i x h ty w = (r, w')" and moved: "data w' \<noteq> data w"
  shows "0 < x \<and> \<not> claimed h w \<and> (\<exists>now. rewritten i (if ty = ''deposit'' then credit x now else debit x now) (data w) (data w'))"
proof -
  let ?f = "\<lambda>now. if ty = ''deposit'' then credit x now else debit x now"
  let ?R = "\<lambda>u. \<exists>now. rewritten i (?f now) (data w) (data u)"
  let ?same = "\<lambda>u :: vault_db dbw. data u = data w"
  have new: "\<not> claimed h w" using confirmed_claimed [OF _ run] moved by blast
  have ok: "\<not> x \<le> 0" "trim_space h \<noteq> ''''"
    using run moved by (auto simp: applyConfirmedBalanceChange_def fail_def split: if_splits)
  have drawn: "hoare ?same (new_uuid gen) (\<lambda>_. ?same)" "hoare ?same time_now (\<lambda>_. ?same)"
    by (auto simp: hoare_def new_uuid_def time_now_def)
  have ins: "hoare ?same (stmt (insertTxn t)) (\<lambda>b u. if b then vaults (data u) = vaults (data w) else ?same u)" for t
    by (rule hoare_stmt) (auto simp: insertTxn_def Let_def split: if_splits)
  have upd: "hoare (\<lambda>u. vaults (data u) = vaults (data w)) (updateOne i (if ty = ''deposit'' then credit x else debit x)) (\<lambda>_. ?R)"
    unfolding hoare_def by (auto dest!: updateOne_rewritten simp: rewritten_def)
  have keep: "hoare ?R m (\<lambda>_ u. ?same u \<or> ?R u)" if "moves vaults_same m" for m :: "unit vdb"
  proof (unfold hoare_def, intro allI impI disjI2)
    fix u a u' assume "?R u" "m u = (Inr a, u')"
    then show "?R u'" using rewritten_same [OF movesD [OF that]] by blast
  qed
  have stay: "hoare ?same (ret ()) (\<lambda>_ u. ?same u \<or> ?R u)" by (rule hoare_ret) simp
  have branch: "hoare (\<lambda>u. if b then vaults (data u) = vaults (data w) else ?same u) (if \<not> b then ret () else m) (\<lambda>_ u. ?same u \<or> ?R u)"
    if "hoare (\<lambda>u. vaults (data u) = vaults (data w)) m (\<lambda>_ u. ?same u \<or> ?R u)" for b m
    using that stay by (cases b) simp_all
  note run' = run [unfolded applyConfirmedBalanceChange_def Let_def if_not_P [OF ok(1)] if_not_P [OF ok(2)]]
  have "?same w' \<or> ?R w'"
  proof -
    have "(\<exists>a w1. (?same w1 \<or> ?R w1) \<and> data w' = data w1 \<and> (r = Inr a \<or> r = Inl DBFailure)) \<or> data w' = data w \<and> (\<exists>e. r = Inl e)"
    proof (rule transaction_hoare [OF _ _ run', where P = ?same and Q = "\<lambda>_ u. ?same u \<or> ?R u"])
      show "?same (w \<lparr> sched := tl (sched w) \<rparr>)" by simp
    qed (rule hoare_bind [OF drawn(1)] hoare_bind [OF drawn(2)] hoare_bind [OF ins] branch hoare_bind [OF upd] keep vaults_same_rules)+
    then show ?thesis by auto
  qed
  then show ?thesis using moved new ok by auto
qed

definition vault_world :: "tx_state dbw \<Rightarrow> vault_db dbw" where
  "vault_world w = \<lparr> data = vaultTables (data w), sched = sched w, drawn = drawn w, wall = wall w \<rparr>"

lemma vault_world_simps [simp]: "data (vault_world w) = vaultTables (data w)" "drawn (vault_world w) = drawn w" "wall (vault_world w) = wall w"
  by (simp_all add: vault_world_def)

lemma on_vaults_run:
  assumes "on_vaults m w = (r, w')"
  obtains q b where "m (vault_world w) = (q, b)" "data w' = (data w) \<lparr> vaultTables := data b \<rparr>" "drawn w' = drawn b" "sched w' = sched b"
    "r = (case q of Inl e \<Rightarrow> Inl (App (ErrVault e)) | Inr a \<Rightarrow> Inr a)" "wall w' = wall w"
  using assms by (auto simp: on_vaults_def vault_world_def split: prod.splits)

text \<open>Calls that only read.\<close>

lemmas reading = moves_bind [of "(=)"] moves_trivial [of "(=)"] moves_if moves_option moves_sum moves_attempt moves_prod

lemma same_order [simp]: "reflp ((=) :: 'a \<Rightarrow> 'a \<Rightarrow> bool)" "transp ((=) :: 'a \<Rightarrow> 'a \<Rightarrow> bool)"
  by (auto simp: reflp_def transp_def)

lemma pgGetVault_reads: "moves (=) (pgGetVault i)"
  unfolding pgGetVault_def by (intro reading) simp_all

lemma on_vaults_reads: "moves (=) m \<Longrightarrow> moves (=) (on_vaults m)"
  by (auto simp: moves_def on_vaults_def split: prod.splits) (metis dbw.select_convs(1) snd_conv tx_state.surjective tx_state.update_convs(1))

lemma read_vault:
  assumes "on_vaults (pgGetVault i) w = (r, w')"
  shows "data w' = data w" and "r = Inr v \<Longrightarrow> \<exists>v0 as. List.find (hit i) (vaults (vaultTables (data w))) = Some v0 \<and> v = v0 \<lparr> Allocations := as \<rparr>"
proof -
  obtain q b where b: "pgGetVault i (vault_world w) = (q, b)" "data w' = (data w) \<lparr> vaultTables := data b \<rparr>"
    "r = (case q of Inl e \<Rightarrow> Inl (App (ErrVault e)) | Inr a \<Rightarrow> Inr a)" using on_vaults_run [OF assms] by metis
  show "data w' = data w" using movesD [OF on_vaults_reads [OF pgGetVault_reads] assms] by simp
  assume "r = Inr v"
  then have "pgGetVault i (vault_world w) = (Inr v, b)" using b(1,3) by (cases q) auto
  then show "\<exists>v0 as. List.find (hit i) (vaults (vaultTables (data w))) = Some v0 \<and> v = v0 \<lparr> Allocations := as \<rparr>"
    by (rule pgGetVault_row) auto
qed

text \<open>The claim a deposit makes about the chain, read off the live row of its vault.\<close>

definition deposit_claim :: "vault \<Rightarrow> tx_model \<Rightarrow> chain_claim" where
  "deposit_claim v m = \<lparr> Destination = trim_space (ContractAddress v), Asset = to_upper (trim_space (Currency v)), claimAmount = xAmount m \<rparr>"

definition backed :: "decimal_ops \<Rightarrow> horizon \<Rightarrow> vault_db \<Rightarrow> tx_model \<Rightarrow> bool" where
  "backed dec hz d m \<longleftrightarrow> (case (List.find (hit (xVaultID m)) (vaults d), getOperations hz (TxHash m)) of
     (Some v, Response code (Some ops)) \<Rightarrow> code = 200 \<and> trim_space (ContractAddress v) \<noteq> '''' \<and> list_ex (pays_claim dec (deposit_claim v m)) ops
   | _ \<Rightarrow> False)"

lemma verifyChainClaim_Inr:
  assumes "verifyChainClaim dec hz h c = Inr x"
  obtains ops where "getOperations hz h = Response 200 (Some ops)" "x = claimAmount c" "list_ex (pays_claim dec c) ops"
  using assms by (auto simp: verifyChainClaim_def lookupHorizonOperations_def claimVerdict_def scanOps_exact
      split: reply.splits option.splits if_splits sum.splits prod.splits)

lemma wired_simps [simp]: "balance (wired gen dec url) = Some (pgApplier gen dec)" "vaultLookup (wired gen dec url)"
  by (simp_all add: wired_def)

lemma verify_reads: "moves (=) (verifyConfirmedClaim dec s hz m)"
  unfolding verifyConfirmedClaim_def Let_def
  by (intro reading on_vaults_reads pgGetVault_reads same_order)

lemma verify_answers: "\<exists>v. fst (verifyConfirmedClaim dec s hz m w) = Inr v"
proof -
  obtain r w1 where "on_vaults (pgGetVault (xVaultID m)) w = (r, w1)" by fastforce
  then show ?thesis
    by (cases r) (simp_all add: verifyConfirmedClaim_def ret_def bind_def attempt_def Let_def)
qed

lemma verify_deposit:
  assumes "verifyConfirmedClaim dec (wired gen dec url) hz m w = (Inr (Inr x), w')" and "xType m = TypeDeposit"
  shows "x = xAmount m \<and> backed dec hz (vaultTables (data w)) m"
proof -
  obtain v w1 where v: "on_vaults (pgGetVault (xVaultID m)) w = (Inr v, w1)" and a: "trim_space (ContractAddress v) \<noteq> ''''"
    and c: "verifyChainClaim dec hz (TxHash m) \<lparr> Destination = trim_space (ContractAddress v), Asset = to_upper (trim_space (Currency v)), claimAmount = xAmount m \<rparr> = Inr x"
  proof -
    obtain q w1 where q: "on_vaults (pgGetVault (xVaultID m)) w = (q, w1)" by fastforce
    show thesis
    proof (cases q)
      case (Inl e)
      then show thesis using assms q by (simp add: verifyConfirmedClaim_def bind_def attempt_def ret_def)
    next
      case (Inr v)
      show thesis
        by (rule that [of v w1]; use assms q Inr in \<open>cases "trim_space (ContractAddress v) = ''''"\<close>)
          (simp_all add: verifyConfirmedClaim_def bind_def attempt_def ret_def Let_def)
    qed
  qed
  obtain v0 as where "List.find (hit (xVaultID m)) (vaults (vaultTables (data w))) = Some v0" "v = v0 \<lparr> Allocations := as \<rparr>"
    using read_vault(2) [OF v refl] by auto
  moreover obtain ops where "getOperations hz (TxHash m) = Response 200 (Some ops)" "x = xAmount m"
    "list_ex (pays_claim dec \<lparr> Destination = trim_space (ContractAddress v), Asset = to_upper (trim_space (Currency v)), claimAmount = xAmount m \<rparr>) ops"
    by (rule verifyChainClaim_Inr [OF c]) simp
  ultimately show ?thesis using a by (simp add: backed_def deposit_claim_def)
qed

lemma verify_withdrawal:
  "verifyConfirmedClaim dec s hz m w = (Inr (Inr x), w') \<Longrightarrow> xType m \<noteq> TypeDeposit \<Longrightarrow> x = xAmount m"
  by (auto simp: verifyConfirmedClaim_def ret_def split: if_splits)

section \<open>One reconciliation\<close>

lemma bind_ret: "bind m (\<lambda>a. ret (f a)) w = (r, w') \<longleftrightarrow> (\<exists>q. m w = (q, w') \<and> r = (case q of Inl e \<Rightarrow> Inl e | Inr a \<Rightarrow> Inr (f a)))"
  by (auto simp: bind_def ret_def split: prod.splits sum.splits)

lemma pending_iff: "\<not> (xStatus m = StatusCompleted \<or> xStatus m = StatusFailed) \<longleftrightarrow> xStatus m = StatusPending"
  by (cases "xStatus m") auto

text \<open>What a reconciliation does: nothing, mark the row failed, or move the balance and then mark the row completed.\<close>

lemma on_vaults_grows: "grows m \<Longrightarrow> grows (on_vaults m)"
  by (auto simp: grows_def on_vaults_def split: prod.splits) (metis dbw.select_convs(3) snd_conv)

lemma verify_grows: "grows (verifyConfirmedClaim dec s hz m)"
  unfolding verifyConfirmedClaim_def pgGetVault_def Let_def by (intro grows_rules on_vaults_grows)

lemma reconcile_cases:
  assumes run: "ReconcileTransaction dec s hz m w = (r, w')"
  obtains
    (idle) "data w' = data w \<and> drawn w \<le> drawn w'" "r = Inr (m, False) \<or> (\<exists>e. r = Inl e)"
  | (failed) w1 c why q where "xStatus m = StatusPending" "data w1 = data w \<and> drawn w \<le> drawn w1" "pgUpdateStatus (TxHash m) StatusFailed c why w1 = (q, w')"
      "r = (case q of Inl e \<Rightarrow> Inl e | Inr u \<Rightarrow> Inr (u, True))"
  | (refused) w1 x e where "xStatus m = StatusPending" "data w1 = data w \<and> drawn w \<le> drawn w1" "verifyConfirmedClaim dec s hz m w = (Inr (Inr x), w1)"
      "applyConfirmedBalance s (m \<lparr> xAmount := x \<rparr>) w1 = (Inl e, w')" "r = Inl e"
      "\<exists>t. lookupHorizonTransaction s hz (TxHash m) = Inr (StatusCompleted, t, '''')"
  | (completed) w1 w2 x c q where "xStatus m = StatusPending" "data w1 = data w \<and> drawn w \<le> drawn w1" "verifyConfirmedClaim dec s hz m w = (Inr (Inr x), w1)"
      "applyConfirmedBalance s (m \<lparr> xAmount := x \<rparr>) w1 = (Inr (), w2)" "pgUpdateStatus (TxHash m) StatusCompleted c '''' w2 = (q, w')"
      "r = (case q of Inl e \<Rightarrow> Inl e | Inr u \<Rightarrow> Inr (u, True))"
      "lookupHorizonTransaction s hz (TxHash m) = Inr (StatusCompleted, c, '''')"
proof (cases "xStatus m = StatusPending")
  case False
  then show thesis using run idle by (cases "xStatus m") (auto simp: ReconcileTransaction_def ret_def)
next
  case pend: True
  note run' = run [unfolded ReconcileTransaction_def pend, simplified]
  show thesis
  proof (cases "lookupHorizonTransaction s hz (TxHash m)")
    case (Inl e)
    then show thesis using run' idle by (auto simp: ret_def fail_def split: if_splits)
  next
    case (Inr t)
    obtain st c why where t: "t = (st, c, why)" by (cases t)
    consider "st = StatusPending" | "st = StatusFailed" | "st = StatusCompleted" by (cases st)
    then show thesis
    proof cases
      case 1
      then show thesis using run' Inr t idle by (simp add: ret_def)
    next
      case 2
      then show thesis using run' Inr t failed [OF pend conjI [OF refl order_refl]] by (auto simp: bind_ret)
    next
      case 3
      have why: "why = ''''" using Inr t 3 by (auto simp: lookupHorizonTransaction_def split: if_splits reply.splits option.splits)
      obtain v w1 where v: "verifyConfirmedClaim dec s hz m w = (Inr v, w1)" using verify_answers by (metis prod.collapse)
      have same: "data w1 = data w \<and> drawn w \<le> drawn w1" using movesD [OF verify_reads v] growsD [OF verify_grows v] by simp
      show thesis
      proof (cases v)
        case (Inl p)
        then show thesis using run' Inr t 3 v same idle failed [OF pend same]
          by (cases p) (auto simp: bind_def [of "verifyConfirmedClaim dec s hz m"] bind_ret fail_def split: if_splits)
      next
        case vx: (Inr x)
        obtain q w2 where ap: "applyConfirmedBalance s (m \<lparr> xAmount := x \<rparr>) w1 = (q, w2)" by fastforce
        have rest: "(case q of Inl e \<Rightarrow> (Inl e, w2) | Inr _ \<Rightarrow> bind (pgUpdateStatus (TxHash m) StatusCompleted c '''') (\<lambda>u. ret (u, True)) w2) = (r, w')"
          using run' Inr t 3 v vx ap why by (simp add: bind_def [of "verifyConfirmedClaim dec s hz m"] bind_def [of "applyConfirmedBalance s (m \<lparr> xAmount := x \<rparr>)"] Let_def split: sum.splits)
        show thesis
        proof (cases q)
          case (Inl e)
          then show thesis using refused [OF pend same v [unfolded vx]] ap rest Inr t 3 why by auto
        next
          case (Inr y)
          then show thesis
            using completed [OF pend same v [unfolded vx]] ap rest \<open>lookupHorizonTransaction s hz (TxHash m) = Inr t\<close> t 3 why by (auto simp: bind_ret)
        qed
      qed
    qed
  qed
qed

lemma pgUpdateStatus_effect:
  assumes "pgUpdateStatus h st c why w = (q, w')"
  shows "data w' = (data w) \<lparr> txRows := map (\<lambda>r. if TxHash r = h then set_status st c why (wall w) r else r) (txRows (data w)) \<rparr>
    \<or> data w' = data w \<and> (\<exists>e. q = Inl e)"
proof (cases "next_fault (sched w)")
  case True
  then show ?thesis using assms by (auto simp: pgUpdateStatus_def bind_def time_now_def stmt_def Let_def)
next
  case False
  let ?u = "w \<lparr> sched := tl (sched w), data := (data w) \<lparr> txRows := map (\<lambda>r. if TxHash r = h then set_status st c why (wall w) r else r) (txRows (data w)) \<rparr> \<rparr>"
  have "data (snd (pgGetByHash h ?u)) = data ?u" unfolding pgGetByHash_def by (rule query_data)
  moreover have "(if length (filter (\<lambda>r. TxHash r = h) (txRows (data w))) = 0 then fail (App ErrTransactionNotFound) else pgGetByHash h) ?u = (q, w')"
    using assms False by (simp add: pgUpdateStatus_def bind_def time_now_def stmt_def Let_def)
  ultimately show ?thesis by (simp add: fail_def split: if_splits) fastforce
qed

lemma apply_run:
  assumes "applyConfirmedBalance (wired gen dec url) m w = (q, w')"
  obtains (none) "xType m \<noteq> TypeDeposit" "xType m \<noteq> TypeWithdrawal" "w' = w" "q = Inr ()"
  | (change) q1 b where "xType m = TypeDeposit \<or> xType m = TypeWithdrawal"
      "applyConfirmedBalanceChange gen dec (xVaultID m) (xAmount m) (TxHash m) (xType m) (vault_world w) = (q1, b)"
      "data w' = (data w) \<lparr> vaultTables := data b \<rparr>" "q = Inr () \<Longrightarrow> q1 = Inr ()" "q1 = Inr () \<Longrightarrow> q = Inr ()"
proof -
  have go: thesis if ov: "on_vaults (applyConfirmedBalanceChange gen dec (xVaultID m) (xAmount m) (TxHash m) (xType m)) w = (q, w')"
    and ty: "xType m = TypeDeposit \<or> xType m = TypeWithdrawal"
  proof -
    obtain q1 b where b: "applyConfirmedBalanceChange gen dec (xVaultID m) (xAmount m) (TxHash m) (xType m) (vault_world w) = (q1, b)"
      "data w' = (data w) \<lparr> vaultTables := data b \<rparr>" and q: "q = (case q1 of Inl e \<Rightarrow> Inl (App (ErrVault e)) | Inr a \<Rightarrow> Inr a)"
      using on_vaults_run [OF ov] by metis
    show thesis by (rule change [OF ty b]) (use q in \<open>simp_all split: sum.splits\<close>)
  qed
  consider "xType m = TypeDeposit" | "xType m \<noteq> TypeDeposit" "xType m = TypeWithdrawal" | "xType m \<noteq> TypeDeposit" "xType m \<noteq> TypeWithdrawal" by blast
  then show thesis
  proof cases
    case 1
    then have "on_vaults (applyConfirmedBalanceChange gen dec (xVaultID m) (xAmount m) (TxHash m) (xType m)) w = (q, w')"
      using assms by (simp add: applyConfirmedBalance_def pgApplier_def pgApplyConfirmedDeposit_def TypeDeposit_def)
    then show thesis using go 1 by blast
  next
    case 2
    then have "on_vaults (applyConfirmedBalanceChange gen dec (xVaultID m) (xAmount m) (TxHash m) (xType m)) w = (q, w')"
      using assms by (simp add: applyConfirmedBalance_def pgApplier_def pgApplyConfirmedWithdrawal_def TypeWithdrawal_def TypeDeposit_def)
    then show thesis using go 2 by blast
  next
    case 3
    then show thesis using assms none by (simp add: applyConfirmedBalance_def ret_def)
  qed
qed

definition succeeded :: "horizon \<Rightarrow> string \<Rightarrow> bool" where
  "succeeded hz h = (case getTransaction hz h of Response code (Some p) \<Rightarrow> code = 200 \<and> Successful p | _ \<Rightarrow> False)"

lemma lookup_succeeded: "lookupHorizonTransaction s hz h = Inr (StatusCompleted, c, why) \<Longrightarrow> succeeded hz h"
  by (auto simp: lookupHorizonTransaction_def succeeded_def split: if_splits reply.splits option.splits)

text \<open>
  C5: A reconciliation moves the balance of a vault only for a pending transaction that Horizon
  reports as successful and whose hash has moved nothing before. A deposit in addition needs an
  operation of that transaction that pays the address of the vault, in its currency, exactly the
  claimed amount. The change is a credit or debit of exactly that amount on that one vault. This
  holds whatever else happens: faults, lost acknowledgements, stale copies of the row.
\<close>

theorem balance_moves_only_as_proven:
  assumes run: "ReconcileTransaction dec (wired gen dec url) hz m w = (r, w')" and moved: "vaultTables (data w') \<noteq> vaultTables (data w)"
  shows "xStatus m = StatusPending \<and> succeeded hz (TxHash m) \<and> \<not> claimed (TxHash m) (vault_world w) \<and> 0 < xAmount m
    \<and> (xType m = TypeDeposit \<and> backed dec hz (vaultTables (data w)) m
         \<and> (\<exists>now. rewritten (xVaultID m) (credit (xAmount m) now) (vaultTables (data w)) (vaultTables (data w')))
       \<or> xType m = TypeWithdrawal
         \<and> (\<exists>now. rewritten (xVaultID m) (debit (xAmount m) now) (vaultTables (data w)) (vaultTables (data w'))))"
proof -
  have core: ?thesis if pend: "xStatus m = StatusPending" and same: "data w1 = data w \<and> drawn w \<le> drawn w1"
    and v: "verifyConfirmedClaim dec (wired gen dec url) hz m w = (Inr (Inr x), w1)"
    and ap: "applyConfirmedBalance (wired gen dec url) (m \<lparr> xAmount := x \<rparr>) w1 = (q, w2)"
    and rest: "vaultTables (data w') = vaultTables (data w2)" and ok: "succeeded hz (TxHash m)" for w1 w2 x q
  proof -
    have x: "x = xAmount m" using verify_deposit [OF v] verify_withdrawal [OF v] by blast
    have mx: "m \<lparr> xAmount := x \<rparr> = m" by (simp add: x)
    show ?thesis using ap [unfolded mx]
    proof (cases rule: apply_run)
      case none
      then show ?thesis using moved rest same by simp
    next
      case (change q1 b)
      have "data b \<noteq> data (vault_world w1)" using moved rest same change(3) by simp
      from confirmed_row [OF change(2) this] change(1,3) show ?thesis
        using verify_deposit [OF v] pend ok rest same
        by (auto simp: claimed_def TypeDeposit_def TypeWithdrawal_def)
    qed
  qed
  show ?thesis using run
  proof (cases rule: reconcile_cases)
    case idle
    then show ?thesis using moved by simp
  next
    case (failed w1 c why q)
    then show ?thesis using moved pgUpdateStatus_effect [OF failed(3)] by auto
  next
    case (refused w1 x e)
    then show ?thesis using core [OF refused(1-4)] lookup_succeeded by blast
  next
    case (completed w1 w2 x c q)
    have "vaultTables (data w') = vaultTables (data w2)" using pgUpdateStatus_effect [OF completed(5)] by auto
    then show ?thesis using core [OF completed(1-4)] lookup_succeeded [OF completed(7)] by blast
  qed
qed

lemma numeric_again: "numeric n (numeric n x) = numeric n x"
proof -
  have "\<lfloor>1 / 2 :: rat\<rfloor> = 0" by (simp add: floor_eq_iff)
  then show ?thesis by (simp add: numeric_def half_away_def)
qed

section \<open>Registrations, requests and the poller together\<close>

text \<open>
  Any number of requests and poller ticks work at the same time, on several instances. A request
  holds the copy of the row it read, which other calls may overwrite; it moves the balance in one
  step and marks the row in a later one, or never, when it dies. The state is the database, the
  copies that were read and the marks that are due. The vault service works on the same tables.
  \<open>P\<close> holds the claims that are ever presented for a hash, by a registration or by the vault
  service: the vault, the type and the amount in the precision of the columns.
\<close>

type_synonym tmark = "string \<times> tx_status \<times> time option \<times> string"

definition with_vaults :: "tx_state dbw \<Rightarrow> vault_db dbw \<Rightarrow> tx_state dbw" where
  "with_vaults w b = w \<lparr> data := (data w) \<lparr> vaultTables := data b \<rparr>, sched := sched b, drawn := drawn b, wall := wall b \<rparr>"

type_synonym presented = "(string \<times> uuid \<times> string \<times> rat) set"

definition row_in :: "presented \<Rightarrow> vault_transaction \<Rightarrow> bool" where
  "row_in P t \<longleftrightarrow> (case TransactionHash t of None \<Rightarrow> True | Some h \<Rightarrow> (h, tVaultID t, tType t, tAmount t) \<in> P)"

definition tx_in :: "presented \<Rightarrow> tx_model \<Rightarrow> bool" where
  "tx_in P m \<longleftrightarrow> (TxHash m, xVaultID m, xType m, xAmount m) \<in> P \<and> numeric 8 (xAmount m) = xAmount m"

inductive tstep :: "(nat \<Rightarrow> uuid) \<Rightarrow> decimal_ops \<Rightarrow> string \<Rightarrow> presented \<Rightarrow> tx_state dbw \<times> tx_model set \<times> tmark set \<Rightarrow> tx_state dbw \<times> tx_model set \<times> tmark set \<Rightarrow> bool"
  for gen dec url P where
  Register: "RegisterTransaction gen inp w = (r, w') \<Longrightarrow>
    (trim_space (rgTxHash inp), rgVaultID inp, to_lower (trim_space (rgType inp)), numeric 8 (rgAmount inp)) \<in> P \<Longrightarrow> tstep gen dec url P (w, S, M) (w', S, M)"
| Get: "pgGetByHash h w = (Inr m, w') \<Longrightarrow> tstep gen dec url P (w, S, M) (w', insert m S, M)"
| Pending: "pgListPendingOlderThan cutoff w = (Inr ms, w') \<Longrightarrow> tstep gen dec url P (w, S, M) (w', set ms \<union> S, M)"
| Apply: "m \<in> S \<Longrightarrow> xStatus m = StatusPending \<Longrightarrow> applyConfirmedBalance (wired gen dec url) m w = (Inr (), w') \<Longrightarrow>
    tstep gen dec url P (w, S, M) (w', S, insert (TxHash m, StatusCompleted, c, '''') M)"
| Refused: "m \<in> S \<Longrightarrow> xStatus m = StatusPending \<Longrightarrow> applyConfirmedBalance (wired gen dec url) m w = (Inl e, w') \<Longrightarrow>
    tstep gen dec url P (w, S, M) (w', S, M)"
| Reject: "m \<in> S \<Longrightarrow> xStatus m = StatusPending \<Longrightarrow> tstep gen dec url P (w, S, M) (w, S, insert (TxHash m, StatusFailed, c, why) M)"
| Mark: "(h, st, c, why) \<in> M \<Longrightarrow> pgUpdateStatus h st c why w = (q, w') \<Longrightarrow> tstep gen dec url P (w, S, M) (w', S, M)"
| Vaults: "vstep gen dec (vault_world w) b \<Longrightarrow> \<forall>t \<in> set (txns (data b)) - set (txns (vaultTables (data w))). row_in P t \<Longrightarrow>
    tstep gen dec url P (w, S, M) (with_vaults w b, S, M)"
| Other: "data w' = data w \<Longrightarrow> drawn w \<le> drawn w' \<Longrightarrow> tstep gen dec url P (w, S, M) (w', S, M)"

definition moved :: "string \<Rightarrow> tx_state \<Rightarrow> bool" where
  "moved h d \<longleftrightarrow> Some h \<in> TransactionHash ` set (txns (vaultTables d))"

definition money_type :: "tx_model \<Rightarrow> bool" where
  "money_type m \<longleftrightarrow> xType m = TypeDeposit \<or> xType m = TypeWithdrawal"

definition settled_rows :: "presented \<Rightarrow> tx_state dbw \<times> tx_model set \<times> tmark set \<Rightarrow> bool" where
  "settled_rows P c = (case c of (w, S, M) \<Rightarrow>
     distinct (map TxHash (txRows (data w)))
     \<and> (\<forall>r \<in> set (txRows (data w)). money_type r \<and> tx_in P r \<and> (xStatus r = StatusCompleted \<longrightarrow> moved (TxHash r) (data w)))
     \<and> (\<forall>m \<in> S. money_type m \<and> tx_in P m) \<and> (\<forall>(h, st, t, why) \<in> M. st = StatusCompleted \<longrightarrow> moved h (data w))
     \<and> (\<forall>t \<in> set (txns (vaultTables (data w))). row_in P t))"

text \<open>
  What \<^verbatim>\<open>VaultBalanceApplier\<close> asks of its implementations: a success leaves the hash on a row of
  the vault transactions, rows stay, a new row carries the arguments of the call, and a hash that is
  there changes nothing again.
\<close>

definition row_for :: "uuid \<Rightarrow> rat \<Rightarrow> string \<Rightarrow> string \<Rightarrow> vault_transaction \<Rightarrow> bool" where
  "row_for i x h ty t \<longleftrightarrow> TransactionHash t = Some h \<and> tVaultID t = i \<and> tType t = ty \<and> tAmount t = numeric 8 x"

definition only_row :: "uuid \<Rightarrow> rat \<Rightarrow> string \<Rightarrow> string \<Rightarrow> vault_db \<Rightarrow> vault_db \<Rightarrow> bool" where
  "only_row i x h ty d d' \<longleftrightarrow> (\<forall>t \<in> set (txns d'). t \<in> set (txns d) \<or> row_for i x h ty t)"

lemma only_order: "reflp (only_row i x h ty)" "transp (only_row i x h ty)"
  by (auto simp: only_row_def reflp_def transp_def)

lemma only_statements:
  "moves (only_row i x h ty) (stmt (updateVaultRow j f))"
  "row_for i x h ty (store_txn t) \<Longrightarrow> moves (only_row i x h ty) (stmt (insertTxn t))"
  by (rule moves_stmt [OF only_order(1)], auto simp: only_row_def updateVaultRow_def insertTxn_def Let_def split: if_splits)+

lemma only_wrappers: "moves (only_row i x h ty) (on_books m)" "moves (only_row i x h ty) m1 \<Longrightarrow> moves (only_row i x h ty) (dropped m1)"
  "moves (only_row i x h ty) m2 \<Longrightarrow> moves (only_row i x h ty) (transaction m2)"
proof -
  show "moves (only_row i x h ty) (on_books m)" by (auto simp: moves_def on_books_def only_row_def split: prod.splits)
  show "moves (only_row i x h ty) (dropped m1)" if "moves (only_row i x h ty) m1"
    using movesD [OF that] by (auto simp: moves_def dropped_def split: prod.splits sum.splits)
  show "moves (only_row i x h ty) (transaction m2)" if "moves (only_row i x h ty) m2"
    using movesD [OF that] unfolding moves_def transaction_def Let_def
    by (auto simp: only_row_def split: prod.splits sum.splits) fastforce+
qed

lemmas only_rules = moves_bind [OF only_order(2)] moves_trivial [OF only_order(1)] moves_if moves_option moves_sum only_wrappers

lemma confirmed_only_row: "moves (only_row i x h ty) (applyConfirmedBalanceChange gen dec i x h ty)"
  unfolding applyConfirmedBalanceChange_def Let_def updateOne_def
  by (intro only_rules only_statements) (simp add: row_for_def store_txn_def)

locale balance_applier =
  fixes ap :: applier
  assumes applied: "ApplyConfirmedDeposit ap i x h w = (Inr (), w') \<Longrightarrow> claimed h w'"
      "ApplyConfirmedWithdrawal ap i x h w = (Inr (), w') \<Longrightarrow> claimed h w'"
    and again: "claimed h w \<Longrightarrow> ApplyConfirmedDeposit ap i x h w = (q, w') \<Longrightarrow> data w' = data w"
      "claimed h w \<Longrightarrow> ApplyConfirmedWithdrawal ap i x h w = (q, w') \<Longrightarrow> data w' = data w"
    and rows: "moves kept_rows (ApplyConfirmedDeposit ap i x h)" "moves kept_rows (ApplyConfirmedWithdrawal ap i x h)"
    and new_row: "moves (only_row i x h ''deposit'') (ApplyConfirmedDeposit ap i x h)"
      "moves (only_row i x h ''withdrawal'') (ApplyConfirmedWithdrawal ap i x h)"
begin

lemma on_vaults_moves: "moves kept_rows m \<Longrightarrow> on_vaults m w = (q, w') \<Longrightarrow>
  txRows (data w') = txRows (data w) \<and> kept_rows (vaultTables (data w)) (vaultTables (data w'))"
  by (erule on_vaults_run) (auto dest: movesD)

lemma on_vaults_claims: "(\<And>u u'. m u = (Inr (), u') \<Longrightarrow> claimed h u') \<Longrightarrow> on_vaults m w = (Inr (), w') \<Longrightarrow> moved h (data w')"
  by (erule on_vaults_run) (auto simp: moved_def claimed_def split: sum.splits)

lemma on_vaults_again:
  assumes "\<And>u q u'. claimed h u \<Longrightarrow> m u = (q, u') \<Longrightarrow> data u' = data u" and "moved h (data w)" and "on_vaults m w = (r, w')"
  shows "data w' = data w"
proof -
  obtain q b where b: "m (vault_world w) = (q, b)" "data w' = (data w) \<lparr> vaultTables := data b \<rparr>" using on_vaults_run [OF assms(3)] by metis
  have "claimed h (vault_world w)" using assms(2) by (simp add: claimed_def moved_def)
  then show ?thesis using assms(1) [OF _ b(1)] b(2) by simp
qed

lemma apply_frame:
  "balance s = Some ap \<Longrightarrow> applyConfirmedBalance s m w = (q, w') \<Longrightarrow>
   txRows (data w') = txRows (data w) \<and> kept_rows (vaultTables (data w)) (vaultTables (data w'))"
  using on_vaults_moves [OF rows(1)] on_vaults_moves [OF rows(2)]
  by (auto simp: applyConfirmedBalance_def ret_def kept_rows_def split: if_splits)

lemma on_vaults_only: "moves (only_row i x h ty) m \<Longrightarrow> on_vaults m w = (q, w') \<Longrightarrow> only_row i x h ty (vaultTables (data w)) (vaultTables (data w'))"
  by (erule on_vaults_run) (auto dest: movesD)

lemma apply_row:
  "balance s = Some ap \<Longrightarrow> applyConfirmedBalance s m w = (q, w') \<Longrightarrow>
   only_row (xVaultID m) (xAmount m) (TxHash m) (xType m) (vaultTables (data w)) (vaultTables (data w'))"
  using on_vaults_only [OF new_row(1)] on_vaults_only [OF new_row(2)]
  by (auto simp: applyConfirmedBalance_def ret_def TypeDeposit_def TypeWithdrawal_def reflpD [OF only_order(1)] split: if_splits)

lemma apply_moves: "balance s = Some ap \<Longrightarrow> money_type m \<Longrightarrow> applyConfirmedBalance s m w = (Inr (), w') \<Longrightarrow> moved (TxHash m) (data w')"
  using on_vaults_claims [OF applied(1)] on_vaults_claims [OF applied(2)]
  by (auto simp: applyConfirmedBalance_def money_type_def split: if_splits)

lemma apply_again: "balance s = Some ap \<Longrightarrow> moved (TxHash m) (data w) \<Longrightarrow> applyConfirmedBalance s m w = (q, w') \<Longrightarrow> data w' = data w"
  using on_vaults_again [OF again(1)] on_vaults_again [OF again(2)]
  by (auto simp: applyConfirmedBalance_def ret_def split: if_splits)

end

interpretation pg: balance_applier "pgApplier gen dec" for gen dec
  by unfold_locales
    (auto simp: pgApplier_def pgApplyConfirmedDeposit_def pgApplyConfirmedWithdrawal_def intro: confirmed_claims repository_keeps_rows confirmed_only_row dest: confirmed_claimed)

lemma settled_frame:
  assumes "settled_rows P (w, S, M)" and "txRows (data w') = txRows (data w)" and "kept_rows (vaultTables (data w)) (vaultTables (data w'))"
    and "\<forall>t \<in> set (txns (vaultTables (data w'))) - set (txns (vaultTables (data w))). row_in P t"
  shows "settled_rows P (w', S, M)"
proof -
  have "moved h (data w) \<Longrightarrow> moved h (data w')" for h using assms(3) by (auto simp: moved_def kept_rows_def)
  moreover have "\<forall>t \<in> set (txns (vaultTables (data w'))). row_in P t" using assms(1,4) by (auto simp: settled_rows_def)
  ultimately show ?thesis using assms(1,2) by (fastforce simp: settled_rows_def)
qed

lemma only_row_in:
  assumes "only_row (xVaultID m) (xAmount m) (TxHash m) (xType m) d d'" and "tx_in P m"
  shows "\<forall>t \<in> set (txns d') - set (txns d). row_in P t"
  using assms by (auto simp: only_row_def row_for_def row_in_def tx_in_def)

lemmas apply_keeps = pg.apply_frame [OF wired_simps(1), THEN conjunct1] pg.apply_frame [OF wired_simps(1), THEN conjunct2]
  pg.apply_moves [OF wired_simps(1)] pg.apply_row [OF wired_simps(1)]

lemma set_status_fields [simp]: "money_type (set_status st c why now r) = money_type r" "TxHash (set_status st c why now r) = TxHash r"
    "xStatus (set_status st c why now r) = st" "tx_in P (set_status st c why now r) = tx_in P r"
  by (simp_all add: set_status_def money_type_def tx_in_def)

lemma hashes_kept: "(\<And>r. TxHash (f r) = TxHash r) \<Longrightarrow> map (TxHash \<circ> (\<lambda>r. if TxHash r = h then f r else r)) rs = map TxHash rs"
  by (induction rs) auto

lemma settled_mark:
  assumes inv: "settled_rows P (w, S, M)" and run: "pgUpdateStatus h st c why w = (q, w')" and ok: "st = StatusCompleted \<Longrightarrow> moved h (data w)"
  shows "settled_rows P (w', S, M)"
  using pgUpdateStatus_effect [OF run] inv ok by (auto simp: settled_rows_def moved_def hashes_kept split: if_splits)

lemma pgUpsert_effect:
  assumes "pgUpsert m w = (q, w')"
  obtains (none) "data w' = data w"
  | (inserted) new where "data w' = (data w) \<lparr> txRows := txRows (data w) @ [new] \<rparr>" "xStatus new = xStatus m" "xType new = xType m" "TxHash new = TxHash m"
      "TxHash m \<notin> TxHash ` set (txRows (data w))" "xVaultID new = xVaultID m" "xAmount new = numeric 8 (xAmount m)"
  | (updated) new now where "data w' = (data w) \<lparr> txRows := map (\<lambda>r. if TxHash r = TxHash m then overwrite new now r else r) (txRows (data w)) \<rparr>"
      "xStatus new = xStatus m" "xType new = xType m" "xVaultID new = xVaultID m" "xAmount new = numeric 8 (xAmount m)"
proof (cases "next_fault (sched w)")
  case True
  then show thesis using assms none by (auto simp: pgUpsert_def bind_def time_now_def stmt_def Let_def)
next
  case False
  let ?new = "store_tx (m \<lparr> xCreatedAt := wall w, xUpdatedAt := wall w \<rparr>)"
  have f: "xStatus ?new = xStatus m" "xType ?new = xType m" "TxHash ?new = TxHash m" "xVaultID ?new = xVaultID m" "xAmount ?new = numeric 8 (xAmount m)"
    by (simp_all add: store_tx_def)
  have none': "List.find (\<lambda>r. TxHash r = TxHash m) (txRows (data w)) = None \<Longrightarrow> TxHash m \<notin> TxHash ` set (txRows (data w))"
    by (auto simp: find_None_iff)
  from assms False have "data w' = data w \<or> List.find (\<lambda>r. TxHash r = TxHash m) (txRows (data w)) = None \<and> data w' = (data w) \<lparr> txRows := txRows (data w) @ [?new] \<rparr>
      \<or> data w' = (data w) \<lparr> txRows := map (\<lambda>r. if TxHash r = TxHash m then overwrite ?new (wall w) r else r) (txRows (data w)) \<rparr>"
    by (simp add: pgUpsert_def bind_def time_now_def stmt_def Let_def split: option.splits if_splits) fastforce+
  then show thesis using none inserted [of ?new] updated [of ?new "wall w"] f none' by blast
qed

lemma register_effect:
  assumes "RegisterTransaction gen inp w = (q, w')"
  shows "data w' = data w \<or> (\<exists>m w1. money_type m \<and> xStatus m = StatusPending \<and> data w1 = data w \<and> pgUpsert m w1 = (q, w')
    \<and> TxHash m = trim_space (rgTxHash inp) \<and> xVaultID m = rgVaultID inp \<and> xType m = to_lower (trim_space (rgType inp)) \<and> xAmount m = rgAmount inp)"
proof (cases "rgVaultID inp = uuid_nil \<or> rgAmount inp \<le> 0 \<or> trim_space (rgCurrency inp) = '''' \<or> trim_space (rgTxHash inp) = ''''")
  case True
  then show ?thesis using assms by (simp add: RegisterTransaction_def fail_def)
next
  case False
  show ?thesis
  proof (cases "isSupportedTransactionType (to_lower (trim_space (rgType inp)))")
    case ok: True
    then show ?thesis
      using assms False unfolding RegisterTransaction_def if_not_P [OF False] Let_def bind_def new_uuid_def time_now_def
      by (intro disjI2 exI conjI) (auto simp: money_type_def isSupportedTransactionType_def)
  qed (use assms in \<open>simp add: RegisterTransaction_def if_not_P [OF False] Let_def fail_def\<close>)
qed

lemma settled_upsert:
  assumes inv: "settled_rows P (w, S, M)" and run: "pgUpsert m w = (q, w')" and m: "money_type m" "xStatus m = StatusPending"
    and p: "(TxHash m, xVaultID m, xType m, numeric 8 (xAmount m)) \<in> P"
  shows "settled_rows P (w', S, M)"
  using run
proof (cases rule: pgUpsert_effect)
  case none
  then show ?thesis using inv by (simp add: settled_rows_def)
next
  case (inserted new)
  then show ?thesis using inv m p by (auto simp: settled_rows_def money_type_def moved_def tx_in_def numeric_again)
next
  case (updated new now)
  have o: "money_type (overwrite new now r)" "xStatus (overwrite new now r) = StatusPending" for r
    using updated(2,3) m by (simp_all add: overwrite_def money_type_def)
  have h: "TxHash (overwrite new now r) = TxHash r" for r by (simp add: overwrite_def)
  have i: "tx_in P (overwrite new now r)" if "TxHash r = TxHash m" for r
    using that p updated(3-5) by (simp add: overwrite_def tx_in_def numeric_again)
  show ?thesis using inv updated(1) o h i by (auto simp: settled_rows_def moved_def hashes_kept split: if_splits)
qed

lemma scan_type [simp]: "money_type (scanTransaction r) = money_type r" "TxHash (scanTransaction r) = TxHash r" "xStatus (scanTransaction r) = xStatus r"
    "tx_in P (scanTransaction r) = tx_in P r"
  by (simp_all add: scanTransaction_def money_type_def tx_in_def)

lemma settled_more: "settled_rows P (w, S, M) \<Longrightarrow> \<forall>m \<in> S'. money_type m \<and> tx_in P m \<Longrightarrow> data w' = data w \<Longrightarrow> settled_rows P (w', S' \<union> S, M)"
  by (auto simp: settled_rows_def)

lemma settled_step:
  assumes "tstep gen dec url P c c'" and "settled_rows P c"
  shows "settled_rows P c'"
  using assms
proof (cases rule: tstep.cases)
  case (Register inp w r w' S M)
  note inv = assms(2) [unfolded Register(1)]
  from register_effect [OF Register(3)] show ?thesis
  proof (elim disjE exE conjE)
    assume "data w' = data w"
    then show ?thesis using inv Register(2) by (simp add: settled_rows_def)
  next
    fix m w1
    assume u: "money_type m" "xStatus m = StatusPending" "data w1 = data w" "pgUpsert m w1 = (r, w')"
      and f: "TxHash m = trim_space (rgTxHash inp)" "xVaultID m = rgVaultID inp" "xType m = to_lower (trim_space (rgType inp))" "xAmount m = rgAmount inp"
    have "settled_rows P (w1, S, M)" using inv u(3) by (simp add: settled_rows_def)
    then show ?thesis unfolding Register(2) by (rule settled_upsert [OF _ u(4,1,2)]) (simp add: f Register(4))
  qed
next
  case (Get h w m w' S M)
  then have "\<exists>r \<in> set (txRows (data w)). m = scanTransaction r" "data w' = data w"
    by (auto simp: pgGetByHash_def dest!: query_Inr find_Some_iff_mem split: option.splits)
  then show ?thesis using settled_more [of P w S M "{m}" w'] assms(2) Get(1,2) by (auto simp: settled_rows_def)
next
  case (Pending cutoff w ms w' S M)
  then have "\<forall>m \<in> set ms. \<exists>r \<in> set (txRows (data w)). m = scanTransaction r" "data w' = data w"
    by (auto simp: pgListPendingOlderThan_def dest!: query_Inr)
  then show ?thesis using settled_more [of P w S M "set ms" w'] assms(2) Pending(1,2) by (fastforce simp: settled_rows_def)
next
  case (Apply m S w w' M t)
  note inv = assms(2) [unfolded Apply(1)]
  have m: "money_type m" "tx_in P m" using inv Apply(3) by (simp_all add: settled_rows_def)
  have "settled_rows P (w', S, M)" by (rule settled_frame [OF inv apply_keeps(1,2) [OF Apply(5)] only_row_in [OF apply_keeps(4) [OF Apply(5)] m(2)]])
  moreover have "money_type m" by (fact m)
  ultimately show ?thesis using apply_keeps(3) [OF _ Apply(5)] Apply(2) by (auto simp: settled_rows_def)
next
  case (Refused m S w e w' M)
  have "tx_in P m" using assms(2) Refused(1,3) by (simp add: settled_rows_def)
  then show ?thesis unfolding Refused(2)
    by (rule settled_frame [OF assms(2) [unfolded Refused(1)] apply_keeps(1,2) [OF Refused(5)] only_row_in [OF apply_keeps(4) [OF Refused(5)]]])
next
  case (Reject m S w M t why)
  then show ?thesis using assms(2) by (auto simp: settled_rows_def)
next
  case (Mark h st t why M w q w' S)
  note inv = assms(2) [unfolded Mark(1)]
  have "moved h (data w)" if "st = StatusCompleted" using inv Mark(3) that by (auto simp: settled_rows_def)
  then show ?thesis using settled_mark [OF inv Mark(4)] Mark(2) by simp
next
  case (Vaults w b S M)
  then show ?thesis using settled_frame [of P w S M "with_vaults w b"] vstep_rows [OF Vaults(3)] Vaults(4) assms(2) by (simp add: with_vaults_def)
next
  case (Other w' w S M)
  then show ?thesis using assms(2) by (simp add: settled_rows_def)
qed

text \<open>
  C6: Completed means moved: in every reachable state of registrations, requests, poller ticks,
  crashes and the vault service running together, the hash of a transaction that the table shows
  as completed is on a vault transaction, and whenever that hash was only ever presented for one
  vault, type and amount, that vault transaction is of the very vault, type and amount of the
  completed row. (A hash that is presented a second time for another vault is completed without a
  movement of that vault: \<open>second_vault_not_credited\<close>.)
\<close>

theorem completed_means_moved:
  assumes "(tstep gen dec url P)\<^sup>*\<^sup>* (w0, {}, {}) (w, S, M)" and "txRows (data w0) = []"
    and "\<forall>t \<in> set (txns (vaultTables (data w0))). row_in P t"
  shows "distinct (map TxHash (txRows (data w))) \<and> (\<forall>r \<in> set (txRows (data w)). xStatus r = StatusCompleted \<longrightarrow>
    (\<exists>t \<in> set (txns (vaultTables (data w))). TransactionHash t = Some (TxHash r)
       \<and> ((\<forall>c c'. (TxHash r, c) \<in> P \<longrightarrow> (TxHash r, c') \<in> P \<longrightarrow> c = c') \<longrightarrow>
          tVaultID t = xVaultID r \<and> tType t = xType r \<and> tAmount t = xAmount r)))"
proof -
  have inv: "settled_rows P (w, S, M)"
    using assms(1)
  proof (induction rule: rtranclp_induct)
    case base
    show ?case by (simp add: settled_rows_def assms(2,3))
  qed (rule settled_step)
  have "\<exists>t \<in> set (txns (vaultTables (data w))). TransactionHash t = Some (TxHash r)
       \<and> ((\<forall>c c'. (TxHash r, c) \<in> P \<longrightarrow> (TxHash r, c') \<in> P \<longrightarrow> c = c') \<longrightarrow>
          tVaultID t = xVaultID r \<and> tType t = xType r \<and> tAmount t = xAmount r)"
    if r: "r \<in> set (txRows (data w))" "xStatus r = StatusCompleted" for r
  proof -
    have m: "moved (TxHash r) (data w)" "tx_in P r" using inv r by (simp_all add: settled_rows_def)
    then obtain t where t: "t \<in> set (txns (vaultTables (data w)))" "TransactionHash t = Some (TxHash r)" by (auto simp: moved_def)
    have "row_in P t" using inv t(1) by (simp add: settled_rows_def)
    then have "(TxHash r, tVaultID t, tType t, tAmount t) \<in> P" "(TxHash r, xVaultID r, xType r, xAmount r) \<in> P"
      using t(2) m(2) by (simp_all add: row_in_def tx_in_def)
    then show ?thesis using t by (metis prod.inject)
  qed
  moreover have "distinct (map TxHash (txRows (data w)))" using inv by (simp add: settled_rows_def)
  ultimately show ?thesis by blast
qed

text \<open>A reconciliation, alone or in a poller tick, is a run of this system on the copy it was given.\<close>

lemma reconcile_is_run:
  assumes run: "ReconcileTransaction dec (wired gen dec url) hz m w = (r, w')" and m: "m \<in> S"
  shows "\<exists>M'. (tstep gen dec url P)\<^sup>*\<^sup>* (w, S, M) (w', S, M')"
  using run
proof (cases rule: reconcile_cases)
  case idle
  then show ?thesis using tstep.Other [of w' w] by blast
next
  case (failed w1 c why q)
  have 1: "tstep gen dec url P (w, S, M) (w1, S, M)" using tstep.Other failed(2) by blast
  have 2: "tstep gen dec url P (w1, S, M) (w1, S, insert (TxHash m, StatusFailed, c, why) M)" by (rule tstep.Reject [OF m failed(1)])
  have 3: "tstep gen dec url P (w1, S, insert (TxHash m, StatusFailed, c, why) M) (w', S, insert (TxHash m, StatusFailed, c, why) M)"
    by (rule tstep.Mark [OF _ failed(3)]) simp
  show ?thesis using rtranclp_trans [OF r_into_rtranclp [of "tstep gen dec url P", OF 1] rtranclp_trans [OF r_into_rtranclp [of "tstep gen dec url P", OF 2] r_into_rtranclp [of "tstep gen dec url P", OF 3]]] by blast
next
  case (refused w1 x e)
  have "x = xAmount m" using verify_deposit [OF refused(3)] verify_withdrawal [OF refused(3)] by blast
  then have "applyConfirmedBalance (wired gen dec url) m w1 = (Inl e, w')" using refused(4) by simp
  then have 2: "tstep gen dec url P (w1, S, M) (w', S, M)" by (rule tstep.Refused [OF m refused(1)])
  have 1: "tstep gen dec url P (w, S, M) (w1, S, M)" using tstep.Other refused(2) by blast
  show ?thesis using rtranclp_trans [OF r_into_rtranclp [of "tstep gen dec url P", OF 1] r_into_rtranclp [of "tstep gen dec url P", OF 2]] by blast
next
  case (completed w1 w2 x c q)
  have "x = xAmount m" using verify_deposit [OF completed(3)] verify_withdrawal [OF completed(3)] by blast
  then have "applyConfirmedBalance (wired gen dec url) m w1 = (Inr (), w2)" using completed(4) by simp
  then have 2: "tstep gen dec url P (w1, S, M) (w2, S, insert (TxHash m, StatusCompleted, c, '''') M)" by (rule tstep.Apply [OF m completed(1)])
  have 1: "tstep gen dec url P (w, S, M) (w1, S, M)" using tstep.Other completed(2) by blast
  have 3: "tstep gen dec url P (w2, S, insert (TxHash m, StatusCompleted, c, '''') M) (w', S, insert (TxHash m, StatusCompleted, c, '''') M)"
    by (rule tstep.Mark [OF _ completed(5)]) simp
  show ?thesis using rtranclp_trans [OF r_into_rtranclp [of "tstep gen dec url P", OF 1] rtranclp_trans [OF r_into_rtranclp [of "tstep gen dec url P", OF 2] r_into_rtranclp [of "tstep gen dec url P", OF 3]]] by blast
qed

section \<open>The poller makes progress\<close>

text \<open>\<open>calm m\<close>: a call that starts with no fault ahead leaves none ahead.\<close>

definition calm :: "('d, 'e, 'a) db \<Rightarrow> bool" where
  "calm m \<longleftrightarrow> (\<forall>w. sched w = [] \<longrightarrow> sched (snd (m w)) = [])"

lemma calmD: "calm m \<Longrightarrow> sched w = [] \<Longrightarrow> m w = (r, w') \<Longrightarrow> sched w' = []"
  unfolding calm_def by (metis snd_conv)

lemma calm_bind: "calm m \<Longrightarrow> (\<And>a. calm (f a)) \<Longrightarrow> calm (bind m f)"
  unfolding calm_def bind_def by (auto split: prod.splits sum.splits)

lemma calm_trivial: "calm (ret a)" "calm (fail e)" "calm time_now" "calm (new_uuid gen)" "calm (local f)" "calm (stmt g)" "calm (query q)"
  by (auto simp: calm_def ret_def fail_def time_now_def new_uuid_def local_def query_def stmt_def Let_def split: sum.splits prod.splits)

lemma calm_attempt: "calm m \<Longrightarrow> calm (attempt m)"
  unfolding calm_def attempt_def by (auto split: prod.splits)

lemma calm_if: "(b \<Longrightarrow> calm m) \<Longrightarrow> (\<not> b \<Longrightarrow> calm n) \<Longrightarrow> calm (if b then m else n)"
  by simp

lemma calm_option: "calm m \<Longrightarrow> (\<And>a. calm (f a)) \<Longrightarrow> calm (case x of None \<Rightarrow> m | Some a \<Rightarrow> f a)"
  by (cases x) auto

lemma calm_sum: "(\<And>a. calm (g a)) \<Longrightarrow> (\<And>a. calm (f a)) \<Longrightarrow> calm (case x of Inl a \<Rightarrow> g a | Inr a \<Rightarrow> f a)"
  by (cases x) auto

lemma calm_prod: "(\<And>a b. calm (f a b)) \<Longrightarrow> calm (case x of (a, b) \<Rightarrow> f a b)"
  by (cases x) auto

lemma calm_transaction:
  assumes "calm m"
  shows "calm (transaction m)"
proof (unfold calm_def, intro allI impI)
  fix w :: "'a dbw" assume w: "sched w = []"
  obtain r w2 where b: "m (w \<lparr> sched := tl (sched w) \<rparr>) = (r, w2)" by fastforce
  have "sched w2 = []" using calmD [OF assms _ b] w by simp
  then show "sched (snd (transaction m w)) = []" using w b by (cases r) (simp_all add: transaction_def Let_def)
qed

lemma calm_wrappers: "calm m \<Longrightarrow> calm (on_books m)" "calm m1 \<Longrightarrow> calm (on_vaults m1)" "calm m2 \<Longrightarrow> calm (dropped m2)"
  by (auto simp: on_books_def on_vaults_def dropped_def calm_def split: prod.splits sum.splits) (metis dbw.select_convs(2) snd_conv)+

lemmas calm_rules = calm_bind calm_trivial calm_attempt calm_if calm_option calm_sum calm_prod calm_transaction calm_wrappers

lemma calm_ledger: "calm (postEntriesTx gen es)" "calm (ledgerGetOrCreateAccountTx gen t v u ad a)" "calm (ledgerPostEntriesTx gen ty ev ls)"
proof -
  show p: "calm (postEntriesTx gen es)" for es by (induction es) (auto simp: Let_def intro!: calm_rules)
  show "calm (ledgerPostEntriesTx gen ty ev ls)" unfolding ledgerPostEntriesTx_def by (intro calm_rules p)
  show "calm (ledgerGetOrCreateAccountTx gen t v u ad a)" by (auto simp: ledgerGetOrCreateAccountTx_def Let_def intro!: calm_rules)
qed

lemma calm_confirm: "calm (applyConfirmedBalanceChange gen dec i x h ty)"
  unfolding applyConfirmedBalanceChange_def updateOne_def postDepositLedgerTx_def postWithdrawalLedgerTx_def Let_def
  by (intro calm_rules calm_ledger)

lemma calm_reconcile: "calm (ReconcileTransaction dec (wired gen dec url) hz m)"
proof -
  have "calm (applyConfirmedBalance (wired gen dec url) m1)" for m1
    unfolding applyConfirmedBalance_def wired_simps pgApplier_def pgApplyConfirmedDeposit_def pgApplyConfirmedWithdrawal_def
    by (simp, intro conjI impI calm_rules calm_confirm)
  then show ?thesis
    unfolding ReconcileTransaction_def verifyConfirmedClaim_def pgGetVault_def pgUpdateStatus_def pgGetByHash_def Let_def by (intro calm_rules)
qed

definition row_of :: "string \<Rightarrow> tx_state \<Rightarrow> tx_model option" where
  "row_of h d = List.find (\<lambda>r. TxHash r = h) (txRows d)"

lemma find_update: "(\<And>r. TxHash (f r) = TxHash r) \<Longrightarrow>
  List.find (\<lambda>r. TxHash r = h) (map (\<lambda>r. if TxHash r = k then f r else r) rs) = map_option (\<lambda>r. if h = k then f r else r) (List.find (\<lambda>r. TxHash r = h) rs)"
  by (induction rs) auto

lemma pgUpdateStatus_row: "pgUpdateStatus k st c why w = (q, w') \<Longrightarrow> h \<noteq> k \<Longrightarrow> row_of h (data w') = row_of h (data w)"
  using pgUpdateStatus_effect [of k st c why w q w'] by (auto simp: row_of_def find_update option.map_ident)

lemma reconcile_other:
  assumes "ReconcileTransaction dec (wired gen dec url) hz m w = (r, w')" and h: "h \<noteq> TxHash m"
  shows "row_of h (data w') = row_of h (data w)"
  using assms(1)
proof (cases rule: reconcile_cases)
  case (failed w1 c why q)
  then show ?thesis using pgUpdateStatus_row [OF failed(3) h] by simp
next
  case (refused w1 x e)
  then show ?thesis using apply_keeps(1) [OF refused(4)] by (simp add: row_of_def)
next
  case (completed w1 w2 x c q)
  then show ?thesis using pgUpdateStatus_row [OF completed(5) h] apply_keeps(1) [OF completed(4)] by (simp add: row_of_def)
qed simp

lemma reconcile_failed:
  assumes w: "sched w = []" and m: "xStatus m = StatusPending" and hz: "lookupHorizonTransaction s hz (TxHash m) = Inr (StatusFailed, c, why)"
    and row: "row_of (TxHash m) (data w) = Some r0"
  shows "\<exists>w'. ReconcileTransaction dec s hz m w = (Inr (scanTransaction (set_status StatusFailed c why (wall w) r0), True), w')
    \<and> row_of (TxHash m) (data w') = Some (set_status StatusFailed c why (wall w) r0)"
proof -
  have n: "filter (\<lambda>r. TxHash r = TxHash m) (txRows (data w)) \<noteq> []"
    using row find_Some_iff_mem by (fastforce simp: row_of_def filter_empty_conv)
  show ?thesis
    using w m hz row n
    by (simp add: ReconcileTransaction_def pgUpdateStatus_def pgGetByHash_def bind_def time_now_def stmt_def query_def ret_def row_of_def find_update Let_def)
qed

text \<open>What a tick leaves of a row that Horizon reports as failed.\<close>

definition marked_failed :: "string \<Rightarrow> time option \<Rightarrow> string \<Rightarrow> tx_model \<Rightarrow> tx_state \<Rightarrow> bool" where
  "marked_failed h c why r0 d \<longleftrightarrow> (\<exists>now. row_of h d = Some (set_status StatusFailed c why now r0)
     \<and> scanTransaction (set_status StatusFailed c why now r0) \<in> set (notified d))"

lemma pending_step:
  assumes "reconcilePending dec s hz (m # ms) w = (r, w')"
  obtains q w1 f where "ReconcileTransaction dec s hz m w = (q, w1)" "reconcilePending dec s hz ms (w1 \<lparr> data := f (data w1) \<rparr>) = (r, w')"
    "txRows (f (data w1)) = txRows (data w1)" "set (notified (data w1)) \<subseteq> set (notified (f (data w1)))"
    "\<And>u. q = Inr (u, True) \<Longrightarrow> u \<in> set (notified (f (data w1)))"
proof -
  obtain q w1 where q: "ReconcileTransaction dec s hz m w = (q, w1)" by fastforce
  let ?f = "case q of Inl _ \<Rightarrow> (\<lambda>d. d) | Inr (u, changed) \<Rightarrow>
    if \<not> changed then (\<lambda>d. d \<lparr> divergences := divergences d + 1 \<rparr>) else (\<lambda>d. d \<lparr> notified := notified d @ [u] \<rparr>)"
  show thesis
    by (rule that [of q w1 ?f, OF q]; use assms q in \<open>cases q\<close>)
      (auto simp: bind_def attempt_def ret_def local_def split: if_splits prod.splits)
qed

lemma apply_notified: "applyConfirmedBalance s m w = (q, w') \<Longrightarrow> notified (data w') = notified (data w)"
  by (auto simp: applyConfirmedBalance_def ret_def elim!: on_vaults_run split: option.splits if_splits)

lemma reconcile_notified:
  assumes "ReconcileTransaction dec s hz m w = (r, w')"
  shows "notified (data w') = notified (data w)"
  using assms
proof (cases rule: reconcile_cases)
  case (failed w1 c why q)
  then show ?thesis using pgUpdateStatus_effect [OF failed(3)] by auto
next
  case (refused w1 x e)
  then show ?thesis using apply_notified [OF refused(4)] by simp
next
  case (completed w1 w2 x c q)
  then show ?thesis using pgUpdateStatus_effect [OF completed(5)] apply_notified [OF completed(4)] by auto
qed simp

lemma find_unique: "distinct (map TxHash rs) \<Longrightarrow> r \<in> set rs \<Longrightarrow> List.find (\<lambda>x. TxHash x = TxHash r) rs = Some r"
  by (induction rs) (auto dest: imageI [of r _ TxHash])

lemma marked_same: "marked_failed h c why r0 d \<Longrightarrow> row_of h d' = row_of h d \<Longrightarrow> set (notified d) \<subseteq> set (notified d') \<Longrightarrow> marked_failed h c why r0 d'"
  unfolding marked_failed_def by (metis subsetD)

lemma pending_keeps:
  assumes "reconcilePending dec (wired gen dec url) hz ms w = (r, w')" and "h \<notin> TxHash ` set ms" and "marked_failed h c why r0 (data w)"
  shows "marked_failed h c why r0 (data w')"
  using assms
proof (induction ms arbitrary: w)
  case (Cons m ms)
  from Cons.prems(1) obtain q w1 f where s: "ReconcileTransaction dec (wired gen dec url) hz m w = (q, w1)"
    "reconcilePending dec (wired gen dec url) hz ms (w1 \<lparr> data := f (data w1) \<rparr>) = (r, w')"
    "txRows (f (data w1)) = txRows (data w1)" "set (notified (data w1)) \<subseteq> set (notified (f (data w1)))"
    by (rule pending_step) blast
  have "marked_failed h c why r0 (f (data w1))"
    by (rule marked_same [OF Cons.prems(3)]; use Cons.prems(2) s(3,4) reconcile_other [OF s(1)] reconcile_notified [OF s(1)] in \<open>simp add: row_of_def\<close>)
  then show ?case using Cons.IH [OF s(2)] Cons.prems(2) by simp
qed (simp add: ret_def)

lemma pending_marks:
  assumes "reconcilePending dec (wired gen dec url) hz ms w = (r, w')" and "distinct (map TxHash ms)" and "m \<in> set ms" and "sched w = []"
    and "xStatus m = StatusPending" and "lookupHorizonTransaction (wired gen dec url) hz (TxHash m) = Inr (StatusFailed, c, why)"
    and "row_of (TxHash m) (data w) = Some r0"
  shows "marked_failed (TxHash m) c why r0 (data w')"
  using assms
proof (induction ms arbitrary: w)
  case (Cons k ms)
  from Cons.prems(1) obtain q w1 f where s: "ReconcileTransaction dec (wired gen dec url) hz k w = (q, w1)"
    "reconcilePending dec (wired gen dec url) hz ms (w1 \<lparr> data := f (data w1) \<rparr>) = (r, w')"
    "txRows (f (data w1)) = txRows (data w1)" "set (notified (data w1)) \<subseteq> set (notified (f (data w1)))"
    "\<And>u. q = Inr (u, True) \<Longrightarrow> u \<in> set (notified (f (data w1)))"
    by (rule pending_step) blast
  let ?w2 = "w1 \<lparr> data := f (data w1) \<rparr>"
  show ?case
  proof (cases "k = m")
    case True
    from reconcile_failed [OF Cons.prems(4-7), of dec] s(1) True
    have "row_of (TxHash m) (data w1) = Some (set_status StatusFailed c why (wall w) r0)"
      "q = Inr (scanTransaction (set_status StatusFailed c why (wall w) r0), True)" by auto
    then have "marked_failed (TxHash m) c why r0 (data ?w2)"
      unfolding marked_failed_def using s(3,5) by (intro exI [of _ "wall w"]) (simp add: row_of_def)
    then show ?thesis using pending_keeps [OF s(2)] Cons.prems(2) True by auto
  next
    case False
    then have "m \<in> set ms" using Cons.prems(3) by simp
    then have m: "m \<in> set ms" "TxHash m \<noteq> TxHash k" using Cons.prems(2) by (simp, metis distinct.simps(2) imageI list.map(2) list.set_map)
    have "sched ?w2 = []" using calmD [OF calm_reconcile Cons.prems(4) s(1)] by simp
    moreover have "row_of (TxHash m) (data ?w2) = Some r0" using reconcile_other [OF s(1) m(2)] s(3) Cons.prems(7) by (simp add: row_of_def)
    ultimately show ?thesis using Cons.IH [OF s(2)] Cons.prems(2,5,6) m(1) by simp
  qed
qed simp

lemma pending_answers: "reconcilePending dec s hz ms w = (r, w') \<Longrightarrow> r = Inr ()"
proof (induction ms arbitrary: w)
  case (Cons m ms)
  from Cons.prems show ?case by (rule pending_step) (rule Cons.IH)
qed (simp add: ret_def)

definition due :: "time \<Rightarrow> tx_state \<Rightarrow> tx_model list" where
  "due cutoff d = map scanTransaction (sort_key xCreatedAt (filter (\<lambda>r. xStatus r = StatusPending \<and> xCreatedAt r \<le> cutoff) (txRows d)))"

lemma tick_run:
  assumes "PollerTick dec s hz cfg w = (r, w')" and w: "sched w = []"
  obtains p w1 w2 where "reconcilePending dec s hz (due (wall w - MinAge cfg) (data w)) w1 = (Inr (), w2)"
    "data w1 = (data w) \<lparr> pendingSubmissions := p \<rparr>" "sched w1 = []"
    "txRows (data w') = txRows (data w2)" "notified (data w') = notified (data w2)"
proof -
  let ?ms = "due (wall w - MinAge cfg) (data w)"
  let ?w1 = "w \<lparr> data := (data w) \<lparr> pendingSubmissions := (length ?ms, oldestAge (wall w) ?ms 0) \<rparr> \<rparr>"
  obtain q w2 where run: "reconcilePending dec s hz ?ms ?w1 = (q, w2)" by fastforce
  have q: "q = Inr ()" by (rule pending_answers [OF run])
  have l: "attempt (ListPendingOlderThan (MinAge cfg)) w = (Inr (Inr ?ms), w)"
    using w by (simp add: ListPendingOlderThan_def pgListPendingOlderThan_def due_def attempt_def bind_def time_now_def query_def stmt_def Let_def)
  show thesis
    by (rule that [OF run [unfolded q]]; use assms(1) l run q w in \<open>auto simp: PollerTick_def bind_def time_now_def local_def\<close>)
qed

lemma due_distinct: "distinct (map TxHash (txRows d)) \<Longrightarrow> distinct (map TxHash (due t d))"
  by (auto simp: due_def distinct_map comp_def intro: inj_on_subset)

text \<open>
  C7: The poller settles what the chain has refused: after a tick without database faults, every
  pending transaction of unique hash that is old enough and that Horizon reports as failed is marked failed with the
  result of the chain, nothing else of its row changes and its owner is notified, whatever became
  of the other transactions of the same tick, errors of Horizon for them included.
\<close>

theorem poller_settles_failed:
  assumes "PollerTick dec (wired gen dec url) hz cfg w = (r, w')" and "sched w = []" and "distinct (map TxHash (txRows (data w)))"
    and "r0 \<in> set (txRows (data w))" and "xStatus r0 = StatusPending" and "xCreatedAt r0 \<le> wall w - MinAge cfg"
    and "lookupHorizonTransaction (wired gen dec url) hz (TxHash r0) = Inr (StatusFailed, c, why)"
  shows "marked_failed (TxHash r0) c why r0 (data w')"
proof -
  let ?m = "scanTransaction r0"
  obtain p w1 w2 where t: "reconcilePending dec (wired gen dec url) hz (due (wall w - MinAge cfg) (data w)) w1 = (Inr (), w2)"
    "data w1 = (data w) \<lparr> pendingSubmissions := p \<rparr>" "sched w1 = []" "txRows (data w') = txRows (data w2)" "notified (data w') = notified (data w2)"
    by (rule tick_run [OF assms(1,2)])
  have m: "?m \<in> set (due (wall w - MinAge cfg) (data w))" using assms(4-6) by (simp add: due_def)
  have "row_of (TxHash ?m) (data w1) = Some r0"
    using find_unique [OF assms(3,4)] t(2) by (simp add: row_of_def)
  from pending_marks [OF t(1) due_distinct [OF assms(3)] m t(3) _ _ this] assms(5,7)
  have "marked_failed (TxHash r0) c why r0 (data w2)" by simp
  then show ?thesis using t(4,5) by (simp add: marked_failed_def row_of_def)
qed

section \<open>Concrete runs\<close>

definition tx_world :: "tx_state dbw" where
  "tx_world = \<lparr> data = \<lparr> vaultTables = data funded, txRows = [], notified = [], reconcileRuns = [], divergences = 0, pendingSubmissions = (0, 0),
     lastTickEnd = 0 \<rparr>, sched = [], drawn = drawn funded, wall = 10 ^ 12 \<rparr>"

definition payment :: "string \<Rightarrow> string \<Rightarrow> horizon_operation" where
  "payment addr issuer = \<lparr> opType = ''payment'', AssetType = ''credit_alphanum4'', AssetCode = ''USDC'', AssetIssuer = issuer, opAmount = ''1'',
     opFrom = ''G1'', opTo = addr, opAccount = '''', opInto = '''', AssetName = '''' \<rparr>"

definition horizon0 :: "bool \<Rightarrow> horizon_operation list reply \<Rightarrow> horizon" where
  "horizon0 ok ops = \<lparr> getTransaction = (\<lambda>_. Response 200 (Some \<lparr> Successful = ok, hzCreatedAt = ''2026-02-28T16:00:00Z'', ResultXdr = '' AAA '' \<rparr>)),
     getOperations = (\<lambda>_. ops) \<rparr>"

definition claim0 :: "string \<Rightarrow> string \<Rightarrow> register_input" where
  "claim0 ty h = \<lparr> rgVaultID = 1, rgType = ty, rgAmount = 1, rgCurrency = ''usdc'', rgTxHash = h \<rparr>"

definition registered :: "string \<Rightarrow> tx_state dbw" where
  "registered ty = snd (RegisterTransaction Suc (claim0 ty ''tx9'') tx_world)"

definition service1 :: tx_service where
  "service1 = wired Suc dec1 ''https://horizon/''"

definition fetched :: "string \<Rightarrow> tx_model \<times> tx_state dbw" where
  "fetched ty = (case pgGetByHash ''tx9'' (registered ty) of (Inr m, w) \<Rightarrow> (m, w) | (Inl e, w) \<Rightarrow> (hd [], w))"

definition reconciled :: "string \<Rightarrow> horizon \<Rightarrow> tx_state dbw" where
  "reconciled ty hz = (case fetched ty of (m, w) \<Rightarrow> snd (ReconcileTransaction dec1 service1 hz m w))"

definition overview :: "tx_state \<Rightarrow> rat list \<times> (string \<times> uuid \<times> tx_status) list" where
  "overview d = (map CurrentBalance (vaults (vaultTables d)), map (\<lambda>r. (TxHash r, xVaultID r, xStatus r)) (txRows d))"

definition paid :: horizon where
  "paid = horizon0 True (Response 200 (Some [payment ''G3'' ''G2'', payment ''c1'' ''G2'']))"

lemma fetched_facts: "fst (pgGetByHash ''tx9'' (registered ''deposit'')) = Inr (fst (fetched ''deposit''))"
    "xType (fst (fetched ''deposit'')) = TypeDeposit" "overview (data (snd (fetched ''deposit''))) = ([5 / 2], [(''tx9'', 1, StatusPending)])"
  by code_simp+

lemma reconciled_facts: "overview (data (reconciled ''deposit'' paid)) = ([7 / 2], [(''tx9'', 1, StatusCompleted)])"
  by code_simp

theorem balance_moves_only_as_proven_witness:
  "overview (data (snd (fetched ''deposit''))) = ([5 / 2], [(''tx9'', 1, StatusPending)])
   \<and> overview (data (reconciled ''deposit'' paid)) = ([7 / 2], [(''tx9'', 1, StatusCompleted)])
   \<and> backed dec1 paid (vaultTables (data (snd (fetched ''deposit'')))) (fst (fetched ''deposit''))"
proof -
  obtain m w where f: "fetched ''deposit'' = (m, w)" by fastforce
  obtain r w' where run: "ReconcileTransaction dec1 service1 paid m w = (r, w')" by fastforce
  have w': "w' = reconciled ''deposit'' paid" using run f by (simp add: reconciled_def)
  have "vaultTables (data w') \<noteq> vaultTables (data w)"
  proof
    assume "vaultTables (data w') = vaultTables (data w)"
    then have "fst (overview (data w')) = fst (overview (data w))" by (simp add: overview_def)
    then show False using fetched_facts(3) reconciled_facts f w' by simp
  qed
  from balance_moves_only_as_proven [OF run [unfolded service1_def] this]
  have "backed dec1 paid (vaultTables (data w)) m" using fetched_facts(2) f by (auto simp: TypeDeposit_def TypeWithdrawal_def)
  then show ?thesis using fetched_facts(3) reconciled_facts f by simp
qed

definition presented0 :: presented where
  "presented0 = {(''tx9'', 1, ''deposit'', 1), (''tx1'', 1, ''deposit'', 5 / 2)}"

lemma reconciled_rows:
  "map (\<lambda>r. (TxHash r, xVaultID r, xType r, xAmount r, xStatus r)) (txRows (data (reconciled ''deposit'' paid))) = [(''tx9'', 1, ''deposit'', 1, StatusCompleted)]"
  by code_simp

lemma tx_world_rows:
  "map (\<lambda>t. (TransactionHash t, tVaultID t, tType t, tAmount t)) (txns (vaultTables (data tx_world))) = [(Some ''tx1'', 1, ''deposit'', 5 / 2)]"
  by code_simp

theorem completed_means_moved_witness:
  "overview (data (reconciled ''deposit'' paid)) = ([7 / 2], [(''tx9'', 1, StatusCompleted)])
   \<and> (\<exists>t \<in> set (txns (vaultTables (data (reconciled ''deposit'' paid)))).
        TransactionHash t = Some ''tx9'' \<and> tVaultID t = 1 \<and> tType t = ''deposit'' \<and> tAmount t = 1)"
proof -
  let ?step = "tstep Suc dec1 ''https://horizon/'' presented0"
  obtain m w where f: "fetched ''deposit'' = (m, w)" by fastforce
  obtain q where q: "RegisterTransaction Suc (claim0 ''deposit'' ''tx9'') tx_world = (q, registered ''deposit'')" by (metis prod.collapse registered_def)
  have "trim_space (rgTxHash (claim0 ''deposit'' ''tx9'')) = ''tx9''" "to_lower (trim_space (rgType (claim0 ''deposit'' ''tx9''))) = ''deposit''"
    "numeric 8 (rgAmount (claim0 ''deposit'' ''tx9'')) = 1" by (code_simp, code_simp, code_simp)
  then have p: "(trim_space (rgTxHash (claim0 ''deposit'' ''tx9'')), rgVaultID (claim0 ''deposit'' ''tx9''),
      to_lower (trim_space (rgType (claim0 ''deposit'' ''tx9''))), numeric 8 (rgAmount (claim0 ''deposit'' ''tx9''))) \<in> presented0"
    by (simp add: presented0_def claim0_def)
  have g: "pgGetByHash ''tx9'' (registered ''deposit'') = (Inr m, w)"
    using fetched_facts(1) f by (cases "pgGetByHash ''tx9'' (registered ''deposit'')") (simp add: fetched_def)
  have 1: "?step\<^sup>*\<^sup>* (tx_world, {}, {}) (w, {m}, {})"
    by (rule converse_rtranclp_into_rtranclp [of ?step, OF tstep.Register [OF q p] r_into_rtranclp [of ?step, OF tstep.Get [OF g]]])
  obtain r w' where run: "ReconcileTransaction dec1 service1 paid m w = (r, w')" by fastforce
  obtain M where "?step\<^sup>*\<^sup>* (w, {m}, {}) (w', {m}, M)"
    using reconcile_is_run [OF run [unfolded service1_def], of "{m}" presented0 "{}"] by blast
  with 1 have st: "?step\<^sup>*\<^sup>* (tx_world, {}, {}) (w', {m}, M)" by (rule rtranclp_trans)
  have w': "w' = reconciled ''deposit'' paid" using run f by (simp add: reconciled_def)
  obtain x where x: "txRows (data w') = [x]" "TxHash x = ''tx9''" "xVaultID x = 1" "xType x = ''deposit''" "xAmount x = 1" "xStatus x = StatusCompleted"
    using reconciled_rows w' by auto
  have start: "txRows (data tx_world) = []" by (simp add: tx_world_def)
  have rows: "\<forall>t \<in> set (txns (vaultTables (data tx_world))). row_in presented0 t"
    using tx_world_rows by (auto simp: row_in_def presented0_def)
  from completed_means_moved [OF st start rows]
  have "\<exists>t \<in> set (txns (vaultTables (data w'))). TransactionHash t = Some ''tx9'' \<and> tVaultID t = 1 \<and> tType t = ''deposit'' \<and> tAmount t = 1"
    using x by (simp add: presented0_def)
  then show ?thesis using reconciled_facts w' by simp
qed

definition poller0 :: poller_config where
  "poller0 = pollerConfig \<lparr> pollEnabled = True, Interval = 0, MinAge = 0 \<rparr>"

definition aged :: "tx_state dbw" where
  "aged = (registered ''deposit'') \<lparr> wall := 10 ^ 12 + 60 * second \<rparr>"

definition reverted :: horizon where
  "reverted = horizon0 False (DoError False ''refused'')"

lemma aged_facts: "sched aged = []" "map TxHash (txRows (data aged)) = [''tx9'']" "map xStatus (txRows (data aged)) = [StatusPending]"
    "xCreatedAt (hd (txRows (data aged))) \<le> wall aged - MinAge poller0"
    "lookupHorizonTransaction service1 reverted ''tx9'' = Inr (StatusFailed, Some (63907891200 * second), ''AAA'')"
  by code_simp+

theorem poller_settles_failed_witness:
  "marked_failed ''tx9'' (Some (63907891200 * second)) ''AAA'' (hd (txRows (data aged))) (data (snd (PollerTick dec1 service1 reverted poller0 aged)))"
proof -
  obtain r where rows: "txRows (data aged) = [r]" using aged_facts(2) by auto
  obtain q w' where run: "PollerTick dec1 service1 reverted poller0 aged = (q, w')" by fastforce
  have r: "TxHash r = ''tx9''" "xStatus r = StatusPending" using aged_facts(2,3) rows by auto
  show ?thesis
    using poller_settles_failed [OF run [unfolded service1_def] aged_facts(1), of r] aged_facts(4,5) rows r run by (simp add: service1_def)
qed

section \<open>Findings\<close>

text \<open>The issuer of the asset is decoded and not compared: a payment in any asset with the same code counts.\<close>

lemma issuer_ignored: "claimVerdict dec claim (map (\<lambda>o1. o1 \<lparr> AssetIssuer := f o1 \<rparr>) ops) = claimVerdict dec claim ops"
proof -
  have "pays_claim dec claim (o1 \<lparr> AssetIssuer := a \<rparr>) = pays_claim dec claim o1" "pays_to claim (o1 \<lparr> AssetIssuer := a \<rparr>) = pays_to claim o1"
    "pays_asset claim (o1 \<lparr> AssetIssuer := a \<rparr>) = pays_asset claim o1" for o1 a
    by (simp_all add: pays_claim_def pays_asset_def pays_to_def isValueTransfer_def destination_def assetCode_def)
  then show ?thesis by (simp add: claimVerdict_def scanOps_exact list_ex_iff)
qed

text \<open>The reason for an unrelated transaction is the one documented for a payment to a wrong address.\<close>

lemma unrelated_hash_reason:
  "ops \<noteq> [] \<Longrightarrow> \<forall>o1 \<in> set ops. \<not> isValueTransfer o1 \<Longrightarrow> claimVerdict dec claim ops = Inl ReasonDestinationMismatch"
  by (auto simp: claimVerdict_def scanOps_exact list_ex_iff pays_claim_def pays_asset_def pays_to_def)

text \<open>
  A registration with a known hash takes the row over, whatever its status and whoever registered
  it: it is pending again, for the new vault, and the answer carries an identifier that no row has.
\<close>

lemma registration_takes_over:
  assumes "sched w = []" and "row_of (trim_space (rgTxHash inp)) (data w) = Some old"
    and "rgVaultID inp \<in> vID ` set (vaults (vaultTables (data w)))" and "rgVaultID inp \<noteq> uuid_nil" and "trim_space (rgCurrency inp) \<noteq> ''''"
    and "trim_space (rgTxHash inp) \<noteq> ''''" and "isSupportedTransactionType (to_lower (trim_space (rgType inp)))"
    and "0 < rgAmount inp" and "0 < numeric 8 (rgAmount inp)" and "fits 40 (numeric 8 (rgAmount inp))"
  shows "\<exists>u w' new. RegisterTransaction gen inp w = (Inr u, w') \<and> xID u = gen (drawn w)
    \<and> row_of (trim_space (rgTxHash inp)) (data w') = Some new \<and> xID new = xID old \<and> xStatus new = StatusPending \<and> xVaultID new = rgVaultID inp"
proof -
  have up: "to_upper s \<noteq> ''''" if "s \<noteq> ''''" for s using that by (simp add: to_upper_def)
  have h: "TxHash (overwrite n t r) = TxHash r" for n t r by (simp add: overwrite_def)
  show ?thesis
    using assms up [OF assms(5)]
    by (simp add: RegisterTransaction_def pgUpsert_def bind_def new_uuid_def time_now_def stmt_def Let_def row_of_def tx_ok_def store_tx_def
        find_update h isSupportedTransactionType_def TypeDeposit_def TypeWithdrawal_def) (auto simp: overwrite_def)
qed

text \<open>
  A transaction that pays two vaults credits only the vault that was registered first: the second
  registration reopens the completed row, passes the check of its claim and is completed without a credit.
\<close>

definition paid_both :: horizon where
  "paid_both = horizon0 True (Response 200 (Some [payment ''C1'' ''G2'', payment ''C7'' ''G2'']))"

definition two_vaults :: "uuid \<Rightarrow> tx_state dbw \<Rightarrow> tx_state dbw" where
  "two_vaults i w = snd (GetTransaction dec1 service1 paid_both ''tx9'' (snd (RegisterTransaction Suc ((claim0 ''deposit'' ''tx9'') \<lparr> rgVaultID := i \<rparr>) w)))"

lemma second_vault_not_credited:
  "let w0 = snd (on_vaults (pgCreateVault (empty_vault \<lparr> vID := 7, ContractAddress := ''C7'' \<rparr>)) tx_world); w1 = two_vaults 1 w0; w2 = two_vaults 7 w1
   in overview (data w1) = ([7 / 2, 0], [(''tx9'', 1, StatusCompleted)]) \<and> overview (data w2) = ([7 / 2, 0], [(''tx9'', 7, StatusCompleted)])"
  by code_simp

text \<open>A withdrawal is debited on the success of the transaction alone, with its operations unknown.\<close>

lemma withdrawal_unchecked:
  "overview (data (reconciled ''withdrawal'' (horizon0 True (DoError False ''refused'')))) = ([3 / 2], [(''tx9'', 1, StatusCompleted)])"
  by code_simp

end
