(* ===== verification/Vault_Frame.thy ===== *)
theory Vault_Frame
  imports Vault_Service
begin

text \<open>
  What every call of the vault service keeps of the tables. The locale collects the writing
  operations of the repository; whatever preorder they follow, each call of the service and each
  history follows it too. It is interpreted for the rows of transactions, which are only added, and
  for the owners of vaults, which never change.
\<close>

definition lifted :: "(vault_db \<Rightarrow> vault_db \<Rightarrow> bool) \<Rightarrow> svc_state \<Rightarrow> svc_state \<Rightarrow> bool" where
  "lifted R s s' \<longleftrightarrow> R (tables s) (tables s')"

lemma moves_list: "moves R n \<Longrightarrow> (\<And>a as. moves R (f a as)) \<Longrightarrow> moves R (case xs of [] \<Rightarrow> n | a # as \<Rightarrow> f a as)"
  and moves_bool: "moves R m1 \<Longrightarrow> moves R m2 \<Longrightarrow> moves R (case t of True \<Rightarrow> m1 | False \<Rightarrow> m2)"
  by (cases xs, simp_all) (cases t, simp_all)

locale table_order =
  fixes R :: "vault_db \<Rightarrow> vault_db \<Rightarrow> bool"
  assumes order: "reflp R" "transp R"
    and creates: "moves R (pgCreateVault m)"
    and records: "moves R (pgRecordDeposit gen dec i rec)" "moves R (pgRecordWithdrawal gen dec i rec)" "moves R (pgRecordHarvest gen dec inp)"
      "moves R (applyConfirmedBalanceChange gen dec i x h ty)" "moves R (pgRecordRebalance gen dec b wd dp)"
    and updates: "moves R (pgReplaceAllocations i as)" "moves R (pgUpdateVault i addr st)" "moves R (pgUpdateHarvestFrequency i freq)"
      "moves R (pgSoftDeleteVault i)"
begin

lemma lifted_order: "reflp (lifted R)" "transp (lifted R)"
  using order by (auto simp: lifted_def reflp_def transp_def)

lemma move_tables: "moves R m \<Longrightarrow> moves (lifted R) (on_tables m)"
  unfolding moves_def lifted_def on_tables_def zoom_def by (auto split: prod.splits) (metis dbw.select_convs(1) snd_conv)

lemma move_memory:
  "moves (lifted R) (on_switches m)" "moves (lifted R) (invoke f c)" "(\<And>d. tables (g d) = tables d) \<Longrightarrow> moves (lifted R) (local g)"
  "moves (lifted R) (peek k)" "moves (lifted R) (ensureMoneyPathAllowed s op)" "moves (lifted R) (Authorize pol v x)"
  by (auto simp: moves_def lifted_def reflpD [OF order(1)] on_switches_def zoom_def invoke_def local_def peek_def bind_def ret_def fail_def
      ensureMoneyPathAllowed_def Authorize_def split: prod.splits option.splits)

lemma move_getVault: "moves (lifted R) (on_tables (pgGetVault j))"
  unfolding pgGetVault_def by (intro move_tables moves_bind [OF order(2)] moves_trivial [OF order(1)])

lemmas move_rules = moves_bind [OF lifted_order(2)] moves_trivial [OF lifted_order(1)] moves_if moves_option moves_sum moves_prod moves_list moves_bool
  move_memory move_getVault move_tables creates records updates

lemma move_operatorDeposit: "moves (lifted R) (operatorDeposit s dec j addr x)"
  unfolding operatorDeposit_def Let_def by (intro move_rules)

lemma move_helpers:
  "moves (lifted R) (sharesFor dec x y)" "moves (lifted R) (verifiedAmount ver h a k w)" "moves (lifted R) (linkedGoal s j)"
  "moves (lifted R) (submitWithdrawal dec s inp ex)" "moves (lifted R) (withdrawnAmount s inp ex h)" "moves (lifted R) (normalizeAllocations gen j now as)"
  "moves (lifted R) (creditDeposit gen dec dinp ex h x)" "moves (lifted R) (debitWithdrawal gen dec inp ex h y x)"
proof -
  show "moves (lifted R) (normalizeAllocations gen j now as)" by (induction as) (auto intro!: move_rules split: prod.splits)
qed (unfold sharesFor_def verifiedAmount_def verify_def linkedGoal_def submitWithdrawal_def resolveWithdrawalShares_def withdrawnAmount_def
    creditDeposit_def debitWithdrawal_def Let_def, (intro move_rules)+)

lemma call_moves: "lifted R (data w) (data (run_call gen dec s c w))"
proof -
  have "moves (lifted R) (CreateVault gen i1)" "moves (lifted R) (RecordDeposit gen dec s i2)"
    "moves (lifted R) (RecordWithdrawal gen dec s i3)" "moves (lifted R) (HarvestVault gen dec s i4)"
    "moves (lifted R) (RebalancePosition gen dec s i5)" "moves (lifted R) (UpdateAllocations gen v as)"
    "moves (lifted R) (UpdateVault v a st)" "moves (lifted R) (UpdateHarvestFrequency v u f)"
    "moves (lifted R) (CloseVault v b)" "moves (lifted R) (PauseVault v)" "moves (lifted R) (UnpauseVault v)"
    "moves (lifted R) (DeleteVault v)" "moves (lifted R) (EmergencyWithdraw s v)" "moves (lifted R) (GetSharePrice dec v)"
    for i1 i2 i3 i4 i5 v as a st u f b
    unfolding CreateVault_def RecordDeposit_def RecordWithdrawal_def HarvestVault_def RebalancePosition_def UpdateAllocations_def UpdateVault_def
      UpdateHarvestFrequency_def CloseVault_def PauseVault_def UnpauseVault_def DeleteVault_def EmergencyWithdraw_def GetSharePrice_def Let_def
    by (intro move_helpers move_operatorDeposit move_rules; simp)+
  then show ?thesis by (cases c) (simp_all add: moves_def)
qed

lemma step_moves: "sstep gen dec s w w' \<Longrightarrow> lifted R (data w) (data w')"
proof (induction rule: sstep.induct)
  case (Confirm i x h ty w r w')
  then show ?case using movesD [OF move_tables [OF records(4)]] by blast
qed (auto simp: lifted_def reflpD [OF order(1)] intro: call_moves [unfolded lifted_def])

end

interpretation tx_rows: table_order kept_rows
  by unfold_locales (intro kept_order repository_keeps_rows updates_keep_rows)+

text \<open>Owners: no statement rewrites the identifier or the owner of a vault, and no row is deleted.\<close>

definition owners :: "vault_db \<Rightarrow> (uuid \<times> uuid) set" where
  "owners d = (\<lambda>v. (vID v, vUserID v)) ` set (vaults d)"

definition owners_kept :: "vault_db \<Rightarrow> vault_db \<Rightarrow> bool" where
  "owners_kept d d' \<longleftrightarrow> owners d \<subseteq> owners d'"

lemma owners_order: "reflp owners_kept" "transp owners_kept"
  by (auto simp: owners_kept_def reflp_def transp_def)

lemma owners_map: "(\<And>v. vID (f v) = vID v \<and> vUserID (f v) = vUserID v) \<Longrightarrow> owners (d \<lparr> vaults := map f (vaults d) \<rparr>) = owners d"
  by (simp add: owners_def image_image)

lemma owners_update:
  assumes "\<And>v. vID (f v) = vID v \<and> vUserID (f v) = vUserID v"
  shows "moves owners_kept (stmt (updateVaultRow i f))"
proof (rule moves_stmt [OF owners_order(1)])
  fix d n d' assume "updateVaultRow i f d = Inr (n, d')"
  then have "d' = d \<lparr> vaults := map (\<lambda>v. if vID v = i \<and> DeletedAt v = None then store_vault (f v) else v) (vaults d) \<rparr>"
    by (auto simp: updateVaultRow_def Let_def split: if_splits)
  then show "owners_kept d d'" using owners_map [of "\<lambda>v. if vID v = i \<and> DeletedAt v = None then store_vault (f v) else v" d] assms
    by (simp add: owners_kept_def store_vault_def)
qed

lemma owners_same: "(\<And>w r w'. m w = (r, w') \<Longrightarrow> vaults (data w') = vaults (data w)) \<Longrightarrow> moves owners_kept m"
  unfolding moves_def owners_kept_def owners_def by (metis order_refl prod.collapse)

lemma owners_statements:
  "moves owners_kept (insertTxnStrict t)" "moves owners_kept (stmt (insertTxn t))" "moves owners_kept (on_books m)"
  by (rule owners_same, erule vaults_kept)+

lemma owners_wrappers: "moves owners_kept m \<Longrightarrow> moves owners_kept (dropped m)" "moves owners_kept n \<Longrightarrow> moves owners_kept (transaction n)"
proof -
  show "moves owners_kept (dropped m)" if "moves owners_kept m"
    using movesD [OF that] by (auto simp: moves_def dropped_def split: prod.splits sum.splits)
  show "moves owners_kept (transaction n)" if "moves owners_kept n"
    using movesD [OF that] unfolding moves_def transaction_def Let_def
    by (auto simp: owners_kept_def split: prod.splits sum.splits) fastforce+
qed

lemma owners_updateOne: "(\<And>now v. vID (f now v) = vID v \<and> vUserID (f now v) = vUserID v) \<Longrightarrow> moves owners_kept (updateOne i f)"
  unfolding updateOne_def by (intro moves_bind [OF owners_order(2)] moves_trivial [OF owners_order(1)] moves_if owners_update)

lemmas owners_rules = moves_bind [OF owners_order(2)] moves_trivial [OF owners_order(1)] moves_if moves_option moves_sum
  owners_statements owners_wrappers owners_updateOne owners_update

lemma row_owner:
  "vID (credit x now v) = vID v \<and> vUserID (credit x now v) = vUserID v" "vID (debit x now v) = vID v \<and> vUserID (debit x now v) = vUserID v"
  "vID (harvest_row h now v) = vID v \<and> vUserID (harvest_row h now v) = vUserID v"
  by (simp_all add: credit_def debit_def harvest_row_def Let_def)

lemma owners_repository:
  "moves owners_kept (pgRecordDeposit gen dec i rec)" "moves owners_kept (pgRecordWithdrawal gen dec i rec)" "moves owners_kept (pgRecordHarvest gen dec inp)"
  "moves owners_kept (applyConfirmedBalanceChange gen dec i x h ty)" "moves owners_kept (pgRecordRebalance gen dec b wd dp)"
  "moves owners_kept (pgUpdateVault i addr st)" "moves owners_kept (pgUpdateHarvestFrequency i freq)" "moves owners_kept (pgSoftDeleteVault i)"
  unfolding pgRecordDeposit_def pgRecordWithdrawal_def pgRecordHarvest_def applyConfirmedBalanceChange_def pgRecordRebalance_def
    pgUpdateVault_def pgUpdateHarvestFrequency_def pgSoftDeleteVault_def Let_def
  by (intro owners_rules; simp add: row_owner)+

lemma owners_create: "moves owners_kept (pgCreateVault m)"
  unfolding pgCreateVault_def Let_def
  by (intro moves_bind [OF owners_order(2)] moves_trivial [OF owners_order(1)] moves_stmt [OF owners_order(1)])
    (auto simp: owners_kept_def owners_def split: if_splits)

lemma owners_replace: "moves owners_kept (pgReplaceAllocations i as)"
proof -
  have "moves owners_kept (stmt (insertAllocation i a))" for a
    by (rule owners_same) (auto simp: stmt_def insertAllocation_def Let_def split: if_splits sum.splits)
  then have ins: "moves owners_kept (insertAllocations i as)" by (induction as) (auto intro: owners_rules)
  have upd: "moves owners_kept (stmt (\<lambda>d. Inr ((), d \<lparr> vaults := map (\<lambda>v. if vID v = i then v \<lparr> vUpdatedAt := now \<rparr> else v) (vaults d) \<rparr>)))" for now
    by (rule moves_stmt [OF owners_order(1)]) (auto simp: owners_kept_def owners_map)
  have del: "moves owners_kept (stmt (\<lambda>d. Inr ((), d \<lparr> allocs := filter (\<lambda>a. alVaultID a \<noteq> i) (allocs d) \<rparr>)))"
    by (rule owners_same) (auto simp: stmt_def Let_def split: if_splits)
  show ?thesis unfolding pgReplaceAllocations_def ensureVaultExists_def by (intro ins upd del owners_rules)
qed

interpretation vault_owners: table_order owners_kept
  by unfold_locales (intro owners_order owners_create owners_repository owners_replace)+

end
