(* ===== verification/Job_Queue.thy ===== *)
theory Job_Queue
  imports Database Float64
begin

text \<open>
  The durable job queue: \<^verbatim>\<open>internal/domain/jobqueue\<close> (model, client, backoff, worker) and
  \<^verbatim>\<open>internal/repository/postgres/job_repository.go\<close> on the table of migration 059. The table is a
  list of rows. Rows locked by other transactions are a parameter of \<^verbatim>\<open>Dequeue\<close>, which skips
  them; rows with equal priority and due time are taken in table order. The identifier default of
  the table is drawn like the identifiers of the program. Handlers are parameters: an outcome per
  job, with a panic as an outcome. The heartbeat goroutine and the drain at shutdown appear as
  repository calls at arbitrary times.
\<close>

section \<open>Domain model\<close>

datatype jstatus = StatusPending | StatusRunning | StatusSucceeded | StatusDead

definition DefaultMaxAttempts :: int where "DefaultMaxAttempts = 5"

record job =
  jID :: uuid
  jType :: string
  Payload :: string
  jStatus :: jstatus
  Priority :: int
  Attempts :: int
  MaxAttempts :: int
  IdempotencyKey :: string
  CorrelationID :: string
  NextRunAt :: time
  LeasedUntil :: "time option"
  LastError :: string
  Result :: string
  jCreatedAt :: time
  jUpdatedAt :: time

record enqueue_input =
  inType :: string
  inPayload :: string
  inPriority :: int
  inMaxAttempts :: int
  inIdempotencyKey :: string
  inCorrelationID :: string
  inRunAt :: time

record dequeue_params =
  dType :: string
  dLimit :: int
  dLease :: duration
  dNow :: time

record stats =
  Depth :: int
  Scheduled :: int
  RunningCount :: int
  DeadLetterCount :: int
  DepthByType :: "(string \<times> int) list"

datatype jq_error = ErrNotFound | ErrTypeRequired | ErrMessage string

text \<open>Handler errors: a message, an error that wraps another, and a permanent error.\<close>

datatype herror = Err string | Wrap string herror | PermanentError herror

definition Permanent :: "herror option \<Rightarrow> herror option" where
  "Permanent e = map_option PermanentError e"

fun IsPermanent :: "herror \<Rightarrow> bool" where
  "IsPermanent (Err _) = False"
| "IsPermanent (Wrap _ e) = IsPermanent e"
| "IsPermanent (PermanentError _) = True"

fun errorText :: "herror \<Rightarrow> string" where
  "errorText (Err s) = s"
| "errorText (Wrap s e) = s @ '': '' @ errorText e"
| "errorText (PermanentError e) = errorText e"

section \<open>The repository\<close>

record jobs_db =
  jobs :: "job list"

type_synonym ('z, 'a) jdb = "('z jobs_db_scheme, jq_error, 'a) db"

definition in_int32 :: "int \<Rightarrow> bool" where
  "in_int32 n \<longleftrightarrow> - (2 ^ 31) \<le> n \<and> n < 2 ^ 31"

definition live :: "job \<Rightarrow> bool" where
  "live j \<longleftrightarrow> jStatus j = StatusPending \<or> jStatus j = StatusRunning"

text \<open>The insert: the checks of the table, then the partial unique index of the conflict clause.\<close>

definition insertJob :: "job \<Rightarrow> 'z jobs_db_scheme \<Rightarrow> jq_error db_error + job option \<times> 'z jobs_db_scheme" where
  "insertJob j d =
     (if jID j \<in> jID ` set (jobs d) \<or> 100 < length (jType j) \<or> \<not> in_int32 (Priority j)
         \<or> \<not> in_int32 (MaxAttempts j) \<or> MaxAttempts j < 1
      then Inl Violation
      else if IdempotencyKey j \<noteq> '''' \<and> (\<exists>k \<in> set (jobs d). live k \<and> jType k = jType j \<and> IdempotencyKey k = IdempotencyKey j)
      then Inr (None, d)
      else Inr (Some j, d \<lparr> jobs := jobs d @ [j] \<rparr>))"

definition newJob :: "enqueue_input \<Rightarrow> uuid \<Rightarrow> time \<Rightarrow> job" where
  "newJob inp newID now =
     \<lparr> jID = newID, jType = inType inp,
       Payload = (if inPayload inp = '''' then ''{}'' else inPayload inp),
       jStatus = StatusPending, Priority = inPriority inp, Attempts = 0,
       MaxAttempts = (if inMaxAttempts inp \<le> 0 then DefaultMaxAttempts else inMaxAttempts inp),
       IdempotencyKey = inIdempotencyKey inp, CorrelationID = inCorrelationID inp,
       NextRunAt = (if time_is_zero (inRunAt inp) then now else inRunAt inp),
       LeasedUntil = None, LastError = '''', Result = '''', jCreatedAt = now, jUpdatedAt = now \<rparr>"

text \<open>\<^verbatim>\<open>ORDER BY created_at DESC LIMIT 1\<close> over the live jobs of a type and key.\<close>

definition newestLive :: "string \<Rightarrow> string \<Rightarrow> job list \<Rightarrow> job option" where
  "newestLive t k js =
     (case rev (sort_key jCreatedAt (filter (\<lambda>j. jType j = t \<and> IdempotencyKey j = k \<and> k \<noteq> '''' \<and> live j) js)) of
        [] \<Rightarrow> None | j # _ \<Rightarrow> Some j)"

definition pgEnqueue :: "(nat \<Rightarrow> uuid) \<Rightarrow> enqueue_input \<Rightarrow> ('z, job \<times> bool) jdb" where
  "pgEnqueue gen inp =
     bind time_now (\<lambda>now.
     bind (new_uuid gen) (\<lambda>newID.
     bind (stmt (insertJob (newJob inp newID now))) (\<lambda>row.
       case row of
         Some j \<Rightarrow> ret (j, True)
       | None \<Rightarrow> query (\<lambda>d. case newestLive (inType inp) (inIdempotencyKey inp) (jobs d) of
             None \<Rightarrow> Inl (App ErrNotFound) | Some j \<Rightarrow> Inr (j, False)))))"

definition runnable :: "dequeue_params \<Rightarrow> job \<Rightarrow> bool" where
  "runnable p j \<longleftrightarrow> jType j = dType p \<and>
     (jStatus j = StatusPending \<and> NextRunAt j \<le> dNow p
      \<or> jStatus j = StatusRunning \<and> (case LeasedUntil j of None \<Rightarrow> False | Some t \<Rightarrow> t \<le> dNow p))"

definition ready :: "uuid list \<Rightarrow> dequeue_params \<Rightarrow> job list \<Rightarrow> job list" where
  "ready locked p js = take (nat (dLimit p))
     (sort_key (\<lambda>j. (- Priority j, NextRunAt j)) (filter (\<lambda>j. runnable p j \<and> jID j \<notin> set locked) js))"

definition lease :: "dequeue_params \<Rightarrow> time \<Rightarrow> job \<Rightarrow> job" where
  "lease p now j = j \<lparr> jStatus := StatusRunning, LeasedUntil := Some (dNow p + dLease p),
     Attempts := Attempts j + 1, jUpdatedAt := now \<rparr>"

definition pgDequeue :: "uuid list \<Rightarrow> dequeue_params \<Rightarrow> ('z, job list) jdb" where
  "pgDequeue locked p =
     (if dLimit p \<le> 0 then ret []
      else bind time_now (\<lambda>now.
        stmt (\<lambda>d. let rs = ready locked p (jobs d)
                  in if \<exists>j \<in> set rs. \<not> in_int32 (Attempts j + 1) then Inl Violation
                     else Inr (map (lease p now) rs,
                       d \<lparr> jobs := map (\<lambda>j. if jID j \<in> jID ` set rs then lease p now j else j) (jobs d) \<rparr>))))"

text \<open>An update of the row with an identifier, guarded by the status being running; it returns the number of rows.\<close>

definition updateRunning :: "uuid \<Rightarrow> (job \<Rightarrow> job) \<Rightarrow> ('z, nat) jdb" where
  "updateRunning i f = stmt (\<lambda>d. Inr (length (filter (\<lambda>j. jID j = i \<and> jStatus j = StatusRunning) (jobs d)),
     d \<lparr> jobs := map (\<lambda>j. if jID j = i \<and> jStatus j = StatusRunning then f j else j) (jobs d) \<rparr>))"

definition completed :: "string \<Rightarrow> time \<Rightarrow> job \<Rightarrow> job" where
  "completed res now j = j \<lparr> jStatus := StatusSucceeded, Result := res, LeasedUntil := None, LastError := '''', jUpdatedAt := now \<rparr>"

definition retried :: "time \<Rightarrow> string \<Rightarrow> time \<Rightarrow> job \<Rightarrow> job" where
  "retried next err now j = j \<lparr> jStatus := StatusPending, NextRunAt := next, LastError := err, LeasedUntil := None, jUpdatedAt := now \<rparr>"

definition deadLettered :: "string \<Rightarrow> time \<Rightarrow> job \<Rightarrow> job" where
  "deadLettered err now j = j \<lparr> jStatus := StatusDead, LastError := err, LeasedUntil := None, jUpdatedAt := now \<rparr>"

definition heartbeaten :: "time \<Rightarrow> time \<Rightarrow> job \<Rightarrow> job" where
  "heartbeaten until now j = j \<lparr> LeasedUntil := Some until, jUpdatedAt := now \<rparr>"

definition pgComplete :: "uuid \<Rightarrow> string \<Rightarrow> ('z, unit) jdb" where
  "pgComplete i res = bind time_now (\<lambda>now. bind (updateRunning i (completed res now)) (\<lambda>_. ret ()))"

definition pgRetry :: "uuid \<Rightarrow> time \<Rightarrow> string \<Rightarrow> ('z, unit) jdb" where
  "pgRetry i next err = bind time_now (\<lambda>now. bind (updateRunning i (retried next err now)) (\<lambda>_. ret ()))"

definition pgDeadLetter :: "uuid \<Rightarrow> string \<Rightarrow> ('z, unit) jdb" where
  "pgDeadLetter i err = bind time_now (\<lambda>now. bind (updateRunning i (deadLettered err now)) (\<lambda>_. ret ()))"

definition pgHeartbeat :: "uuid \<Rightarrow> time \<Rightarrow> ('z, unit) jdb" where
  "pgHeartbeat i until = bind time_now (\<lambda>now. bind (updateRunning i (heartbeaten until now)) (\<lambda>n.
     if n = 0 then fail (App ErrNotFound) else ret ()))"

definition pgJobStatus :: "uuid \<Rightarrow> ('z, jstatus) jdb" where
  "pgJobStatus i = query (\<lambda>d. case List.find (\<lambda>j. jID j = i) (jobs d) of None \<Rightarrow> Inl (App ErrNotFound) | Some j \<Rightarrow> Inr (jStatus j))"

definition countJobs :: "(job \<Rightarrow> bool) \<Rightarrow> job list \<Rightarrow> int" where
  "countJobs P js = int (length (filter P js))"

definition pgStats :: "time \<Rightarrow> ('z, stats) jdb" where
  "pgStats now =
     bind (query (\<lambda>d. Inr (countJobs (\<lambda>j. jStatus j = StatusPending \<and> NextRunAt j \<le> now) (jobs d),
              countJobs (\<lambda>j. jStatus j = StatusPending \<and> NextRunAt j > now) (jobs d),
              countJobs (\<lambda>j. jStatus j = StatusRunning) (jobs d),
              countJobs (\<lambda>j. jStatus j = StatusDead) (jobs d)))) (\<lambda>(a, b, c, e).
     bind (query (\<lambda>d. Inr (map (\<lambda>t. (t, countJobs (\<lambda>j. live j \<and> jType j = t) (jobs d)))
              (remdups (map jType (filter live (jobs d))))))) (\<lambda>m.
       ret \<lparr> Depth = a, Scheduled = b, RunningCount = c, DeadLetterCount = e, DepthByType = m \<rparr>))"

section \<open>The client\<close>

definition clientEnqueue :: "(nat \<Rightarrow> uuid) \<Rightarrow> enqueue_input \<Rightarrow> ('z, job) jdb" where
  "clientEnqueue gen inp =
     (if inType inp = '''' then fail (App ErrTypeRequired)
      else bind (pgEnqueue gen inp) (\<lambda>(j, created). ret j))"

section \<open>The worker\<close>

record backoff_config =
  boBase :: duration
  boMax :: duration

text \<open>\<^verbatim>\<open>rng.Float64()\<close> is the parameter \<open>u\<close>, a float64 in the half-open unit interval.\<close>

definition backoffCapNanos :: "backoff_config \<Rightarrow> int \<Rightarrow> rat" where
  "backoffCapNanos cfg att0 =
     (let att = (if att0 < 1 then 1 else att0);
          base = (if boBase cfg \<le> 0 then second else boBase cfg);
          mx = (if boMax cfg \<le> 0 then 5 * minute else boMax cfg);
          ex = f64_round (f64_round (of_int base) * 2 ^ nat (att - 1));
          cap0 = f64_round (of_int mx);
          cap1 = (if ex < cap0 then ex else cap0)
      in if cap1 < 0 then f64_round (of_int mx) else cap1)"

definition backoffDuration :: "backoff_config \<Rightarrow> int \<Rightarrow> rat \<Rightarrow> duration" where
  "backoffDuration cfg att u = f64_trunc (f64_round (u * backoffCapNanos cfg att))"

record config =
  Enabled :: bool
  PollInterval :: duration
  Lease :: duration
  HeartbeatInterval :: duration
  JobTimeout :: duration
  DefaultConcurrency :: int
  Backoff :: backoff_config
  StatsInterval :: duration
  DrainTimeout :: duration

definition withDefaults :: "config \<Rightarrow> config" where
  "withDefaults c0 =
     (let c1 = (if PollInterval c0 \<le> 0 then c0 \<lparr> PollInterval := second \<rparr> else c0);
          c2 = (if Lease c1 \<le> 0 then c1 \<lparr> Lease := 30 * second \<rparr> else c1);
          c3 = (if HeartbeatInterval c2 \<le> 0 then c2 \<lparr> HeartbeatInterval := go_quot (Lease c2) 3 \<rparr> else c2);
          c4 = (if DefaultConcurrency c3 < 1 then c3 \<lparr> DefaultConcurrency := 1 \<rparr> else c3)
      in if DrainTimeout c4 \<le> 0 then c4 \<lparr> DrainTimeout := 30 * second \<rparr> else c4)"

text \<open>A registration: the concurrency limit is the capacity of its semaphore, and \<open>inFlight\<close> how many slots are taken.\<close>

record registration =
  concurrency :: int
  inFlight :: int

record worker =
  cfg :: config
  regs :: "(string \<times> registration) list"

definition NewWorker :: "config \<Rightarrow> worker" where
  "NewWorker c = \<lparr> cfg = withDefaults c, regs = [] \<rparr>"

text \<open>Registering a type twice panics.\<close>

definition Register :: "string \<Rightarrow> int \<Rightarrow> worker \<Rightarrow> worker option" where
  "Register jobType conc w =
     (if jobType \<in> fst ` set (regs w) then None
      else Some (w \<lparr> regs := regs w @ [(jobType,
             \<lparr> concurrency = (if conc \<le> 0 then DefaultConcurrency (cfg w) else conc), inFlight = 0 \<rparr>)] \<rparr>))"

text \<open>
  One poll over the registrations, in the order of the list (the order of a Go map is any order).
  \<open>locked\<close> gives the rows locked by others at each dequeue; \<open>cancelled\<close> says that the context is
  done, in which case a failed dequeue ends the poll. The result is the new registrations and the jobs started.
\<close>

fun tick :: "config \<Rightarrow> (string \<Rightarrow> uuid list) \<Rightarrow> bool \<Rightarrow> (string \<times> registration) list \<Rightarrow>
    ('z, (string \<times> registration) list \<times> job list) jdb" where
  "tick c locked cancelled [] = ret ([], [])"
| "tick c locked cancelled ((t, reg) # rest) =
     (let free = concurrency reg - inFlight reg
      in if free \<le> 0
         then bind (tick c locked cancelled rest) (\<lambda>(rs, js). ret ((t, reg) # rs, js))
         else bind time_now (\<lambda>now.
              bind (attempt (pgDequeue (locked t) \<lparr> dType = t, dLimit = free, dLease = Lease c, dNow = now \<rparr>)) (\<lambda>r.
                case r of
                  Inl _ \<Rightarrow>
                    if cancelled then ret ((t, reg) # rest, [])
                    else bind (tick c locked cancelled rest) (\<lambda>(rs, js). ret ((t, reg) # rs, js))
                | Inr got \<Rightarrow>
                    bind (tick c locked cancelled rest) (\<lambda>(rs, js).
                      ret ((t, reg \<lparr> inFlight := inFlight reg + int (length got) \<rparr>) # rs, got @ js)))))"

datatype outcome = Returned "herror option" | Panicked string

definition runHandler :: "(job \<Rightarrow> outcome) \<Rightarrow> job \<Rightarrow> herror option" where
  "runHandler h j = (case h j of Returned e \<Rightarrow> e | Panicked r \<Rightarrow> Some (Err (''handler panicked: '' @ r)))"

datatype processed = Completed | DeadLettered | Retried | WriteFailed

text \<open>What a worker does with a leased job once its handler is done; \<open>u\<close> is the jitter drawn.\<close>

definition process :: "config \<Rightarrow> (job \<Rightarrow> outcome) \<Rightarrow> rat \<Rightarrow> job \<Rightarrow> ('z, processed) jdb" where
  "process c h u j =
     (case runHandler h j of
        None \<Rightarrow> bind (attempt (pgComplete (jID j) '''')) (\<lambda>r. ret (case r of Inl _ \<Rightarrow> WriteFailed | Inr _ \<Rightarrow> Completed))
      | Some err \<Rightarrow>
          if IsPermanent err \<or> MaxAttempts j \<le> Attempts j
          then bind (attempt (pgDeadLetter (jID j) (errorText err))) (\<lambda>r. ret (case r of Inl _ \<Rightarrow> WriteFailed | Inr _ \<Rightarrow> DeadLettered))
          else bind time_now (\<lambda>now.
               bind (attempt (pgRetry (jID j) (now + backoffDuration (Backoff c) (Attempts j) u) (errorText err))) (\<lambda>r.
                 ret (case r of Inl _ \<Rightarrow> WriteFailed | Inr _ \<Rightarrow> Retried))))"

section \<open>Steps of the queue\<close>

text \<open>
  The operations that any number of producers and workers apply to the shared table, in any
  order, together with the passage of time and every schedule of faults.
\<close>

datatype job_op =
    JEnqueue enqueue_input
  | JDequeue "uuid list" dequeue_params
  | JComplete uuid string
  | JRetry uuid time string
  | JDeadLetter uuid string
  | JHeartbeat uuid time

definition run_job_op :: "(nat \<Rightarrow> uuid) \<Rightarrow> job_op \<Rightarrow> 'z jobs_db_scheme dbw \<Rightarrow> 'z jobs_db_scheme dbw" where
  "run_job_op gen x w = (case x of
      JEnqueue i \<Rightarrow> snd (clientEnqueue gen i w)
    | JDequeue l p \<Rightarrow> snd (pgDequeue l p w)
    | JComplete i res \<Rightarrow> snd (pgComplete i res w)
    | JRetry i t e \<Rightarrow> snd (pgRetry i t e w)
    | JDeadLetter i e \<Rightarrow> snd (pgDeadLetter i e w)
    | JHeartbeat i t \<Rightarrow> snd (pgHeartbeat i t w))"

inductive jstep :: "(nat \<Rightarrow> uuid) \<Rightarrow> jobs_db dbw \<Rightarrow> jobs_db dbw \<Rightarrow> bool" for gen where
  jstep_op: "jstep gen w (run_job_op gen x w)"
| jstep_env: "wall w \<le> t \<Longrightarrow> jstep gen w (w \<lparr> wall := t, sched := fs \<rparr>)"

inductive_cases jstepE: "jstep gen w w'"

definition jobs_init :: "time \<Rightarrow> jobs_db dbw" where
  "jobs_init t = \<lparr> data = \<lparr> jobs = [] \<rparr>, sched = [], drawn = 0, wall = t \<rparr>"

definition job_ok :: "job \<Rightarrow> bool" where
  "job_ok j \<longleftrightarrow> (jStatus j = StatusRunning \<longleftrightarrow> LeasedUntil j \<noteq> None) \<and> 0 \<le> Attempts j \<and> 1 \<le> MaxAttempts j
     \<and> (jStatus j \<noteq> StatusPending \<longrightarrow> 1 \<le> Attempts j)"

definition live_keys_unique :: "job list \<Rightarrow> bool" where
  "live_keys_unique js \<longleftrightarrow> (\<forall>a \<in> set js. \<forall>b \<in> set js. live a \<and> live b \<and> IdempotencyKey a \<noteq> ''''
     \<and> jType a = jType b \<and> IdempotencyKey a = IdempotencyKey b \<longrightarrow> a = b)"

definition jobs_inv :: "'z jobs_db_scheme \<Rightarrow> bool" where
  "jobs_inv d \<longleftrightarrow> distinct (map jID (jobs d)) \<and> (\<forall>j \<in> set (jobs d). job_ok j) \<and> live_keys_unique (jobs d)"

text \<open>
  A change of rows that keeps identifiers, types and keys and never revives or alters a terminal
  job; all updates of the repository are of this kind.
\<close>

definition tame :: "(job \<Rightarrow> job) \<Rightarrow> bool" where
  "tame f \<longleftrightarrow> (\<forall>j. jID (f j) = jID j \<and> jType (f j) = jType j \<and> IdempotencyKey (f j) = IdempotencyKey j
     \<and> MaxAttempts (f j) = MaxAttempts j \<and> (\<not> live j \<longrightarrow> f j = j) \<and> (job_ok j \<longrightarrow> job_ok (f j)))"

lemma tameD: "tame f \<Longrightarrow> jID (f j) = jID j" "tame f \<Longrightarrow> jType (f j) = jType j"
  "tame f \<Longrightarrow> IdempotencyKey (f j) = IdempotencyKey j" "tame f \<Longrightarrow> live (f j) \<Longrightarrow> live j"
  "tame f \<Longrightarrow> \<not> live j \<Longrightarrow> f j = j" "tame f \<Longrightarrow> job_ok j \<Longrightarrow> job_ok (f j)"
  unfolding tame_def by metis+

lemma live_keys_unique_map:
  assumes "live_keys_unique js" and t: "tame f"
  shows "live_keys_unique (map f js)"
  unfolding live_keys_unique_def
proof (intro ballI impI, elim conjE)
  fix a b
  assume ab: "a \<in> set (map f js)" "b \<in> set (map f js)" and l: "live a" "live b" "IdempotencyKey a \<noteq> ''''"
    "jType a = jType b" "IdempotencyKey a = IdempotencyKey b"
  from ab obtain x y where "x \<in> set js" "y \<in> set js" "a = f x" "b = f y" by auto
  with l assms(1) show "a = b"
    unfolding live_keys_unique_def using tameD [OF t] by (metis (no_types, lifting))
qed

lemma jobs_inv_map:
  assumes "jobs_inv d" and t: "tame f"
  shows "jobs_inv (d \<lparr> jobs := map f (jobs d) \<rparr>)"
proof -
  have "map jID (map f (jobs d)) = map jID (jobs d)" by (simp add: tameD(1) [OF t])
  moreover have "\<forall>j \<in> set (map f (jobs d)). job_ok j" using assms by (auto simp: jobs_inv_def tameD(6) [OF t])
  moreover have "live_keys_unique (map f (jobs d))"
    using assms(1) by (intro live_keys_unique_map [OF _ t]) (simp add: jobs_inv_def)
  ultimately show ?thesis using assms(1) unfolding jobs_inv_def by (simp del: map_map set_map)
qed

lemma tame_lease: "tame (\<lambda>j. if jID j \<in> I \<and> live j then lease p now j else j)"
  by (auto simp: tame_def lease_def job_ok_def live_def)

lemma tame_running:
  "tame (\<lambda>j. if jID j = i \<and> jStatus j = StatusRunning then completed res now j else j)"
  "tame (\<lambda>j. if jID j = i \<and> jStatus j = StatusRunning then retried next err now j else j)"
  "tame (\<lambda>j. if jID j = i \<and> jStatus j = StatusRunning then deadLettered err now j else j)"
  "tame (\<lambda>j. if jID j = i \<and> jStatus j = StatusRunning then heartbeaten until now j else j)"
  by (auto simp: tame_def completed_def retried_def deadLettered_def heartbeaten_def job_ok_def live_def)

lemma ready_sub: "j \<in> set (ready locked p js) \<Longrightarrow> j \<in> set js \<and> runnable p j \<and> jID j \<notin> set locked"
  by (auto simp: ready_def dest!: in_set_takeD)

lemma runnable_live: "runnable p j \<Longrightarrow> live j"
  by (auto simp: runnable_def live_def)

lemma lease_rows:
  assumes "distinct (map jID js)"
  shows "map (\<lambda>j. if jID j \<in> jID ` set (ready locked p js) then lease p now j else j) js
       = map (\<lambda>j. if jID j \<in> jID ` set (ready locked p js) \<and> live j then lease p now j else j) js"
proof (rule map_cong [OF refl])
  fix j assume j: "j \<in> set js"
  have "live j" if "jID j \<in> jID ` set (ready locked p js)"
  proof -
    from that obtain k where k: "k \<in> set (ready locked p js)" "jID k = jID j" by auto
    with ready_sub [OF k(1)] assms j have "k = j" by (auto simp: distinct_map dest: inj_onD)
    with ready_sub [OF k(1)] show ?thesis using runnable_live by blast
  qed
  then show "(if jID j \<in> jID ` set (ready locked p js) then lease p now j else j)
      = (if jID j \<in> jID ` set (ready locked p js) \<and> live j then lease p now j else j)" by auto
qed

text \<open>What one operation does to the table: new rows at the end, and a tame change of the others.\<close>

definition evolves :: "'z jobs_db_scheme \<Rightarrow> 'z jobs_db_scheme \<Rightarrow> bool" where
  "evolves d d' \<longleftrightarrow> jobs_inv d' \<and> (\<exists>f new. tame f \<and> jobs d' = map f (jobs d) @ new)"

lemma evolves_refl: "jobs_inv d \<Longrightarrow> evolves d d"
  unfolding evolves_def
  by (intro conjI exI [of _ "\<lambda>j. j"] exI [of _ "[]"]) (auto simp: tame_def)

lemma evolves_trans: "evolves a b \<Longrightarrow> evolves b c \<Longrightarrow> evolves a c"
proof -
  assume "evolves a b" "evolves b c"
  then obtain f g m n where h: "tame f" "tame g" "jobs b = map f (jobs a) @ m" "jobs c = map g (jobs b) @ n" "jobs_inv c"
    by (auto simp: evolves_def)
  then have "tame (g \<circ> f)" unfolding tame_def by simp
  then show ?thesis unfolding evolves_def using h
    by (intro conjI exI [of _ "g \<circ> f"] exI [of _ "map g m @ n"]) auto
qed

lemma evolves_map: "jobs_inv d \<Longrightarrow> tame f \<Longrightarrow> evolves d (d \<lparr> jobs := map f (jobs d) \<rparr>)"
  unfolding evolves_def using jobs_inv_map by (intro conjI exI [of _ f] exI [of _ "[]"]) auto

lemma evolves_insert:
  assumes inv: "jobs_inv d" and ins: "insertJob (newJob inp i now) d = Inr (r, d')"
  shows "evolves d d'"
proof (cases r)
  case None
  with ins have "d' = d" by (auto simp: insertJob_def split: if_splits)
  with inv show ?thesis by (simp add: evolves_refl)
next
  case (Some j)
  let ?j = "newJob inp i now"
  have d': "d' = d \<lparr> jobs := jobs d @ [?j] \<rparr>" and fresh: "jID ?j \<notin> jID ` set (jobs d)"
    and key: "IdempotencyKey ?j \<noteq> '''' \<longrightarrow>
      (\<forall>k \<in> set (jobs d). \<not> (live k \<and> jType k = jType ?j \<and> IdempotencyKey k = IdempotencyKey ?j))"
    and mx: "1 \<le> MaxAttempts ?j"
    using ins Some by (auto simp: insertJob_def split: if_splits)
  have "job_ok ?j" using mx by (simp add: job_ok_def newJob_def)
  moreover have "live_keys_unique (jobs d @ [?j])"
    using inv key unfolding jobs_inv_def live_keys_unique_def by auto
  ultimately have "jobs_inv d'" using inv fresh by (auto simp: jobs_inv_def d')
  then show ?thesis unfolding evolves_def d'
    by (intro conjI exI [of _ "\<lambda>j. j"] exI [of _ "[?j]"]) (auto simp: tame_def)
qed

definition advance :: "'z jobs_db_scheme \<Rightarrow> 'z jobs_db_scheme \<Rightarrow> bool" where
  "advance d d' \<longleftrightarrow> (jobs_inv d \<longrightarrow> evolves d d')"

lemma advance_preorder: "reflp advance" "transp advance"
  unfolding advance_def by (auto intro!: reflpI transpI evolves_refl elim: evolves_trans) (auto simp: evolves_def)

lemmas advance_rules = moves_bind [OF advance_preorder(2)] moves_trivial [OF advance_preorder(1)]
  moves_stmt [OF advance_preorder(1)] moves_attempt moves_if moves_option moves_sum moves_prod

lemma advance_enqueue: "moves advance (pgEnqueue gen inp)"
  unfolding pgEnqueue_def by (intro advance_rules) (auto simp: advance_def intro: evolves_insert)

lemma advance_client: "moves advance (clientEnqueue gen inp)"
  unfolding clientEnqueue_def by (intro advance_rules advance_enqueue)

lemma advance_dequeue: "moves advance (pgDequeue locked p)"
  unfolding pgDequeue_def
  by (intro advance_rules)
    (auto simp: advance_def Let_def jobs_inv_def lease_rows intro!: evolves_map [OF _ tame_lease]
      split: if_splits)

lemma advance_update:
  "tame (\<lambda>j. if jID j = i \<and> jStatus j = StatusRunning then f j else j) \<Longrightarrow> moves advance (updateRunning i f)"
  unfolding updateRunning_def
  by (rule moves_stmt [OF advance_preorder(1)]) (auto simp: advance_def intro: evolves_map)

lemma advance_writes:
  "moves advance (pgComplete i res)" "moves advance (pgRetry i next err)" "moves advance (pgDeadLetter i err)"
  "moves advance (pgHeartbeat i until)"
  unfolding pgComplete_def pgRetry_def pgDeadLetter_def pgHeartbeat_def
  by (intro advance_rules advance_update tame_running)+

lemma run_job_op_advance: "advance (data w) (data (run_job_op gen x w))"
  by (cases x) (simp_all add: run_job_op_def advance_client [unfolded moves_def] advance_dequeue [unfolded moves_def]
      advance_writes [unfolded moves_def])

lemma jstep_advance: "jstep gen w w' \<Longrightarrow> advance (data w) (data w')"
  by (erule jstepE) (auto intro: run_job_op_advance reflpD [OF advance_preorder(1)])

lemma jsteps_advance: "(jstep gen)\<^sup>*\<^sup>* w w' \<Longrightarrow> advance (data w) (data w')"
  by (induction rule: rtranclp_induct)
    (auto intro: reflpD [OF advance_preorder(1)] transpD [OF advance_preorder(2)] jstep_advance)

lemma jobs_reachable_inv: "(jstep gen)\<^sup>*\<^sup>* (jobs_init t) w \<Longrightarrow> jobs_inv (data w)"
  using jsteps_advance [of gen "jobs_init t" w]
  by (auto simp: advance_def evolves_def jobs_init_def jobs_inv_def live_keys_unique_def)

section \<open>Properties of the queue\<close>

text \<open>
  In every state the queue can reach, through any interleaving of enqueues, dequeues, outcome
  writes and heartbeats and any database faults: job identifiers are distinct; at most one live
  (pending or running) job exists per type and idempotency key; a job is running exactly when it
  carries a lease; and every job that has left the pending state was leased at least once.
\<close>

theorem job_live_keys_unique:
  assumes "(jstep gen)\<^sup>*\<^sup>* (jobs_init t) w"
  shows "distinct (map jID (jobs (data w)))
    \<and> (\<forall>a \<in> set (jobs (data w)). \<forall>b \<in> set (jobs (data w)). live a \<and> live b \<and> IdempotencyKey a \<noteq> ''''
         \<and> jType a = jType b \<and> IdempotencyKey a = IdempotencyKey b \<longrightarrow> a = b)
    \<and> (\<forall>j \<in> set (jobs (data w)). (jStatus j = StatusRunning \<longleftrightarrow> LeasedUntil j \<noteq> None)
         \<and> 0 \<le> Attempts j \<and> 1 \<le> MaxAttempts j \<and> (jStatus j \<noteq> StatusPending \<longrightarrow> 1 \<le> Attempts j))"
  using jobs_reachable_inv [OF assms] unfolding jobs_inv_def live_keys_unique_def job_ok_def by blast

definition input0 :: enqueue_input where
  "input0 = \<lparr> inType = ''mail'', inPayload = '''', inPriority = 0, inMaxAttempts = 2, inIdempotencyKey = ''k'',
     inCorrelationID = '''', inRunAt = 0 \<rparr>"

definition params0 :: "time \<Rightarrow> dequeue_params" where
  "params0 now = \<lparr> dType = ''mail'', dLimit = 1, dLease = 10, dNow = now \<rparr>"

lemma jsteps_ops: "(jstep gen)\<^sup>*\<^sup>* w (fold (run_job_op gen) xs w)"
  by (induction xs arbitrary: w) (auto intro: converse_rtranclp_into_rtranclp jstep_op)

theorem job_live_keys_unique_witness:
  "distinct (map jID (jobs (data (fold (run_job_op Suc) [JEnqueue input0, JDequeue [] (params0 50), JEnqueue input0] (jobs_init 40)))))"
  using job_live_keys_unique [OF jsteps_ops [of Suc "jobs_init 40" "[JEnqueue input0, JDequeue [] (params0 50), JEnqueue input0]"]]
  by blast

text \<open>
  A terminal job is final: once a job has succeeded or is in the dead-letter queue, its row
  stays as it is in every later state, whatever producers, workers and late writers do.
\<close>

theorem job_terminal_final:
  assumes "(jstep gen)\<^sup>*\<^sup>* (jobs_init t) w" and "(jstep gen)\<^sup>*\<^sup>* w w'"
    and "j \<in> set (jobs (data w))" and "jStatus j = StatusSucceeded \<or> jStatus j = StatusDead"
  shows "j \<in> set (jobs (data w'))"
proof -
  have "evolves (data w) (data w')"
    using jsteps_advance [OF assms(2)] jobs_reachable_inv [OF assms(1)] by (simp add: advance_def)
  then obtain f new where f: "tame f" "jobs (data w') = map f (jobs (data w)) @ new" by (auto simp: evolves_def)
  have "\<not> live j" using assms(4) by (auto simp: live_def)
  then have "f j = j" by (rule tameD(5) [OF f(1)])
  then show ?thesis using f(2) assms(3) by (auto simp: image_iff) metis
qed

theorem job_terminal_final_witness:
  "let w = fold (run_job_op Suc) [JEnqueue input0, JDequeue [] (params0 50), JComplete 1 ''''] (jobs_init 40);
       w' = fold (run_job_op Suc) [JRetry 1 60 ''late'', JDeadLetter 1 ''late'', JDequeue [] (params0 90)] w
   in \<forall>j \<in> set (jobs (data w)). jStatus j = StatusSucceeded \<and> j \<in> set (jobs (data w'))"
proof -
  let ?w = "fold (run_job_op Suc) [JEnqueue input0, JDequeue [] (params0 50), JComplete 1 ''''] (jobs_init 40)"
  have "list_all (\<lambda>j. jStatus j = StatusSucceeded) (jobs (data ?w))" by code_simp
  then show ?thesis
    using job_terminal_final [OF jsteps_ops jsteps_ops, of _ Suc "[JEnqueue input0, JDequeue [] (params0 50), JComplete 1 '''']" 40
        "[JRetry 1 60 ''late'', JDeadLetter 1 ''late'', JDequeue [] (params0 90)]"]
    unfolding Let_def list_all_iff by blast
qed

lemma pgDequeue_Inr:
  assumes "pgDequeue locked p w = (Inr got, w')" and "0 < dLimit p"
  shows "got = map (lease p (wall w)) (ready locked p (jobs (data w)))
    \<and> jobs (data w') = map (\<lambda>j. if jID j \<in> jID ` set (ready locked p (jobs (data w))) then lease p (wall w) j else j) (jobs (data w))"
  using assms unfolding pgDequeue_def
  by (auto simp: bind_Inr time_now_def Let_def dest!: stmt_Inr split: if_splits)
    (drule arg_cong [where f = jobs], simp)

lemma take_sorted_key:
  assumes "x \<in> set (take n (sort_key f xs))" and "y \<in> set xs" and "y \<notin> set (take n (sort_key f xs))"
  shows "f x \<le> f y"
proof -
  let ?s = "sort_key f xs"
  have "y \<in> set (drop n ?s)"
    using assms(2,3) by (metis Un_iff append_take_drop_id set_append set_sort)
  moreover have "sorted (map f (take n ?s) @ map f (drop n ?s))"
    by (metis append_take_drop_id map_append sorted_sort_key)
  ultimately show ?thesis using assms(1) by (auto simp: sorted_append)
qed

text \<open>
  A dequeue leases exactly the right jobs. It returns as many jobs as the limit and the runnable
  unlocked rows allow; each is a due pending job or a running job whose lease has expired, now
  running under the new lease with one more attempt; no job left behind is ordered before a
  leased one (higher priority first, then earlier due time); and every other row is untouched.
\<close>

theorem dequeue_exact:
  assumes "jobs_inv (data w)" and "0 < dLimit p" and "pgDequeue locked p w = (Inr got, w')"
    and "due = filter (\<lambda>j. runnable p j \<and> jID j \<notin> set locked) (jobs (data w))"
  shows "length got = min (nat (dLimit p)) (length due)
    \<and> (\<exists>chosen. got = map (lease p (wall w)) chosen \<and> set chosen \<subseteq> set due
        \<and> (\<forall>c \<in> set chosen. \<forall>j \<in> set due - set chosen. (- Priority c, NextRunAt c) \<le> (- Priority j, NextRunAt j))
        \<and> jobs (data w') = map (\<lambda>j. if j \<in> set chosen then lease p (wall w) j else j) (jobs (data w)))"
proof -
  let ?r = "ready locked p (jobs (data w))"
  note got = pgDequeue_Inr [OF assms(3,2)]
  have inj: "inj_on jID (set (jobs (data w)))" using assms(1) by (simp add: jobs_inv_def distinct_map)
  have r: "?r = take (nat (dLimit p)) (sort_key (\<lambda>j. (- Priority j, NextRunAt j)) due)"
    by (simp add: ready_def assms(4))
  have "jobs (data w') = map (\<lambda>j. if j \<in> set ?r then lease p (wall w) j else j) (jobs (data w))"
  proof -
    have "jID j \<in> jID ` set ?r \<longleftrightarrow> j \<in> set ?r" if "j \<in> set (jobs (data w))" for j
      using inj that ready_sub [of _ locked p "jobs (data w)"] by (auto dest: inj_onD)
    then show ?thesis using got by auto
  qed
  moreover have "\<forall>c \<in> set ?r. \<forall>j \<in> set due - set ?r. (- Priority c, NextRunAt c) \<le> (- Priority j, NextRunAt j)"
    unfolding r using take_sorted_key [of _ "nat (dLimit p)" "\<lambda>j. (- Priority j, NextRunAt j)" due] by blast
  moreover have "set ?r \<subseteq> set due" unfolding r by (auto dest!: in_set_takeD)
  moreover have "length got = min (nat (dLimit p)) (length due)" using got by (simp add: r)
  ultimately show ?thesis using got by blast
qed

theorem dequeue_exact_witness:
  "length (case fst (pgDequeue [] (params0 50) (fold (run_job_op Suc) [JEnqueue input0] (jobs_init 40))) of
      Inl _ \<Rightarrow> [] | Inr got \<Rightarrow> got) = 1"
proof -
  let ?w = "fold (run_job_op Suc) [JEnqueue input0] (jobs_init 40)"
  let ?m = "pgDequeue [] (params0 50) ?w"
  have inv: "jobs_inv (data ?w)" by (rule jobs_reachable_inv [OF jsteps_ops])
  have "case fst ?m of Inl _ \<Rightarrow> False | Inr _ \<Rightarrow> True" by code_simp
  then obtain got w' where m: "?m = (Inr got, w')" by (cases ?m) (auto split: sum.splits)
  have n: "length (filter (\<lambda>j. runnable (params0 50) j \<and> jID j \<notin> set []) (jobs (data ?w))) = 1" by code_simp
  have l: "dLimit (params0 50) = 1" by (simp add: params0_def)
  have "length got = 1"
    using dequeue_exact [OF inv _ m refl] unfolding n l by simp
  then show ?thesis unfolding m by simp
qed

subsection \<open>Leases\<close>

text \<open>
  A row that no dequeue before \<open>t\<close> picks: it runs under a lease up to \<open>t\<close> or longer, it waits for
  \<open>t\<close> or later, or it is terminal.
\<close>

definition waits :: "time \<Rightarrow> job \<Rightarrow> bool" where
  "waits t k = (case jStatus k of
     StatusRunning \<Rightarrow> (case LeasedUntil k of None \<Rightarrow> True | Some u \<Rightarrow> t \<le> u)
   | StatusPending \<Rightarrow> t \<le> NextRunAt k
   | _ \<Rightarrow> True)"

definition kept_back :: "uuid \<Rightarrow> time \<Rightarrow> 'z jobs_db_scheme \<Rightarrow> bool" where
  "kept_back i t d \<longleftrightarrow> i \<in> jID ` set (jobs d) \<and> (\<forall>k \<in> set (jobs d). jID k = i \<longrightarrow> waits t k)"

text \<open>
  The operations that leave job \<open>i\<close> alone until \<open>t\<close>: dequeues before \<open>t\<close>, retries of the job that
  schedule it for \<open>t\<close> or later, heartbeats that extend its lease to \<open>t\<close> or later, and every
  enqueue, completion and dead letter, by whoever it is written.
\<close>

fun holds_off :: "uuid \<Rightarrow> time \<Rightarrow> job_op \<Rightarrow> bool" where
  "holds_off i t (JDequeue _ p) \<longleftrightarrow> dNow p < t"
| "holds_off i t (JRetry k next _) \<longleftrightarrow> (k = i \<longrightarrow> t \<le> next)"
| "holds_off i t (JHeartbeat k until) \<longleftrightarrow> (k = i \<longrightarrow> t \<le> until)"
| "holds_off i t _ \<longleftrightarrow> True"

lemma waits_not_runnable: "waits t k \<Longrightarrow> dNow p < t \<Longrightarrow> \<not> runnable p k"
  by (auto simp: waits_def runnable_def split: option.splits)

lemma kept_back_order: "reflp (\<lambda>d d'. kept_back i t d \<longrightarrow> kept_back i t d')" "transp (\<lambda>d d'. kept_back i t d \<longrightarrow> kept_back i t d')"
  by (auto simp: reflp_def transp_def)

lemmas kept_back_rules = moves_bind [OF kept_back_order(2)] moves_trivial [OF kept_back_order(1)] moves_if moves_option moves_prod

lemma kept_back_map:
  assumes "kept_back i t d" and "\<And>k. jID (f k) = jID k" and "\<And>k. jID k = i \<Longrightarrow> waits t k \<Longrightarrow> waits t (f k)"
  shows "kept_back i t (d \<lparr> jobs := map f (jobs d) \<rparr>)"
  using assms by (fastforce simp: kept_back_def image_iff)

lemma kept_back_update:
  assumes "\<And>k. jID (f k) = jID k" and "\<And>k. j = i \<Longrightarrow> jStatus k = StatusRunning \<Longrightarrow> waits t (f k)"
  shows "moves (\<lambda>d d'. kept_back i t d \<longrightarrow> kept_back i t d') (updateRunning j f)"
  unfolding updateRunning_def
  by (rule moves_stmt [OF kept_back_order(1)]) (use assms in \<open>auto intro!: kept_back_map\<close>)

lemma kept_back_dequeue:
  assumes "dNow p < t"
  shows "moves (\<lambda>d d'. kept_back i t d \<longrightarrow> kept_back i t d') (pgDequeue l p)"
proof -
  have "jID k \<notin> jID ` set (ready l p (jobs d))" if "kept_back i t d" "jID k = i" for d :: "'a jobs_db_scheme" and k
    using that waits_not_runnable [OF _ assms] by (auto simp: kept_back_def dest!: ready_sub)
  then have "kept_back i t (d \<lparr> jobs := map (\<lambda>j. if jID j \<in> jID ` set (ready l p (jobs d)) then lease p now j else j) (jobs d) \<rparr>)"
    if "kept_back i t d" for d :: "'a jobs_db_scheme" and now
    using that by (intro kept_back_map) (auto simp: lease_def)
  then show ?thesis
    unfolding pgDequeue_def Let_def by (intro kept_back_rules moves_stmt [OF kept_back_order(1)]) (auto split: if_splits)
qed

lemma kept_back_enqueue: "moves (\<lambda>d d'. kept_back i t d \<longrightarrow> kept_back i t d') (clientEnqueue gen inp)"
  unfolding clientEnqueue_def pgEnqueue_def
  by (intro kept_back_rules moves_stmt [OF kept_back_order(1)]) (auto simp: insertJob_def kept_back_def split: if_splits)

lemma kept_back_ops:
  "moves (\<lambda>d d'. kept_back i t d \<longrightarrow> kept_back i t d') (pgComplete k res)"
  "moves (\<lambda>d d'. kept_back i t d \<longrightarrow> kept_back i t d') (pgDeadLetter k err)"
  unfolding pgComplete_def pgDeadLetter_def
  by (intro kept_back_rules kept_back_update; simp add: completed_def deadLettered_def waits_def)+

lemma kept_back_holder_ops:
  "k = i \<longrightarrow> t \<le> next \<Longrightarrow> moves (\<lambda>d d'. kept_back i t d \<longrightarrow> kept_back i t d') (pgRetry k next err)"
  "k = i \<longrightarrow> t \<le> until \<Longrightarrow> moves (\<lambda>d d'. kept_back i t d \<longrightarrow> kept_back i t d') (pgHeartbeat k until)"
  unfolding pgRetry_def pgHeartbeat_def
  by (intro kept_back_rules kept_back_update; simp add: retried_def heartbeaten_def waits_def)+

lemma holds_off_keeps: "holds_off i t x \<Longrightarrow> kept_back i t (data w) \<Longrightarrow> kept_back i t (data (run_job_op gen x w))"
  by (cases x) (simp_all add: run_job_op_def kept_back_enqueue [unfolded moves_def, rule_format] kept_back_ops [unfolded moves_def, rule_format]
    kept_back_holder_ops [unfolded moves_def, rule_format] kept_back_dequeue [unfolded moves_def, rule_format])

text \<open>
  C29: A lease is exclusive until it ends. Whatever is enqueued, completed, dead-lettered and
  dequeued with a clock before the end of a lease, no dequeue with such a clock hands the leased
  job out again, as long as nobody writes a retry that schedules the job earlier or a heartbeat
  that shortens its lease. The rows carry no holder, so this includes a former holder whose own
  lease is over: its completion or dead letter takes effect but does not hand the job out, and its retry
  does (\<open>late_retry_takes_effect\<close>).
\<close>

theorem lease_exclusive:
  assumes "jobs_inv (data w)" and "j \<in> set (jobs (data w))"
    and "jStatus j = StatusRunning" and "LeasedUntil j = Some t"
    and "\<forall>x \<in> set xs. holds_off (jID j) t x"
    and "pgDequeue locked p (fold (run_job_op gen) xs w) = (Inr got, w')" and "dNow p < t"
  shows "jID j \<notin> jID ` set got"
proof -
  have "kept_back (jID j) t (data w)"
    using assms(1-4) by (auto simp: kept_back_def waits_def jobs_inv_def distinct_map dest: inj_onD)
  then have kept: "kept_back (jID j) t (data (fold (run_job_op gen) xs w))"
    using assms(5) by (induction xs arbitrary: w) (auto intro: holds_off_keeps)
  show ?thesis
  proof (cases "0 < dLimit p")
    case True
    let ?rs = "ready locked p (jobs (data (fold (run_job_op gen) xs w)))"
    have "jID j \<notin> jID ` set ?rs"
      using kept waits_not_runnable [OF _ assms(7)] by (auto simp: kept_back_def dest!: ready_sub)
    moreover have "jID ` set got = jID ` set ?rs"
      using pgDequeue_Inr [OF assms(6) True] by (auto simp: lease_def image_image)
    ultimately show ?thesis by simp
  next
    case False
    then show ?thesis using assms(6) by (simp add: pgDequeue_def ret_def)
  qed
qed

theorem lease_exclusive_witness:
  "let w = fold (run_job_op Suc) [JEnqueue input0, JDequeue [] (params0 50)] (jobs_init 40);
       u = fold (run_job_op Suc) [JEnqueue input0, JRetry 1 65 ''busy'', JComplete 7 ''''] w
   in map jStatus (jobs (data w)) = [StatusRunning] \<and> fst (pgDequeue [] (params0 59) u) = Inr []"
proof -
  let ?w = "fold (run_job_op Suc) [JEnqueue input0, JDequeue [] (params0 50)] (jobs_init 40)"
  let ?xs = "[JEnqueue input0, JRetry 1 65 ''busy'', JComplete 7 '''']"
  have s: "map (\<lambda>j. (jStatus j, LeasedUntil j, jID j)) (jobs (data ?w)) = [(StatusRunning, Some 60, 1)]"
    "(case pgDequeue [] (params0 59) (fold (run_job_op Suc) ?xs ?w) of (Inr got, w') \<Rightarrow> set (map jID got) \<subseteq> {1} | _ \<Rightarrow> False)"
    by (code_simp, code_simp)
  then obtain j where j: "jobs (data ?w) = [j]" "jStatus j = StatusRunning" "LeasedUntil j = Some 60" "jID j = 1"
    by (auto simp del: fold_simps)
  obtain got w' where d: "pgDequeue [] (params0 59) (fold (run_job_op Suc) ?xs ?w) = (Inr got, w')" "set (map jID got) \<subseteq> {1}"
    using s(2) by (auto split: prod.splits sum.splits simp del: fold_simps)
  have "jID j \<notin> jID ` set got"
    by (rule lease_exclusive [OF jobs_reachable_inv [OF jsteps_ops] _ j(2,3) _ d(1)])
      (use j in \<open>auto simp: params0_def simp del: fold_simps\<close>)
  then have "got = []" using d(2) j(4) by (cases got) auto
  then show ?thesis unfolding Let_def d(1) j(1) by (simp add: j(2))
qed

text \<open>
  A worker whose lease ran out while another worker was handed the job still ends that worker's
  lease with its own retry, and the job is handed out a third time before the lease is over.
\<close>

lemma late_retry_takes_effect:
  "let w = fold (run_job_op Suc) [JEnqueue input0, JDequeue [] (params0 50), JDequeue [] (params0 60)] (jobs_init 40);
       u = fold (run_job_op Suc) [JRetry 1 61 ''late write of the first holder''] w
   in map (\<lambda>j. (jStatus j, LeasedUntil j)) (jobs (data w)) = [(StatusRunning, Some 70)]
      \<and> (case pgDequeue [] (params0 61) u of (Inr got, _) \<Rightarrow> map jID got = [1] | _ \<Rightarrow> False)"
  by code_simp

lemma enqueue_keeps: "moves (\<lambda>d d'. set (jobs d) \<subseteq> set (jobs d')) (clientEnqueue gen inp)"
  unfolding clientEnqueue_def pgEnqueue_def
  by (intro moves_rules) (auto simp: insertJob_def reflp_def transp_def split: if_splits)

subsection \<open>Outcomes\<close>

lemma backoff_bounds:
  assumes "0 < boBase c" "boBase c < 2 ^ 53" "0 < boMax c" "boMax c < 2 ^ 53" "1 \<le> att" "0 \<le> u" "u \<le> 1"
  shows "0 \<le> backoffDuration c att u \<and> backoffDuration c att u \<le> min (boMax c) (boBase c * 2 ^ nat (att - 1))"
proof -
  let ?m = "min (boMax c) (boBase c * 2 ^ nat (att - 1))"
  have ex: "f64_round (of_int (boBase c) * 2 ^ nat (att - 1)) = of_int (boBase c) * 2 ^ nat (att - 1)"
    by (rule f64_round_exact [where m = "boBase c" and j = "att - 1"]) (use assms in \<open>auto simp: power_int_def\<close>)
  have mi: "of_int (boBase c) * 2 ^ nat (att - 1) < (of_int (boMax c) :: rat) \<longleftrightarrow> boBase c * 2 ^ nat (att - 1) < boMax c"
    by (metis of_int_less_iff of_int_mult of_int_numeral of_int_power)
  have cap: "backoffCapNanos c att = of_int ?m"
    using assms ex mi by (auto simp: backoffCapNanos_def Let_def f64_round_int min_def not_less)
  have pos: "0 < ?m" using assms by simp
  have repr: "f64_round (of_int ?m) = of_int ?m"
    by (rule f64_round_int) (use pos assms in auto)
  show ?thesis
  proof (cases "u = 0")
    case True
    then show ?thesis using pos by (simp add: backoffDuration_def cap f64_trunc_def)
  next
    case False
    then have "0 < u * of_int ?m" "u * of_int ?m \<le> (of_int ?m :: rat)"
      using assms(6,7) pos by (simp_all add: mult_left_le_one_le)
    from f64_round_le_exact [OF this repr]
    have "0 \<le> f64_round (u * of_int ?m)" "\<lfloor>f64_round (u * of_int ?m)\<rfloor> \<le> \<lfloor>of_int ?m :: rat\<rfloor>"
      by (simp_all only: floor_mono)
    then show ?thesis
      unfolding backoffDuration_def cap f64_trunc_def by (simp del: of_int_min)
  qed
qed

text \<open>The rows of the table after an update of the running row \<open>j\<close>.\<close>

lemma updateRunning_row:
  assumes "jobs_inv (data w)" and "j \<in> set (jobs (data w))" and "jStatus j = StatusRunning"
    and "updateRunning (jID j) f w = (Inr n, w')"
  shows "jobs (data w') = map (\<lambda>k. if k = j then f k else k) (jobs (data w))"
proof -
  have "(jID k = jID j \<and> jStatus k = StatusRunning) = (k = j)" if "k \<in> set (jobs (data w))" for k
    using assms(1-3) that by (auto simp: jobs_inv_def distinct_map dest: inj_onD)
  then have "map (\<lambda>k. if jID k = jID j \<and> jStatus k = StatusRunning then f k else k) (jobs (data w))
      = map (\<lambda>k. if k = j then f k else k) (jobs (data w))" by (intro map_cong) auto
  moreover have "jobs (data w') = map (\<lambda>k. if jID k = jID j \<and> jStatus k = StatusRunning then f k else k) (jobs (data w))"
    using assms(4) by (auto simp: updateRunning_def dest!: stmt_Inr) (drule arg_cong [where f = jobs], simp)
  ultimately show ?thesis by simp
qed

lemma updateRunning_err: "updateRunning i f w = (Inl e, w') \<Longrightarrow> data w' = data w"
  by (auto simp: updateRunning_def stmt_def Let_def split: if_splits)

text \<open>What the table looks like after the outcome of job \<open>j\<close> was written at time \<open>now\<close>.\<close>

definition outcome_written :: "config \<Rightarrow> (job \<Rightarrow> outcome) \<Rightarrow> job \<Rightarrow> time \<Rightarrow> job list \<Rightarrow> job list \<Rightarrow> processed \<Rightarrow> bool" where
  "outcome_written c h j now old new r \<longleftrightarrow>
     (\<exists>j'. new = map (\<lambda>k. if k = j then j' else k) old \<and> jID j' = jID j \<and> Attempts j' = Attempts j \<and> LeasedUntil j' = None \<and>
       (case runHandler h j of
          None \<Rightarrow> r = Completed \<and> jStatus j' = StatusSucceeded
        | Some e \<Rightarrow>
            LastError j' = errorText e \<and>
            (if IsPermanent e \<or> MaxAttempts j \<le> Attempts j
             then r = DeadLettered \<and> jStatus j' = StatusDead
             else r = Retried \<and> jStatus j' = StatusPending \<and> now \<le> NextRunAt j'
               \<and> NextRunAt j' \<le> now + min (boMax (Backoff c)) (boBase (Backoff c) * 2 ^ nat (Attempts j - 1)))))"

text \<open>
  After its handler is done, the row of a leased job becomes succeeded when the handler
  returned no error, dead when the error is permanent or the attempts are used up, and otherwise
  pending again, due after a jittered delay of at most the capped exponential backoff. A panic
  counts as an error. No other row changes, and if the write fails nothing changes at all.
\<close>

theorem process_outcome_exact:
  assumes "jobs_inv (data w)" and "j \<in> set (jobs (data w))" and "jStatus j = StatusRunning"
    and "0 < boBase (Backoff c)" "boBase (Backoff c) < 2 ^ 53" "0 < boMax (Backoff c)" "boMax (Backoff c) < 2 ^ 53"
    and "0 \<le> u" "u \<le> 1"
    and "process c h u j w = (r, w')"
  shows "r = Inr WriteFailed \<and> jobs (data w') = jobs (data w)
    \<or> (\<exists>p. r = Inr p \<and> outcome_written c h j (wall w) (jobs (data w)) (jobs (data w')) p)"
proof -
  have att: "1 \<le> Attempts j" using assms(1-3) by (auto simp: jobs_inv_def job_ok_def)
  note bo = backoff_bounds [OF assms(4-7) att assms(8,9)]
  have wrt: "r = Inr WriteFailed \<and> jobs (data w') = jobs (data w)
      \<or> r = Inr p \<and> jobs (data w') = map (\<lambda>k. if k = j then f k else k) (jobs (data w))"
    if "updateRunning (jID j) f w = (q, w')" "r = Inr (case q of Inl _ \<Rightarrow> WriteFailed | Inr _ \<Rightarrow> p)" for f q p
    using that updateRunning_row [OF assms(1-3)] updateRunning_err by (cases q) fastforce+
  obtain f p q where u: "updateRunning (jID j) f w = (q, w')" "r = Inr (case q of Inl _ \<Rightarrow> WriteFailed | Inr _ \<Rightarrow> p)"
    and fp: "jID (f j) = jID j \<and> Attempts (f j) = Attempts j \<and> LeasedUntil (f j) = None \<and>
       (case runHandler h j of
          None \<Rightarrow> p = Completed \<and> jStatus (f j) = StatusSucceeded
        | Some e \<Rightarrow> LastError (f j) = errorText e \<and>
            (if IsPermanent e \<or> MaxAttempts j \<le> Attempts j then p = DeadLettered \<and> jStatus (f j) = StatusDead
             else p = Retried \<and> jStatus (f j) = StatusPending \<and> wall w \<le> NextRunAt (f j)
               \<and> NextRunAt (f j) \<le> wall w + min (boMax (Backoff c)) (boBase (Backoff c) * 2 ^ nat (Attempts j - 1))))"
  proof -
    let ?f = "case runHandler h j of None \<Rightarrow> completed '''' (wall w)
      | Some e \<Rightarrow> if IsPermanent e \<or> MaxAttempts j \<le> Attempts j then deadLettered (errorText e) (wall w)
                  else retried (wall w + backoffDuration (Backoff c) (Attempts j) u) (errorText e) (wall w)"
    let ?p = "case runHandler h j of None \<Rightarrow> Completed
      | Some e \<Rightarrow> if IsPermanent e \<or> MaxAttempts j \<le> Attempts j then DeadLettered else Retried"
    obtain q w2 where q: "updateRunning (jID j) ?f w = (q, w2)" by fastforce
    show thesis
    proof (rule that [of ?f q ?p])
      show "updateRunning (jID j) ?f w = (q, w')" "r = Inr (case q of Inl _ \<Rightarrow> WriteFailed | Inr _ \<Rightarrow> ?p)"
        using assms(10) q
        by (auto simp: process_def pgComplete_def pgDeadLetter_def pgRetry_def bind_def time_now_def attempt_def ret_def
            split: option.splits if_splits sum.splits)
    qed (use bo in \<open>auto simp: completed_def deadLettered_def retried_def split: option.splits\<close>)
  qed
  from wrt [OF u] show ?thesis
  proof
    assume "r = Inr p \<and> jobs (data w') = map (\<lambda>k. if k = j then f k else k) (jobs (data w))"
    then have "r = Inr p" "jobs (data w') = map (\<lambda>k. if k = j then f j else k) (jobs (data w))"
      by (auto cong: if_cong)
    with fp have "outcome_written c h j (wall w) (jobs (data w)) (jobs (data w')) p"
      unfolding outcome_written_def by blast
    with \<open>r = Inr p\<close> show ?thesis by blast
  qed blast
qed

definition config0 :: config where
  "config0 = \<lparr> Enabled = True, PollInterval = second, Lease = 10, HeartbeatInterval = 3, JobTimeout = 0,
     DefaultConcurrency = 1, Backoff = \<lparr> boBase = 4, boMax = 64 \<rparr>, StatsInterval = 0, DrainTimeout = second \<rparr>"

definition leased0 :: "jobs_db dbw" where
  "leased0 = fold (run_job_op Suc) [JEnqueue input0, JDequeue [] (params0 50)] (jobs_init 40)"

lemma leased0_inv: "jobs_inv (data leased0)"
  unfolding leased0_def by (rule jobs_reachable_inv [OF jsteps_ops])

theorem process_outcome_exact_witness:
  "let w = leased0
   in list_all (\<lambda>j. jStatus j = StatusPending \<and> 40 \<le> NextRunAt j \<and> NextRunAt j \<le> 44)
        (jobs (data (snd (process config0 (\<lambda>_. Panicked ''boom'') (1 / 2) (hd (jobs (data w))) w))))"
proof -
  have "length (jobs (data leased0)) = 1 \<and> list_all (\<lambda>j. jStatus j = StatusRunning \<and> Attempts j = 1 \<and> MaxAttempts j = 2) (jobs (data leased0))
     \<and> wall leased0 = 40 \<and> sched leased0 = []"
    by code_simp
  then obtain j where j: "jobs (data leased0) = [j]" "jStatus j = StatusRunning" "Attempts j = 1" "MaxAttempts j = 2"
    and wl: "wall leased0 = 40" "sched leased0 = []"
    by (cases "jobs (data leased0)") (auto)
  obtain r w' where p: "process config0 (\<lambda>_. Panicked ''boom'') (1 / 2) j leased0 = (r, w')" by fastforce
  have nf: "r \<noteq> Inr WriteFailed"
    using p wl(2) j by (auto simp: process_def runHandler_def pgRetry_def bind_def time_now_def attempt_def ret_def
        updateRunning_def stmt_def Let_def)
  have "jobs_inv (data leased0)" by (rule leased0_inv)
  from process_outcome_exact [OF this _ j(2) _ _ _ _ _ _ p] nf
  have "list_all (\<lambda>j. jStatus j = StatusPending \<and> 40 \<le> NextRunAt j \<and> NextRunAt j \<le> 44) (jobs (data w'))"
    by (auto simp: j wl config0_def outcome_written_def runHandler_def)
  then show ?thesis unfolding Let_def j(1) list.sel by (simp only: p snd_conv)
qed

subsection \<open>Enqueueing twice\<close>

lemma newestLive_Some:
  assumes "newestLive t k js = Some j"
  shows "j \<in> set js \<and> jType j = t \<and> IdempotencyKey j = k \<and> live j"
proof -
  let ?f = "filter (\<lambda>j. jType j = t \<and> IdempotencyKey j = k \<and> k \<noteq> '''' \<and> live j) js"
  obtain ks where "rev (sort_key jCreatedAt ?f) = j # ks"
    using assms by (auto simp: newestLive_def simp del: rev_is_Nil_conv rev_eq_Cons_iff split: list.splits)
  then have "j \<in> set (rev (sort_key jCreatedAt ?f))" by (metis list.set_intros(1))
  then show ?thesis by simp
qed

text \<open>
  Enqueueing is idempotent while the job is live. Enqueueing again with the type and key of a
  pending or running job, however the other fields differ, returns that job and changes no row
  (unless the values do not fit the table or the database fails).
\<close>

theorem enqueue_idempotent:
  assumes "jobs_inv (data w)" and "j \<in> set (jobs (data w))" and "live j" and "IdempotencyKey j \<noteq> ''''"
    and "inType inp = jType j" and "inIdempotencyKey inp = IdempotencyKey j"
    and "pgEnqueue gen inp w = (r, w')"
  shows "jobs (data w') = jobs (data w) \<and> (\<forall>q. r = Inr q \<longrightarrow> q = (j, False))"
proof -
  have ins: "insertJob (newJob inp i now) (data w) = Inr (x, d') \<Longrightarrow> x = None \<and> d' = data w" for i now x d'
    using assms(2-6) by (auto simp: insertJob_def newJob_def split: if_splits)
  have found: "newestLive (inType inp) (inIdempotencyKey inp) (jobs (data w)) = Some k \<Longrightarrow> k = j" for k
    using newestLive_Some [of "inType inp" "inIdempotencyKey inp" "jobs (data w)" k] assms(1-6)
    by (auto simp: jobs_inv_def live_keys_unique_def)
  show ?thesis
    using assms(7) unfolding pgEnqueue_def
    by (auto simp: bind_def time_now_def new_uuid_def stmt_def query_def Let_def
        split: sum.splits prod.splits option.splits if_splits dest!: ins dest: found)
qed

theorem enqueue_idempotent_witness:
  "let w = leased0
   in jobs (data (snd (pgEnqueue Suc input0 w))) = jobs (data w)"
proof -
  have "length (jobs (data leased0)) = 1 \<and> list_all (\<lambda>j. live j \<and> jType j = ''mail'' \<and> IdempotencyKey j = ''k'') (jobs (data leased0))"
    by code_simp
  then obtain j where j: "jobs (data leased0) = [j]" "live j" "jType j = ''mail''" "IdempotencyKey j = ''k''"
    by (cases "jobs (data leased0)") (auto)
  obtain r w' where e: "pgEnqueue Suc input0 leased0 = (r, w')" by fastforce
  have "jobs_inv (data leased0)" by (rule leased0_inv)
  from enqueue_idempotent [OF this _ j(2) _ _ _ e] have "jobs (data w') = jobs (data leased0)"
    by (simp add: j input0_def)
  then show ?thesis unfolding Let_def by (simp only: e snd_conv)
qed

subsection \<open>The worker pool\<close>

definition slots_ok :: "(string \<times> registration) list \<Rightarrow> bool" where
  "slots_ok rs \<longleftrightarrow> (\<forall>(t, g) \<in> set rs. inFlight g \<le> concurrency g)"

definition busy :: "(string \<times> registration) list \<Rightarrow> int" where
  "busy rs = sum_list (map (\<lambda>(t, g). inFlight g) rs)"

definition same_regs :: "(string \<times> registration) list \<Rightarrow> (string \<times> registration) list \<Rightarrow> bool" where
  "same_regs = list_all2 (\<lambda>(t, g) (t', g'). t' = t \<and> concurrency g' = concurrency g \<and> inFlight g \<le> inFlight g')"

lemma same_regs_refl: "same_regs rs rs"
  by (simp add: same_regs_def list_all2_refl case_prod_beta)

lemma dequeue_length: "pgDequeue l p w = (Inr got, w') \<Longrightarrow> 0 < dLimit p \<Longrightarrow> int (length got) \<le> dLimit p"
  using pgDequeue_Inr [of l p w got w'] by (auto simp: ready_def)

lemma tick_result:
  assumes "slots_ok rs"
  shows "\<exists>rs' js w'. tick c locked cancelled rs w = (Inr (rs', js), w') \<and> same_regs rs rs' \<and> slots_ok rs'
    \<and> busy rs' = busy rs + int (length js)"
  using assms
proof (induction rs arbitrary: w)
  case Nil
  show ?case by (simp add: ret_def same_regs_def slots_ok_def busy_def)
next
  case (Cons x rest)
  obtain t g where x: "x = (t, g)" by fastforce
  have ok: "inFlight g \<le> concurrency g" "slots_ok rest" using Cons.prems by (auto simp: slots_ok_def x)
  note rest = Cons.IH [OF ok(2)]
  note defs = bind_def ret_def attempt_def time_now_def same_regs_def slots_ok_def busy_def
  show ?case
  proof (cases "concurrency g - inFlight g \<le> 0")
    case True
    then show ?thesis using rest [of w] ok by (auto simp: x Let_def defs)
  next
    case False
    let ?p = "\<lparr> dType = t, dLimit = concurrency g - inFlight g, dLease = Lease c, dNow = wall w \<rparr>"
    obtain q w1 where q: "pgDequeue (locked t) ?p w = (q, w1)" by fastforce
    show ?thesis
    proof (cases q)
      case (Inl e)
      show ?thesis
      proof (cases cancelled)
        case True
        then show ?thesis using False Inl q Cons.prems same_regs_refl [of "x # rest"]
          by (auto simp: x Let_def bind_def ret_def attempt_def time_now_def)
      next
        case nc: False
        then show ?thesis using rest [of w1] False Inl q ok by (auto simp: x Let_def defs)
      qed
    next
      case (Inr got)
      have "int (length got) \<le> concurrency g - inFlight g"
        using dequeue_length [OF q [unfolded Inr]] False by simp
      then show ?thesis using rest [of w1] False Inr q ok by (auto simp: x Let_def defs)
    qed
  qed
qed

text \<open>
  The worker never runs more jobs of a type than its concurrency limit. A poll over any
  registrations whose slots are within their limits, with any locked rows, faults and
  cancellation, ends with every type within its limit, and takes exactly one slot for each job
  it starts, so the send on the semaphore in the loop cannot block.
\<close>

theorem worker_concurrency_bounded:
  assumes "\<forall>(t, g) \<in> set rs. inFlight g \<le> concurrency g"
    and "tick c locked cancelled rs w = (r, w')"
  shows "\<exists>rs' js. r = Inr (rs', js) \<and> (\<forall>(t, g) \<in> set rs'. inFlight g \<le> concurrency g)
    \<and> map (\<lambda>(t, g). (t, concurrency g)) rs' = map (\<lambda>(t, g). (t, concurrency g)) rs
    \<and> sum_list (map (\<lambda>(t, g). inFlight g) rs') = sum_list (map (\<lambda>(t, g). inFlight g) rs) + int (length js)"
proof -
  have "map (\<lambda>(t, g). (t, concurrency g)) rs' = map (\<lambda>(t, g). (t, concurrency g)) rs" if "same_regs rs rs'" for rs'
    using that unfolding same_regs_def by (induction rule: list_all2_induct) auto
  then show ?thesis
    using tick_result [of rs c locked cancelled w] assms unfolding slots_ok_def busy_def by fastforce
qed

definition regs0 :: "(string \<times> registration) list" where
  "regs0 = [(''mail'', \<lparr> concurrency = 2, inFlight = 1 \<rparr>)]"

theorem worker_concurrency_bounded_witness:
  "\<exists>rs' js. fst (tick config0 (\<lambda>_. []) False regs0 (run_job_op Suc (JEnqueue input0) (jobs_init 40))) = Inr (rs', js)
     \<and> (\<forall>(t, g) \<in> set rs'. inFlight g \<le> concurrency g)"
proof -
  obtain r w' where t: "tick config0 (\<lambda>_. []) False regs0 (run_job_op Suc (JEnqueue input0) (jobs_init 40)) = (r, w')"
    by fastforce
  from worker_concurrency_bounded [OF _ t] show ?thesis unfolding t by (auto simp: regs0_def)
qed

subsection \<open>Jobs that crash their worker\<close>

lemma crash_again:
  assumes "jobs (data w) = [j]" "jStatus j = StatusRunning" "LeasedUntil j = Some t" "jType j = ''mail''" "sched w = []"
    and "in_int32 (Attempts j + 1)"
  shows "\<exists>j'. jobs (data (run_job_op gen (JDequeue [] (params0 t)) w)) = [j'] \<and> jStatus j' = StatusRunning
    \<and> LeasedUntil j' = Some (t + 10) \<and> jType j' = ''mail'' \<and> sched (run_job_op gen (JDequeue [] (params0 t)) w) = []
    \<and> Attempts j' = Attempts j + 1 \<and> MaxAttempts j' = MaxAttempts j"
proof -
  have "ready [] (params0 t) [j] = [j]"
    using assms by (simp add: ready_def runnable_def params0_def)
  then show ?thesis using assms
    by (auto simp: run_job_op_def pgDequeue_def params0_def bind_def time_now_def stmt_def Let_def lease_def)
qed

text \<open>
  The cap on the attempts does not bound the executions of a job whose worker dies. The
  attempt limit is only consulted by a worker that survives the handler, and the dequeue of an
  expired lease does not look at it: a job that may be attempted twice can be leased any number
  of times (up to the range of the column), and is still running.
\<close>

theorem job_attempts_exceed_cap:
  assumes "1 \<le> n" and "n < 2 ^ 31"
  shows "\<exists>w j. (jstep Suc)\<^sup>*\<^sup>* (jobs_init 40) w \<and> jobs (data w) = [j] \<and> jStatus j = StatusRunning
    \<and> Attempts j = n \<and> MaxAttempts j = 2"
proof -
  have "k < 2 ^ 31 - 1 \<longrightarrow> (\<exists>w j t. (jstep Suc)\<^sup>*\<^sup>* (jobs_init 40) w \<and> jobs (data w) = [j] \<and> jStatus j = StatusRunning
      \<and> LeasedUntil j = Some t \<and> jType j = ''mail'' \<and> sched w = [] \<and> Attempts j = int k + 1 \<and> MaxAttempts j = 2)" for k :: nat
  proof (induction k)
    case 0
    have "length (jobs (data leased0)) = 1 \<and> sched leased0 = [] \<and> list_all (\<lambda>j. jStatus j = StatusRunning \<and> LeasedUntil j = Some 60
        \<and> jType j = ''mail'' \<and> Attempts j = 1 \<and> MaxAttempts j = 2) (jobs (data leased0))" by code_simp
    then obtain j where "jobs (data leased0) = [j]" "sched leased0 = []" "jStatus j = StatusRunning \<and> LeasedUntil j = Some 60
        \<and> jType j = ''mail'' \<and> Attempts j = 1 \<and> MaxAttempts j = 2"
      by (cases "jobs (data leased0)") auto
    moreover have "(jstep Suc)\<^sup>*\<^sup>* (jobs_init 40) leased0" unfolding leased0_def by (rule jsteps_ops)
    ultimately show ?case by (intro impI exI [of _ leased0] exI [of _ j] exI [of _ 60]) simp
  next
    case (Suc k)
    show ?case
    proof
      assume b: "Suc k < 2 ^ 31 - 1"
      with Suc obtain w j t where w: "(jstep Suc)\<^sup>*\<^sup>* (jobs_init 40) w" "jobs (data w) = [j]" "jStatus j = StatusRunning"
        "LeasedUntil j = Some t" "jType j = ''mail''" "sched w = []" "Attempts j = int k + 1" "MaxAttempts j = 2" by auto
      have "in_int32 (Attempts j + 1)" using w(7) b by (simp add: in_int32_def)
      from crash_again [OF w(2-6) this, of Suc] w(7,8) rtranclp.rtrancl_into_rtrancl [OF w(1) jstep_op [of Suc w "JDequeue [] (params0 t)"]]
      show "\<exists>w j t. (jstep Suc)\<^sup>*\<^sup>* (jobs_init 40) w \<and> jobs (data w) = [j] \<and> jStatus j = StatusRunning
        \<and> LeasedUntil j = Some t \<and> jType j = ''mail'' \<and> sched w = [] \<and> Attempts j = int (Suc k) + 1 \<and> MaxAttempts j = 2"
        by fastforce
    qed
  qed
  from this [of "nat (n - 1)"] assms show ?thesis by fastforce
qed

theorem job_attempts_exceed_cap_witness:
  "\<exists>w j. (jstep Suc)\<^sup>*\<^sup>* (jobs_init 40) w \<and> jobs (data w) = [j] \<and> Attempts j = 100 \<and> MaxAttempts j = 2"
  using job_attempts_exceed_cap [of 100] by auto

section \<open>The port other components enqueue through\<close>

text \<open>
  What a producer relies on: an accepted enqueue under a key yields a live job of that type and
  key that is the only one, no stored job is lost, and the invariant of the table is kept.
\<close>

locale job_port =
  fixes enq :: "enqueue_input \<Rightarrow> ('d, jq_error, job) db"
    and table :: "'d \<Rightarrow> job list"
    and inv :: "'d \<Rightarrow> bool"
  assumes enq_live: "inv (data w) \<Longrightarrow> inIdempotencyKey inp \<noteq> '''' \<Longrightarrow> enq inp w = (Inr j, w') \<Longrightarrow>
      j \<in> set (table (data w')) \<and> live j \<and> jType j = inType inp \<and> IdempotencyKey j = inIdempotencyKey inp"
    and enq_keeps: "enq inp w = (r, w') \<Longrightarrow> set (table (data w)) \<subseteq> set (table (data w'))"
    and enq_inv: "inv (data w) \<Longrightarrow> enq inp w = (r, w') \<Longrightarrow> inv (data w')"
    and inv_unique: "inv d \<Longrightarrow> live_keys_unique (table d)"
begin

lemma enq_only:
  assumes "inv (data w)" and "inIdempotencyKey inp \<noteq> ''''" and "enq inp w = (Inr j, w')"
    and "k \<in> set (table (data w'))" and "live k" and "jType k = inType inp" and "IdempotencyKey k = inIdempotencyKey inp"
  shows "k = j"
  using enq_live [OF assms(1-3)] inv_unique [OF enq_inv [OF assms(1,3)]] assms(2,4-7)
  unfolding live_keys_unique_def by metis

lemma enq_joins:
  assumes "inv (data w)" and "inIdempotencyKey inp \<noteq> ''''" and "enq inp w = (Inr j, w')"
    and "k \<in> set (table (data w))" and "live k" and "jType k = inType inp" and "IdempotencyKey k = inIdempotencyKey inp"
  shows "k = j"
  using enq_only [OF assms(1-3) _ assms(5-7)] enq_keeps [OF assms(3)] assms(4) by blast

end

lemma clientEnqueue_live:
  assumes "clientEnqueue gen inp w = (Inr j, w')"
  shows "j \<in> set (jobs (data w')) \<and> live j \<and> jType j = inType inp \<and> IdempotencyKey j = inIdempotencyKey inp"
proof -
  obtain b where e: "pgEnqueue gen inp w = (Inr (j, b), w')"
    using assms by (auto simp: clientEnqueue_def fail_def bind_Inr ret_Inr split: if_splits)
  from e [unfolded pgEnqueue_def bind_Inr] obtain now i row w1 w2 w3 where
    s: "stmt (insertJob (newJob inp i now)) w2 = (Inr row :: jq_error db_error + _, w3)"
    and r: "(case row of Some j \<Rightarrow> ret (j, True)
       | None \<Rightarrow> query (\<lambda>d. case newestLive (inType inp) (inIdempotencyKey inp) (jobs d) of
             None \<Rightarrow> Inl (App ErrNotFound) | Some j \<Rightarrow> Inr (j, False))) w3 = (Inr (j, b), w')"
    by blast
  show ?thesis
  proof (cases row)
    case (Some k)
    with r have k: "k = j" "w' = w3" by (auto simp: ret_Inr)
    have ins: "insertJob (newJob inp i now) (data w2) = Inr (Some j, data w')"
      using stmt_Inr [OF s] Some k by simp
    have "j = newJob inp i now" and "data w' = (data w2)\<lparr>jobs := jobs (data w2) @ [newJob inp i now]\<rparr>"
      using ins by (auto simp: insertJob_def split: if_splits)
    then have "j = newJob inp i now \<and> jobs (data w') = jobs (data w2) @ [j]" by simp
    then show ?thesis by (simp add: newJob_def live_def)
  next
    case None
    with query_Inr [OF r [unfolded None option.case]] show ?thesis
      using newestLive_Some [of "inType inp" "inIdempotencyKey inp" "jobs (data w3)" j] by (auto split: option.splits)
  qed
qed

interpretation jq: job_port "clientEnqueue gen" jobs jobs_inv for gen
proof unfold_locales
  show "j \<in> set (jobs (data w')) \<and> live j \<and> jType j = inType inp \<and> IdempotencyKey j = inIdempotencyKey inp"
    if "clientEnqueue gen inp w = (Inr j, w')" for w inp j w'
    by (rule clientEnqueue_live [OF that])
  show "set (jobs (data w)) \<subseteq> set (jobs (data w'))" if "clientEnqueue gen inp w = (r, w')" for w inp r w'
    using movesD [OF enqueue_keeps that] .
  show "jobs_inv (data w')" if "jobs_inv (data w)" "clientEnqueue gen inp w = (r, w')" for w inp r w'
    using movesD [OF advance_client that(2)] that(1) by (simp add: advance_def evolves_def)
  show "live_keys_unique (jobs d)" if "jobs_inv d" for d :: "'a jobs_db_scheme"
    using that by (simp add: jobs_inv_def)
qed

end
