(* ===== verification/Recurring.thy ===== *)
theory Recurring
  imports Vault_Frame Job_Queue Calendar
begin

text \<open>
  Recurring deposits: \<^verbatim>\<open>domain/savingsschedule\<close>, \<^verbatim>\<open>repository/postgres/savings_schedule_repository.go\<close>,
  \<^verbatim>\<open>service/savings_schedule_service.go\<close>, \<^verbatim>\<open>service/scheduled_deposit_adapters.go\<close>,
  \<^verbatim>\<open>scheduler/next_run.go\<close> and \<^verbatim>\<open>scheduler/recurring_deposit.go\<close>. A sweep enqueues a job for every
  schedule that is due, the worker of the job queue records the deposit and moves the schedule to its
  next occurrence. The state joins the tables of schedules and goals with the job queue and the
  vault service. Parameters are the text of an identifier (\<^verbatim>\<open>uuid.String\<close>), the encoding of a
  payload and its decoding from the \<^verbatim>\<open>jsonb\<close> column, the texts of errors, and the executor of
  on-chain mandates, an interface without an implementation in the repository.
\<close>

section \<open>Schedules\<close>

definition FrequencyWeekly :: string where "FrequencyWeekly = ''weekly''"
definition FrequencyBiweekly :: string where "FrequencyBiweekly = ''biweekly''"
definition FrequencyMonthly :: string where "FrequencyMonthly = ''monthly''"

definition frequencies :: "string list" where
  "frequencies = [FrequencyWeekly, FrequencyBiweekly, FrequencyMonthly]"

datatype rerror =
    ErrScheduleNotFound | ErrInvalidSchedule | ErrActiveScheduleExists | ErrUnauthorizedVault
  | ErrGoalNotFound | ErrGoalArchived | ErrGoalPaused
  | ErrVaultService "verror db_error" | ErrQueue "jq_error db_error" | ErrMandate string | ErrPayload

definition ParseFrequency :: "string \<Rightarrow> rerror + string" where
  "ParseFrequency value =
     (let f = to_lower (trim_space value) in if f \<in> set frequencies then Inr f else Inl ErrInvalidSchedule)"

record savings_schedule =
  sID :: uuid
  sUserID :: uuid
  sGoalID :: uuid
  sVaultID :: uuid
  sAmount :: rat
  sCurrency :: string
  sFrequency :: string
  sNextRunAt :: time
  sLastRunAt :: "time option"
  IsActive :: bool
  OnchainMandateID :: "int option"
  sCreatedAt :: time
  sUpdatedAt :: time

text \<open>The columns of a goal that schedules look at.\<close>

record savings_goal =
  gID :: uuid
  gUserID :: uuid
  TargetAmount :: rat
  gCurrency :: string
  gDescription :: string
  gStatus :: string
  gDeletedAt :: "time option"

record notice =
  nUserID :: uuid
  nAmount :: decimal
  nCurrency :: string
  nGoalName :: string

record rstate =
  schedules :: "savings_schedule list"
  goals :: "savings_goal list"
  queue :: jobs_db
  vsvc :: svc_state
  mandateLog :: "(uuid \<times> int) list"
  notices :: "notice list"
  lastTickEnd :: int

type_synonym 'a rdb = "(rstate, rerror, 'a) db"

text \<open>A program on a part of the state, with its errors wrapped.\<close>

definition inside :: "('s \<Rightarrow> 'd) \<Rightarrow> ('d \<Rightarrow> 's \<Rightarrow> 's) \<Rightarrow> ('e db_error \<Rightarrow> 'f) \<Rightarrow> ('d, 'e, 'a) db \<Rightarrow> ('s, 'f, 'a) db" where
  "inside get put wrap m w =
     (case m \<lparr> data = get (data w), sched = sched w, drawn = drawn w, wall = wall w \<rparr> of (r, b) \<Rightarrow>
        (case r of Inl e \<Rightarrow> Inl (App (wrap e)) | Inr a \<Rightarrow> Inr a,
         w \<lparr> data := put (data b) (data w), sched := sched b, drawn := drawn b \<rparr>))"

definition on_vaults :: "'a sdb \<Rightarrow> 'a rdb" where
  "on_vaults = inside vsvc (\<lambda>d s. s \<lparr> vsvc := d \<rparr>) ErrVaultService"

definition on_queue :: "(jobs_db, jq_error, 'a) db \<Rightarrow> 'a rdb" where
  "on_queue = inside queue (\<lambda>d s. s \<lparr> queue := d \<rparr>) ErrQueue"

section \<open>The repository\<close>

definition store_schedule :: "savings_schedule \<Rightarrow> savings_schedule" where
  "store_schedule s = s \<lparr> sAmount := numeric 8 (sAmount s), sNextRunAt := timestamptz (sNextRunAt s),
     sLastRunAt := map_option timestamptz (sLastRunAt s) \<rparr>"

definition schedule_ok :: "savings_schedule \<Rightarrow> bool" where
  "schedule_ok s \<longleftrightarrow> 0 < sAmount s \<and> fits 40 (sAmount s) \<and> length (sCurrency s) \<le> 10 \<and> sFrequency s \<in> set frequencies"

text \<open>The checks of the row, the primary key, the unique index on the active schedules of a goal, the foreign keys.\<close>

definition insertSchedule :: "savings_schedule \<Rightarrow> rstate \<Rightarrow> rerror db_error + unit \<times> rstate" where
  "insertSchedule s0 d =
     (let s = store_schedule s0
      in if \<not> schedule_ok s then Inl Violation
         else if sID s \<in> sID ` set (schedules d) then Inl Violation
         else if IsActive s \<and> list_ex (\<lambda>k. IsActive k \<and> sGoalID k = sGoalID s) (schedules d) then Inl (App ErrActiveScheduleExists)
         else if sUserID s \<notin> set (users (tables (vsvc d))) \<or> sGoalID s \<notin> gID ` set (goals d)
              \<or> sVaultID s \<notin> vID ` set (vaults (tables (vsvc d))) then Inl Violation
         else Inr ((), d \<lparr> schedules := schedules d @ [s] \<rparr>))"

definition pgCreateSchedule :: "savings_schedule \<Rightarrow> savings_schedule rdb" where
  "pgCreateSchedule s =
     bind time_now (\<lambda>now.
     bind (stmt (insertSchedule (s \<lparr> sCreatedAt := now, sUpdatedAt := now \<rparr>))) (\<lambda>_.
       ret (s \<lparr> sCreatedAt := now, sUpdatedAt := now \<rparr>)))"

definition pgListByGoal :: "uuid \<Rightarrow> uuid \<Rightarrow> savings_schedule list rdb" where
  "pgListByGoal goalID userID = query (\<lambda>d. Inr (rev (sort_key sCreatedAt (filter (\<lambda>s. sGoalID s = goalID \<and> sUserID s = userID) (schedules d)))))"

definition pgGetScheduleByID :: "uuid \<Rightarrow> savings_schedule rdb" where
  "pgGetScheduleByID i = query (\<lambda>d. case List.find (\<lambda>s. sID s = i) (schedules d) of None \<Rightarrow> Inl (App ErrScheduleNotFound) | Some s \<Rightarrow> Inr s)"

definition pgGetActiveByGoal :: "uuid \<Rightarrow> uuid \<Rightarrow> savings_schedule option rdb" where
  "pgGetActiveByGoal goalID userID = query (\<lambda>d.
     case rev (sort_key sCreatedAt (filter (\<lambda>s. sGoalID s = goalID \<and> sUserID s = userID \<and> IsActive s) (schedules d))) of
       [] \<Rightarrow> Inr None | s # _ \<Rightarrow> Inr (Some s))"

text \<open>\<^verbatim>\<open>UPDATE savings_schedules SET ... WHERE ...\<close>: no row is \<open>ErrScheduleNotFound\<close>.\<close>

definition updateSchedules :: "(savings_schedule \<Rightarrow> bool) \<Rightarrow> (time \<Rightarrow> savings_schedule \<Rightarrow> savings_schedule) \<Rightarrow> unit rdb" where
  "updateSchedules P f =
     bind time_now (\<lambda>now.
     bind (stmt (\<lambda>d. let new = map (store_schedule \<circ> f now) (filter P (schedules d))
                     in if \<not> list_all schedule_ok new
                           \<or> list_ex (\<lambda>s. sVaultID (f now s) \<noteq> sVaultID s \<and> sVaultID (f now s) \<notin> vID ` set (vaults (tables (vsvc d)))) (filter P (schedules d))
                        then Inl Violation
                        else Inr (length new, d \<lparr> schedules := map (\<lambda>s. if P s then store_schedule (f now s) else s) (schedules d) \<rparr>))) (\<lambda>n.
       if n = 0 then fail (App ErrScheduleNotFound) else ret ()))"

definition switchOff :: "time \<Rightarrow> savings_schedule \<Rightarrow> savings_schedule" where
  "switchOff now s = s \<lparr> IsActive := False, sUpdatedAt := now \<rparr>"

definition pgCancelActiveByGoal :: "uuid \<Rightarrow> uuid \<Rightarrow> unit rdb" where
  "pgCancelActiveByGoal goalID userID = updateSchedules (\<lambda>s. sGoalID s = goalID \<and> sUserID s = userID \<and> IsActive s) switchOff"

definition pgUpdateSchedule :: "savings_schedule \<Rightarrow> unit rdb" where
  "pgUpdateSchedule x = updateSchedules (\<lambda>s. sID s = sID x \<and> sUserID s = sUserID x \<and> sGoalID s = sGoalID x \<and> IsActive s)
     (\<lambda>now s. s \<lparr> sAmount := sAmount x, sCurrency := sCurrency x, sFrequency := sFrequency x, sVaultID := sVaultID x, sUpdatedAt := now \<rparr>)"

definition pgCancelSchedule :: "uuid \<Rightarrow> uuid \<Rightarrow> uuid \<Rightarrow> unit rdb" where
  "pgCancelSchedule i goalID userID = updateSchedules (\<lambda>s. sID s = i \<and> sGoalID s = goalID \<and> sUserID s = userID \<and> IsActive s) switchOff"

definition pgListDue :: "time \<Rightarrow> savings_schedule list rdb" where
  "pgListDue now = query (\<lambda>d. Inr (sort_key sNextRunAt (filter (\<lambda>s. IsActive s \<and> sNextRunAt s \<le> now) (schedules d))))"

definition pgUpdateAfterRun :: "uuid \<Rightarrow> time \<Rightarrow> time \<Rightarrow> unit rdb" where
  "pgUpdateAfterRun i lastRun nextRun = updateSchedules (\<lambda>s. sID s = i \<and> IsActive s)
     (\<lambda>now s. s \<lparr> sLastRunAt := Some lastRun, sNextRunAt := nextRun, sUpdatedAt := now \<rparr>)"

definition pgDeactivate :: "uuid \<Rightarrow> unit rdb" where
  "pgDeactivate i = updateSchedules (\<lambda>s. sID s = i) switchOff"

text \<open>The two queries on goals and balances that schedules use.\<close>

definition pgGoalByID :: "uuid \<Rightarrow> savings_goal rdb" where
  "pgGoalByID i = query (\<lambda>d. case List.find (\<lambda>g. gID g = i \<and> gDeletedAt g = None) (goals d) of
     None \<Rightarrow> Inl (App ErrGoalNotFound) | Some g \<Rightarrow> Inr g)"

definition pgSumVaultBalance :: "uuid \<Rightarrow> string \<Rightarrow> rat rdb" where
  "pgSumVaultBalance userID currency = query (\<lambda>d. Inr (sum_list (map CurrentBalance (filter (\<lambda>v. vUserID v = userID \<and> DeletedAt v = None
     \<and> vStatus v = StatusActive \<and> (currency = '''' \<or> Currency v = currency)) (vaults (tables (vsvc d)))))))"

section \<open>The service\<close>

definition GoalStatusPaused :: string where "GoalStatusPaused = ''paused''"
definition GoalStatusCompleted :: string where "GoalStatusCompleted = ''completed''"
definition GoalStatusArchived :: string where "GoalStatusArchived = ''archived''"

definition validateScheduleAmount :: "decimal \<Rightarrow> rat \<Rightarrow> rerror option" where
  "validateScheduleAmount amount minDeposit =
     (if decimal_value amount \<le> 0 then Some ErrInvalidSchedule
      else if 0 < minDeposit \<and> decimal_value amount \<le> minDeposit then Some ErrInvalidSchedule
      else if MaxAmountScale < decimalScale amount then Some ErrInvalidSchedule
      else None)"

record create_schedule_input =
  csAmount :: decimal
  csCurrency :: string
  csFrequency :: string
  csVaultID :: uuid

text \<open>The goal of a request, which has to belong to the user.\<close>

definition ownGoal :: "uuid \<Rightarrow> uuid \<Rightarrow> savings_goal rdb" where
  "ownGoal userID goalID = bind (pgGoalByID goalID) (\<lambda>goal. if gUserID goal \<noteq> userID then fail (App ErrGoalNotFound) else ret goal)"

definition ownVault :: "uuid \<Rightarrow> uuid \<Rightarrow> unit rdb" where
  "ownVault userID vaultID = bind (on_vaults (on_tables (pgGetVault vaultID))) (\<lambda>v.
     if vUserID v \<noteq> userID then fail (App ErrUnauthorizedVault) else ret ())"

definition CreateSchedule :: "(nat \<Rightarrow> uuid) \<Rightarrow> rat \<Rightarrow> uuid \<Rightarrow> uuid \<Rightarrow> create_schedule_input \<Rightarrow> savings_schedule rdb" where
  "CreateSchedule gen minDeposit userID goalID inp =
     bind (ownGoal userID goalID) (\<lambda>goal.
       if gStatus goal = GoalStatusArchived then fail (App ErrGoalArchived)
       else if gStatus goal = GoalStatusPaused then fail (App ErrGoalPaused)
       else case ParseFrequency (csFrequency inp) of
         Inl e \<Rightarrow> fail (App e)
       | Inr frequency \<Rightarrow>
           (case validateScheduleAmount (csAmount inp) minDeposit of
              Some e \<Rightarrow> fail (App e)
            | None \<Rightarrow>
                bind (ownVault userID (csVaultID inp)) (\<lambda>_.
                let cur = to_upper (trim_space (csCurrency inp)); currency = (if cur = '''' then ''USDC'' else cur) in
                bind time_now (\<lambda>now.
                bind (new_uuid gen) (\<lambda>i.
                  pgCreateSchedule \<lparr> sID = i, sUserID = userID, sGoalID = goalID, sVaultID = csVaultID inp,
                    sAmount = decimal_value (csAmount inp), sCurrency = currency, sFrequency = frequency, sNextRunAt = now,
                    sLastRunAt = None, IsActive = True, OnchainMandateID = None, sCreatedAt = 0, sUpdatedAt = 0 \<rparr>)))))"

definition ListSchedules :: "uuid \<Rightarrow> uuid \<Rightarrow> savings_schedule list rdb" where
  "ListSchedules userID goalID = bind (ownGoal userID goalID) (\<lambda>_. pgListByGoal goalID userID)"

definition CancelSchedule :: "uuid \<Rightarrow> uuid \<Rightarrow> uuid \<Rightarrow> unit rdb" where
  "CancelSchedule userID goalID i = bind (ownGoal userID goalID) (\<lambda>_. pgCancelSchedule i goalID userID)"

definition GetActive :: "uuid \<Rightarrow> uuid \<Rightarrow> savings_schedule option rdb" where
  "GetActive userID goalID = bind (ownGoal userID goalID) (\<lambda>_. pgGetActiveByGoal goalID userID)"

record update_schedule_input =
  usAmount :: "decimal option"
  usCurrency :: "string option"
  usFrequency :: "string option"
  usVaultID :: "uuid option"

definition editSchedule :: "rat \<Rightarrow> uuid \<Rightarrow> update_schedule_input \<Rightarrow> savings_schedule \<Rightarrow> savings_schedule rdb" where
  "editSchedule minDeposit userID inp active =
     bind (case usAmount inp of
             None \<Rightarrow> ret active
           | Some amount \<Rightarrow> (case validateScheduleAmount amount minDeposit of
               Some e \<Rightarrow> fail (App e) | None \<Rightarrow> ret (active \<lparr> sAmount := decimal_value amount \<rparr>))) (\<lambda>a1.
     let a2 = (case usCurrency inp of None \<Rightarrow> a1 | Some c \<Rightarrow> a1 \<lparr> sCurrency := to_upper (trim_space c) \<rparr>) in
     bind (case usFrequency inp of
             None \<Rightarrow> ret a2
           | Some f \<Rightarrow> (case ParseFrequency f of Inl e \<Rightarrow> fail (App e) | Inr frequency \<Rightarrow> ret (a2 \<lparr> sFrequency := frequency \<rparr>))) (\<lambda>a3.
     case usVaultID inp of
       None \<Rightarrow> ret a3
     | Some v \<Rightarrow> bind (ownVault userID v) (\<lambda>_. ret (a3 \<lparr> sVaultID := v \<rparr>))))"

definition UpdateSchedule :: "rat \<Rightarrow> uuid \<Rightarrow> uuid \<Rightarrow> update_schedule_input \<Rightarrow> savings_schedule rdb" where
  "UpdateSchedule minDeposit userID goalID inp =
     bind (ownGoal userID goalID) (\<lambda>goal.
       if gStatus goal = GoalStatusPaused \<or> gStatus goal = GoalStatusArchived then fail (App ErrGoalPaused)
       else bind (pgGetActiveByGoal goalID userID) (\<lambda>found.
         case found of
           None \<Rightarrow> fail (App ErrScheduleNotFound)
         | Some active \<Rightarrow>
             bind (editSchedule minDeposit userID inp active) (\<lambda>edited.
             bind (pgUpdateSchedule edited) (\<lambda>_. ret edited))))"

definition DeleteActive :: "uuid \<Rightarrow> uuid \<Rightarrow> unit rdb" where
  "DeleteActive userID goalID = bind (ownGoal userID goalID) (\<lambda>_. pgCancelActiveByGoal goalID userID)"

section \<open>Scheduled deposits\<close>

text \<open>\<^verbatim>\<open>Time.Unix\<close> and \<^verbatim>\<open>Time.UnixNano\<close>: seconds and nanoseconds since 1970.\<close>

definition unixSeconds :: "time \<Rightarrow> int" where
  "unixSeconds t = t div second - 62135596800"

definition unixNanos :: "time \<Rightarrow> int" where
  "unixNanos t = wrap64 (t - 62135596800 * second)"

definition scheduledHash :: "(uuid \<Rightarrow> string) \<Rightarrow> uuid \<Rightarrow> time \<Rightarrow> string" where
  "scheduledHash idText scheduleID occurrenceAt = ''scheduled-'' @ idText scheduleID @ ''-'' @ itoa (unixSeconds occurrenceAt)"

definition RecordScheduledDeposit :: "(uuid \<Rightarrow> string) \<Rightarrow> (nat \<Rightarrow> uuid) \<Rightarrow> decimal_ops \<Rightarrow> vault_service \<Rightarrow>
    uuid \<Rightarrow> uuid \<Rightarrow> decimal \<Rightarrow> uuid \<Rightarrow> time \<Rightarrow> unit rdb" where
  "RecordScheduledDeposit idText gen dec s userID vaultID amount scheduleID occurrenceAt =
     bind (on_vaults (RecordDeposit gen dec s \<lparr> dVaultID = vaultID, dUserID = userID, dAmount = amount,
       dTxHash = scheduledHash idText scheduleID occurrenceAt, dFee = 0, dWalletAddress = '''' \<rparr>)) (\<lambda>_. ret ())"

definition IsGoalCompleted :: "uuid \<Rightarrow> uuid \<Rightarrow> (bool \<times> string) rdb" where
  "IsGoalCompleted goalID userID =
     bind (ownGoal userID goalID) (\<lambda>goal.
       let name = (if gDescription goal = '''' then ''your goal'' else gDescription goal)
       in if gStatus goal = GoalStatusArchived \<or> gStatus goal = GoalStatusCompleted then ret (True, name)
          else bind (pgSumVaultBalance userID (gCurrency goal)) (\<lambda>balance. ret (TargetAmount goal \<le> balance, name)))"

definition IsGoalPausedOrArchived :: "uuid \<Rightarrow> uuid \<Rightarrow> bool rdb" where
  "IsGoalPausedOrArchived goalID userID =
     bind (ownGoal userID goalID) (\<lambda>goal. ret (gStatus goal = GoalStatusPaused \<or> gStatus goal = GoalStatusArchived))"

section \<open>The next occurrence\<close>

definition daysInMonth :: "int \<Rightarrow> int \<Rightarrow> int" where
  "daysInMonth year month = (case dateOf (goDate year (month + 1) 0 0) of (_, _, d) \<Rightarrow> d)"

definition addOneMonth :: "time \<Rightarrow> time" where
  "addOneMonth t =
     (case dateOf t of (year0, month0, day0) \<Rightarrow>
        let month1 = month0 + 1;
            (year, month) = (if 12 < month1 then (year0 + 1, 1) else (year0, month1));
            lastDay = daysInMonth year month;
            day = (if lastDay < day0 then lastDay else day0)
        in goDate year month day (clockOf t))"

definition scheduleNextRunAt :: "time \<Rightarrow> string \<Rightarrow> time" where
  "scheduleNextRunAt from frequency =
     (if frequency = ''weekly'' then AddDate from 0 0 7
      else if frequency = ''biweekly'' then AddDate from 0 0 14
      else if frequency = ''monthly'' then addOneMonth from
      else from)"

section \<open>The sweep\<close>

definition RecurringDepositJobType :: string where "RecurringDepositJobType = ''recurring_deposit''"
definition defaultRecurringDepositInterval :: duration where "defaultRecurringDepositInterval = hour"

record recurring_config =
  rcEnabled :: bool
  rcInterval :: duration
  rcWindow :: duration

definition window :: "recurring_config \<Rightarrow> duration" where
  "window c = (if rcWindow c \<le> 0 then defaultRecurringDepositInterval else rcWindow c)"

record job_payload =
  pScheduleID :: uuid
  pUserID :: uuid
  pVaultID :: uuid
  pGoalID :: uuid
  pAmount :: decimal
  pCurrency :: string
  pFrequency :: string
  pGoalName :: string
  OccurrenceAt :: time
  pMandateID :: "int option"

text \<open>An amount read from a \<^verbatim>\<open>NUMERIC\<close> column of scale 8 keeps that scale.\<close>

definition scanAmount :: "rat \<Rightarrow> decimal" where
  "scanAmount x = (half_away (x * 10 ^ 8), - 8)"

definition newPayload :: "savings_schedule \<Rightarrow> string \<Rightarrow> job_payload" where
  "newPayload s goalName = \<lparr> pScheduleID = sID s, pUserID = sUserID s, pVaultID = sVaultID s, pGoalID = sGoalID s,
     pAmount = scanAmount (sAmount s), pCurrency = sCurrency s, pFrequency = sFrequency s, pGoalName = goalName,
     OccurrenceAt = sNextRunAt s, pMandateID = OnchainMandateID s \<rparr>"

definition recurringDepositIdempotencyKey :: "(uuid \<Rightarrow> string) \<Rightarrow> uuid \<Rightarrow> time \<Rightarrow> duration \<Rightarrow> string" where
  "recurringDepositIdempotencyKey idText scheduleID occurrenceAt win =
     idText scheduleID @ '':'' @ itoa (unixSeconds (if win \<le> 0 then occurrenceAt else occurrenceAt - occurrenceAt mod win))"

definition occurrenceInput :: "(uuid \<Rightarrow> string) \<Rightarrow> duration \<Rightarrow> savings_schedule \<Rightarrow> string \<Rightarrow> enqueue_input" where
  "occurrenceInput idText win s payload = \<lparr> inType = RecurringDepositJobType, inPayload = payload, inPriority = 0, inMaxAttempts = 0,
     inIdempotencyKey = recurringDepositIdempotencyKey idText (sID s) (sNextRunAt s) win, inCorrelationID = idText (sID s), inRunAt = 0 \<rparr>"

text \<open>\<open>lead\<close> is what the leader election says right before the job of a schedule is enqueued.\<close>

definition processSchedule :: "(uuid \<Rightarrow> string) \<Rightarrow> (job_payload \<Rightarrow> string option) \<Rightarrow> (nat \<Rightarrow> uuid) \<Rightarrow> recurring_config \<Rightarrow>
    (uuid \<Rightarrow> bool) \<Rightarrow> savings_schedule \<Rightarrow> unit rdb" where
  "processSchedule idText enc gen c lead s =
     bind (attempt (IsGoalPausedOrArchived (sGoalID s) (sUserID s))) (\<lambda>r1.
       case r1 of Inl _ \<Rightarrow> ret ()
       | Inr paused \<Rightarrow>
           if paused then ret ()
           else bind (attempt (IsGoalCompleted (sGoalID s) (sUserID s))) (\<lambda>r2.
             case r2 of Inl _ \<Rightarrow> ret ()
             | Inr (reached, goalName) \<Rightarrow>
                 if reached then bind (attempt (pgDeactivate (sID s))) (\<lambda>_. ret ())
                 else if \<not> lead (sID s) then ret ()
                 else case enc (newPayload s goalName) of
                   None \<Rightarrow> ret ()
                 | Some payload \<Rightarrow>
                     bind (attempt (on_queue (clientEnqueue gen (occurrenceInput idText (window c) s payload)))) (\<lambda>_. ret ())))"

fun processAll :: "(savings_schedule \<Rightarrow> unit rdb) \<Rightarrow> savings_schedule list \<Rightarrow> unit rdb" where
  "processAll f [] = ret ()"
| "processAll f (s # ss) = bind (f s) (\<lambda>_. processAll f ss)"

text \<open>The time of the deferred call is taken when the tick starts.\<close>

definition Tick :: "(uuid \<Rightarrow> string) \<Rightarrow> (job_payload \<Rightarrow> string option) \<Rightarrow> (nat \<Rightarrow> uuid) \<Rightarrow> recurring_config \<Rightarrow>
    bool \<Rightarrow> (uuid \<Rightarrow> bool) \<Rightarrow> unit rdb" where
  "Tick idText enc gen c leader lead =
     bind time_now (\<lambda>started.
     bind (if \<not> leader then ret ()
           else bind time_now (\<lambda>now.
             bind (attempt (pgListDue now)) (\<lambda>r.
               case r of Inl _ \<Rightarrow> ret ()
               | Inr due \<Rightarrow> processAll (processSchedule idText enc gen c lead) due))) (\<lambda>_.
       local (\<lambda>d. d \<lparr> lastTickEnd := unixNanos started \<rparr>)))"

section \<open>The handler of the job\<close>

text \<open>The answer of the executor may depend on the calls made before.\<close>

type_synonym mandate_executor = "(uuid \<times> int) list \<Rightarrow> uuid \<Rightarrow> int \<Rightarrow> string option"

definition ExecuteMandate :: "mandate_executor \<Rightarrow> uuid \<Rightarrow> int \<Rightarrow> string option rdb" where
  "ExecuteMandate ex userID mandateID =
     bind (peek (\<lambda>d. ex (mandateLog d) userID mandateID)) (\<lambda>r.
     bind (local (\<lambda>d. d \<lparr> mandateLog := mandateLog d @ [(userID, mandateID)] \<rparr>)) (\<lambda>_. ret r))"

definition isNonRetryableMandateError :: "string \<Rightarrow> bool" where
  "isNonRetryableMandateError e \<longleftrightarrow> contains e ''MandateExpired'' \<or> contains e ''MandateExhausted'' \<or> contains e ''MandateNotDue''
     \<or> contains e ''MandateInactive'' \<or> contains e ''MandatePaused''"

text \<open>The notification may fail, which is only logged.\<close>

definition NotifyScheduledDeposit :: "job_payload \<Rightarrow> unit rdb" where
  "NotifyScheduledDeposit p = stmt (\<lambda>d. Inr ((), d \<lparr> notices := notices d @
     [\<lparr> nUserID = pUserID p, nAmount = pAmount p, nCurrency = pCurrency p, nGoalName = pGoalName p \<rparr>] \<rparr>))"

definition updateScheduleAfterExecution :: "job_payload \<Rightarrow> unit rdb" where
  "updateScheduleAfterExecution p =
     bind (pgUpdateAfterRun (pScheduleID p) (OccurrenceAt p) (scheduleNextRunAt (OccurrenceAt p) (pFrequency p))) (\<lambda>_.
     bind (attempt (NotifyScheduledDeposit p)) (\<lambda>_. ret ()))"

type_synonym recorder = "uuid \<Rightarrow> uuid \<Rightarrow> decimal \<Rightarrow> uuid \<Rightarrow> time \<Rightarrow> unit rdb"

definition duplicate :: "rerror db_error" where
  "duplicate = App (ErrVaultService (App ErrDuplicateTransaction))"

definition Handle :: "(string \<Rightarrow> job_payload option) \<Rightarrow> recorder \<Rightarrow> mandate_executor option \<Rightarrow> job \<Rightarrow> unit rdb" where
  "Handle decode deposits mandates j =
     (case decode (Payload j) of
        None \<Rightarrow> fail (App ErrPayload)
      | Some p \<Rightarrow>
          (case (pMandateID p, mandates) of
             (Some m, Some ex) \<Rightarrow>
               bind (ExecuteMandate ex (pUserID p) m) (\<lambda>err.
                 case err of
                   None \<Rightarrow> updateScheduleAfterExecution p
                 | Some e \<Rightarrow> if isNonRetryableMandateError e then updateScheduleAfterExecution p else fail (App (ErrMandate e)))
           | _ \<Rightarrow>
               bind (attempt (deposits (pUserID p) (pVaultID p) (pAmount p) (pScheduleID p) (OccurrenceAt p))) (\<lambda>r.
                 case r of
                   Inr _ \<Rightarrow> updateScheduleAfterExecution p
                 | Inl e \<Rightarrow> if e \<noteq> duplicate then fail e else updateScheduleAfterExecution p)))"

text \<open>What the worker of the queue sees: a panic of the handler, a permanent error or one to retry.\<close>

definition handlerOutcome :: "(rerror db_error \<Rightarrow> string) \<Rightarrow> rerror db_error + unit \<Rightarrow> outcome" where
  "handlerOutcome errText r =
     (case r of
        Inr _ \<Rightarrow> Returned None
      | Inl e \<Rightarrow> if e = App (ErrVaultService (App PanicDivisionByZero)) then Panicked (errText e)
                 else Returned (if e = App ErrPayload then Permanent (Some (Err (errText e))) else Some (Err (errText e))))"

definition workOccurrence :: "(rerror db_error \<Rightarrow> string) \<Rightarrow> config \<Rightarrow> rat \<Rightarrow> unit rdb \<Rightarrow> job \<Rightarrow> processed rdb" where
  "workOccurrence errText c u handler j = bind (attempt handler) (\<lambda>r. on_queue (process c (\<lambda>_. handlerOutcome errText r) u j))"

section \<open>When the next occurrence falls\<close>

lemma daysInMonth_eq: "1 \<le> m \<Longrightarrow> m \<le> 12 \<Longrightarrow> daysInMonth y m = month_length y m"
  by (simp add: daysInMonth_def last_day)

definition monthAfter :: "int \<Rightarrow> int \<Rightarrow> int \<times> int" where
  "monthAfter y m = (if m = 12 then (y + 1, 1) else (y, m + 1))"

lemma addOneMonth_eq:
  assumes "dateOf t = (y, m, d)" and "monthAfter y m = (y', m')"
  shows "valid_date y m d" "1 \<le> m'" "m' \<le> 12" "addOneMonth t = goDate y' m' (min d (month_length y' m')) (clockOf t)"
    "valid_date y' m' (min d (month_length y' m'))" "goDate y (m + 1) k c = goDate y' m' k c"
proof -
  show v: "valid_date y m d" using civil_spec(1) assms(1) by (simp add: dateOf_def)
  then have m: "1 \<le> m" "m \<le> 12" "1 \<le> d" by (simp_all add: valid_date_def)
  show m': "1 \<le> m'" "m' \<le> 12" using m assms(2) by (auto simp: monthAfter_def split: if_splits)
  have p: "(if 12 < m + 1 then (y + 1, 1) else (y, m + 1)) = (y', m')" using assms(2) m by (auto simp: monthAfter_def split: if_splits)
  show "addOneMonth t = goDate y' m' (min d (month_length y' m')) (clockOf t)"
    unfolding addOneMonth_def assms(1) prod.case Let_def p by (simp add: daysInMonth_eq [OF m'] min_def)
  show "valid_date y' m' (min d (month_length y' m'))" using m' m(3) month_length_bounds(1) [OF m', of y'] by (simp add: valid_date_def)
  show "goDate y (m + 1) k c = goDate y' m' k c" using assms(2) m by (auto simp: monthAfter_def goDate_def split: if_splits)
qed

lemma addOneMonth_bounds: "t + 28 * day_nanos \<le> addOneMonth t" "addOneMonth t \<le> t + 31 * day_nanos"
proof -
  obtain y m d where e: "dateOf t = (y, m, d)" by (cases "dateOf t") auto
  obtain y' m' where a: "monthAfter y m = (y', m')" by fastforce
  note f = addOneMonth_eq [OF e a]
  have m: "1 \<le> m" "m \<le> 12" "d \<le> month_length y m" using f(1) by (simp_all add: valid_date_def)
  let ?d' = "min d (month_length y' m')"
  let ?n = "month_length y m - d + ?d'"
  have "addOneMonth t = (days_before y m + month_length y m + ?d' - 1) * day_nanos + clockOf t"
    unfolding f(4) f(6) [symmetric] month_after [OF m(1,2)] ..
  moreover have "t = (days_before y m + d - 1) * day_nanos + clockOf t" using goDate_of [OF e] goDate_normal [OF m(1,2)] by simp
  ultimately have n: "addOneMonth t = t + ?n * day_nanos" by (simp add: algebra_simps)
  have "28 \<le> ?n" "?n \<le> 31" using month_length_bounds [OF m(1,2), of y] month_length_bounds [OF f(2,3), of y'] m(3) by (auto simp: min_def)
  then have "28 * day_nanos \<le> ?n * day_nanos" "?n * day_nanos \<le> 31 * day_nanos" using day_nanos_pos by simp_all
  then show "t + 28 * day_nanos \<le> addOneMonth t" "addOneMonth t \<le> t + 31 * day_nanos" unfolding n by linarith+
qed

text \<open>
  C14: The next occurrence is exactly 7 or 14 days later, or falls into the following calendar month at
  the same time of day, on the same day of the month or on the last one when the month is shorter,
  and then lies 28 to 31 days later.
\<close>

theorem next_occurrence_exact:
  "scheduleNextRunAt t ''weekly'' = t + 7 * day_nanos \<and> scheduleNextRunAt t ''biweekly'' = t + 14 * day_nanos \<and>
   (case dateOf t of (y, m, d) \<Rightarrow> case monthAfter y m of (y', m') \<Rightarrow>
      let t' = scheduleNextRunAt t ''monthly'' in
        dateOf t' = (y', m', min d (month_length y' m')) \<and> clockOf t' = clockOf t
        \<and> t + 28 * day_nanos \<le> t' \<and> t' \<le> t + 31 * day_nanos)"
proof -
  obtain y m d where e: "dateOf t = (y, m, d)" by (cases "dateOf t") auto
  obtain y' m' where a: "monthAfter y m = (y', m')" by fastforce
  note f = addOneMonth_eq [OF e a]
  show ?thesis
    using dateOf_goDate [OF f(5) clockOf_bounds] addOneMonth_bounds [of t]
    by (simp add: scheduleNextRunAt_def AddDate_days e a f(4))
qed

section \<open>Recording an occurrence\<close>

lemma scheduledHash_clean: "trim_space (scheduledHash idText i t) = scheduledHash idText i t" "scheduledHash idText i t \<noteq> ''''"
proof -
  let ?h = "scheduledHash idText i t"
  have "digits n \<noteq> []" for n by (simp add: digits.simps [of n])
  then have ne: "itoa n \<noteq> []" for n by (simp add: itoa_def)
  have "last ?h = last (itoa (unixSeconds t))" by (simp add: scheduledHash_def ne)
  then have "last ?h = CHR ''-'' \<or> is_digit (last ?h)" using itoa_chars last_in_set [OF ne] by metis
  then have l: "\<not> is_space (last ?h)" by (auto simp: is_digit_def is_space_def)
  have h: "hd ?h = CHR ''s''" "?h \<noteq> []" by (simp_all add: scheduledHash_def)
  have f: "dropWhile is_space ?h = ?h" using h by (cases ?h) (auto simp: is_space_def)
  have "dropWhile is_space (rev ?h) = rev ?h" using l h(2) by (cases "rev ?h") (auto simp: hd_rev [symmetric])
  then show "trim_space ?h = ?h" by (simp add: trim_space_def f)
  show "?h \<noteq> ''''" by (rule h(2))
qed

definition recordedIn :: "(uuid \<Rightarrow> string) \<Rightarrow> uuid \<Rightarrow> time \<Rightarrow> rstate \<Rightarrow> bool" where
  "recordedIn idText i t d \<longleftrightarrow> Some (scheduledHash idText i t) \<in> TransactionHash ` set (txns (tables (vsvc d)))"

definition vault_part :: "rstate dbw \<Rightarrow> svc_state dbw" where
  "vault_part w = \<lparr> data = vsvc (data w), sched = sched w, drawn = drawn w, wall = wall w \<rparr>"

lemma vault_run:
  assumes "on_vaults m w = (r, w')"
  obtains q b where "m (vault_part w) = (q, b)" "data w' = (data w) \<lparr> vsvc := data b \<rparr>" "sched w' = sched b" "wall w' = wall w"
    "r = (case q of Inl e \<Rightarrow> Inl (App (ErrVaultService e)) | Inr a \<Rightarrow> Inr a)"
  using assms by (auto simp: on_vaults_def inside_def vault_part_def split: prod.splits)

lemma insertTxn_conflict: "insertTxn t d = Inr (False, d') \<Longrightarrow> TransactionHash t = Some h \<Longrightarrow> Some h \<in> TransactionHash ` set (txns d)"
  by (auto simp: insertTxn_def store_txn_def Let_def split: if_splits)

lemma updateOne_txns: "updateOne i f w = (r, w') \<Longrightarrow> txns (data w') = txns (data w)"
  by (auto simp: updateOne_def updateVaultRow_def bind_def time_now_def stmt_def fail_def ret_def Let_def split: if_splits sum.splits)

lemma deposit_conflict:
  assumes run: "pgRecordDeposit gen dec i rec w = (Inl (App ErrDuplicateTransaction), w')" and h: "rHash rec \<noteq> ''''"
  shows "claimed (rHash rec) w'"
proof -
  have pos: "\<not> rAmount rec \<le> 0" using run by (auto simp: pgRecordDeposit_def fail_def split: if_splits)
  let ?w = "w \<lparr> sched := tl (sched w) \<rparr>"
  let ?body = "bind (updateOne i (credit (rAmount rec))) (\<lambda>_. bind (new_uuid gen) (\<lambda>rowID. bind time_now (\<lambda>now.
        bind (stmt (insertTxn (record_txn rowID i ''deposit'' rec now))) (\<lambda>inserted.
          if \<not> inserted then fail (App ErrDuplicateTransaction)
          else on_books (postDepositLedgerTx gen dec i (rUserID rec) (rAmount rec) (rHash rec))))))"
  have d: "data w' = data w" and b: "\<exists>w1. ?body ?w = (Inl (App ErrDuplicateTransaction), w1)"
    using run unfolding pgRecordDeposit_def if_not_P [OF pos] transaction_def Let_def
    by (auto split: if_splits prod.splits sum.splits)
  from b obtain w1 where b: "?body ?w = (Inl (App ErrDuplicateTransaction), w1)" by blast
  obtain r2 w2 where u: "updateOne i (credit (rAmount rec)) ?w = (r2, w2)" by fastforce
  have "r2 \<noteq> Inl (App ErrDuplicateTransaction)" using u
    by (auto simp: updateOne_def bind_def time_now_def stmt_def fail_def ret_def updateVaultRow_def Let_def split: if_splits sum.splits)
  then obtain a where r2: "r2 = Inr a" using b u by (cases r2) (auto simp: bind_def)
  let ?t = "record_txn (gen (drawn w2)) i ''deposit'' rec (wall w2)"
  let ?w2 = "w2 \<lparr> drawn := drawn w2 + 1 \<rparr>"
  obtain r3 w3 where s: "stmt (insertTxn ?t) ?w2 = (r3, w3)" by fastforce
  have b3: "bind (stmt (insertTxn ?t)) (\<lambda>inserted. if \<not> inserted then fail (App ErrDuplicateTransaction)
          else on_books (postDepositLedgerTx gen dec i (rUserID rec) (rAmount rec) (rHash rec))) ?w2 = (Inl (App ErrDuplicateTransaction), w1)"
    using b u r2 by (simp add: bind_def [of "updateOne i (credit (rAmount rec))"] bind_def [of "new_uuid gen"] bind_def [of time_now] new_uuid_def time_now_def)
  have "r3 \<noteq> Inl (App ErrDuplicateTransaction)" using s
    by (auto simp: stmt_def insertTxn_def Let_def split: if_splits sum.splits)
  then obtain ins where r3: "r3 = Inr ins" using b3 s by (cases r3) (auto simp: bind_def)
  have "\<not> ins"
  proof
    assume "ins"
    then have "on_books (postDepositLedgerTx gen dec i (rUserID rec) (rAmount rec) (rHash rec)) w3 = (Inl (App ErrDuplicateTransaction), w1)"
      using b3 s r3 by (simp add: bind_def)
    then show False by (auto simp: on_books_def split: prod.splits sum.splits)
  qed
  then have "insertTxn ?t (data w2) = Inr (False, data w3)" using stmt_Inr [OF s [unfolded r3]] by simp
  then have "Some (rHash rec) \<in> TransactionHash ` set (txns (data w2))" by (rule insertTxn_conflict) (rule hash_of_record [OF h refl])
  then show ?thesis using updateOne_txns [OF u] d by (simp add: claimed_def)
qed

text \<open>\<open>honest h m\<close>: when \<open>m\<close> reports a duplicate, the hash is in the table.\<close>

definition hashIn :: "string \<Rightarrow> svc_state \<Rightarrow> bool" where
  "hashIn h s \<longleftrightarrow> Some h \<in> TransactionHash ` set (txns (tables s))"

definition honest :: "string \<Rightarrow> 'a sdb \<Rightarrow> bool" where
  "honest h m \<longleftrightarrow> (\<forall>w w'. m w = (Inl (App ErrDuplicateTransaction), w') \<longrightarrow> hashIn h (data w'))"

lemma honest_bind: "honest h m \<Longrightarrow> (\<And>a. honest h (f a)) \<Longrightarrow> honest h (bind m f)"
  unfolding honest_def bind_def by (auto split: prod.splits sum.splits)

lemma honest_basic:
  "honest h (ret a)" "e \<noteq> App ErrDuplicateTransaction \<Longrightarrow> honest h (fail e)" "honest h time_now" "honest h (peek g)" "honest h (local k)"
  "honest h m \<Longrightarrow> honest h n \<Longrightarrow> honest h (if b then m else n)"
  "honest h m \<Longrightarrow> (\<And>a. honest h (c a)) \<Longrightarrow> honest h (case x of None \<Rightarrow> m | Some a \<Rightarrow> c a)"
  "(\<And>a. honest h (p a)) \<Longrightarrow> (\<And>a. honest h (q a)) \<Longrightarrow> honest h (case y of Inl a \<Rightarrow> p a | Inr a \<Rightarrow> q a)"
  by (auto simp: honest_def ret_def fail_def time_now_def peek_def local_def split: option.splits sum.splits)

lemma honest_getVault: "honest h (on_tables (pgGetVault i))"
  unfolding honest_def by (auto elim!: on_tables_Inr simp: pgGetVault_def query_def stmt_def bind_def ret_def Let_def split: if_splits sum.splits option.splits)

lemma honest_deposit: "rHash rec \<noteq> '''' \<Longrightarrow> honest (rHash rec) (on_tables (pgRecordDeposit gen dec i rec))"
  unfolding honest_def hashIn_def
proof (intro allI impI)
  fix w w' assume h: "rHash rec \<noteq> ''''" and "on_tables (pgRecordDeposit gen dec i rec) w = (Inl (App ErrDuplicateTransaction), w')"
  then obtain b where "pgRecordDeposit gen dec i rec (tables_of w) = (Inl (App ErrDuplicateTransaction), b)" "tables (data w') = data b"
    using on_tables_Inr by metis
  then show "Some (rHash rec) \<in> TransactionHash ` set (txns (tables (data w')))" using deposit_conflict [OF _ h] by (simp add: claimed_def)
qed

lemma honest_switches: "honest h (ensureMoneyPathAllowed s op)"
proof -
  have "EnsureAllowed op b \<noteq> (Inl (App ErrDuplicateTransaction), b')" for b b'
    by (auto simp: EnsureAllowed_def bind_def attempt_def fail_def ret_def split: prod.splits sum.splits if_splits)
  then show ?thesis by (auto simp: honest_def ensureMoneyPathAllowed_def on_switches_def zoom_def ret_def split: prod.splits if_splits)
qed

lemma honest_record:
  assumes "trim_space (dTxHash inp) = h" and "h \<noteq> ''''"
  shows "honest h (RecordDeposit gen dec s inp)"
proof -
  have c: "honest h (creditDeposit gen dec inp ex h x)" for ex x
    unfolding creditDeposit_def Let_def sharesFor_def
    by (intro honest_bind honest_basic honest_getVault honest_deposit [where rec = "\<lparr> rUserID = _, rAmount = _, rHash = h, rShares = _, rPrice = _, rFee = _ \<rparr>", simplified] assms(2)) simp_all
  have v: "honest h (verifiedAmount ver h a k z)" for ver a k z
    unfolding verifiedAmount_def verify_def Let_def by (intro honest_bind honest_basic) simp_all
  show ?thesis
    unfolding RecordDeposit_def Let_def assms(1) if_not_P [OF assms(2)]
    by (intro honest_bind honest_basic honest_getVault honest_switches c v) simp_all
qed

lemma record_accepted:
  assumes run: "RecordDeposit gen dec s inp w = (Inr v, w')" and h: "trim_space (dTxHash inp) = h" "h \<noteq> ''''"
  shows "hashIn h (data w')"
  using run
proof (rule RecordDeposit_Inr)
  fix w1 ex w2 w3 x w4 assume "creditDeposit gen dec inp ex (trim_space (dTxHash inp)) x w4 = (Inr v, w')"
  then obtain rec w5 where rec: "rHash rec = h" and r: "on_tables (pgRecordDeposit gen dec (dVaultID inp) rec) w4 = (Inr (), w5)"
    and g: "on_tables (pgGetVault (dVaultID inp)) w5 = (Inr v, w')"
    using creditDeposit_Inr h(1) by metis
  obtain b where b: "pgRecordDeposit gen dec (dVaultID inp) rec (tables_of w4) = (Inr (), b)" "tables (data w5) = data b" using on_tables_Inr [OF r] by metis
  have "claimed h b" by (rule hash_call_claims [OF hash_call.intros(1) [OF rec] h(2) b(1)])
  moreover have "tables (data w') = tables (data w5)" by (rule getVault_Inr [OF g]) (simp add: fields_kept_def)
  ultimately show ?thesis by (simp add: hashIn_def claimed_def b(2))
qed

definition untouched :: "string \<Rightarrow> svc_state \<Rightarrow> svc_state \<Rightarrow> bool" where
  "untouched h s s' \<longleftrightarrow> (hashIn h s \<longrightarrow> tables s' = tables s)"

lemma untouched_order: "reflp (untouched h)" "transp (untouched h)"
  by (auto simp: untouched_def hashIn_def reflp_def transp_def)

lemma untouched_same: "(\<And>w r w'. m w = (r, w') \<Longrightarrow> tables (data w') = tables (data w)) \<Longrightarrow> moves (untouched h) m"
  unfolding moves_def untouched_def by (metis prod.collapse)

lemma untouched_parts:
  "moves (untouched h) (ensureMoneyPathAllowed s op)" "moves (untouched h) (on_tables (pgGetVault i))"
  "rHash rec = h \<Longrightarrow> h \<noteq> '''' \<Longrightarrow> moves (untouched h) (on_tables (pgRecordDeposit gen dec i rec))"
proof -
  show "moves (untouched h) (ensureMoneyPathAllowed s op)"
    by (rule untouched_same) (auto simp: ensureMoneyPathAllowed_def on_switches_def zoom_def ret_def split: prod.splits if_splits)
  show "moves (untouched h) (on_tables (pgGetVault i))"
    by (rule untouched_same) (auto elim!: on_tables_Inr simp: pgGetVault_def query_def stmt_def bind_def ret_def tables_of_def Let_def split: if_splits sum.splits option.splits)
  assume h: "rHash rec = h" "h \<noteq> ''''"
  show "moves (untouched h) (on_tables (pgRecordDeposit gen dec i rec))"
    unfolding moves_def untouched_def
  proof (intro allI impI)
    fix w :: "svc_state dbw" assume c: "hashIn h (data w)"
    obtain r w' where r: "on_tables (pgRecordDeposit gen dec i rec) w = (r, w')" by fastforce
    obtain b where b: "pgRecordDeposit gen dec i rec (tables_of w) = (r, b)" "tables (data w') = data b" using on_tables_Inr [OF r] by metis
    have "claimed h (tables_of w)" using c by (simp add: hashIn_def claimed_def tables_of_def)
    from hash_call_claimed [OF hash_call.intros(1) [OF h(1)] h(2) this b(1)]
    show "tables (data (snd (on_tables (pgRecordDeposit gen dec i rec) w))) = tables (data w)" using r b(2) by (simp add: tables_of_def)
  qed
qed

lemma record_once:
  assumes "trim_space (dTxHash inp) = h" and "h \<noteq> ''''"
  shows "moves (untouched h) (RecordDeposit gen dec s inp)"
proof -
  note rules = moves_bind [OF untouched_order(2)] moves_trivial [OF untouched_order(1)] moves_if moves_option moves_sum untouched_parts
  have c: "moves (untouched h) (creditDeposit gen dec inp ex h x)" for ex x
    unfolding creditDeposit_def Let_def sharesFor_def by (intro rules assms(2)) simp
  have v: "moves (untouched h) (verifiedAmount ver h a k z)" for ver a k z
    unfolding verifiedAmount_def verify_def Let_def by (intro rules)
  show ?thesis unfolding RecordDeposit_def Let_def assms(1) if_not_P [OF assms(2)] by (intro rules c v)
qed

text \<open>
  What the handler relies on, \<^verbatim>\<open>DepositRecorder\<close>: an accepted or duplicate deposit is in the books
  under its occurrence, an occurrence in the books is not booked again, and nothing outside the
  vault service changes.
\<close>

locale deposit_recorder =
  fixes deposits :: recorder
    and recorded :: "uuid \<Rightarrow> time \<Rightarrow> rstate \<Rightarrow> bool"
  assumes accepted: "deposits u v x i t w = (Inr (), w') \<Longrightarrow> recorded i t (data w')"
    and reported: "deposits u v x i t w = (Inl duplicate, w') \<Longrightarrow> recorded i t (data w')"
    and once: "recorded i t (data w) \<Longrightarrow> deposits u v x i t w = (r, w') \<Longrightarrow> tables (vsvc (data w')) = tables (vsvc (data w))"
    and apart: "deposits u v x i t w = (r, w') \<Longrightarrow> \<exists>s. data w' = (data w) \<lparr> vsvc := s \<rparr>"
    and frame: "tables (vsvc d) = tables (vsvc d') \<Longrightarrow> recorded i t d = recorded i t d'"
begin

lemma handled_without_mandate:
  assumes "Handle decode deposits None j w = (r, w')" and "decode (Payload j) = Some p"
  obtains q w1 where "deposits (pUserID p) (pVaultID p) (pAmount p) (pScheduleID p) (OccurrenceAt p) w = (q, w1)"
    "q = Inr () \<or> q = Inl duplicate" "updateScheduleAfterExecution p w1 = (r, w')"
  | e w1 where "deposits (pUserID p) (pVaultID p) (pAmount p) (pScheduleID p) (OccurrenceAt p) w = (Inl e, w1)" "e \<noteq> duplicate" "r = Inl e" "w' = w1"
proof -
  obtain q w1 where d: "deposits (pUserID p) (pVaultID p) (pAmount p) (pScheduleID p) (OccurrenceAt p) w = (q, w1)" by fastforce
  have run: "(case q of Inr _ \<Rightarrow> updateScheduleAfterExecution p | Inl e \<Rightarrow> if e \<noteq> duplicate then fail e else updateScheduleAfterExecution p) w1 = (r, w')"
    using assms d by (cases "pMandateID p") (simp_all add: Handle_def bind_def attempt_def)
  show thesis
  proof (cases q)
    case (Inl e)
    then show thesis using that(1) [OF d] that(2) [of e w1] run d by (cases "e = duplicate") (auto simp: fail_def)
  next
    case (Inr a)
    then show thesis using that(1) [OF d] run by auto
  qed
qed

lemma update_apart:
  assumes "updateScheduleAfterExecution p w = (r, w')"
  shows "vsvc (data w') = vsvc (data w)"
proof -
  have "moves (\<lambda>d d'. vsvc d' = vsvc d) (updateScheduleAfterExecution p)"
    unfolding updateScheduleAfterExecution_def pgUpdateAfterRun_def updateSchedules_def NotifyScheduledDeposit_def
    by (intro moves_bind moves_trivial moves_attempt moves_if moves_stmt) (auto simp: transp_def reflp_def Let_def split: if_splits)
  from movesD [OF this assms] show ?thesis .
qed

lemma done_is_recorded:
  assumes "Handle decode deposits None j w = (Inr (), w')" and p: "decode (Payload j) = Some p"
  shows "recorded (pScheduleID p) (OccurrenceAt p) (data w')"
  using handled_without_mandate [OF assms]
proof cases
  case (1 q w1)
  then have "recorded (pScheduleID p) (OccurrenceAt p) (data w1)" using accepted reported by metis
  then show ?thesis using frame update_apart [OF 1(3)] by metis
qed simp

lemma redelivery_books_nothing:
  assumes "Handle decode deposits None j w = (r, w')" and p: "decode (Payload j) = Some p"
    and "recorded (pScheduleID p) (OccurrenceAt p) (data w)"
  shows "tables (vsvc (data w')) = tables (vsvc (data w))"
  using handled_without_mandate [OF assms(1,2)]
proof cases
  case (1 q w1)
  then show ?thesis using once [OF assms(3)] update_apart by metis
next
  case (2 e w1)
  then show ?thesis using once [OF assms(3)] by metis
qed

end

lemma RecordScheduled_run:
  assumes "RecordScheduledDeposit idText gen dec s u v x i t w = (r, w')"
  obtains q b where "RecordDeposit gen dec s \<lparr> dVaultID = v, dUserID = u, dAmount = x, dTxHash = scheduledHash idText i t, dFee = 0, dWalletAddress = '''' \<rparr> (vault_part w) = (q, b)"
    "data w' = (data w) \<lparr> vsvc := data b \<rparr>" "r = (case q of Inl e \<Rightarrow> Inl (App (ErrVaultService e)) | Inr _ \<Rightarrow> Inr ())"
proof -
  let ?m = "RecordDeposit gen dec s \<lparr> dVaultID = v, dUserID = u, dAmount = x, dTxHash = scheduledHash idText i t, dFee = 0, dWalletAddress = '''' \<rparr>"
  obtain r0 w0 where r0: "on_vaults ?m w = (r0, w0)" by fastforce
  obtain q b where "?m (vault_part w) = (q, b)" "data w0 = (data w) \<lparr> vsvc := data b \<rparr>"
    "r0 = (case q of Inl e \<Rightarrow> Inl (App (ErrVaultService e)) | Inr a \<Rightarrow> Inr a)"
    using vault_run [OF r0] by metis
  then show thesis using assms r0 by (intro that [of q b]) (auto simp: RecordScheduledDeposit_def bind_def ret_def split: sum.splits)
qed

interpretation vault_deposits: deposit_recorder "RecordScheduledDeposit idText gen dec s" "recordedIn idText" for idText gen dec s
proof unfold_locales
  note clean = scheduledHash_clean [of idText]
  show "recordedIn idText i t (data w')" if "RecordScheduledDeposit idText gen dec s u v x i t w = (Inr (), w')" for u v x i t w w'
  proof (rule RecordScheduled_run [OF that])
    fix q b assume run: "RecordDeposit gen dec s \<lparr> dVaultID = v, dUserID = u, dAmount = x, dTxHash = scheduledHash idText i t, dFee = 0, dWalletAddress = '''' \<rparr> (vault_part w) = (q, b)"
      and d: "data w' = (data w) \<lparr> vsvc := data b \<rparr>" and r: "Inr () = (case q of Inl e \<Rightarrow> Inl (App (ErrVaultService e)) | Inr _ \<Rightarrow> Inr ())"
    from r obtain a where "q = Inr a" by (cases q) simp_all
    from record_accepted [OF run [unfolded this], of "scheduledHash idText i t"] show ?thesis using d by (simp add: clean recordedIn_def hashIn_def)
  qed
  show "recordedIn idText i t (data w')" if "RecordScheduledDeposit idText gen dec s u v x i t w = (Inl duplicate, w')" for u v x i t w w'
  proof (rule RecordScheduled_run [OF that])
    fix q b assume run: "RecordDeposit gen dec s \<lparr> dVaultID = v, dUserID = u, dAmount = x, dTxHash = scheduledHash idText i t, dFee = 0, dWalletAddress = '''' \<rparr> (vault_part w) = (q, b)"
      and d: "data w' = (data w) \<lparr> vsvc := data b \<rparr>" and r: "Inl duplicate = (case q of Inl e \<Rightarrow> Inl (App (ErrVaultService e)) | Inr _ \<Rightarrow> Inr ())"
    from r have q: "q = Inl (App ErrDuplicateTransaction)" by (cases q) (simp_all add: duplicate_def)
    have "honest (scheduledHash idText i t) (RecordDeposit gen dec s \<lparr> dVaultID = v, dUserID = u, dAmount = x, dTxHash = scheduledHash idText i t, dFee = 0, dWalletAddress = '''' \<rparr>)"
      by (rule honest_record) (simp_all add: clean)
    then show ?thesis using run [unfolded q] d by (simp add: honest_def recordedIn_def hashIn_def)
  qed
  show "tables (vsvc (data w')) = tables (vsvc (data w))"
    if "recordedIn idText i t (data w)" "RecordScheduledDeposit idText gen dec s u v x i t w = (r, w')" for u v x i t w r w'
  proof (rule RecordScheduled_run [OF that(2)])
    fix q b assume run: "RecordDeposit gen dec s \<lparr> dVaultID = v, dUserID = u, dAmount = x, dTxHash = scheduledHash idText i t, dFee = 0, dWalletAddress = '''' \<rparr> (vault_part w) = (q, b)"
      and d: "data w' = (data w) \<lparr> vsvc := data b \<rparr>"
    have "untouched (scheduledHash idText i t) (data (vault_part w)) (data b)" by (rule movesD [OF record_once run]) (simp_all add: clean)
    then show ?thesis using that(1) d by (simp add: untouched_def recordedIn_def hashIn_def vault_part_def)
  qed
  show "\<exists>s. data w' = (data w) \<lparr> vsvc := s \<rparr>" if "RecordScheduledDeposit idText gen dec s u v x i t w = (r, w')" for u v x i t w r w'
    using RecordScheduled_run [OF that] by metis
qed (simp add: recordedIn_def)

section \<open>The system\<close>

text \<open>What the process is wired with.\<close>

record wiring =
  idText :: "uuid \<Rightarrow> string"
  encode :: "job_payload \<Rightarrow> string option"
  decode :: "string \<Rightarrow> job_payload option"
  errText :: "rerror db_error \<Rightarrow> string"
  newUUID :: "nat \<Rightarrow> uuid"
  decimals :: decimal_ops
  minDeposit :: rat
  recurring :: recurring_config
  workers :: config
  depositService :: vault_service
  mandates :: "mandate_executor option"

definition sweep :: "wiring \<Rightarrow> bool \<Rightarrow> (uuid \<Rightarrow> bool) \<Rightarrow> unit rdb" where
  "sweep W = Tick (idText W) (encode W) (newUUID W) (recurring W)"

definition handleJob :: "wiring \<Rightarrow> job \<Rightarrow> unit rdb" where
  "handleJob W = Handle (decode W) (RecordScheduledDeposit (idText W) (newUUID W) (decimals W) (depositService W)) (mandates W)"

definition workJob :: "wiring \<Rightarrow> rat \<Rightarrow> job \<Rightarrow> processed rdb" where
  "workJob W u j = workOccurrence (errText W) (workers W) u (handleJob W j) j"

datatype schedule_call =
    CallCreateSchedule uuid uuid create_schedule_input | CallUpdateSchedule uuid uuid update_schedule_input
  | CallCancelSchedule uuid uuid uuid | CallDeleteActive uuid uuid

fun run_schedule_call :: "wiring \<Rightarrow> schedule_call \<Rightarrow> rstate dbw \<Rightarrow> rstate dbw" where
  "run_schedule_call W (CallCreateSchedule u g inp) w = snd (CreateSchedule (newUUID W) (minDeposit W) u g inp w)"
| "run_schedule_call W (CallUpdateSchedule u g inp) w = snd (UpdateSchedule (minDeposit W) u g inp w)"
| "run_schedule_call W (CallCancelSchedule u g i) w = snd (CancelSchedule u g i w)"
| "run_schedule_call W (CallDeleteActive u g) w = snd (DeleteActive u g w)"

definition put_vaults :: "svc_state dbw \<Rightarrow> rstate dbw \<Rightarrow> rstate dbw" where
  "put_vaults b w = w \<lparr> data := (data w) \<lparr> vsvc := data b \<rparr>, sched := sched b, drawn := drawn b \<rparr>"

text \<open>
  Sweeps of any instance that takes itself for the leader, workers with any job, any number of
  times, requests of users, other calls of any vault service, other operations on the queue,
  changes of goals, which may delete schedules, the clock and faults.
\<close>

inductive rstep :: "wiring \<Rightarrow> rstate dbw \<Rightarrow> rstate dbw \<Rightarrow> bool" for W where
  Sweep: "rstep W w (snd (sweep W leader lead w))"
| Work: "rstep W w (snd (workJob W u j w))"
| Serve: "rstep W w (run_schedule_call W c w)"
| Vaults: "sstep (newUUID W) (decimals W) s (vault_part w) b \<Longrightarrow> rstep W w (put_vaults b w)"
| Jobs: "data w' = (data w) \<lparr> queue := q \<rparr> \<Longrightarrow> rstep W w w'"
| Goals: "data w' = (data w) \<lparr> goals := gs, schedules := filter P (schedules (data w)) \<rparr> \<Longrightarrow> rstep W w w'"
| Around: "data w' = data w \<Longrightarrow> rstep W w w'"

definition one_active :: "savings_schedule list \<Rightarrow> bool" where
  "one_active ss \<longleftrightarrow> (\<forall>s \<in> set ss. \<forall>k \<in> set ss. IsActive s \<and> IsActive k \<and> sGoalID s = sGoalID k \<longrightarrow> s = k)"

definition schedule_row_ok :: "(uuid \<Rightarrow> string) \<Rightarrow> svc_state \<Rightarrow> savings_schedule \<Rightarrow> bool" where
  "schedule_row_ok txt v s \<longleftrightarrow> schedule_ok s \<and> (sVaultID s, sUserID s) \<in> owners (tables v)
     \<and> (\<forall>t. sLastRunAt s = Some t \<longrightarrow> (\<exists>due. t = timestamptz due \<and> hashIn (scheduledHash txt (sID s) due) v))"

definition schedules_inv :: "(uuid \<Rightarrow> string) \<Rightarrow> rstate \<Rightarrow> bool" where
  "schedules_inv txt d \<longleftrightarrow> distinct (map sID (schedules d)) \<and> one_active (schedules d) \<and> (\<forall>s \<in> set (schedules d). schedule_row_ok txt (vsvc d) s)"

lemma row_ok_grows:
  assumes "schedule_row_ok txt v s" and "lifted kept_rows v v'" and "lifted owners_kept v v'"
  shows "schedule_row_ok txt v' s"
  using assms by (fastforce simp: schedule_row_ok_def lifted_def kept_rows_def owners_kept_def hashIn_def)

lemma timestamptz_idem: "timestamptz (timestamptz t) = timestamptz t"
  by (simp add: timestamptz_def microsecond_def minus_mod_eq_mult_div)

lemma inv_map:
  assumes inv: "schedules_inv txt d" and ok: "\<And>s. s \<in> set (schedules d) \<Longrightarrow> sID (g s) = sID s \<and> sGoalID (g s) = sGoalID s \<and> (IsActive (g s) \<longrightarrow> IsActive s)
      \<and> schedule_row_ok txt (vsvc d) (g s)"
  shows "schedules_inv txt (d \<lparr> schedules := map g (schedules d) \<rparr>)"
proof -
  have "map sID (map g (schedules d)) = map sID (schedules d)" using ok by simp
  moreover have "one_active (map g (schedules d))"
    unfolding one_active_def set_map
  proof (intro ballI impI)
    fix s k assume "s \<in> g ` set (schedules d)" "k \<in> g ` set (schedules d)" and a: "IsActive s \<and> IsActive k \<and> sGoalID s = sGoalID k"
    then obtain s0 k0 where e: "s0 \<in> set (schedules d)" "s = g s0" "k0 \<in> set (schedules d)" "k = g k0" by blast
    then have "s0 = k0" using inv a ok by (auto simp: schedules_inv_def one_active_def)
    then show "s = k" using e by simp
  qed
  ultimately show ?thesis using inv ok unfolding schedules_inv_def by (simp del: map_map)
qed

lemma updateSchedules_inv:
  assumes P: "\<And>now s. P s \<Longrightarrow> sID (f now s) = sID s \<and> sGoalID (f now s) = sGoalID s \<and> sUserID (f now s) = sUserID s \<and> (IsActive (f now s) \<longrightarrow> IsActive s)"
    and v: "\<And>now s v. K v \<Longrightarrow> P s \<Longrightarrow> sVaultID (f now s) = sVaultID s \<or> (sVaultID (f now s), sUserID s) \<in> owners (tables v)"
    and t: "\<And>now s v. K v \<Longrightarrow> P s \<Longrightarrow> sLastRunAt (f now s) = sLastRunAt s \<or> (\<exists>due. sLastRunAt (f now s) = Some due \<and> hashIn (scheduledHash txt (sID s) due) v)"
  shows "always (\<lambda>d. schedules_inv txt d \<and> K (vsvc d)) (updateSchedules P f)"
  unfolding updateSchedules_def
proof (intro svc_rules always_stmt)
  fix now d n d' assume I: "schedules_inv txt d \<and> K (vsvc d)"
    and "(let new = map (store_schedule \<circ> f now) (filter P (schedules d))
          in if \<not> list_all schedule_ok new
                \<or> list_ex (\<lambda>s. sVaultID (f now s) \<noteq> sVaultID s \<and> sVaultID (f now s) \<notin> vID ` set (vaults (tables (vsvc d)))) (filter P (schedules d))
             then Inl Violation
             else (Inr (length new, d \<lparr> schedules := map (\<lambda>s. if P s then store_schedule (f now s) else s) (schedules d) \<rparr>) :: rerror db_error + _)) = Inr (n, d')"
  then have d': "d' = d \<lparr> schedules := map (\<lambda>s. if P s then store_schedule (f now s) else s) (schedules d) \<rparr>"
    and ok: "\<And>s. s \<in> set (schedules d) \<Longrightarrow> P s \<Longrightarrow> schedule_ok (store_schedule (f now s))"
    by (auto simp: Let_def list_all_iff split: if_splits)
  have "schedule_row_ok txt (vsvc d) (store_schedule (f now s))" if s: "s \<in> set (schedules d)" "P s" for s
  proof -
    have r: "schedule_row_ok txt (vsvc d) s" using I s(1) by (simp add: schedules_inv_def)
    have "sVaultID (f now s) = sVaultID s \<or> (sVaultID (f now s), sUserID s) \<in> owners (tables (vsvc d))" using v I s(2) by blast
    then have own: "(sVaultID (f now s), sUserID (f now s)) \<in> owners (tables (vsvc d))" using r P [OF s(2)] by (auto simp: schedule_row_ok_def)
    have "\<exists>due. q = timestamptz due \<and> hashIn (scheduledHash txt (sID s) due) (vsvc d)" if "map_option timestamptz (sLastRunAt (f now s)) = Some q" for q
      using t [of "vsvc d" s now] I s(2) r that by (auto simp: schedule_row_ok_def timestamptz_idem) blast
    then show ?thesis using ok [OF s] own P [OF s(2)] by (simp add: schedule_row_ok_def store_schedule_def)
  qed
  then show "schedules_inv txt d' \<and> K (vsvc d')" unfolding d' using I P
    by (intro conjI inv_map) (auto simp: schedules_inv_def store_schedule_def)
qed

lemma inv_simple_update:
  assumes "\<And>now s. P s \<Longrightarrow> sID (f now s) = sID s \<and> sGoalID (f now s) = sGoalID s \<and> sUserID (f now s) = sUserID s \<and> (IsActive (f now s) \<longrightarrow> IsActive s)
      \<and> sVaultID (f now s) = sVaultID s \<and> sLastRunAt (f now s) = sLastRunAt s"
  shows "always (schedules_inv txt) (updateSchedules P f)"
  using updateSchedules_inv [of P f "\<lambda>_. True" "txt"] assms by simp

lemma inv_cancel:
  "always (schedules_inv txt) (pgCancelActiveByGoal g u)" "always (schedules_inv txt) (pgCancelSchedule i g u)" "always (schedules_inv txt) (pgDeactivate i)"
  unfolding pgCancelActiveByGoal_def pgCancelSchedule_def pgDeactivate_def by (rule inv_simple_update; simp add: switchOff_def)+

lemma inv_insert:
  assumes "sLastRunAt s = None"
  shows "always (\<lambda>d. schedules_inv txt d \<and> (sVaultID s, sUserID s) \<in> owners (tables (vsvc d))) (pgCreateSchedule s)"
  unfolding pgCreateSchedule_def
proof (intro svc_rules always_stmt)
  fix now d a d'
  assume I: "schedules_inv txt d \<and> (sVaultID s, sUserID s) \<in> owners (tables (vsvc d))"
    and ins: "insertSchedule (s \<lparr> sCreatedAt := now, sUpdatedAt := now \<rparr>) d = Inr (a, d')"
  let ?s = "store_schedule (s \<lparr> sCreatedAt := now, sUpdatedAt := now \<rparr>)"
  have d': "d' = d \<lparr> schedules := schedules d @ [?s] \<rparr>" and ok: "schedule_ok ?s" "sID ?s \<notin> sID ` set (schedules d)"
    and act: "\<not> (IsActive ?s \<and> list_ex (\<lambda>k. IsActive k \<and> sGoalID k = sGoalID ?s) (schedules d))"
    using ins by (auto simp: insertSchedule_def Let_def split: if_splits)
  have "schedule_row_ok txt (vsvc d) ?s" using I ok(1) assms by (simp add: schedule_row_ok_def store_schedule_def)
  moreover have "one_active (schedules d @ [?s])" using I act by (auto simp: one_active_def schedules_inv_def list_ex_iff)
  ultimately show "schedules_inv txt d' \<and> (sVaultID s, sUserID s) \<in> owners (tables (vsvc d'))"
    unfolding d' using I ok(2) by (auto simp: schedules_inv_def)
qed

text \<open>A read that hands a fact about the state to the rest of the program.\<close>

lemma always_read:
  assumes same: "\<And>w r w'. m w = (r, w') \<Longrightarrow> data w' = data w"
    and learn: "\<And>w a w'. I (data w) \<Longrightarrow> m w = (Inr a, w') \<Longrightarrow> K a (data w)"
    and rest: "\<And>a. always (\<lambda>d. I d \<and> K a d) (f a)"
  shows "always I (bind m f)"
  unfolding always_def
proof (intro allI impI)
  fix w :: "'a dbw" assume I: "I (data w)"
  obtain r w1 where m: "m w = (r, w1)" by fastforce
  show "I (data (snd (bind m f w)))"
  proof (cases r)
    case (Inr a)
    then have "I (data w1) \<and> K a (data w1)" using same [OF m] learn [OF I] m I by simp
    then show ?thesis using rest [of a] m Inr by (simp add: always_def bind_def)
  qed (use same [OF m] I m in \<open>simp add: bind_def\<close>)
qed

lemma query_same: "query f w = (r, w') \<Longrightarrow> data w' = data w"
  using query_data [of f w] by simp

lemma getVault_same: "on_tables (pgGetVault i) w = (r, w') \<Longrightarrow> data w' = data w"
  by (auto simp: on_tables_def zoom_def pgGetVault_def query_def stmt_def bind_def ret_def Let_def split: if_splits sum.splits option.splits prod.splits)

lemma getVault_owner:
  assumes "on_tables (pgGetVault i) w = (Inr v, w')"
  shows "(i, vUserID v) \<in> owners (tables (data w))"
proof -
  obtain v0 as where v0: "List.find (hit i) (vaults (tables (data w))) = Some v0" "v = v0 \<lparr> Allocations := as \<rparr>"
    using getVault_Inr [OF assms] by metis
  have "v0 \<in> set (vaults (tables (data w)))" "vID v0 = i" using find_Some_iff_mem [OF v0(1)] by (auto simp: hit_def)
  then show ?thesis using v0(2) by (force simp: owners_def)
qed

lemma ownVault_facts:
  "ownVault u i w = (r, w') \<Longrightarrow> data w' = data w" "ownVault u i w = (Inr a, w') \<Longrightarrow> (i, u) \<in> owners (tables (vsvc (data w)))"
proof -
  have same: "data w1 = data w" if "on_vaults (on_tables (pgGetVault i)) w = (q, w1)" for q w1
    by (rule vault_run [OF that]) (auto dest!: getVault_same simp: vault_part_def)
  show "ownVault u i w = (r, w') \<Longrightarrow> data w' = data w"
    using same by (auto simp: ownVault_def bind_def fail_def ret_def split: prod.splits sum.splits if_splits)
  assume "ownVault u i w = (Inr a, w')"
  then obtain v w1 where v: "on_vaults (on_tables (pgGetVault i)) w = (Inr v, w1)" "vUserID v = u"
    by (auto simp: ownVault_def bind_Inr fail_def split: if_splits)
  show "(i, u) \<in> owners (tables (vsvc (data w)))"
  proof (rule vault_run [OF v(1)])
    fix q b assume "on_tables (pgGetVault i) (vault_part w) = (q, b)" "Inr v = (case q of Inl e \<Rightarrow> Inl (App (ErrVaultService e)) | Inr a \<Rightarrow> Inr a)"
    then have "on_tables (pgGetVault i) (vault_part w) = (Inr v, b)" by (auto split: sum.splits)
    from getVault_owner [OF this] v(2) show ?thesis by (simp add: vault_part_def)
  qed
qed

lemma inv_ownGoal: "always I (ownGoal u g)"
  unfolding ownGoal_def pgGoalByID_def by (intro svc_rules always_query)

lemma inv_create: "always (schedules_inv txt) (CreateSchedule gen mn u g inp)"
proof -
  have rest: "always (schedules_inv txt) (bind (ownVault u (csVaultID inp)) (\<lambda>_. bind time_now (\<lambda>now. bind (new_uuid gen) (\<lambda>i.
     pgCreateSchedule \<lparr> sID = i, sUserID = u, sGoalID = g, sVaultID = csVaultID inp, sAmount = x, sCurrency = cur, sFrequency = fr,
       sNextRunAt = now, sLastRunAt = None, IsActive = True, OnchainMandateID = None, sCreatedAt = 0, sUpdatedAt = 0 \<rparr>))))" for x cur fr
  proof (rule always_read [where K = "\<lambda>_ d. (csVaultID inp, u) \<in> owners (tables (vsvc d))"])
    fix a :: unit
    show "always (\<lambda>d. schedules_inv txt d \<and> (csVaultID inp, u) \<in> owners (tables (vsvc d))) (bind time_now (\<lambda>now. bind (new_uuid gen) (\<lambda>i.
     pgCreateSchedule \<lparr> sID = i, sUserID = u, sGoalID = g, sVaultID = csVaultID inp, sAmount = x, sCurrency = cur, sFrequency = fr,
       sNextRunAt = now, sLastRunAt = None, IsActive = True, OnchainMandateID = None, sCreatedAt = 0, sUpdatedAt = 0 \<rparr>)))"
      using inv_insert [of "\<lparr> sID = i, sUserID = u, sGoalID = g, sVaultID = csVaultID inp, sAmount = x, sCurrency = cur, sFrequency = fr,
       sNextRunAt = now, sLastRunAt = None, IsActive = True, OnchainMandateID = None, sCreatedAt = 0, sUpdatedAt = 0 \<rparr>" "txt" for i now]
      by (intro svc_rules) simp
  qed (auto dest: ownVault_facts)
  show ?thesis unfolding CreateSchedule_def Let_def by (intro svc_rules inv_ownGoal rest)
qed

lemma activeByGoal_row:
  assumes "pgGetActiveByGoal g u w = (Inr (Some a), w')"
  shows "a \<in> set (schedules (data w)) \<and> sUserID a = u"
proof -
  let ?l = "sort_key sCreatedAt (filter (\<lambda>s. sGoalID s = g \<and> sUserID s = u \<and> IsActive s) (schedules (data w)))"
  from query_Inr [OF assms [unfolded pgGetActiveByGoal_def]] have "\<exists>k. rev ?l = a # k" by (cases "rev ?l") auto
  then have "a \<in> set (rev ?l)" by (metis list.set_intros(1))
  then show ?thesis by simp
qed

text \<open>An update names a vault that is owned by the user of the schedule.\<close>

definition vaultOwned :: "savings_schedule \<Rightarrow> rstate \<Rightarrow> bool" where
  "vaultOwned a d \<longleftrightarrow> (sVaultID a, sUserID a) \<in> owners (tables (vsvc d))"

lemma inv_update_row: "always (\<lambda>d. schedules_inv txt d \<and> vaultOwned x d) (pgUpdateSchedule x)"
  using updateSchedules_inv [of "\<lambda>s. sID s = sID x \<and> sUserID s = sUserID x \<and> sGoalID s = sGoalID x \<and> IsActive s"
      "\<lambda>now s. s \<lparr> sAmount := sAmount x, sCurrency := sCurrency x, sFrequency := sFrequency x, sVaultID := sVaultID x, sUpdatedAt := now \<rparr>"
      "\<lambda>v. (sVaultID x, sUserID x) \<in> owners (tables v)" "txt"]
  unfolding pgUpdateSchedule_def vaultOwned_def by simp

lemma editSchedule_facts:
  assumes "editSchedule mn u inp a w = (r, w')"
  shows "data w' = data w" "r = Inr b \<Longrightarrow> sUserID a = u \<Longrightarrow> vaultOwned a (data w) \<Longrightarrow> vaultOwned b (data w)"
proof -
  show "data w' = data w"
    using assms ownVault_facts(1) by (auto simp: editSchedule_def bind_def ret_def fail_def Let_def split: option.splits sum.splits prod.splits)
  show "vaultOwned b (data w)" if "r = Inr b" "sUserID a = u" "vaultOwned a (data w)"
    using assms that ownVault_facts(2)
    by (auto simp: editSchedule_def vaultOwned_def bind_Inr ret_Inr fail_def Let_def split: option.splits sum.splits prod.splits)
qed

lemma inv_update: "always (schedules_inv txt) (UpdateSchedule mn u g inp)"
proof -
  let ?I = "schedules_inv txt"
  have last: "always (\<lambda>d. ?I d \<and> vaultOwned b d) (bind (pgUpdateSchedule b) (\<lambda>_. ret b))" for b
    by (intro svc_rules inv_update_row)
  have edit: "always (\<lambda>d. ?I d \<and> (sUserID a = u \<and> vaultOwned a d)) (bind (editSchedule mn u inp a) (\<lambda>b. bind (pgUpdateSchedule b) (\<lambda>_. ret b)))" for a
  proof (rule always_read [where K = "\<lambda>b d. vaultOwned b d"])
    fix b
    have "always (\<lambda>d. vaultOwned a d) (bind (pgUpdateSchedule b) (\<lambda>_. ret b))"
      unfolding pgUpdateSchedule_def updateSchedules_def vaultOwned_def
      by (intro svc_rules always_stmt) (auto simp: Let_def split: if_splits)
    then show "always (\<lambda>d. (?I d \<and> sUserID a = u \<and> vaultOwned a d) \<and> vaultOwned b d) (bind (pgUpdateSchedule b) (\<lambda>_. ret b))"
      using last [of b] by (simp add: always_def)
  qed (use editSchedule_facts in blast)+
  have "always ?I (bind (pgGetActiveByGoal g u) (\<lambda>found. case found of None \<Rightarrow> fail (App ErrScheduleNotFound)
      | Some a \<Rightarrow> bind (editSchedule mn u inp a) (\<lambda>b. bind (pgUpdateSchedule b) (\<lambda>_. ret b))))"
  proof (rule always_read [where K = "\<lambda>found d. \<forall>a. found = Some a \<longrightarrow> sUserID a = u \<and> vaultOwned a d"])
    show "\<forall>a. found = Some a \<longrightarrow> sUserID a = u \<and> vaultOwned a (data w)"
      if "?I (data w)" "pgGetActiveByGoal g u w = (Inr found, w')" for w found w'
      using that activeByGoal_row [of g u w] by (auto simp: schedules_inv_def schedule_row_ok_def vaultOwned_def)
    show "always (\<lambda>d. ?I d \<and> (\<forall>a. found = Some a \<longrightarrow> sUserID a = u \<and> vaultOwned a d)) (case found of None \<Rightarrow> fail (App ErrScheduleNotFound)
      | Some a \<Rightarrow> bind (editSchedule mn u inp a) (\<lambda>b. bind (pgUpdateSchedule b) (\<lambda>_. ret b)))" for found
      using edit by (cases found) simp_all
  qed (simp add: pgGetActiveByGoal_def query_same)
  then show ?thesis unfolding UpdateSchedule_def by (intro always_bind [OF inv_ownGoal] always_if always_fail)
qed

lemma inv_frame:
  "schedules_inv txt d \<Longrightarrow> schedules_inv txt (d \<lparr> queue := q \<rparr>)" "schedules_inv txt d \<Longrightarrow> schedules_inv txt (d \<lparr> goals := gs \<rparr>)"
  "schedules_inv txt d \<Longrightarrow> schedules_inv txt (d \<lparr> notices := ns \<rparr>)" "schedules_inv txt d \<Longrightarrow> schedules_inv txt (d \<lparr> lastTickEnd := n \<rparr>)"
  by (simp_all add: schedules_inv_def)

lemma inv_filter: "schedules_inv txt d \<Longrightarrow> schedules_inv txt (d \<lparr> goals := gs, schedules := filter P (schedules d) \<rparr>)"
  by (auto simp: schedules_inv_def one_active_def distinct_map_filter)

lemma always_on_queue: "(\<And>d q. I d \<Longrightarrow> I (d \<lparr> queue := q \<rparr>)) \<Longrightarrow> always I (on_queue m)"
  by (auto simp: always_def on_queue_def inside_def split: prod.splits)

lemma inv_sweep: "always (schedules_inv txt) (sweep W leader lead)"
proof -
  have one: "always (schedules_inv txt) (processSchedule idt enc gen c ld s)" for idt enc gen c ld s
    unfolding processSchedule_def IsGoalPausedOrArchived_def IsGoalCompleted_def pgSumVaultBalance_def Let_def
    by (intro svc_rules always_attempt inv_ownGoal inv_cancel always_on_queue inv_frame always_query)
  have "always (schedules_inv txt) (processAll (processSchedule idt enc gen c ld) ss)" for idt enc gen c ld ss
    by (induction ss) (auto intro: svc_rules one)
  then show ?thesis unfolding sweep_def Tick_def pgListDue_def by (intro svc_rules always_attempt always_query always_local inv_frame)
qed

lemma grown_deposit:
  assumes "RecordScheduledDeposit txt gen dec s u v x i t w = (r, w')"
  shows "lifted kept_rows (vsvc (data w)) (vsvc (data w'))" "lifted owners_kept (vsvc (data w)) (vsvc (data w'))"
proof (atomize (full), rule RecordScheduled_run [OF assms])
  let ?inp = "\<lparr> dVaultID = v, dUserID = u, dAmount = x, dTxHash = scheduledHash txt i t, dFee = 0, dWalletAddress = '''' \<rparr>"
  fix q b assume b: "RecordDeposit gen dec s ?inp (vault_part w) = (q, b)" "data w' = (data w) \<lparr> vsvc := data b \<rparr>"
  have "run_call gen dec s (CallDeposit ?inp) (vault_part w) = b" by (simp add: b(1))
  then show "lifted kept_rows (vsvc (data w)) (vsvc (data w')) \<and> lifted owners_kept (vsvc (data w)) (vsvc (data w'))"
    using tx_rows.call_moves [of "vault_part w" gen dec s "CallDeposit ?inp"] vault_owners.call_moves [of "vault_part w" gen dec s "CallDeposit ?inp"]
    by (simp add: b(2) vault_part_def)
qed

lemma inv_vaults:
  "schedules_inv txt d \<Longrightarrow> lifted kept_rows (vsvc d) v \<Longrightarrow> lifted owners_kept (vsvc d) v \<Longrightarrow> schedules_inv txt (d \<lparr> vsvc := v \<rparr>)"
  unfolding schedules_inv_def using row_ok_grows by auto

lemma inv_after_run:
  "always (\<lambda>d. schedules_inv txt d \<and> hashIn (scheduledHash txt (pScheduleID p) (OccurrenceAt p)) (vsvc d)) (updateScheduleAfterExecution p)"
  unfolding updateScheduleAfterExecution_def pgUpdateAfterRun_def NotifyScheduledDeposit_def
  by (intro svc_rules always_attempt updateSchedules_inv always_stmt) (auto simp: inv_frame)

lemma inv_handle:
  assumes "mandates W = None"
  shows "always (schedules_inv (idText W)) (handleJob W j)"
  unfolding always_def
proof (intro allI impI)
  let ?rec = "RecordScheduledDeposit (idText W) (newUUID W) (decimals W) (depositService W)"
  fix w :: "rstate dbw" assume I: "schedules_inv (idText W) (data w)"
  obtain r w' where run: "handleJob W j w = (r, w')" by fastforce
  have kept: "schedules_inv (idText W) (data w1)" if d: "?rec u v x i t w = (q, w1)" for u v x i t q w1
  proof -
    obtain s where s: "data w1 = (data w) \<lparr> vsvc := s \<rparr>" using vault_deposits.apart [OF d] by blast
    show ?thesis using inv_vaults [OF I] grown_deposit [OF d] unfolding s by simp
  qed
  have "schedules_inv (idText W) (data w')"
  proof (cases "decode W (Payload j)")
    case None
    then show ?thesis using run I by (simp add: handleJob_def Handle_def fail_def)
  next
    case (Some p)
    show ?thesis
    proof (rule vault_deposits.handled_without_mandate [OF run [unfolded handleJob_def assms] Some])
      fix q w1 assume d: "?rec (pUserID p) (pVaultID p) (pAmount p) (pScheduleID p) (OccurrenceAt p) w = (q, w1)"
        and q: "q = Inr () \<or> q = Inl duplicate" and u: "updateScheduleAfterExecution p w1 = (r, w')"
      have "recordedIn (idText W) (pScheduleID p) (OccurrenceAt p) (data w1)" using q
        by (elim disjE) (use vault_deposits.accepted vault_deposits.reported d in metis)+
      then show ?thesis using alwaysD [OF inv_after_run _ u] kept [OF d] by (simp add: recordedIn_def hashIn_def)
    qed (use kept in blast)
  qed
  then show "schedules_inv (idText W) (data (snd (handleJob W j w)))" using run by simp
qed

lemma rstep_inv:
  assumes "rstep W w w'" and "mandates W = None" and I: "schedules_inv (idText W) (data w)"
  shows "schedules_inv (idText W) (data w')"
  using assms(1)
proof (cases rule: rstep.cases)
  case (Sweep leader lead)
  then show ?thesis using inv_sweep I by (simp add: always_def)
next
  case (Work u j)
  have "always (schedules_inv (idText W)) (workJob W u j)"
    unfolding workJob_def workOccurrence_def by (intro svc_rules always_attempt inv_handle assms(2) always_on_queue inv_frame)
  then show ?thesis using Work I by (simp add: always_def)
next
  case (Serve c)
  have "always (schedules_inv (idText W)) (CancelSchedule u g i)" "always (schedules_inv (idText W)) (DeleteActive u g)" for u g i
    unfolding CancelSchedule_def DeleteActive_def by (intro svc_rules inv_ownGoal inv_cancel)+
  then show ?thesis using Serve I inv_create inv_update by (cases c) (simp_all add: always_def)
next
  case (Vaults s b)
  then show ?thesis using inv_vaults [OF I] tx_rows.step_moves [OF Vaults(2)] vault_owners.step_moves [OF Vaults(2)]
    by (simp add: put_vaults_def vault_part_def)
qed (use I inv_frame inv_filter in auto)

lemma rsteps_inv: "(rstep W)\<^sup>*\<^sup>* w w' \<Longrightarrow> mandates W = None \<Longrightarrow> schedules_inv (idText W) (data w) \<Longrightarrow> schedules_inv (idText W) (data w')"
  by (induction rule: rtranclp_induct) (auto intro: rstep_inv)

lemma inv_empty: "schedules d = [] \<Longrightarrow> schedules_inv txt d"
  by (simp add: schedules_inv_def one_active_def)

text \<open>
  C13: In every state the system can reach with no executor of on-chain mandates (\<open>mandates W = None\<close>,
  as the process is wired), a schedule pays a positive amount at a known frequency into a
  vault of its own user, and a goal has at most one active schedule.
\<close>

theorem schedules_consistent:
  assumes "mandates W = None" and "(rstep W)\<^sup>*\<^sup>* w0 w" and "schedules (data w0) = []" and "s \<in> set (schedules (data w))"
  shows "0 < sAmount s \<and> sFrequency s \<in> set frequencies
    \<and> (\<exists>v \<in> set (vaults (tables (vsvc (data w)))). vID v = sVaultID s \<and> vUserID v = sUserID s)
    \<and> (\<forall>k \<in> set (schedules (data w)). IsActive s \<and> IsActive k \<and> sGoalID k = sGoalID s \<longrightarrow> k = s)"
proof -
  have I: "schedules_inv (idText W) (data w)" by (rule rsteps_inv [OF assms(2,1) inv_empty [OF assms(3)]])
  then have row: "schedule_row_ok (idText W) (vsvc (data w)) s" using assms(4) by (simp add: schedules_inv_def)
  then have "\<exists>v \<in> set (vaults (tables (vsvc (data w)))). vID v = sVaultID s \<and> vUserID v = sUserID s"
    by (auto simp: schedule_row_ok_def owners_def)
  then show ?thesis using I row assms(4) by (auto simp: schedules_inv_def schedule_row_ok_def schedule_ok_def one_active_def)
qed

text \<open>
  C10: With no executor of on-chain mandates (\<open>mandates W = None\<close>, as the process is wired), a schedule is
  marked as run only for an occurrence whose deposit is in the books: in every reachable state its
  last run has a transaction row with the hash of the schedule and that due time. With an executor
  this is not so: the handler advances the schedule after a mandate without any row of its own, also after a
  mandate that was refused (\<open>refused_mandate_notified\<close>).
\<close>

theorem run_means_deposited:
  assumes "mandates W = None" and "(rstep W)\<^sup>*\<^sup>* w0 w" and "schedules (data w0) = []" and "s \<in> set (schedules (data w))"
    and "sLastRunAt s = Some t"
  shows "\<exists>due. \<exists>x \<in> set (txns (tables (vsvc (data w)))). t = timestamptz due \<and> TransactionHash x = Some (scheduledHash (idText W) (sID s) due)"
proof -
  have "schedule_row_ok (idText W) (vsvc (data w)) s"
    using rsteps_inv [OF assms(2,1) inv_empty [OF assms(3)]] assms(4) by (simp add: schedules_inv_def)
  then obtain due where "t = timestamptz due" "Some (scheduledHash (idText W) (sID s) due) \<in> TransactionHash ` set (txns (tables (vsvc (data w))))"
    using assms(5) by (auto simp: schedule_row_ok_def hashIn_def)
  then show ?thesis by (auto simp: image_iff) metis
qed

lemma recorded_frame: "vsvc d' = vsvc d \<Longrightarrow> recordedIn txt i t d' = recordedIn txt i t d"
  by (simp add: recordedIn_def)

lemma recorded_grows: "lifted kept_rows (vsvc d) (vsvc d') \<Longrightarrow> recordedIn txt i t d \<Longrightarrow> recordedIn txt i t d'"
  by (auto simp: recordedIn_def lifted_def kept_rows_def)

lemma recorded_same: "(\<And>w r w'. m w = (r, w') \<Longrightarrow> data w' = data w) \<Longrightarrow> always (recordedIn txt i t) m"
  unfolding always_def by (metis prod.collapse)

lemma recorded_statements:
  "always (recordedIn txt i t) (updateSchedules P f)" "always (recordedIn txt i t) (ownVault u v)" "always (recordedIn txt i t) (pgCreateSchedule s)"
  "always (recordedIn txt i t) (on_queue m)" "always (recordedIn txt i t) (editSchedule mn u inp a)" "always (recordedIn txt i t) (pgGetActiveByGoal g u)"
proof -
  show "always (recordedIn txt i t) (updateSchedules P f)" unfolding updateSchedules_def
    by (intro svc_rules always_stmt) (auto simp: recordedIn_def Let_def split: if_splits)
  show "always (recordedIn txt i t) (ownVault u v)" by (rule recorded_same) (rule ownVault_facts(1))
  show "always (recordedIn txt i t) (pgCreateSchedule s)" unfolding pgCreateSchedule_def
    by (intro svc_rules always_stmt) (auto simp: recordedIn_def insertSchedule_def Let_def split: if_splits)
  show "always (recordedIn txt i t) (on_queue m)" by (rule always_on_queue) (simp add: recordedIn_def)
  show "always (recordedIn txt i t) (editSchedule mn u inp a)" by (rule recorded_same) (rule editSchedule_facts(1))
qed (simp add: pgGetActiveByGoal_def)

lemmas recorded_rules = svc_rules always_attempt always_query recorded_statements inv_ownGoal

lemma recorded_calls:
  "always (recordedIn txt i t) (CreateSchedule gen mn u g inp)" "always (recordedIn txt i t) (UpdateSchedule mn u g uinp)"
  "always (recordedIn txt i t) (CancelSchedule u g k)" "always (recordedIn txt i t) (DeleteActive u g)"
  "always (recordedIn txt i t) (sweep W leader lead)" "always (recordedIn txt i t) (updateScheduleAfterExecution p)"
proof -
  have one: "always (recordedIn txt i t) (processSchedule idt enc gen c ld s)" for idt enc gen c ld s
    unfolding processSchedule_def IsGoalPausedOrArchived_def IsGoalCompleted_def pgSumVaultBalance_def pgDeactivate_def Let_def
    by (intro recorded_rules)
  have "always (recordedIn txt i t) (processAll (processSchedule idt enc gen c ld) ss)" for idt enc gen c ld ss
    by (induction ss) (auto intro: svc_rules one)
  then show "always (recordedIn txt i t) (sweep W leader lead)"
    unfolding sweep_def Tick_def pgListDue_def by (intro recorded_rules always_local) (auto simp: recordedIn_def)
  show "always (recordedIn txt i t) (updateScheduleAfterExecution p)"
    unfolding updateScheduleAfterExecution_def pgUpdateAfterRun_def NotifyScheduledDeposit_def
    by (intro recorded_rules always_stmt) (auto simp: recordedIn_def)
qed (unfold CreateSchedule_def UpdateSchedule_def CancelSchedule_def DeleteActive_def pgUpdateSchedule_def pgCancelSchedule_def pgCancelActiveByGoal_def Let_def,
    (intro recorded_rules)+)

lemma recorded_handle: "always (recordedIn txt i t) (handleJob W j)"
proof -
  have rec: "always (recordedIn txt i t) (RecordScheduledDeposit txt' gen dec s u v x i' t')" for txt' gen dec s u v x i' t'
    unfolding always_def using grown_deposit(1) recorded_grows by (metis prod.collapse)
  show ?thesis
    unfolding handleJob_def Handle_def ExecuteMandate_def
    by (intro recorded_rules rec recorded_calls always_local) (simp add: recordedIn_def)
qed

lemma recorded_step:
  assumes "rstep W w w'" and R: "recordedIn txt i t (data w)"
  shows "recordedIn txt i t (data w')"
  using assms(1)
proof (cases rule: rstep.cases)
  case (Work u j)
  have "always (recordedIn txt i t) (workJob W u j)"
    unfolding workJob_def workOccurrence_def by (intro recorded_rules recorded_handle)
  then show ?thesis using Work R by (simp add: always_def)
next
  case (Serve c)
  then show ?thesis using R recorded_calls by (cases c) (simp_all add: always_def)
next
  case (Vaults s b)
  then show ?thesis using tx_rows.step_moves [OF Vaults(2)] R by (auto intro: recorded_grows simp: put_vaults_def vault_part_def)
qed (use R recorded_calls(5) in \<open>auto simp: always_def recordedIn_def\<close>)

text \<open>
  C9: An occurrence is booked once: with no executor of on-chain mandates (\<open>mandates W = None\<close>, as the
  process is wired), after the handler has finished a job, then whatever happens next, every run of
  the handler on a job for the same schedule and due time leaves the tables of the vaults as they are.
\<close>

theorem occurrence_booked_once:
  assumes none: "mandates W = None" and first: "handleJob W j w = (Inr (), w1)" "decode W (Payload j) = Some p"
    and hist: "(rstep W)\<^sup>*\<^sup>* w1 w2"
    and again: "handleJob W k w2 = (r, w3)" "decode W (Payload k) = Some q" "pScheduleID q = pScheduleID p" "OccurrenceAt q = OccurrenceAt p"
  shows "tables (vsvc (data w3)) = tables (vsvc (data w2))"
proof -
  have "recordedIn (idText W) (pScheduleID p) (OccurrenceAt p) (data w1)"
    by (rule vault_deposits.done_is_recorded [OF first(1) [unfolded handleJob_def none] first(2)])
  with hist have "recordedIn (idText W) (pScheduleID p) (OccurrenceAt p) (data w2)"
    by (induction rule: rtranclp_induct) (auto intro: recorded_step)
  then show ?thesis
    using vault_deposits.redelivery_books_nothing [OF again(1) [unfolded handleJob_def none] again(2)] again(3,4) by simp
qed

section \<open>What the process is wired with\<close>

definition NewVaultService :: vault_service where
  "NewVaultService = \<lparr> depositInvoker = None, operatorFundedDeposits = None, chainVerifier = None, defaultHarvestCompound = False,
     yieldRecorder = None, goalYieldRouter = None, moneyPathSwitches = False \<rparr>"

text \<open>The start of the program: scheduled deposits get a vault service of their own, and no executor of mandates is set.\<close>

definition deployed :: "wiring \<Rightarrow> bool" where
  "deployed W \<longleftrightarrow> depositService W = NewVaultService \<and> mandates W = None"

lemma unverified_hash_refused:
  assumes run: "RecordDeposit gen dec NewVaultService inp w = (r, w')" and h: "trim_space (dTxHash inp) \<noteq> ''''"
  shows "data w' = data w \<and> (\<exists>e. r = Inl e \<and> e \<noteq> App ErrDuplicateTransaction)"
proof -
  have e: "RecordDeposit gen dec NewVaultService inp w =
     (if dVaultID inp = uuid_nil then fail (App ErrInvalidVault)
      else if decimal_value (dAmount inp) \<le> 0 then fail (App ErrInvalidAmount)
      else if MaxAmountScale < decimalScale (dAmount inp) then fail (App ErrInvalidPrecision)
      else bind (on_tables (pgGetVault (dVaultID inp))) (\<lambda>_. fail (App ErrChainVerificationUnavailable))) w"
    using h by (simp add: RecordDeposit_def NewVaultService_def ensureMoneyPathAllowed_def bind_def [of "ret ()"] ret_def Let_def)
  obtain q w1 where g: "on_tables (pgGetVault (dVaultID inp)) w = (q, w1)" by fastforce
  have "q \<noteq> Inl (App ErrDuplicateTransaction)" using g
    by (auto simp: on_tables_def zoom_def pgGetVault_def query_def stmt_def bind_def ret_def Let_def split: if_splits sum.splits option.splits prod.splits)
  then show ?thesis using run e g getVault_same [OF g] by (auto simp: fail_def bind_def split: if_splits sum.splits)
qed

text \<open>
  C11: As the program is wired, no scheduled deposit is ever made. The vault service of the scheduled
  deposits has no chain verifier, and a deposit with a hash is refused without one: the handler fails
  on every job, no balance moves, no schedule advances and nobody is notified.
\<close>

theorem deployed_deposits_refused:
  assumes dep: "deployed W" and run: "handleJob W j w = (r, w')"
  shows "(\<exists>e. r = Inl e) \<and> tables (vsvc (data w')) = tables (vsvc (data w)) \<and> schedules (data w') = schedules (data w) \<and> notices (data w') = notices (data w)"
proof (cases "decode W (Payload j)")
  case None
  then show ?thesis using run by (auto simp: handleJob_def Handle_def fail_def)
next
  case (Some p)
  have none: "mandates W = None" and svc: "depositService W = NewVaultService" using dep by (simp_all add: deployed_def)
  let ?rec = "RecordScheduledDeposit (idText W) (newUUID W) (decimals W) NewVaultService"
  have refuse: "data w1 = data w \<and> (\<exists>e. q = Inl e \<and> e \<noteq> duplicate)" if "?rec u v x i t w = (q, w1)" for u v x i t q w1
  proof (rule RecordScheduled_run [OF that])
    fix q0 b
    assume b: "RecordDeposit (newUUID W) (decimals W) NewVaultService
        \<lparr> dVaultID = v, dUserID = u, dAmount = x, dTxHash = scheduledHash (idText W) i t, dFee = 0, dWalletAddress = '''' \<rparr> (vault_part w) = (q0, b)"
      "data w1 = (data w) \<lparr> vsvc := data b \<rparr>" "q = (case q0 of Inl e \<Rightarrow> Inl (App (ErrVaultService e)) | Inr _ \<Rightarrow> Inr ())"
    from unverified_hash_refused [OF b(1)] scheduledHash_clean [of "idText W" i t]
    obtain e where "data b = vsvc (data w)" "q0 = Inl e" "e \<noteq> App ErrDuplicateTransaction" by (auto simp: vault_part_def)
    then show ?thesis using b(2,3) by (simp add: duplicate_def)
  qed
  show ?thesis
  proof (rule vault_deposits.handled_without_mandate [OF run [unfolded handleJob_def none svc] Some])
    fix e w1 assume "?rec (pUserID p) (pVaultID p) (pAmount p) (pScheduleID p) (OccurrenceAt p) w = (Inl e, w1)" "r = Inl e" "w' = w1"
    then show ?thesis using refuse by metis
  qed (use refuse in blast)
qed

section \<open>What a sweep enqueues\<close>

text \<open>
  The world of a sweep without faults: fresh identifiers, the queue in order, its jobs kept, goals
  and vaults unchanged.
\<close>

definition calm :: "(nat \<Rightarrow> uuid) \<Rightarrow> savings_goal list \<Rightarrow> svc_state \<Rightarrow> job set \<Rightarrow> rstate dbw \<Rightarrow> bool" where
  "calm gen gs v J w \<longleftrightarrow> sched w = [] \<and> (\<forall>n \<ge> drawn w. gen n \<notin> jID ` set (jobs (queue (data w)))) \<and> jobs_inv (queue (data w))
     \<and> goals (data w) = gs \<and> vsvc (data w) = v \<and> J \<subseteq> set (jobs (queue (data w)))"

definition stays :: "('d dbw \<Rightarrow> bool) \<Rightarrow> ('d, 'e, 'a) db \<Rightarrow> bool" where
  "stays P m \<longleftrightarrow> (\<forall>w. P w \<longrightarrow> P (snd (m w)))"

lemma stays_bind: "stays P m \<Longrightarrow> (\<And>a. stays P (f a)) \<Longrightarrow> stays P (bind m f)"
  unfolding stays_def bind_def by (auto split: prod.splits sum.splits)

lemma stays_trivial: "stays P (ret a)" "stays P (fail e)" "stays P time_now" "stays P m \<Longrightarrow> stays P (attempt m)"
  by (auto simp: stays_def ret_def fail_def time_now_def attempt_def split: prod.splits)

lemma stays_cases:
  "stays P m \<Longrightarrow> stays P n \<Longrightarrow> stays P (if b then m else n)" "stays P m \<Longrightarrow> (\<And>a. stays P (c a)) \<Longrightarrow> stays P (case x of None \<Rightarrow> m | Some a \<Rightarrow> c a)"
  "(\<And>a. stays P (p a)) \<Longrightarrow> (\<And>a. stays P (q a)) \<Longrightarrow> stays P (case y of Inl a \<Rightarrow> p a | Inr a \<Rightarrow> q a)"
  "(\<And>a b. stays P (k a b)) \<Longrightarrow> stays P (case z of (a, b) \<Rightarrow> k a b)"
  by (auto split: option.splits sum.splits prod.splits)

lemma calm_stmt:
  assumes "\<And>d a d'. f d = Inr (a, d') \<Longrightarrow> queue d' = queue d \<and> goals d' = goals d \<and> vsvc d' = vsvc d"
  shows "stays (calm gen gs v J) (stmt f)"
  using assms unfolding stays_def stmt_def calm_def by (auto simp: Let_def split: sum.splits)

lemma calm_query: "stays (calm gen gs v J) (query f)"
  unfolding query_def by (rule calm_stmt) (auto split: sum.splits)

text \<open>Without faults and with a fresh identifier an enqueue succeeds.\<close>

lemma insertJob_outcome:
  assumes "jID j \<notin> jID ` set (jobs d)" and "length (jType j) \<le> 100" and "in_int32 (Priority j)" and "in_int32 (MaxAttempts j)" and "1 \<le> MaxAttempts j"
  shows "insertJob j d = Inr (Some j, d \<lparr> jobs := jobs d @ [j] \<rparr>) \<or>
    insertJob j d = Inr (None, d) \<and> IdempotencyKey j \<noteq> '''' \<and> (\<exists>k \<in> set (jobs d). live k \<and> jType k = jType j \<and> IdempotencyKey k = IdempotencyKey j)"
  using assms by (auto simp: insertJob_def)

lemma newestLive_exists:
  assumes "k \<in> set js" and "live k" and "jType k = t" and "IdempotencyKey k = key" and "key \<noteq> ''''"
  shows "newestLive t key js \<noteq> None"
proof -
  let ?l = "sort_key jCreatedAt (filter (\<lambda>j. jType j = t \<and> IdempotencyKey j = key \<and> key \<noteq> '''' \<and> live j) js)"
  have "k \<in> set ?l" using assms by simp
  then obtain x xs where "rev ?l = x # xs" by (cases ?l rule: rev_cases) auto
  then show ?thesis unfolding newestLive_def by simp
qed

lemma enqueue_succeeds:
  fixes b :: "jobs_db dbw"
  assumes "sched b = []" and "gen (drawn b) \<notin> jID ` set (jobs (data b))" and "inType inp \<noteq> ''''" "length (inType inp) \<le> 100"
    and "in_int32 (inPriority inp)" and "inMaxAttempts inp = 0"
  shows "\<exists>j b'. clientEnqueue gen inp b = (Inr j, b') \<and> sched b' = [] \<and> drawn b' = drawn b + 1
    \<and> (jobs (data b') = jobs (data b) \<or> (\<exists>k. jID k = gen (drawn b) \<and> jobs (data b') = jobs (data b) @ [k]))"
proof -
  let ?j = "newJob inp (gen (drawn b)) (wall b)"
  have f: "jID ?j = gen (drawn b)" "jType ?j = inType inp" "IdempotencyKey ?j = inIdempotencyKey inp" "Priority ?j = inPriority inp" "MaxAttempts ?j = 5"
    using assms(6) by (simp_all add: newJob_def DefaultMaxAttempts_def)
  have "insertJob ?j (data b) = Inr (Some ?j, (data b) \<lparr> jobs := jobs (data b) @ [?j] \<rparr>) \<or>
    insertJob ?j (data b) = Inr (None, data b) \<and> IdempotencyKey ?j \<noteq> '''' \<and> (\<exists>k \<in> set (jobs (data b)). live k \<and> jType k = jType ?j \<and> IdempotencyKey k = IdempotencyKey ?j)"
    by (rule insertJob_outcome) (use assms f in \<open>simp_all add: in_int32_def\<close>)
  then show ?thesis
  proof
    assume ins: "insertJob ?j (data b) = Inr (Some ?j, (data b) \<lparr> jobs := jobs (data b) @ [?j] \<rparr>)"
    have "clientEnqueue gen inp b = (Inr ?j, b \<lparr> drawn := drawn b + 1, sched := [], data := (data b) \<lparr> jobs := jobs (data b) @ [?j] \<rparr> \<rparr>)"
      using assms(1,3) ins by (simp add: clientEnqueue_def pgEnqueue_def bind_def time_now_def new_uuid_def stmt_def ret_def Let_def)
    then show ?thesis using f(1) by auto
  next
    assume ins: "insertJob ?j (data b) = Inr (None, data b) \<and> IdempotencyKey ?j \<noteq> '''' \<and> (\<exists>k \<in> set (jobs (data b)). live k \<and> jType k = jType ?j \<and> IdempotencyKey k = IdempotencyKey ?j)"
    then obtain j where j: "newestLive (inType inp) (inIdempotencyKey inp) (jobs (data b)) = Some j" using newestLive_exists f by (metis not_None_eq)
    have "clientEnqueue gen inp b = (Inr j, b \<lparr> drawn := drawn b + 1, sched := [] \<rparr>)"
      using assms(1,3) ins j by (simp add: clientEnqueue_def pgEnqueue_def bind_def time_now_def new_uuid_def stmt_def query_def ret_def Let_def)
    then show ?thesis by auto
  qed
qed

lemma key_nonempty: "recurringDepositIdempotencyKey txt i t win \<noteq> ''''"
  by (simp add: recurringDepositIdempotencyKey_def)

definition occurrenceJob :: "wiring \<Rightarrow> savings_schedule \<Rightarrow> job \<Rightarrow> bool" where
  "occurrenceJob W s j \<longleftrightarrow> live j \<and> jType j = RecurringDepositJobType
     \<and> IdempotencyKey j = recurringDepositIdempotencyKey (idText W) (sID s) (sNextRunAt s) (window (recurring W))"

lemma enqueue_occurrence:
  assumes c: "calm (newUUID W) gs v J w" and inj: "inj (newUUID W)"
    and run: "on_queue (clientEnqueue (newUUID W) (occurrenceInput (idText W) (window (recurring W)) s payload)) w = (r, w')"
  shows "calm (newUUID W) gs v J w' \<and> (\<exists>j \<in> set (jobs (queue (data w'))). occurrenceJob W s j)"
proof -
  let ?inp = "occurrenceInput (idText W) (window (recurring W)) s payload"
  let ?b = "\<lparr> data = queue (data w), sched = sched w, drawn = drawn w, wall = wall w \<rparr>"
  have i: "inType ?inp \<noteq> ''''" "length (inType ?inp) \<le> 100" "in_int32 (inPriority ?inp)" "inMaxAttempts ?inp = 0" "inIdempotencyKey ?inp \<noteq> ''''"
    by (simp_all add: occurrenceInput_def RecurringDepositJobType_def in_int32_def key_nonempty)
  have "sched ?b = []" "newUUID W (drawn ?b) \<notin> jID ` set (jobs (data ?b))" using c by (simp_all add: calm_def)
  from enqueue_succeeds [of ?b "newUUID W" ?inp, OF this i(1-4)] obtain j b' where e: "clientEnqueue (newUUID W) ?inp ?b = (Inr j, b')" "sched b' = []" "drawn b' = drawn w + 1"
    and new: "jobs (data b') = jobs (queue (data w)) \<or> (\<exists>k. jID k = newUUID W (drawn w) \<and> jobs (data b') = jobs (queue (data w)) @ [k])" by auto
  have w': "data w' = (data w) \<lparr> queue := data b' \<rparr>" "sched w' = []" "drawn w' = drawn w + 1"
    using run e by (auto simp: on_queue_def inside_def)
  have inv: "jobs_inv (data ?b)" using c by (simp add: calm_def)
  have "jobs_inv (data b')" by (rule jq.enq_inv [OF inv e(1)])
  moreover have "set (jobs (data ?b)) \<subseteq> set (jobs (data b'))" by (rule jq.enq_keeps [OF e(1)])
  moreover have "\<forall>n \<ge> drawn w + 1. newUUID W n \<notin> jID ` set (jobs (data b'))"
  proof (intro allI impI)
    fix n assume n: "drawn w + 1 \<le> n"
    then have "newUUID W n \<noteq> newUUID W (drawn w)" "newUUID W n \<notin> jID ` set (jobs (queue (data w)))"
      using injD [OF inj, of n "drawn w"] c by (auto simp: calm_def)
    then show "newUUID W n \<notin> jID ` set (jobs (data b'))" using new by auto
  qed
  ultimately have "calm (newUUID W) gs v J w'" using c w' by (auto simp: calm_def)
  moreover have "j \<in> set (jobs (data b')) \<and> live j \<and> jType j = inType ?inp \<and> IdempotencyKey j = inIdempotencyKey ?inp"
    by (rule jq.enq_live [OF inv i(5) e(1)])
  ultimately show ?thesis using w'(1) by (auto simp: occurrenceJob_def occurrenceInput_def)
qed

lemma calm_ownGoal: "stays (calm gen gs v J) (ownGoal u g)"
  unfolding ownGoal_def pgGoalByID_def by (intro stays_bind calm_query stays_cases stays_trivial)

lemma calm_process:
  fixes W :: wiring
  assumes "inj (newUUID W)"
  shows "stays (calm (newUUID W) gs v J) (processSchedule (idText W) (encode W) (newUUID W) (recurring W) lead s)"
proof -
  have enq: "stays (calm (newUUID W) gs v J) (on_queue (clientEnqueue (newUUID W) (occurrenceInput (idText W) (window (recurring W)) s payload)))" for payload
    unfolding stays_def using enqueue_occurrence [OF _ assms] by (metis prod.collapse)
  have "stays (calm (newUUID W) gs v J) (pgDeactivate i)" for i
    unfolding pgDeactivate_def updateSchedules_def by (intro stays_bind stays_trivial stays_cases calm_stmt) (auto simp: Let_def split: if_splits)
  then show ?thesis
    unfolding processSchedule_def IsGoalPausedOrArchived_def IsGoalCompleted_def pgSumVaultBalance_def Let_def
    by (intro stays_bind stays_trivial stays_cases calm_ownGoal calm_query enq)
qed

text \<open>A goal that still takes deposits, as the sweep sees it.\<close>

definition balanceOf :: "uuid \<Rightarrow> string \<Rightarrow> svc_state \<Rightarrow> rat" where
  "balanceOf u cur v = sum_list (map CurrentBalance (filter (\<lambda>x. vUserID x = u \<and> DeletedAt x = None
     \<and> vStatus x = StatusActive \<and> (cur = '''' \<or> Currency x = cur)) (vaults (tables v))))"

definition takesDeposits :: "savings_goal list \<Rightarrow> svc_state \<Rightarrow> savings_schedule \<Rightarrow> bool" where
  "takesDeposits gs v s \<longleftrightarrow> (case List.find (\<lambda>g. gID g = sGoalID s \<and> gDeletedAt g = None) gs of
     None \<Rightarrow> False
   | Some g \<Rightarrow> gUserID g = sUserID s \<and> gStatus g \<notin> {GoalStatusPaused, GoalStatusArchived, GoalStatusCompleted}
       \<and> balanceOf (sUserID s) (gCurrency g) v < TargetAmount g)"

lemma process_enqueues:
  assumes c: "calm (newUUID W) gs v J w" and inj: "inj (newUUID W)" and enc: "\<And>p. encode W p \<noteq> None" and lead: "lead (sID s)" and goal: "takesDeposits gs v s"
  shows "\<exists>j \<in> set (jobs (queue (data (snd (processSchedule (idText W) (encode W) (newUUID W) (recurring W) lead s w))))). occurrenceJob W s j"
proof -
  obtain g where g: "List.find (\<lambda>g. gID g = sGoalID s \<and> gDeletedAt g = None) gs = Some g" "gUserID g = sUserID s"
    "gStatus g \<noteq> GoalStatusPaused" "gStatus g \<noteq> GoalStatusArchived" "gStatus g \<noteq> GoalStatusCompleted" "\<not> TargetAmount g \<le> balanceOf (sUserID s) (gCurrency g) v"
    using goal by (auto simp: takesDeposits_def split: option.splits)
  have own: "ownGoal (sUserID s) (sGoalID s) w = (Inr g, w)" using c g(1,2)
    by (simp add: ownGoal_def pgGoalByID_def query_def stmt_def bind_def ret_def calm_def)
  have "pgSumVaultBalance (sUserID s) (gCurrency g) w = (Inr (balanceOf (sUserID s) (gCurrency g) v), w)"
    using c by (simp add: pgSumVaultBalance_def balanceOf_def query_def stmt_def calm_def)
  then obtain name where comp: "IsGoalCompleted (sGoalID s) (sUserID s) w = (Inr (False, name), w)"
    using own g(3-6) by (simp add: IsGoalCompleted_def bind_def ret_def Let_def)
  have pause: "IsGoalPausedOrArchived (sGoalID s) (sUserID s) w = (Inr False, w)" using own g(3,4) by (simp add: IsGoalPausedOrArchived_def bind_def ret_def)
  obtain payload where p: "encode W (newPayload s name) = Some payload" using enc by blast
  obtain r w' where e: "on_queue (clientEnqueue (newUUID W) (occurrenceInput (idText W) (window (recurring W)) s payload)) w = (r, w')" by fastforce
  have "snd (processSchedule (idText W) (encode W) (newUUID W) (recurring W) lead s w) = w'"
    using pause comp p e lead by (simp add: processSchedule_def bind_def attempt_def ret_def)
  then show ?thesis using enqueue_occurrence [OF c inj e] by simp
qed

lemma process_returns: "fst (processSchedule txt enc gen c lead s w) = Inr ()"
  by (auto simp: processSchedule_def bind_def attempt_def ret_def split: prod.splits sum.splits option.splits)

lemma processAll_enqueues:
  fixes W :: wiring
  assumes "calm (newUUID W) gs v J w" and inj: "inj (newUUID W)" and enc: "\<And>p. encode W p \<noteq> None"
    and "s \<in> set ss" and lead: "lead (sID s)" and goal: "takesDeposits gs v s"
  defines "f \<equiv> processSchedule (idText W) (encode W) (newUUID W) (recurring W) lead"
  shows "calm (newUUID W) gs v J (snd (processAll f ss w)) \<and> (\<exists>j \<in> set (jobs (queue (data (snd (processAll f ss w))))). occurrenceJob W s j)"
proof -
  have all: "stays (calm (newUUID W) gs v K) (processAll f ks)" for K ks
  proof (induction ks)
    case (Cons k ks)
    show ?case unfolding processAll.simps f_def by (intro stays_bind calm_process inj Cons [unfolded f_def])
  qed (simp add: stays_trivial)
  show ?thesis
    using assms(1,4)
  proof (induction ss arbitrary: w)
    case (Cons k ss)
    obtain r w1 where k: "f k w = (r, w1)" by fastforce
    have c1: "calm (newUUID W) gs v J w1" using calm_process [OF inj, of gs v J lead k, folded f_def] Cons(2) k unfolding stays_def by (metis snd_conv)
    have run: "processAll f (k # ss) w = processAll f ss w1"
      using process_returns [of "idText W" "encode W" "newUUID W" "recurring W" lead k w, folded f_def] k by (simp add: bind_def)
    show ?case
    proof (cases "k = s")
      case True
      obtain j where j: "j \<in> set (jobs (queue (data w1)))" "occurrenceJob W s j"
        using process_enqueues [where lead = lead, OF Cons(2) inj enc lead goal, folded f_def] k True by auto
      then have "calm (newUUID W) gs v (insert j J) w1" using c1 by (simp add: calm_def)
      then have "calm (newUUID W) gs v (insert j J) (snd (processAll f ss w1))" using all by (simp add: stays_def)
      then show ?thesis unfolding run using j(2) by (auto simp: calm_def)
    next
      case False
      then show ?thesis unfolding run using Cons(1) [OF c1] Cons(3) by simp
    qed
  qed simp
qed

text \<open>
  C12: A sweep of the leader without faults leaves exactly one live job for every schedule that is due and
  whose goal still takes deposits, whatever jobs were there before and in whatever order it works.
\<close>

theorem sweep_enqueues_due:
  assumes "calm (newUUID W) (goals (data w)) (vsvc (data w)) {} w" and "inj (newUUID W)" and "\<forall>p. encode W p \<noteq> None"
    and "s \<in> set (schedules (data w))" and "IsActive s" and "sNextRunAt s \<le> wall w"
    and "takesDeposits (goals (data w)) (vsvc (data w)) s" and "sweep W True (\<lambda>_. True) w = (r, w')"
  shows "\<exists>!j. j \<in> set (jobs (queue (data w'))) \<and> occurrenceJob W s j"
proof -
  let ?f = "processSchedule (idText W) (encode W) (newUUID W) (recurring W) (\<lambda>_. True)"
  let ?due = "sort_key sNextRunAt (filter (\<lambda>s. IsActive s \<and> sNextRunAt s \<le> wall w) (schedules (data w)))"
  obtain q w1 where p: "processAll ?f ?due w = (q, w1)" by fastforce
  have "pgListDue (wall w) w = (Inr ?due, w)" using assms(1) by (simp add: pgListDue_def query_def stmt_def calm_def)
  then have "queue (data w') = queue (data w1)"
    using assms(8) p by (auto simp: sweep_def Tick_def bind_def time_now_def attempt_def local_def split: sum.splits)
  moreover have "s \<in> set ?due" using assms(4-6) by simp
  then have "calm (newUUID W) (goals (data w)) (vsvc (data w)) {} w1 \<and> (\<exists>j \<in> set (jobs (queue (data w1))). occurrenceJob W s j)"
    using processAll_enqueues [OF assms(1,2), where lead = "\<lambda>_. True" and ss = ?due and s = s] assms(3,7) p by simp
  moreover have "k = j" if "jobs_inv d" "j \<in> set (jobs d)" "k \<in> set (jobs d)" "occurrenceJob W s j" "occurrenceJob W s k" for d :: jobs_db and j k
    using jq.inv_unique [OF that(1)] that(2-) key_nonempty unfolding live_keys_unique_def occurrenceJob_def by metis
  ultimately show ?thesis by (auto simp: calm_def)
qed

section \<open>Examples\<close>

text \<open>A payload codec for one payload, and a verifier that knows the hashes of scheduled deposits.\<close>

definition payload0 :: job_payload where
  "payload0 = \<lparr> pScheduleID = 21, pUserID = 2, pVaultID = 1, pGoalID = 9, pAmount = (15, - 1), pCurrency = ''USDC'',
     pFrequency = ''weekly'', pGoalName = ''Car'', OccurrenceAt = 1000, pMandateID = None \<rparr>"

definition wiring0 :: wiring where
  "wiring0 = \<lparr> idText = (\<lambda>i. itoa (int i)), encode = (\<lambda>_. Some ''p''), decode = (\<lambda>s. if s = ''p'' then Some payload0 else None),
     errText = (\<lambda>_. ''failed''), newUUID = Suc, decimals = dec1, minDeposit = 0,
     recurring = \<lparr> rcEnabled = True, rcInterval = hour, rcWindow = 0 \<rparr>, workers = config0,
     depositService = NewVaultService \<lparr> chainVerifier := Some (\<lambda>_ h _ _. if take 10 h = ''scheduled-'' then Inr \<lparr> evAmount = 3 / 2, evAccount = '''' \<rparr> else Inl ''no'') \<rparr>,
     mandates = None \<rparr>"

definition rworld :: "rstate dbw" where
  "rworld = \<lparr> data = \<lparr> schedules = [],
       goals = [\<lparr> gID = 9, gUserID = 2, TargetAmount = 100, gCurrency = ''USDC'', gDescription = ''Car'', gStatus = ''active'', gDeletedAt = None \<rparr>],
       queue = \<lparr> jobs = [] \<rparr>, vsvc = data (svc_world (data funded)), mandateLog = [], notices = [], lastTickEnd = 0 \<rparr>,
     sched = [], drawn = 20, wall = 1000 \<rparr>"

definition created0 :: "rstate dbw" where
  "created0 = run_schedule_call wiring0 (CallCreateSchedule 2 9
     \<lparr> csAmount = (15, - 1), csCurrency = '''', csFrequency = '' Weekly '', csVaultID = 1 \<rparr>) rworld"

definition job0 :: job where
  "job0 = (newJob (occurrenceInput (\<lambda>i. itoa (int i)) hour (hd (schedules (data created0))) ''p'') 30 1000) \<lparr> jStatus := StatusRunning, Attempts := 1 \<rparr>"

lemma created0_reached: "(rstep wiring0)\<^sup>*\<^sup>* rworld created0"
  unfolding created0_def by (intro r_into_rtranclp [of "rstep wiring0"] rstep.Serve)

definition worked0 :: "rstate dbw" where
  "worked0 = snd (workJob wiring0 0 job0 created0)"

lemma worked0_reached: "(rstep wiring0)\<^sup>*\<^sup>* rworld worked0"
  unfolding worked0_def by (rule rtranclp.rtrancl_into_rtrancl [OF created0_reached rstep.Work])

lemma worked0_rows: "map (\<lambda>s. (sID s, sLastRunAt s, sNextRunAt s)) (schedules (data worked0)) = [(21, Some 1000, 1000 + 7 * day_nanos)]"
  by code_simp

lemma wiring0_simps: "mandates wiring0 = None" "schedules (data rworld) = []" "idText wiring0 = (\<lambda>i. itoa (int i))" "newUUID wiring0 = Suc"
  "decode wiring0 ''p'' = Some payload0" "decode wiring0 (Payload job0) = Some payload0" "\<forall>p. encode wiring0 p \<noteq> None"
  by (simp_all add: wiring0_def rworld_def job0_def newJob_def occurrenceInput_def)

lemma worked0_row:
  obtains s where "schedules (data worked0) = [s]" "sID s = 21" "sLastRunAt s = Some 1000"
  using worked0_rows by (auto simp: map_eq_Cons_conv)

theorem schedules_consistent_witness:
  "\<exists>s. schedules (data worked0) = [s] \<and> sID s = 21 \<and> 0 < sAmount s \<and> sFrequency s \<in> set frequencies
     \<and> (\<exists>v \<in> set (vaults (tables (vsvc (data worked0)))). vID v = sVaultID s \<and> vUserID v = sUserID s)"
proof -
  obtain s where s: "schedules (data worked0) = [s]" "sID s = 21" by (rule worked0_row)
  then have "s \<in> set (schedules (data worked0))" by simp
  from schedules_consistent [OF wiring0_simps(1) worked0_reached wiring0_simps(2) this] s show ?thesis by blast
qed

theorem run_means_deposited_witness:
  "\<exists>due. \<exists>x \<in> set (txns (tables (vsvc (data worked0)))). 1000 = timestamptz due \<and> TransactionHash x = Some (scheduledHash (\<lambda>i. itoa (int i)) 21 due)"
proof -
  obtain s where s: "schedules (data worked0) = [s]" "sID s = 21" "sLastRunAt s = Some 1000" by (rule worked0_row)
  then have "s \<in> set (schedules (data worked0))" by simp
  from run_means_deposited [OF wiring0_simps(1) worked0_reached wiring0_simps(2) this s(3)] show ?thesis unfolding s(2) wiring0_simps(3) .
qed

theorem occurrence_booked_once_witness:
  "\<exists>w1. handleJob wiring0 job0 created0 = (Inr (), w1) \<and> map CurrentBalance (vaults (tables (vsvc (data w1)))) = [4]
     \<and> tables (vsvc (data (snd (handleJob wiring0 job0 w1)))) = tables (vsvc (data w1))"
proof -
  define w1 where "w1 = snd (handleJob wiring0 job0 created0)"
  have "fst (handleJob wiring0 job0 created0) = Inr ()" by code_simp
  then have run: "handleJob wiring0 job0 created0 = (Inr (), w1)" by (simp add: w1_def prod_eq_iff)
  have bal: "map CurrentBalance (vaults (tables (vsvc (data w1)))) = [4]" unfolding w1_def by code_simp
  obtain r w3 where again: "handleJob wiring0 job0 w1 = (r, w3)" by fastforce
  have "tables (vsvc (data w3)) = tables (vsvc (data w1))"
    by (rule occurrence_booked_once [OF wiring0_simps(1) run wiring0_simps(6) rtranclp.rtrancl_refl again wiring0_simps(6) refl refl])
  then show ?thesis using run bal again by (intro exI [of _ w1]) simp
qed

theorem deployed_deposits_refused_witness:
  "let W = wiring0 \<lparr> depositService := NewVaultService \<rparr>
   in deployed W \<and> (\<exists>e. fst (handleJob W job0 created0) = Inl e) \<and> schedules (data (snd (handleJob W job0 created0))) = schedules (data created0)"
proof -
  let ?W = "wiring0 \<lparr> depositService := NewVaultService \<rparr>"
  have d: "deployed ?W" by (simp add: deployed_def wiring0_def)
  obtain r w' where run: "handleJob ?W job0 created0 = (r, w')" by fastforce
  from deployed_deposits_refused [OF d run] d run show ?thesis by (auto simp: Let_def)
qed

theorem sweep_enqueues_due_witness:
  "\<exists>!j. j \<in> set (jobs (queue (data (snd (sweep wiring0 True (\<lambda>_. True) created0))))) \<and> occurrenceJob wiring0 (hd (schedules (data created0))) j"
proof -
  have q: "sched created0 = [] \<and> drawn created0 = 21 \<and> jobs (queue (data created0)) = []" by code_simp
  have c: "calm (newUUID wiring0) (goals (data created0)) (vsvc (data created0)) {} created0"
    using q by (simp add: calm_def jobs_inv_def live_keys_unique_def wiring0_simps)
  have one: "length (schedules (data created0)) = 1" by code_simp
  then have m: "hd (schedules (data created0)) \<in> set (schedules (data created0))" by (cases "schedules (data created0)") simp_all
  have due: "IsActive (hd (schedules (data created0)))" "sNextRunAt (hd (schedules (data created0))) \<le> wall created0"
    "takesDeposits (goals (data created0)) (vsvc (data created0)) (hd (schedules (data created0)))" by code_simp+
  obtain r w' where run: "sweep wiring0 True (\<lambda>_. True) created0 = (r, w')" by fastforce
  have "inj (newUUID wiring0)" by (simp add: wiring0_simps)
  from sweep_enqueues_due [OF c this wiring0_simps(7) m due run] run show ?thesis by simp
qed

section \<open>Findings\<close>

text \<open>A schedule set up on the last of January stays on the 28th after February.\<close>

lemma monthly_schedules_drift:
  "let jan31 = goDate 2026 1 31 0 in
     dateOf (scheduleNextRunAt jan31 ''monthly'') = (2026, 2, 28)
     \<and> dateOf (scheduleNextRunAt (scheduleNextRunAt jan31 ''monthly'') ''monthly'') = (2026, 3, 28)"
  by code_simp

text \<open>A schedule cancelled while its job waits is deposited all the same, and the job then fails.\<close>

lemma cancelled_schedule_deposited:
  "let w = run_schedule_call wiring0 (CallDeleteActive 2 9) created0; r = handleJob wiring0 job0 w
   in map IsActive (schedules (data w)) = [False] \<and> fst r = Inl (App ErrScheduleNotFound)
     \<and> map CurrentBalance (vaults (tables (vsvc (data (snd r))))) = [4]"
  by code_simp

text \<open>A mandate that the contract refuses for good is reported to the user as a completed deposit.\<close>

lemma refused_mandate_notified:
  "let W = wiring0 \<lparr> mandates := Some (\<lambda>_ _ _. Some ''MandateExpired''), decode := (\<lambda>_. Some (payload0 \<lparr> pMandateID := Some 7 \<rparr>)) \<rparr>;
       r = handleJob W job0 created0
   in fst r = Inr () \<and> map nUserID (notices (data (snd r))) = [2] \<and> map CurrentBalance (vaults (tables (vsvc (data (snd r))))) = [5 / 2]"
  by code_simp

end
