(* ===== verification/Submission.thy ===== *)
theory Submission
  imports Database Encoding "HOL-Library.Multiset"
begin

text \<open>
  Durable chain submissions: \<^verbatim>\<open>stellar/submission.go\<close>, \<^verbatim>\<open>stellar/submission_store.go\<close>,
  \<^verbatim>\<open>stellar/submission_store_postgres.go\<close>, \<^verbatim>\<open>stellar/reconciler.go\<close>, and the part of
  \<^verbatim>\<open>stellar/invoker.go\<close> through which every transaction is sent and awaited. The intent to submit is
  stored before the envelope is handed to the RPC node; the reconciler asks the chain about it and
  concludes it. The XDR library and the RPC node are parameters.
\<close>

section \<open>States and outcomes\<close>

datatype submission_state = SubmissionPending | SubmissionLanded | SubmissionRejected | SubmissionExpired | SubmissionUnresolvable

definition Terminal :: "submission_state \<Rightarrow> bool" where
  "Terminal s \<longleftrightarrow> s \<in> {SubmissionLanded, SubmissionRejected, SubmissionExpired, SubmissionUnresolvable}"

datatype chain_outcome = OutcomeUnknown | OutcomeLanded | OutcomeRejected | OutcomeProvenNotLanded | OutcomeUndeterminable

fun OutcomeString :: "chain_outcome \<Rightarrow> string" where
  "OutcomeString OutcomeLanded = ''landed''"
| "OutcomeString OutcomeRejected = ''rejected''"
| "OutcomeString OutcomeProvenNotLanded = ''proven_not_landed''"
| "OutcomeString OutcomeUndeterminable = ''undeterminable''"
| "OutcomeString OutcomeUnknown = ''unknown''"

definition PermitsNewAttempt :: "chain_outcome \<Rightarrow> bool" where
  "PermitsNewAttempt o' \<longleftrightarrow> o' = OutcomeRejected \<or> o' = OutcomeProvenNotLanded"

fun OutcomeState :: "chain_outcome \<Rightarrow> submission_state" where
  "OutcomeState OutcomeLanded = SubmissionLanded"
| "OutcomeState OutcomeRejected = SubmissionRejected"
| "OutcomeState OutcomeProvenNotLanded = SubmissionExpired"
| "OutcomeState OutcomeUndeterminable = SubmissionUnresolvable"
| "OutcomeState OutcomeUnknown = SubmissionPending"

definition TxStatusSuccess :: string where "TxStatusSuccess = ''SUCCESS''"
definition TxStatusFailed :: string where "TxStatusFailed = ''FAILED''"
definition TxStatusNotFound :: string where "TxStatusNotFound = ''NOT_FOUND''"

record chain_view =
  LatestLedgerCloseTime :: time
  OldestLedgerCloseTime :: time

definition ViewValid :: "chain_view \<Rightarrow> bool" where
  "ViewValid v \<longleftrightarrow> \<not> time_is_zero (LatestLedgerCloseTime v) \<and> \<not> time_is_zero (OldestLedgerCloseTime v)"

record submission_intent =
  siID :: uuid
  IdempotencyReference :: string
  siTransactionHash :: string
  ValidUntil :: time
  SourceAccount :: string
  DomainAction :: string
  siState :: submission_state
  siAttempt :: int
  siCreatedAt :: time
  SubmittedAt :: "time option"
  ResolvedAt :: "time option"
  OutcomeDetail :: string

definition EarliestInclusion :: "submission_intent \<Rightarrow> time" where
  "EarliestInclusion i = (case SubmittedAt i of Some t \<Rightarrow> t | None \<Rightarrow> siCreatedAt i)"

definition DetermineOutcome :: "string \<Rightarrow> chain_view \<Rightarrow> submission_intent \<Rightarrow> chain_outcome" where
  "DetermineOutcome status view intent =
     (if status = TxStatusSuccess then OutcomeLanded
      else if status = TxStatusFailed then OutcomeRejected
      else if status \<noteq> TxStatusNotFound then OutcomeUnknown
      else if \<not> ViewValid view then OutcomeUnknown
      else if time_is_zero (ValidUntil intent) then OutcomeUnknown
      else if \<not> ValidUntil intent < LatestLedgerCloseTime view then OutcomeUnknown
      else if EarliestInclusion intent < OldestLedgerCloseTime view then OutcomeUndeterminable
      else OutcomeProvenNotLanded)"

section \<open>The identity of an envelope\<close>

text \<open>
  \<^verbatim>\<open>time.Unix\<close> adds the seconds between year 1 and 1970 in an int64. What the XDR library makes of an
  envelope is a parameter: the hash under the passphrase and the upper time bound, a uint64.
\<close>

definition time_Unix :: "int \<Rightarrow> time" where
  "time_Unix s = wrap64 (s + 62135596800) * second"

datatype parsed = NotParsed string | FeeBump | Parsed "string + string" "int option"

record transaction_identity =
  idHash :: string
  idValidUntil :: time

definition IdentifyTransaction :: "(string \<Rightarrow> parsed) \<Rightarrow> string \<Rightarrow> string + transaction_identity" where
  "IdentifyTransaction xdr env = (case xdr env of
     NotParsed e \<Rightarrow> Inl (''parse signed envelope: '' @ e)
   | FeeBump \<Rightarrow> Inl ''expected a transaction, got fee-bump''
   | Parsed (Inl e) _ \<Rightarrow> Inl (''hash transaction: '' @ e)
   | Parsed (Inr h) bound \<Rightarrow> Inr \<lparr> idHash = h, idValidUntil = (case bound of
         None \<Rightarrow> 0 | Some maxTime \<Rightarrow> if 0 < maxTime \<and> maxTime \<le> int64_max then time_Unix maxTime else 0) \<rparr>)"

section \<open>The store\<close>

datatype sub_error = ErrMissingReference | ErrIntentNotFound | ErrReferenceReused string | ErrNotTerminal

record submission_row = submission_intent +
  reconcile_attempts :: int
  last_reconciled_at :: "time option"
  next_reconcile_at :: time

record sub_db =
  intents :: "submission_row list"
  sent :: "string list"

type_synonym 'a subdb = "(sub_db, sub_error, 'a) db"

definition insertIntent :: "(nat \<Rightarrow> uuid) \<Rightarrow> submission_intent \<Rightarrow> submission_intent option subdb" where
  "insertIntent gen intent =
     bind time_now (\<lambda>now.
     bind (new_uuid gen) (\<lambda>i.
       let created = timestamptz (if time_is_zero (siCreatedAt intent) then now else siCreatedAt intent);
           row = \<lparr> siID = i, IdempotencyReference = IdempotencyReference intent, siTransactionHash = siTransactionHash intent,
             ValidUntil = timestamptz (ValidUntil intent), SourceAccount = SourceAccount intent, DomainAction = DomainAction intent,
             siState = SubmissionPending, siAttempt = 0, siCreatedAt = created, SubmittedAt = None, ResolvedAt = None,
             OutcomeDetail = '''', reconcile_attempts = 0, last_reconciled_at = None, next_reconcile_at = created \<rparr>
       in stmt (\<lambda>d.
            if IdempotencyReference intent = '''' then Inl Violation
            else if IdempotencyReference intent \<in> IdempotencyReference ` set (intents d) then Inr (None, d)
            else if i \<in> siID ` set (intents d) then Inl Violation
            else Inr (Some (submission_intent.truncate row), d \<lparr> intents := intents d @ [row] \<rparr>))))"

definition getByReference :: "string \<Rightarrow> submission_intent subdb" where
  "getByReference reference = query (\<lambda>d. case List.find (\<lambda>r. IdempotencyReference r = reference) (intents d) of
     None \<Rightarrow> Inl (App ErrIntentNotFound) | Some r \<Rightarrow> Inr (submission_intent.truncate r))"

definition Claim :: "(nat \<Rightarrow> uuid) \<Rightarrow> submission_intent \<Rightarrow> (submission_intent \<times> bool) subdb" where
  "Claim gen intent =
     (if IdempotencyReference intent = '''' then fail (App ErrMissingReference)
      else bind (insertIntent gen intent) (\<lambda>created.
        case created of
          Some c \<Rightarrow> ret (c, True)
        | None \<Rightarrow> bind (getByReference (IdempotencyReference intent)) (\<lambda>existing.
            if siTransactionHash existing \<noteq> siTransactionHash intent
            then fail (App (ErrReferenceReused (IdempotencyReference intent)))
            else ret (existing, False))))"

definition updateIntent :: "(submission_row \<Rightarrow> bool) \<Rightarrow> (submission_row \<Rightarrow> submission_row) \<Rightarrow> unit subdb" where
  "updateIntent p f = bind (stmt (\<lambda>d. Inr (length (filter p (intents d)), d \<lparr> intents := map (\<lambda>r. if p r then f r else r) (intents d) \<rparr>)))
     (\<lambda>n. if n = 0 then fail (App ErrIntentNotFound) else ret ())"

definition MarkSubmitted :: "uuid \<Rightarrow> time \<Rightarrow> unit subdb" where
  "MarkSubmitted i t = updateIntent (\<lambda>r. siID r = i)
     (\<lambda>r. r \<lparr> SubmittedAt := (case SubmittedAt r of Some u \<Rightarrow> Some u | None \<Rightarrow> Some (timestamptz t)), siAttempt := siAttempt r + 1 \<rparr>)"

definition Resolve :: "uuid \<Rightarrow> submission_state \<Rightarrow> string \<Rightarrow> time \<Rightarrow> unit subdb" where
  "Resolve i state detail t =
     (if state = SubmissionPending then fail (App ErrNotTerminal)
      else updateIntent (\<lambda>r. siID r = i \<and> siState r = SubmissionPending)
        (\<lambda>r. r \<lparr> siState := state, OutcomeDetail := detail, ResolvedAt := Some (timestamptz t),
                 last_reconciled_at := Some (timestamptz t), reconcile_attempts := reconcile_attempts r + 1 \<rparr>))"

definition GetIntent :: "uuid \<Rightarrow> submission_intent subdb" where
  "GetIntent i = query (\<lambda>d. case List.find (\<lambda>r. siID r = i) (intents d) of
     None \<Rightarrow> Inl (App ErrIntentNotFound) | Some r \<Rightarrow> Inr (submission_intent.truncate r))"

definition DefaultReconcileBackoff :: duration where "DefaultReconcileBackoff = 20 * second"
definition DefaultReconcileBatch :: int where "DefaultReconcileBatch = 50"

text \<open>Rows locked by another session are skipped; the batch is returned in the order of the claim.\<close>

definition dueIntents :: "uuid set \<Rightarrow> int \<Rightarrow> time \<Rightarrow> submission_row list \<Rightarrow> submission_row list" where
  "dueIntents locked limit now rs = take (nat limit) (sort_key next_reconcile_at
     (filter (\<lambda>r. siState r = SubmissionPending \<and> next_reconcile_at r \<le> now \<and> siID r \<notin> locked) rs))"

definition ClaimPendingForReconcile :: "uuid set \<Rightarrow> int \<Rightarrow> time \<Rightarrow> submission_intent list subdb" where
  "ClaimPendingForReconcile locked limit0 now =
     (let limit = (if limit0 \<le> 0 then DefaultReconcileBatch else limit0) in
      transaction (stmt (\<lambda>d.
        let due = dueIntents locked limit now (intents d)
        in Inr (map submission_intent.truncate due,
             d \<lparr> intents := map (\<lambda>r. if siID r \<in> siID ` set due
                then r \<lparr> next_reconcile_at := timestamptz (now + DefaultReconcileBackoff) \<rparr> else r) (intents d) \<rparr>))))"

section \<open>The RPC node\<close>

text \<open>A call fails, is answered with a JSON-RPC error, or with a result.\<close>

datatype 'a rpc_reply = CallFailed string | RPCError string | Result 'a

record send_result =
  srHash :: string
  srStatus :: string
  ErrorResultXDR :: string

record get_tx_result =
  gtStatus :: string
  gtLatest :: string
  gtOldest :: string


text \<open>\<^verbatim>\<open>strconv.ParseInt\<close> in base 10 for 64 bits.\<close>

definition ParseInt :: "string \<Rightarrow> int option" where
  "ParseInt s = (case s of
     [] \<Rightarrow> None
   | c # cs \<Rightarrow>
       let body = (if c = CHR ''+'' \<or> c = CHR ''-'' then cs else s)
       in if body = [] \<or> \<not> list_all is_digit body then None
          else let v = (if c = CHR ''-'' then - undigits body else undigits body) in if in_int64 v then Some v else None)"

definition parseLedgerCloseTime :: "string \<Rightarrow> time" where
  "parseLedgerCloseTime raw = (case ParseInt (trim_space raw) of None \<Rightarrow> 0 | Some s \<Rightarrow> if s \<le> 0 then 0 else time_Unix s)"

definition chainView :: "get_tx_result \<Rightarrow> chain_view" where
  "chainView r = \<lparr> LatestLedgerCloseTime = parseLedgerCloseTime (gtLatest r), OldestLedgerCloseTime = parseLedgerCloseTime (gtOldest r) \<rparr>"

definition LookupTransaction :: "(string \<Rightarrow> get_tx_result rpc_reply) \<Rightarrow> string \<Rightarrow> string + string \<times> chain_view" where
  "LookupTransaction rpc hash = (case rpc hash of
     CallFailed e \<Rightarrow> Inl e
   | RPCError e \<Rightarrow> Inl (''getTransaction: '' @ e)
   | Result r \<Rightarrow> Inr (gtStatus r, chainView r))"

section \<open>Sending\<close>

datatype send_error =
    ErrIdentify string
  | ErrNoTimeBound string
  | ErrRecordIntent "sub_error db_error"
  | ErrRPC string
  | ErrSubmitFailed string
  | ErrSubmissionUnresolved uuid "send_error option"

definition submitEnvelope :: "(string \<Rightarrow> send_result rpc_reply) \<Rightarrow> string \<Rightarrow> (string \<times> send_error option) subdb" where
  "submitEnvelope rpc env = bind (local (\<lambda>d. d \<lparr> sent := sent d @ [env] \<rparr>)) (\<lambda>_.
     ret (case rpc env of
       CallFailed e \<Rightarrow> ('''', Some (ErrRPC e))
     | RPCError e \<Rightarrow> ('''', Some (ErrSubmitFailed e))
     | Result r \<Rightarrow> if srStatus r = ''ERROR'' then ('''', Some (ErrSubmitFailed (ErrorResultXDR r))) else (srHash r, None)))"

definition existingSubmissionResult :: "submission_intent \<Rightarrow> send_error option" where
  "existingSubmissionResult stored = (case siState stored of
     SubmissionLanded \<Rightarrow> None
   | SubmissionRejected \<Rightarrow> Some (ErrSubmitFailed ''ended rejected'')
   | SubmissionExpired \<Rightarrow> Some (ErrSubmitFailed ''ended expired'')
   | _ \<Rightarrow> Some (ErrSubmissionUnresolved (siID stored) None))"

definition newIntent :: "string \<Rightarrow> string \<Rightarrow> transaction_identity \<Rightarrow> time \<Rightarrow> submission_intent" where
  "newIntent operator reference ident now =
     \<lparr> siID = uuid_nil, IdempotencyReference = (if reference = '''' then ''tx:'' @ idHash ident else reference),
       siTransactionHash = idHash ident, ValidUntil = idValidUntil ident, SourceAccount = operator, DomainAction = '''',
       siState = SubmissionPending, siAttempt = 0, siCreatedAt = now, SubmittedAt = None, ResolvedAt = None, OutcomeDetail = '''' \<rparr>"

definition send :: "(nat \<Rightarrow> uuid) \<Rightarrow> (string \<Rightarrow> parsed) \<Rightarrow> (string \<Rightarrow> send_result rpc_reply) \<Rightarrow> bool \<Rightarrow> string \<Rightarrow> string \<Rightarrow> string
    \<Rightarrow> (string \<times> send_error option) subdb" where
  "send gen xdr rpc store operator reference env =
     (if \<not> store then submitEnvelope rpc env
      else case IdentifyTransaction xdr env of
        Inl e \<Rightarrow> ret ('''', Some (ErrIdentify e))
      | Inr ident \<Rightarrow>
          if time_is_zero (idValidUntil ident) then ret ('''', Some (ErrNoTimeBound (idHash ident)))
          else bind time_now (\<lambda>now.
               bind (attempt (Claim gen (newIntent operator reference ident now))) (\<lambda>claim.
                 case claim of
                   Inl e \<Rightarrow> ret ('''', Some (ErrRecordIntent e))
                 | Inr (stored, False) \<Rightarrow> ret (siTransactionHash stored, existingSubmissionResult stored)
                 | Inr (stored, True) \<Rightarrow>
                     bind (submitEnvelope rpc env) (\<lambda>(hash, submitErr).
                     bind time_now (\<lambda>after.
                     bind (attempt (MarkSubmitted (siID stored) after)) (\<lambda>_.
                       ret (case submitErr of
                         Some e \<Rightarrow> (siTransactionHash stored, Some (ErrSubmissionUnresolved (siID stored) (Some e)))
                       | None \<Rightarrow> (hash, None))))))))"

section \<open>Reconciling\<close>

definition reconcile :: "(string \<Rightarrow> string + string \<times> chain_view) \<Rightarrow> submission_intent \<Rightarrow> unit subdb" where
  "reconcile lookup intent = (case lookup (siTransactionHash intent) of
     Inl _ \<Rightarrow> ret ()
   | Inr (status, view) \<Rightarrow>
       let outcome = DetermineOutcome status view intent in
       if outcome = OutcomeUnknown then ret ()
       else bind time_now (\<lambda>now.
            bind (attempt (Resolve (siID intent) (OutcomeState outcome)
              (''chain reported '' @ status @ ''; outcome '' @ OutcomeString outcome) now)) (\<lambda>_. ret ())))"

text \<open>The loop of a sweep; \<open>cancelled\<close> says before which intents the context has ended.\<close>

fun reconcileAll :: "(string \<Rightarrow> string + string \<times> chain_view) \<Rightarrow> (submission_intent \<Rightarrow> bool) \<Rightarrow> submission_intent list \<Rightarrow> unit subdb" where
  "reconcileAll lookup cancelled [] = ret ()"
| "reconcileAll lookup cancelled (i # is) =
     (if cancelled i then ret () else bind (reconcile lookup i) (\<lambda>_. reconcileAll lookup cancelled is))"

definition ReconcilerTick :: "bool \<Rightarrow> uuid set \<Rightarrow> int \<Rightarrow> (string \<Rightarrow> string + string \<times> chain_view) \<Rightarrow> (submission_intent \<Rightarrow> bool) \<Rightarrow> unit subdb" where
  "ReconcilerTick leader locked batch lookup cancelled =
     (if \<not> leader then ret ()
      else bind time_now (\<lambda>now.
           bind (attempt (ClaimPendingForReconcile locked batch now)) (\<lambda>claimed.
             case claimed of Inl _ \<Rightarrow> ret () | Inr is \<Rightarrow> reconcileAll lookup cancelled is)))"

section \<open>Waiting for a transaction\<close>

datatype wait_error = ErrContext | ErrCall string | ErrTxFailed string

text \<open>
  Round \<open>n\<close> of the loop either sees the context done or polls the node; the loop has no bound of its
  own, so not returning is the value \<open>None\<close>.
\<close>

partial_function (option) waitForTx :: "(nat \<Rightarrow> bool) \<Rightarrow> (nat \<Rightarrow> get_tx_result rpc_reply) \<Rightarrow> string \<Rightarrow> nat \<Rightarrow> wait_error option option" where
  "waitForTx ended answer hash n =
     (if ended n then Some (Some ErrContext)
      else case answer n of
        CallFailed e \<Rightarrow> Some (Some (ErrCall e))
      | RPCError e \<Rightarrow> Some (Some (ErrCall e))
      | Result r \<Rightarrow>
          if gtStatus r = TxStatusSuccess then Some None
          else if gtStatus r = TxStatusFailed then Some (Some (ErrTxFailed hash))
          else waitForTx ended answer hash (Suc n))"

section \<open>Slippage\<close>

definition DefaultWithdrawalSlippageBps :: int where "DefaultWithdrawalSlippageBps = 50"
definition MaxWithdrawalSlippageBps :: int where "MaxWithdrawalSlippageBps = 300"

definition ValidateSlippageBps :: "int \<Rightarrow> bool" where
  "ValidateSlippageBps bps \<longleftrightarrow> \<not> (bps \<le> 0 \<or> MaxWithdrawalSlippageBps < bps)"

definition ResolveSlippageBps :: "int \<Rightarrow> int \<Rightarrow> int option" where
  "ResolveSlippageBps requested configured =
     (if requested \<noteq> 0 then if ValidateSlippageBps requested then Some requested else None
      else let d = (if configured \<le> 0 then DefaultWithdrawalSlippageBps else configured)
           in if ValidateSlippageBps d then Some d else None)"

definition ComputeMinAssetsOut :: "int \<Rightarrow> int \<Rightarrow> int" where
  "ComputeMinAssetsOut previewAmount slippageBps =
     (if previewAmount \<le> 0 then 0 else go_quot (wrap64 (previewAmount * wrap64 (10000 - slippageBps))) 10000)"

section \<open>What single statements do\<close>

definition row_key :: "submission_row \<Rightarrow> uuid \<times> string \<times> string \<times> time" where
  "row_key r = (siID r, IdempotencyReference r, siTransactionHash r, ValidUntil r)"

text \<open>A statement that rewrites rows keeps their identity and every concluded state.\<close>

definition keeps :: "(submission_row \<Rightarrow> submission_row) \<Rightarrow> bool" where
  "keeps f \<longleftrightarrow> (\<forall>r. row_key (f r) = row_key r \<and> siState (f r) = siState r)"

lemma updateIntent_rows:
  assumes "updateIntent p f w = (r, w')"
  shows "data w' = data w \<or> data w' = (data w) \<lparr> intents := map (\<lambda>r. if p r then f r else r) (intents (data w)) \<rparr>"
  using assms by (auto simp: updateIntent_def bind_def stmt_def Let_def ret_def fail_def split: if_splits prod.splits sum.splits)

lemma keeps_choice:
  assumes "d' = d \<or> d' = d \<lparr> intents := map f (intents d) \<rparr>" and "keeps f"
  shows "\<exists>f. keeps f \<and> d' = d \<lparr> intents := map f (intents d) \<rparr>"
  using assms(1)
proof
  assume "d' = d"
  then show ?thesis by (intro exI [of _ "\<lambda>r. r"]) (simp add: keeps_def)
qed (use assms(2) in blast)

lemma MarkSubmitted_rows:
  assumes "MarkSubmitted i t w = (r, w')"
  shows "\<exists>f. keeps f \<and> data w' = (data w) \<lparr> intents := map f (intents (data w)) \<rparr>"
proof -
  let ?f = "\<lambda>r. if siID r = i then r \<lparr> SubmittedAt := (case SubmittedAt r of Some u \<Rightarrow> Some u | None \<Rightarrow> Some (timestamptz t)), siAttempt := siAttempt r + 1 \<rparr> else r"
  have "keeps ?f" by (simp add: keeps_def row_key_def)
  from keeps_choice [OF updateIntent_rows [OF assms [unfolded MarkSubmitted_def]] this] show ?thesis .
qed

lemma transaction_stmt_data:
  assumes "transaction (stmt g) w = (r, w')"
  shows "data w' = data w \<or> (\<exists>a. g (data w) = Inr (a, data w'))"
  using assms by (auto simp: transaction_def stmt_def Let_def split: if_splits sum.splits)

lemma ClaimPending_rows:
  assumes "ClaimPendingForReconcile locked n now w = (r, w')"
  shows "\<exists>f. keeps f \<and> data w' = (data w) \<lparr> intents := map f (intents (data w)) \<rparr>"
proof -
  let ?due = "dueIntents locked (if n \<le> 0 then DefaultReconcileBatch else n) now (intents (data w))"
  let ?f = "\<lambda>r. if siID r \<in> siID ` set ?due then r \<lparr> next_reconcile_at := timestamptz (now + DefaultReconcileBackoff) \<rparr> else r"
  have "data w' = data w \<or> data w' = (data w) \<lparr> intents := map ?f (intents (data w)) \<rparr>"
    using transaction_stmt_data [OF assms [unfolded ClaimPendingForReconcile_def Let_def]] by auto
  moreover have "keeps ?f" by (simp add: keeps_def row_key_def)
  ultimately show ?thesis by (rule keeps_choice)
qed

lemma ClaimPending_batch:
  assumes "ClaimPendingForReconcile locked n now w = (Inr is, w')" and "i \<in> set is"
  shows "\<exists>r \<in> set (intents (data w)). i = submission_intent.truncate r"
proof -
  have "is = map submission_intent.truncate (dueIntents locked (if n \<le> 0 then DefaultReconcileBatch else n) now (intents (data w)))"
    using assms(1) by (auto simp: ClaimPendingForReconcile_def transaction_def stmt_def Let_def split: if_splits)
  then obtain r where "r \<in> set (dueIntents locked (if n \<le> 0 then DefaultReconcileBatch else n) now (intents (data w)))"
    "i = submission_intent.truncate r"
    using assms(2) by auto
  moreover from this have "r \<in> set (intents (data w))" unfolding dueIntents_def by (drule_tac in_set_takeD) simp
  ultimately show ?thesis by blast
qed

lemma Resolve_rows:
  assumes "Resolve i st dt t w = (r, w')"
  shows "\<exists>f. (\<forall>r. row_key (f r) = row_key r \<and> (siState (f r) = siState r \<or> siState r = SubmissionPending \<and> siID r = i \<and> siState (f r) = st))
    \<and> data w' = (data w) \<lparr> intents := map f (intents (data w)) \<rparr>"
proof (cases "st = SubmissionPending")
  case True
  then show ?thesis using assms by (intro exI [of _ "\<lambda>r. r"]) (simp add: Resolve_def fail_def)
next
  case False
  let ?f = "\<lambda>r. if siID r = i \<and> siState r = SubmissionPending then r \<lparr> siState := st, OutcomeDetail := dt, ResolvedAt := Some (timestamptz t),
                 last_reconciled_at := Some (timestamptz t), reconcile_attempts := reconcile_attempts r + 1 \<rparr> else r"
  have "data w' = data w \<or> data w' = (data w) \<lparr> intents := map ?f (intents (data w)) \<rparr>"
    using updateIntent_rows assms False unfolding Resolve_def by simp
  then show ?thesis
  proof
    assume "data w' = data w"
    then show ?thesis by (intro exI [of _ "\<lambda>r. r"]) simp
  next
    assume "data w' = (data w) \<lparr> intents := map ?f (intents (data w)) \<rparr>"
    then show ?thesis by (intro exI [of _ ?f]) (simp add: row_key_def)
  qed
qed

lemma reconcile_rows:
  assumes "reconcile (\<lambda>_. Inr (status, view)) i w = (r, w')"
  shows "\<exists>f. (\<forall>r. row_key (f r) = row_key r \<and> (siState (f r) = siState r \<or> siState r = SubmissionPending \<and> siID r = siID i
      \<and> siState (f r) = OutcomeState (DetermineOutcome status view i)))
    \<and> data w' = (data w) \<lparr> intents := map f (intents (data w)) \<rparr>"
proof (cases "DetermineOutcome status view i = OutcomeUnknown")
  case True
  then show ?thesis using assms by (intro exI [of _ "\<lambda>r. r"]) (simp add: reconcile_def ret_def)
next
  case False
  then obtain r' w1 dt where r': "Resolve (siID i) (OutcomeState (DetermineOutcome status view i)) dt (wall w) w = (r', w1)" and "w' = w1"
    using assms by (auto simp: reconcile_def Let_def bind_def time_now_def attempt_def ret_def split: prod.splits)
  then show ?thesis using Resolve_rows [OF r'] by simp
qed

definition inserted :: "submission_intent \<Rightarrow> sub_db \<Rightarrow> sub_db \<Rightarrow> submission_row \<Rightarrow> bool" where
  "inserted intent d d' row \<longleftrightarrow> d' = d \<lparr> intents := intents d @ [row] \<rparr> \<and> siState row = SubmissionPending
     \<and> IdempotencyReference row = IdempotencyReference intent \<and> siTransactionHash row = siTransactionHash intent
     \<and> ValidUntil row = timestamptz (ValidUntil intent) \<and> SubmittedAt row = None
     \<and> IdempotencyReference row \<notin> IdempotencyReference ` set (intents d) \<and> siID row \<notin> siID ` set (intents d)"

lemma insertIntent_rows:
  assumes "insertIntent gen intent w = (r, w')"
  shows "data w' = data w \<and> (\<forall>c. r \<noteq> Inr (Some c)) \<or>
    (\<exists>row. inserted intent (data w) (data w') row \<and> r = Inr (Some (submission_intent.truncate row)))"
  using assms
  by (auto simp: insertIntent_def inserted_def bind_def time_now_def new_uuid_def stmt_def Let_def split: if_splits)

lemma Claim_rows:
  assumes "Claim gen intent w = (r, w')"
  shows "data w' = data w \<and> (\<forall>c. r \<noteq> Inr (c, True)) \<or>
    (\<exists>row. inserted intent (data w) (data w') row \<and> r = Inr (submission_intent.truncate row, True))"
proof (cases "IdempotencyReference intent = ''''")
  case True
  then show ?thesis using assms by (auto simp: Claim_def fail_def)
next
  case False
  obtain r1 w1 where ins: "insertIntent gen intent w = (r1, w1)" by fastforce
  show ?thesis
  proof (cases "\<exists>c. r1 = Inr (Some c)")
    case True
    then have "w' = w1" "\<exists>c. r1 = Inr (Some c) \<and> r = Inr (c, True)" using assms False ins by (auto simp: Claim_def bind_def ret_def)
    then show ?thesis using insertIntent_rows [OF ins] by auto
  next
    case no: False
    then have "data w1 = data w" using insertIntent_rows [OF ins] by auto
    moreover have "data w' = data w1 \<and> (\<forall>c. r \<noteq> Inr (c, True))"
    proof (cases r1)
      case (Inr x)
      with no have "x = None" by (cases x) auto
      obtain r2 w2 where q: "getByReference (IdempotencyReference intent) w1 = (r2, w2)" by fastforce
      then have "data w2 = data w1" using query_data unfolding getByReference_def by (metis snd_conv)
      then show ?thesis
        using assms False ins Inr \<open>x = None\<close> q by (auto simp: Claim_def bind_def ret_def fail_def split: sum.splits if_splits)
    qed (use assms False ins in \<open>auto simp: Claim_def bind_def\<close>)
    ultimately show ?thesis by simp
  qed
qed

section \<open>Requests, reconcilers and the chain\<close>

text \<open>
  Requests and reconcilers of any number of instances run statement by statement, in any order, and
  may stop after each one. The hash of a transaction determines its upper time bound
  \<open>until\<close>. The network includes a transaction it was given at most once, in a ledger that closes not
  after that bound. \<open>handovers\<close> logs what was given to the RPC node, also when it did not get through.
\<close>

record csys =
  store :: "sub_db dbw"
  chainClock :: time
  included :: "(string \<times> time \<times> bool) list"
  network :: "(string \<times> time) list"
  owners :: "(uuid \<times> string \<times> string) list"
  handovers :: "(string \<times> string) list"
  replied :: "uuid list"
  tasks :: "submission_intent list"
  decided :: "(submission_intent \<times> string \<times> chain_view) list"

text \<open>
  What \<^verbatim>\<open>getTransaction\<close> answers: a result is one of a ledger, and a transaction that is not found is
  in no ledger between the oldest and the latest one the node has.
\<close>

definition answers :: "csys \<Rightarrow> string \<Rightarrow> string \<Rightarrow> chain_view \<Rightarrow> bool" where
  "answers S h status view \<longleftrightarrow> LatestLedgerCloseTime view \<le> chainClock S
     \<and> (status = TxStatusSuccess \<longrightarrow> (\<exists>t. (h, t, True) \<in> set (included S)))
     \<and> (status = TxStatusFailed \<longrightarrow> (\<exists>t. (h, t, False) \<in> set (included S)))
     \<and> (status = TxStatusNotFound \<longrightarrow> (\<forall>t ok. (h, t, ok) \<in> set (included S) \<longrightarrow>
          t < OldestLedgerCloseTime view \<or> LatestLedgerCloseTime view < t))"

text \<open>The memory of the node reaches back to the hand-over whenever it reaches the recorded time.\<close>

definition reaches_back :: "csys \<Rightarrow> submission_intent \<Rightarrow> chain_view \<Rightarrow> bool" where
  "reaches_back S i view \<longleftrightarrow> (OldestLedgerCloseTime view \<le> EarliestInclusion i \<longrightarrow>
     (\<forall>t0. (siTransactionHash i, t0) \<in> set (network S) \<longrightarrow> OldestLedgerCloseTime view \<le> t0))"

definition until :: "(string \<Rightarrow> int) \<Rightarrow> string \<Rightarrow> time" where
  "until maxTime h = time_Unix (maxTime h)"

inductive cstep :: "(nat \<Rightarrow> uuid) \<Rightarrow> (string \<Rightarrow> int) \<Rightarrow> bool \<Rightarrow> csys \<Rightarrow> csys \<Rightarrow> bool" for gen maxTime strict where
  ClaimStep: "Claim gen (newIntent op ref \<lparr> idHash = h, idValidUntil = until maxTime h \<rparr> now) (store S) = (r, w) \<Longrightarrow>
    0 < maxTime h \<Longrightarrow> maxTime h \<le> int64_max - 62135596800 \<Longrightarrow>
    cstep gen maxTime strict S (S \<lparr> store := w, owners := (case r of Inr (st, True) \<Rightarrow> (siID st, IdempotencyReference st, h) # owners S | _ \<Rightarrow> owners S) \<rparr>)"
| HandOver: "(i, ref, h) \<in> set (owners S) \<Longrightarrow>
    cstep gen maxTime strict S (S \<lparr> owners := remove1 (i, ref, h) (owners S), handovers := (ref, h) # handovers S,
      network := (if through then (h, chainClock S) # network S else network S), replied := i # replied S \<rparr>)"
| Mark: "i \<in> set (replied S) \<Longrightarrow> MarkSubmitted i t (store S) = (r, w) \<Longrightarrow>
    cstep gen maxTime strict S (S \<lparr> store := w, replied := remove1 i (replied S) \<rparr>)"
| Advance: "chainClock S \<le> t \<Longrightarrow> cstep gen maxTime strict S (S \<lparr> chainClock := t \<rparr>)"
| Include: "(h, t0) \<in> set (network S) \<Longrightarrow> chainClock S \<le> until maxTime h \<Longrightarrow> h \<notin> fst ` set (included S) \<Longrightarrow>
    cstep gen maxTime strict S (S \<lparr> included := (h, chainClock S, ok) # included S \<rparr>)"
| Batch: "ClaimPendingForReconcile locked n now (store S) = (r, w) \<Longrightarrow>
    cstep gen maxTime strict S (S \<lparr> store := w, tasks := (case r of Inr is \<Rightarrow> is | Inl _ \<Rightarrow> []) @ tasks S \<rparr>)"
| Ask: "i \<in> set (tasks S) \<Longrightarrow> answers S (siTransactionHash i) status view \<Longrightarrow> (strict \<Longrightarrow> reaches_back S i view) \<Longrightarrow>
    cstep gen maxTime strict S (S \<lparr> tasks := remove1 i (tasks S), decided := (i, status, view) # decided S \<rparr>)"
| Conclude: "(i, status, view) \<in> set (decided S) \<Longrightarrow> reconcile (\<lambda>_. Inr (status, view)) i (store S) = (r, w) \<Longrightarrow>
    cstep gen maxTime strict S (S \<lparr> store := w, decided := remove1 (i, status, view) (decided S) \<rparr>)"
| Crash: "cstep gen maxTime strict S (S \<lparr> owners := filter p1 (owners S), replied := filter p2 (replied S),
    tasks := filter p3 (tasks S), decided := filter p4 (decided S) \<rparr>)"
| Around: "intents (data w) = intents (data (store S)) \<Longrightarrow> cstep gen maxTime strict S (S \<lparr> store := w \<rparr>)"

definition csys0 :: "time \<Rightarrow> csys" where
  "csys0 t = \<lparr> store = \<lparr> data = \<lparr> intents = [], sent = [] \<rparr>, sched = [], drawn = 0, wall = t \<rparr>, chainClock = t, included = [], network = [],
     owners = [], handovers = [], replied = [], tasks = [], decided = [] \<rparr>"

abbreviation rows_of :: "csys \<Rightarrow> submission_row list" where
  "rows_of S \<equiv> intents (data (store S))"

text \<open>Every step rewrites rows in place, or appends one pending row of a new identity.\<close>

definition rewrites_rows :: "csys \<Rightarrow> csys \<Rightarrow> bool" where
  "rewrites_rows S S' \<longleftrightarrow> (\<exists>f. (\<forall>r. row_key (f r) = row_key r \<and> (Terminal (siState r) \<longrightarrow> siState (f r) = siState r)) \<and> rows_of S' = map f (rows_of S))"

definition appends :: "(string \<Rightarrow> int) \<Rightarrow> csys \<Rightarrow> csys \<Rightarrow> bool" where
  "appends maxTime S S' \<longleftrightarrow> (\<exists>row. rows_of S' = rows_of S @ [row] \<and> siState row = SubmissionPending
     \<and> ValidUntil row = timestamptz (until maxTime (siTransactionHash row)) \<and> 0 < maxTime (siTransactionHash row)
     \<and> maxTime (siTransactionHash row) \<le> int64_max - 62135596800
     \<and> IdempotencyReference row \<notin> IdempotencyReference ` set (rows_of S) \<and> siID row \<notin> siID ` set (rows_of S))"

lemma rewrites_rows_refl: "rows_of S' = rows_of S \<Longrightarrow> rewrites_rows S S'"
  unfolding rewrites_rows_def by (intro exI [of _ "\<lambda>r. r"]) simp

lemma keeps_rewrites: "\<exists>f. keeps f \<and> data w = (data (store S)) \<lparr> intents := map f (rows_of S) \<rparr> \<Longrightarrow> store S' = w \<Longrightarrow> rewrites_rows S S'"
  unfolding rewrites_rows_def keeps_def by auto

lemma cstep_rows: "cstep gen maxTime strict S S' \<Longrightarrow> rewrites_rows S S' \<or> appends maxTime S S'"
proof (induction rule: cstep.induct)
  case (ClaimStep op ref h now S r w)
  then show ?case
    using Claim_rows [OF ClaimStep(1)] by (fastforce simp: appends_def inserted_def newIntent_def intro: rewrites_rows_refl)
next
  case (Mark i S t r w)
  then show ?case using keeps_rewrites [OF MarkSubmitted_rows [OF Mark(2)]] by simp
next
  case (Batch locked n now S r w)
  then show ?case using keeps_rewrites [OF ClaimPending_rows [OF Batch(1)]] by simp
next
  case (Conclude i status view S r w)
  obtain f where f: "\<And>r. row_key (f r) = row_key r \<and> (siState (f r) = siState r \<or> siState r = SubmissionPending \<and> siID r = siID i
      \<and> siState (f r) = OutcomeState (DetermineOutcome status view i))" "data w = (data (store S)) \<lparr> intents := map f (rows_of S) \<rparr>"
    using reconcile_rows [OF Conclude(2)] by blast
  have "Terminal (siState r) \<longrightarrow> siState (f r) = siState r" for r using f(1) [of r] by (auto simp: Terminal_def)
  then show ?case using f by (intro disjI1) (auto simp: rewrites_rows_def intro!: exI [of _ f])
qed (auto intro: rewrites_rows_refl)

text \<open>
  The outcome of a submission is final: no later request, reconciliation, fault or crash changes
  a concluded submission, and its row is never lost.
\<close>

theorem submission_outcome_final:
  assumes "(cstep gen maxTime strict)\<^sup>*\<^sup>* S S'" and "r \<in> set (rows_of S)" and "Terminal (siState r)"
  shows "\<exists>r' \<in> set (rows_of S'). siID r' = siID r \<and> siTransactionHash r' = siTransactionHash r \<and> siState r' = siState r"
  using assms(1)
proof (induction rule: rtranclp_induct)
  case base
  then show ?case using assms(2) by blast
next
  case (step U V)
  then obtain u where u: "u \<in> set (rows_of U)" "siID u = siID r" "siTransactionHash u = siTransactionHash r" "siState u = siState r" by blast
  from cstep_rows [OF step(2)] show ?case
  proof
    assume "rewrites_rows U V"
    then obtain f where f: "row_key (f u) = row_key u" "siState (f u) = siState u" "rows_of V = map f (rows_of U)"
      using u assms(3) unfolding rewrites_rows_def by metis
    then have "f u \<in> set (rows_of V)" using u(1) by simp
    with f show ?thesis using u by (intro bexI [of _ "f u"]) (auto simp: row_key_def)
  qed (use u in \<open>auto simp: appends_def\<close>)
qed

section \<open>One hand-over per reference\<close>

definition claimed_refs :: "csys \<Rightarrow> string list" where
  "claimed_refs S = map (\<lambda>(i, ref, h). ref) (owners S) @ map fst (handovers S)"

definition once :: "csys \<Rightarrow> bool" where
  "once S \<longleftrightarrow> distinct (claimed_refs S) \<and> set (claimed_refs S) \<subseteq> IdempotencyReference ` set (rows_of S)
     \<and> distinct (map IdempotencyReference (rows_of S))"

lemma once_rewritten: "rewrites_rows S S' \<Longrightarrow> map IdempotencyReference (rows_of S') = map IdempotencyReference (rows_of S)"
  by (auto simp: rewrites_rows_def row_key_def)

lemma once_frame:
  assumes "rewrites_rows S S'" and "once S" and "distinct (claimed_refs S')" and "set (claimed_refs S') \<subseteq> set (claimed_refs S)"
  shows "once S'"
  using assms once_rewritten [OF assms(1)] unfolding once_def by (metis order_trans set_map)

lemma once_claimed:
  assumes "once S" and "claimed_refs S' = x # claimed_refs S" and "rows_of S' = rows_of S @ [row]"
    and "IdempotencyReference row = x" and "x \<notin> IdempotencyReference ` set (rows_of S)"
  shows "once S'"
  using assms unfolding once_def by auto

lemma mset_map_remove1: "x \<in> set xs \<Longrightarrow> mset (map f (remove1 x xs)) + {#f x#} = mset (map f xs)"
  by (induction xs) auto

lemma cstep_once: "cstep gen maxTime strict S S' \<Longrightarrow> once S \<Longrightarrow> once S'"
proof (induction rule: cstep.induct)
  case (ClaimStep op ref h now S r w)
  let ?S' = "S \<lparr> store := w, owners := (case r of Inr (st, True) \<Rightarrow> (siID st, IdempotencyReference st, h) # owners S | _ \<Rightarrow> owners S) \<rparr>"
  from Claim_rows [OF ClaimStep(1)] show ?case
  proof
    assume "data w = data (store S) \<and> (\<forall>c. r \<noteq> Inr (c, True))"
    then have "(case r of Inr (st, True) \<Rightarrow> (siID st, IdempotencyReference st, h) # owners S | _ \<Rightarrow> owners S) = owners S" "data w = data (store S)"
      by (auto split: sum.splits prod.splits bool.splits)
    then show ?thesis using ClaimStep(4) by (simp add: once_def claimed_refs_def)
  next
    assume "\<exists>row. inserted (newIntent op ref \<lparr> idHash = h, idValidUntil = until maxTime h \<rparr> now) (data (store S)) (data w) row
      \<and> r = Inr (submission_intent.truncate row, True)"
    then obtain row where row: "data w = (data (store S)) \<lparr> intents := rows_of S @ [row] \<rparr>" "r = Inr (submission_intent.truncate row, True)"
      "IdempotencyReference row \<notin> IdempotencyReference ` set (rows_of S)" unfolding inserted_def by blast
    show ?thesis
    proof (rule once_claimed [OF ClaimStep(4) _ _ refl row(3)])
      show "rows_of ?S' = rows_of S @ [row]" using row(1) by simp
    qed (use row(2) in \<open>simp add: claimed_refs_def submission_intent.truncate_def\<close>)
  qed
next
  case (HandOver i ref h S through)
  have "mset (map (\<lambda>(i, ref, h). ref) (remove1 (i, ref, h) (owners S))) + {#ref#} = mset (map (\<lambda>(i, ref, h). ref) (owners S))"
    using mset_map_remove1 [OF HandOver(1), of "\<lambda>(i, ref, h). ref"] by simp
  then have m: "mset (claimed_refs (S \<lparr> owners := remove1 (i, ref, h) (owners S), handovers := (ref, h) # handovers S,
      network := (if through then (h, chainClock S) # network S else network S), replied := i # replied S \<rparr>)) = mset (claimed_refs S)" (is "mset ?a = _")
    by (simp add: claimed_refs_def)
  show ?case
    by (rule once_frame [OF rewrites_rows_refl HandOver(2)]) (use HandOver(2) mset_eq_imp_distinct_iff [OF m] mset_eq_setD [OF m] in \<open>auto simp: once_def\<close>)
next
  case (Mark i S t r w)
  show ?case
    by (rule once_frame [OF keeps_rewrites [OF MarkSubmitted_rows [OF Mark(2)]] Mark(3)]) (use Mark(3) in \<open>simp_all add: once_def claimed_refs_def\<close>)
next
  case (Batch locked n now S r w)
  show ?case
    by (rule once_frame [OF keeps_rewrites [OF ClaimPending_rows [OF Batch(1)]] Batch(2)]) (use Batch(2) in \<open>simp_all add: once_def claimed_refs_def\<close>)
next
  case (Conclude i status view S r w)
  have "rewrites_rows S (S \<lparr> store := w, decided := remove1 (i, status, view) (decided S) \<rparr>)"
    using cstep_rows [OF cstep.Conclude [OF Conclude(1,2)]] reconcile_rows [OF Conclude(2)] by (fastforce simp: appends_def)
  then show ?case by (rule once_frame [OF _ Conclude(3)]) (use Conclude(3) in \<open>simp_all add: once_def claimed_refs_def\<close>)
next
  case (Crash S p1 p2 p3 p4)
  show ?case
    by (rule once_frame [OF rewrites_rows_refl Crash]) (use Crash in \<open>auto simp: once_def claimed_refs_def distinct_map_filter intro: rev_image_eqI\<close>)
qed (auto simp: once_def claimed_refs_def)

text \<open>
  C16: A logical operation reaches the chain at most once: whatever requests run at the same time,
  stop half-way or are repeated, no idempotency reference is handed to the node twice, and every
  hand-over has a durable record under its reference.
\<close>

theorem one_handover_per_reference:
  assumes "(cstep gen maxTime strict)\<^sup>*\<^sup>* (csys0 t) S"
  shows "distinct (map fst (handovers S)) \<and> fst ` set (handovers S) \<subseteq> IdempotencyReference ` set (rows_of S)"
proof -
  have "once (csys0 t)" by (simp add: csys0_def once_def claimed_refs_def)
  with assms have "once S" by (induction rule: rtranclp_induct) (auto intro: cstep_once)
  then show ?thesis by (auto simp: once_def claimed_refs_def)
qed

section \<open>Concluded submissions are true of the chain\<close>

definition justified :: "bool \<Rightarrow> (string \<Rightarrow> int) \<Rightarrow> csys \<Rightarrow> chain_outcome \<Rightarrow> string \<Rightarrow> bool" where
  "justified strict maxTime S outcome h = (case outcome of
     OutcomeLanded \<Rightarrow> \<exists>t. (h, t, True) \<in> set (included S)
   | OutcomeRejected \<Rightarrow> \<exists>t. (h, t, False) \<in> set (included S)
   | OutcomeProvenNotLanded \<Rightarrow> (strict \<longrightarrow> h \<notin> fst ` set (included S) \<and> until maxTime h < chainClock S)
   | _ \<Rightarrow> True)"

definition settled :: "bool \<Rightarrow> (string \<Rightarrow> int) \<Rightarrow> csys \<Rightarrow> submission_row \<Rightarrow> bool" where
  "settled strict maxTime S r \<longleftrightarrow> (\<exists>outcome. siState r = OutcomeState outcome \<and> justified strict maxTime S outcome (siTransactionHash r))"

definition rows_sound :: "bool \<Rightarrow> (string \<Rightarrow> int) \<Rightarrow> csys \<Rightarrow> bool" where
  "rows_sound strict maxTime S \<longleftrightarrow> distinct (map siID (rows_of S))
     \<and> (\<forall>r \<in> set (rows_of S). ValidUntil r = until maxTime (siTransactionHash r) \<and> settled strict maxTime S r)"

definition chain_sound :: "(string \<Rightarrow> int) \<Rightarrow> csys \<Rightarrow> bool" where
  "chain_sound maxTime S \<longleftrightarrow> (\<forall>(h, t0) \<in> set (network S). t0 \<le> chainClock S)
     \<and> (\<forall>(h, t, ok) \<in> set (included S). t \<le> until maxTime h \<and> (\<exists>t0 \<le> t. (h, t0) \<in> set (network S)))"

definition copy_of :: "(string \<Rightarrow> int) \<Rightarrow> csys \<Rightarrow> submission_intent \<Rightarrow> bool" where
  "copy_of maxTime S i \<longleftrightarrow> ValidUntil i = until maxTime (siTransactionHash i)
     \<and> (\<exists>r \<in> set (rows_of S). siID r = siID i \<and> siTransactionHash r = siTransactionHash i)"

definition work_sound :: "bool \<Rightarrow> (string \<Rightarrow> int) \<Rightarrow> csys \<Rightarrow> bool" where
  "work_sound strict maxTime S \<longleftrightarrow> (\<forall>i \<in> set (tasks S). copy_of maxTime S i)
     \<and> (\<forall>(i, status, view) \<in> set (decided S). copy_of maxTime S i \<and> justified strict maxTime S (DetermineOutcome status view i) (siTransactionHash i))"

definition sound :: "bool \<Rightarrow> (string \<Rightarrow> int) \<Rightarrow> csys \<Rightarrow> bool" where
  "sound strict maxTime S \<longleftrightarrow> rows_sound strict maxTime S \<and> chain_sound maxTime S \<and> work_sound strict maxTime S"

lemma timestamptz_until: "timestamptz (until maxTime h) = until maxTime h"
  by (simp add: timestamptz_def until_def time_Unix_def second_def microsecond_def)

lemma justified_same [simp]:
  "justified strict maxTime (S \<lparr> store := w \<rparr>) = justified strict maxTime S" "justified strict maxTime (S \<lparr> owners := a \<rparr>) = justified strict maxTime S"
  "justified strict maxTime (S \<lparr> handovers := b \<rparr>) = justified strict maxTime S" "justified strict maxTime (S \<lparr> network := c \<rparr>) = justified strict maxTime S"
  "justified strict maxTime (S \<lparr> replied := d \<rparr>) = justified strict maxTime S" "justified strict maxTime (S \<lparr> tasks := e \<rparr>) = justified strict maxTime S"
  "justified strict maxTime (S \<lparr> decided := g \<rparr>) = justified strict maxTime S"
  by (simp_all add: fun_eq_iff justified_def split: chain_outcome.split)

lemma justified_mono:
  "justified strict maxTime S outcome h \<Longrightarrow> chainClock S \<le> t \<Longrightarrow> justified strict maxTime (S \<lparr> chainClock := t \<rparr>) outcome h"
  "justified strict maxTime S outcome h \<Longrightarrow> chainClock S \<le> until maxTime h' \<Longrightarrow> justified strict maxTime (S \<lparr> included := (h', t', ok) # included S \<rparr>) outcome h"
  by (auto simp: justified_def split: chain_outcome.splits)

lemma rows_sound_map:
  assumes "rows_sound strict maxTime S" and "rows_of S' = map f (rows_of S)" and "\<And>r. row_key (f r) = row_key r"
    and "\<And>r. r \<in> set (rows_of S) \<Longrightarrow> settled strict maxTime S' (f r)"
  shows "rows_sound strict maxTime S'"
  using assms by (auto simp: rows_sound_def row_key_def o_def)

lemma copy_of_map:
  "rows_of S' = map f (rows_of S) \<Longrightarrow> (\<And>r. row_key (f r) = row_key r) \<Longrightarrow> copy_of maxTime S i \<Longrightarrow> copy_of maxTime S' i"
  by (fastforce simp: copy_of_def row_key_def)

text \<open>A step that only rewrites the fields of rows which the claims do not mention.\<close>

lemma sound_keeps:
  assumes "sound strict maxTime S" and "\<exists>f. keeps f \<and> data w = (data (store S)) \<lparr> intents := map f (rows_of S) \<rparr>"
    and "set T \<subseteq> set (tasks S) \<union> {i. copy_of maxTime S i}"
  shows "sound strict maxTime (S \<lparr> store := w, replied := R, tasks := T \<rparr>)" (is "sound _ _ ?S'")
proof -
  obtain f where k: "keeps f" and d: "data w = (data (store S)) \<lparr> intents := map f (rows_of S) \<rparr>" using assms(2) by blast
  have f: "\<And>r. row_key (f r) = row_key r" "\<And>r. siState (f r) = siState r" "rows_of ?S' = map f (rows_of S)"
    using k d by (simp_all add: keeps_def)
  have settled: "settled strict maxTime ?S' (f r)" if "r \<in> set (rows_of S)" for r
    using assms(1) that f(1) [of r] f(2) [of r] by (auto simp: sound_def rows_sound_def settled_def row_key_def)
  have "rows_sound strict maxTime ?S'" by (rule rows_sound_map [OF _ f(3,1) settled]) (use assms(1) in \<open>simp_all add: sound_def\<close>)
  moreover have "work_sound strict maxTime ?S'"
    using assms(1,3) copy_of_map [OF f(3,1)] by (fastforce simp: sound_def work_sound_def)
  ultimately show ?thesis using assms(1) by (simp add: sound_def chain_sound_def)
qed

lemma Ask_justified:
  assumes "sound strict maxTime S" and "i \<in> set (tasks S)" and "answers S (siTransactionHash i) status view" and "strict \<Longrightarrow> reaches_back S i view"
  shows "justified strict maxTime S (DetermineOutcome status view i) (siTransactionHash i)"
proof (cases "DetermineOutcome status view i")
  case OutcomeProvenNotLanded
  have v: "ValidUntil i = until maxTime (siTransactionHash i)" using assms(1,2) by (auto simp: sound_def work_sound_def copy_of_def)
  from OutcomeProvenNotLanded have d: "status = TxStatusNotFound" "ValidUntil i < LatestLedgerCloseTime view"
    "OldestLedgerCloseTime view \<le> EarliestInclusion i"
    by (auto simp: DetermineOutcome_def split: if_splits)
  have "siTransactionHash i \<notin> fst ` set (included S)" if strict
  proof (rule notI, elim imageE)
    fix x assume x: "siTransactionHash i = fst x" "x \<in> set (included S)"
    then obtain t ok where "(siTransactionHash i, t, ok) \<in> set (included S)" by (cases x) auto
    moreover from this assms(1) obtain t0 where "t \<le> until maxTime (siTransactionHash i)" "t0 \<le> t" "(siTransactionHash i, t0) \<in> set (network S)"
      by (fastforce simp: sound_def chain_sound_def)
    ultimately show False using assms(3) assms(4) [OF that] d v by (fastforce simp: answers_def reaches_back_def)
  qed
  then show ?thesis using OutcomeProvenNotLanded assms(3) d v by (auto simp: justified_def answers_def)
next
  case OutcomeLanded
  then have "status = TxStatusSuccess" by (auto simp: DetermineOutcome_def split: if_splits)
  then show ?thesis using OutcomeLanded assms(3) by (auto simp: justified_def answers_def)
next
  case OutcomeRejected
  then have "status = TxStatusFailed" by (auto simp: DetermineOutcome_def split: if_splits)
  then show ?thesis using OutcomeRejected assms(3) by (auto simp: justified_def answers_def)
qed (simp_all add: justified_def)

lemma sound_Claim:
  assumes "sound strict maxTime S" and "appends maxTime S (S \<lparr> store := w \<rparr>)"
  shows "sound strict maxTime (S \<lparr> store := w, owners := os \<rparr>)" (is "sound _ _ ?S'")
proof -
  obtain row where row: "rows_of ?S' = rows_of S @ [row]" "siState row = SubmissionPending" "siID row \<notin> siID ` set (rows_of S)"
    "ValidUntil row = until maxTime (siTransactionHash row)"
    using assms(2) by (auto simp: appends_def timestamptz_until)
  have "settled strict maxTime ?S' row" using row(2) by (auto simp: settled_def justified_def intro!: exI [of _ OutcomeUnknown])
  then have "rows_sound strict maxTime ?S'"
    using assms(1) row unfolding sound_def rows_sound_def by (auto simp: settled_def)
  moreover have "copy_of maxTime ?S' i" if "copy_of maxTime S i" for i using that row(1) by (auto simp: copy_of_def)
  then have "work_sound strict maxTime ?S'" using assms(1) by (fastforce simp: sound_def work_sound_def)
  ultimately show ?thesis using assms(1) by (simp add: sound_def chain_sound_def)
qed

lemma sound_Conclude:
  assumes "sound strict maxTime S" and "(i, status, view) \<in> set (decided S)" and "reconcile (\<lambda>_. Inr (status, view)) i (store S) = (r, w)"
  shows "sound strict maxTime (S \<lparr> store := w, decided := remove1 (i, status, view) (decided S) \<rparr>)" (is "sound _ _ ?S'")
proof -
  obtain f where f: "\<And>r. row_key (f r) = row_key r" "\<And>r. siState (f r) = siState r \<or> siState r = SubmissionPending \<and> siID r = siID i
      \<and> siState (f r) = OutcomeState (DetermineOutcome status view i)" "data w = (data (store S)) \<lparr> intents := map f (rows_of S) \<rparr>"
    using reconcile_rows [OF assms(3)] by blast
  then have rows: "rows_of ?S' = map f (rows_of S)" by simp
  have cp: "copy_of maxTime S i" and j: "justified strict maxTime S (DetermineOutcome status view i) (siTransactionHash i)"
    using assms(1,2) by (auto simp: sound_def work_sound_def)
  have settled: "settled strict maxTime ?S' (f r)" if r: "r \<in> set (rows_of S)" for r
  proof (cases "siState (f r) = siState r")
    case True
    then show ?thesis using assms(1) r f(1) [of r] by (auto simp: sound_def rows_sound_def settled_def row_key_def)
  next
    case False
    then have "siID r = siID i" "siState (f r) = OutcomeState (DetermineOutcome status view i)" using f(2) [of r] by auto
    moreover obtain r0 where r0: "r0 \<in> set (rows_of S)" "siID r0 = siID i" "siTransactionHash r0 = siTransactionHash i"
      using cp by (auto simp: copy_of_def)
    moreover have "inj_on siID (set (rows_of S))" using assms(1) by (simp add: sound_def rows_sound_def distinct_map)
    ultimately have "siState (f r) = OutcomeState (DetermineOutcome status view i)" "siTransactionHash r = siTransactionHash i"
      using r inj_onD [of siID "set (rows_of S)" r r0] by auto
    then show ?thesis using j f(1) [of r] by (auto simp: settled_def row_key_def)
  qed
  have "rows_sound strict maxTime ?S'" by (rule rows_sound_map [OF _ rows f(1) settled]) (use assms(1) in \<open>simp_all add: sound_def\<close>)
  moreover have "work_sound strict maxTime ?S'"
    using assms(1) copy_of_map [OF rows f(1)] set_remove1_subset [of "(i, status, view)" "decided S"] by (fastforce simp: sound_def work_sound_def)
  ultimately show ?thesis using assms(1) by (simp add: sound_def chain_sound_def)
qed

lemma cstep_sound: "cstep gen maxTime strict S S' \<Longrightarrow> sound strict maxTime S \<Longrightarrow> sound strict maxTime S'"
proof (induction rule: cstep.induct)
  case (ClaimStep op ref h now S r w)
  from Claim_rows [OF ClaimStep(1)] show ?case
  proof
    assume "data w = data (store S) \<and> (\<forall>c. r \<noteq> Inr (c, True))"
    then show ?thesis using ClaimStep(4) by (simp add: sound_def rows_sound_def settled_def chain_sound_def work_sound_def copy_of_def)
  next
    assume "\<exists>row. inserted (newIntent op ref \<lparr> idHash = h, idValidUntil = until maxTime h \<rparr> now) (data (store S)) (data w) row
      \<and> r = Inr (submission_intent.truncate row, True)"
    then have "appends maxTime S (S \<lparr> store := w \<rparr>)"
      using ClaimStep(2,3) by (auto simp: appends_def inserted_def newIntent_def)
    then show ?thesis by (rule sound_Claim [OF ClaimStep(4)])
  qed
next
  case (HandOver i ref h S through)
  then show ?case by (fastforce simp: sound_def rows_sound_def settled_def chain_sound_def work_sound_def copy_of_def)
next
  case (Mark i S t r w)
  then show ?case using sound_keeps [OF Mark(3) MarkSubmitted_rows [OF Mark(2)], of "tasks S" "remove1 i (replied S)"] by simp
next
  case (Advance S t)
  then show ?case
    by (fastforce simp: sound_def rows_sound_def settled_def chain_sound_def work_sound_def copy_of_def intro: justified_mono(1))
next
  case (Include h t0 S ok)
  then show ?case
    by (fastforce simp: sound_def rows_sound_def settled_def chain_sound_def work_sound_def copy_of_def intro: justified_mono(2))
next
  case (Batch locked n now S r w)
  have "set ((case r of Inr is \<Rightarrow> is | Inl _ \<Rightarrow> []) @ tasks S) \<subseteq> set (tasks S) \<union> {i. copy_of maxTime S i}"
    using Batch ClaimPending_batch [of locked n now "store S" _ w]
    by (fastforce simp: sound_def rows_sound_def copy_of_def submission_intent.truncate_def split: sum.splits)
  from sound_keeps [OF Batch(2) ClaimPending_rows [OF Batch(1)] this, of "replied S"] show ?case by simp
next
  case (Ask i S status view)
  have "justified strict maxTime S (DetermineOutcome status view i) (siTransactionHash i)"
    using Ask by (intro Ask_justified) auto
  moreover have "copy_of maxTime (S \<lparr> tasks := remove1 i (tasks S), decided := (i, status, view) # decided S \<rparr>) = copy_of maxTime S"
    by (simp add: fun_eq_iff copy_of_def)
  ultimately have "work_sound strict maxTime (S \<lparr> tasks := remove1 i (tasks S), decided := (i, status, view) # decided S \<rparr>)"
    using Ask(1,4) by (auto simp: sound_def work_sound_def dest: subsetD [OF set_remove1_subset])
  then show ?case using Ask(4) by (simp add: sound_def rows_sound_def settled_def chain_sound_def)
next
  case (Conclude i status view S r w)
  then show ?case by (intro sound_Conclude)
qed (auto simp: sound_def rows_sound_def settled_def chain_sound_def work_sound_def copy_of_def)

text \<open>
  C15: What the record says of a submission is true of the chain. In every state that requests,
  reconcilers, faults and crashes reach, a landed submission is in a ledger and succeeded, and a
  rejected one is in a ledger and failed. If in addition (\<open>strict\<close>) the history of the node never
  begins between the hand-over of a transaction and the time recorded for it when the node is
  asked, an expired submission is in no ledger and can not be in one later, because the clock of
  the chain is past its time bound; without that condition it can be wrong
  (\<open>landed_marked_expired\<close>). The time bounds of the envelopes are positive and at most
  \<open>int64_max - 62135596800\<close>, the largest that \<^verbatim>\<open>time.Unix\<close> represents
  (\<open>huge_bound_reads_as_expired\<close> shows what a larger one does).
\<close>

theorem submission_record_sound:
  assumes "(cstep gen maxTime strict)\<^sup>*\<^sup>* (csys0 t) S" and "r \<in> set (rows_of S)"
  shows "case siState r of
     SubmissionLanded \<Rightarrow> \<exists>t. (siTransactionHash r, t, True) \<in> set (included S)
   | SubmissionRejected \<Rightarrow> \<exists>t. (siTransactionHash r, t, False) \<in> set (included S)
   | SubmissionExpired \<Rightarrow> strict \<longrightarrow> (\<forall>S'. (cstep gen maxTime strict)\<^sup>*\<^sup>* S S' \<longrightarrow> siTransactionHash r \<notin> fst ` set (included S'))
   | _ \<Rightarrow> True"
proof -
  have "sound strict maxTime (csys0 t)" by (simp add: csys0_def sound_def rows_sound_def chain_sound_def work_sound_def)
  with assms(1) have "sound strict maxTime S" by (induction rule: rtranclp_induct) (auto intro: cstep_sound)
  then obtain outcome where o: "siState r = OutcomeState outcome" "justified strict maxTime S outcome (siTransactionHash r)"
    using assms(2) by (auto simp: sound_def rows_sound_def settled_def)
  have "siTransactionHash r \<notin> fst ` set (included S')"
    if "(cstep gen maxTime strict)\<^sup>*\<^sup>* S S'" "outcome = OutcomeProvenNotLanded" strict for S'
  proof -
    have "justified strict maxTime S' OutcomeProvenNotLanded (siTransactionHash r)"
      using that(1)
    proof (induction rule: rtranclp_induct)
      case (step U V)
      from step(2) step(3) show ?case by (induction rule: cstep.induct) (auto intro: justified_mono)
    qed (use o that in simp)
    then show ?thesis using that(3) by (simp add: justified_def)
  qed
  then show ?thesis using o by (cases outcome) (auto simp: justified_def)
qed

section \<open>Concrete runs\<close>

text \<open>The steps as a function, to evaluate runs; a step that is not enabled does nothing.\<close>

datatype cevent =
    PClaim string string time | PHand bool | PMark time | PAdvance time | PInclude string bool
  | PBatch time | PAsk string chain_view | PConclude

fun play1 :: "(nat \<Rightarrow> uuid) \<Rightarrow> (string \<Rightarrow> int) \<Rightarrow> bool \<Rightarrow> cevent \<Rightarrow> csys \<Rightarrow> csys" where
  "play1 gen maxTime strict (PClaim ref h now) S =
     (if 0 < maxTime h \<and> maxTime h \<le> int64_max - 62135596800
      then case Claim gen (newIntent ''GOP'' ref \<lparr> idHash = h, idValidUntil = until maxTime h \<rparr> now) (store S) of (r, w) \<Rightarrow>
        S \<lparr> store := w, owners := (case r of Inr (st, True) \<Rightarrow> (siID st, IdempotencyReference st, h) # owners S | _ \<Rightarrow> owners S) \<rparr>
      else S)"
| "play1 gen maxTime strict (PHand through) S = (case owners S of [] \<Rightarrow> S
   | (i, ref, h) # os \<Rightarrow> S \<lparr> owners := os, handovers := (ref, h) # handovers S,
        network := (if through then (h, chainClock S) # network S else network S), replied := i # replied S \<rparr>)"
| "play1 gen maxTime strict (PMark t) S = (case replied S of [] \<Rightarrow> S | i # is \<Rightarrow> S \<lparr> store := snd (MarkSubmitted i t (store S)), replied := is \<rparr>)"
| "play1 gen maxTime strict (PAdvance t) S = (if chainClock S \<le> t then S \<lparr> chainClock := t \<rparr> else S)"
| "play1 gen maxTime strict (PInclude h ok) S =
     (if h \<in> fst ` set (network S) \<and> chainClock S \<le> until maxTime h \<and> h \<notin> fst ` set (included S)
      then S \<lparr> included := (h, chainClock S, ok) # included S \<rparr> else S)"
| "play1 gen maxTime strict (PBatch now) S = (case ClaimPendingForReconcile {} 0 now (store S) of (r, w) \<Rightarrow>
     S \<lparr> store := w, tasks := (case r of Inr is \<Rightarrow> is | Inl _ \<Rightarrow> []) @ tasks S \<rparr>)"
| "play1 gen maxTime strict (PAsk status view) S = (case tasks S of [] \<Rightarrow> S
   | i # is \<Rightarrow> if answers S (siTransactionHash i) status view \<and> (strict \<longrightarrow> reaches_back S i view)
       then S \<lparr> tasks := is, decided := (i, status, view) # decided S \<rparr> else S)"
| "play1 gen maxTime strict PConclude S = (case decided S of [] \<Rightarrow> S
   | (i, status, view) # ds \<Rightarrow> S \<lparr> store := snd (reconcile (\<lambda>_. Inr (status, view)) i (store S)), decided := ds \<rparr>)"

definition play :: "(nat \<Rightarrow> uuid) \<Rightarrow> (string \<Rightarrow> int) \<Rightarrow> bool \<Rightarrow> cevent list \<Rightarrow> csys \<Rightarrow> csys" where
  "play gen maxTime strict es S = fold (play1 gen maxTime strict) es S"

lemma play1_step: "(cstep gen maxTime strict)\<^sup>*\<^sup>* S (play1 gen maxTime strict e S)"
proof (cases e)
  case (PClaim ref h now)
  then show ?thesis by (auto split: prod.splits intro!: r_into_rtranclp cstep.ClaimStep simp del: Product_Type.split_paired_All)
next
  case (PHand through)
  then show ?thesis
    using cstep.HandOver [of _ _ _ S gen maxTime strict through] by (fastforce split: list.splits intro: r_into_rtranclp)
next
  case (PMark t)
  then show ?thesis
    using cstep.Mark [OF _ prod.collapse [symmetric], of _ S gen maxTime strict t] by (fastforce split: list.splits intro: r_into_rtranclp)
next
  case (PAdvance t)
  then show ?thesis by (auto intro!: r_into_rtranclp cstep.Advance)
next
  case (PInclude h ok)
  then show ?thesis by (auto intro!: r_into_rtranclp cstep.Include)
next
  case (PBatch now)
  then show ?thesis by (auto split: prod.splits intro!: r_into_rtranclp cstep.Batch)
next
  case (PAsk status view)
  then show ?thesis
    using cstep.Ask [of _ S status view strict gen maxTime] by (fastforce split: list.splits intro: r_into_rtranclp)
next
  case PConclude
  then show ?thesis
    using cstep.Conclude [OF _ prod.collapse [symmetric], of _ _ _ S gen maxTime strict] by (fastforce split: list.splits intro: r_into_rtranclp)
qed

lemma play_steps: "(cstep gen maxTime strict)\<^sup>*\<^sup>* S (play gen maxTime strict es S)"
  unfolding play_def by (induction es arbitrary: S) (auto intro: rtranclp_trans [OF play1_step])

lemma answers_code [code]:
  "answers S h status view \<longleftrightarrow> LatestLedgerCloseTime view \<le> chainClock S
     \<and> (status = TxStatusSuccess \<longrightarrow> list_ex (\<lambda>(h', t, ok). h' = h \<and> ok) (included S))
     \<and> (status = TxStatusFailed \<longrightarrow> list_ex (\<lambda>(h', t, ok). h' = h \<and> \<not> ok) (included S))
     \<and> (status = TxStatusNotFound \<longrightarrow> list_all (\<lambda>(h', t, ok). h' = h \<longrightarrow> t < OldestLedgerCloseTime view \<or> LatestLedgerCloseTime view < t) (included S))"
proof -
  have "list_ex (\<lambda>(h', t, ok). h' = h \<and> ok) xs \<longleftrightarrow> (\<exists>t. (h, t, True) \<in> set xs)"
    "list_ex (\<lambda>(h', t, ok). h' = h \<and> \<not> ok) xs \<longleftrightarrow> (\<exists>t. (h, t, False) \<in> set xs)"
    "list_all (\<lambda>(h', t, ok). h' = h \<longrightarrow> Q t) xs \<longleftrightarrow> (\<forall>t ok. (h, t, ok) \<in> set xs \<longrightarrow> Q t)" for xs :: "(string \<times> time \<times> bool) list" and Q
    by (induction xs) auto
  then show ?thesis unfolding answers_def by (simp only:)
qed

lemma reaches_back_code [code]:
  "reaches_back S i view \<longleftrightarrow> (OldestLedgerCloseTime view \<le> EarliestInclusion i \<longrightarrow>
     list_all (\<lambda>(h, t0). h = siTransactionHash i \<longrightarrow> OldestLedgerCloseTime view \<le> t0) (network S))"
  by (auto simp: reaches_back_def list_all_iff)

definition bound0 :: "string \<Rightarrow> int" where "bound0 h = 1000"

text \<open>Two requests with one reference; the transaction lands although its response was lost.\<close>

definition landed_run :: "cevent list" where
  "landed_run = [PClaim ''ref'' ''h1'' (time_Unix 700), PClaim ''ref'' ''h1'' (time_Unix 701), PHand True, PAdvance (time_Unix 705),
     PInclude ''h1'' True, PMark (time_Unix 730), PBatch (time_Unix 740), PAsk ''SUCCESS'' \<lparr> LatestLedgerCloseTime = time_Unix 705, OldestLedgerCloseTime = time_Unix 600 \<rparr>, PConclude]"

definition expired_run :: "cevent list" where
  "expired_run = [PClaim ''ref'' ''h1'' (time_Unix 700), PHand False, PMark (time_Unix 730), PAdvance (time_Unix 1001),
     PBatch (time_Unix 1001), PAsk ''NOT_FOUND'' \<lparr> LatestLedgerCloseTime = time_Unix 1001, OldestLedgerCloseTime = time_Unix 600 \<rparr>, PConclude]"

theorem submission_record_sound_witness:
  "map siState (rows_of (play Suc bound0 False landed_run (csys0 (time_Unix 700)))) = [SubmissionLanded]
   \<and> (\<exists>t. (''h1'', t, True) \<in> set (included (play Suc bound0 False landed_run (csys0 (time_Unix 700)))))
   \<and> map siState (rows_of (play Suc bound0 True expired_run (csys0 (time_Unix 700)))) = [SubmissionExpired]
   \<and> ''h1'' \<notin> fst ` set (included (play Suc bound0 True [PAdvance (time_Unix 2000), PInclude ''h1'' True]
        (play Suc bound0 True expired_run (csys0 (time_Unix 700)))))"
proof -
  let ?S = "play Suc bound0 False landed_run (csys0 (time_Unix 700))" and ?T = "play Suc bound0 True expired_run (csys0 (time_Unix 700))"
  have m: "map siState (rows_of ?S) = [SubmissionLanded]" "map siTransactionHash (rows_of ?S) = [''h1'']" by code_simp+
  then obtain r where r: "r \<in> set (rows_of ?S)" "siState r = SubmissionLanded" "siTransactionHash r = ''h1''"
    by (cases "rows_of ?S") auto
  have n: "map siState (rows_of ?T) = [SubmissionExpired]" "map siTransactionHash (rows_of ?T) = [''h1'']" by code_simp+
  then obtain q where q: "q \<in> set (rows_of ?T)" "siState q = SubmissionExpired" "siTransactionHash q = ''h1''"
    by (cases "rows_of ?T") auto
  have 1: "\<exists>t. (''h1'', t, True) \<in> set (included ?S)" using submission_record_sound [OF play_steps r(1)] r(2,3) by simp
  have "\<forall>S'. (cstep Suc bound0 True)\<^sup>*\<^sup>* ?T S' \<longrightarrow> ''h1'' \<notin> fst ` set (included S')"
    using submission_record_sound [OF play_steps q(1)] q(2,3) by simp
  then have 2: "''h1'' \<notin> fst ` set (included (play Suc bound0 True [PAdvance (time_Unix 2000), PInclude ''h1'' True] ?T))"
    using play_steps [of Suc bound0 True ?T] by blast
  show ?thesis by (intro conjI m(1) 1 n(1) 2)
qed

theorem one_handover_per_reference_witness:
  "map fst (handovers (play Suc bound0 True landed_run (csys0 (time_Unix 700)))) = [''ref'']
   \<and> distinct (map fst (handovers (play Suc bound0 True landed_run (csys0 (time_Unix 700)))))"
proof
  show "map fst (handovers (play Suc bound0 True landed_run (csys0 (time_Unix 700)))) = [''ref'']" by code_simp
  from one_handover_per_reference [OF play_steps] show "distinct (map fst (handovers (play Suc bound0 True landed_run (csys0 (time_Unix 700)))))" by blast
qed

theorem submission_outcome_final_witness:
  "let S = play Suc bound0 True expired_run (csys0 (time_Unix 700)); S' = play Suc bound0 True [PBatch (time_Unix 2000), PClaim ''ref'' ''h1'' (time_Unix 2000)] S
   in map siState (rows_of S) = [SubmissionExpired] \<and> (\<exists>r' \<in> set (rows_of S'). siTransactionHash r' = ''h1'' \<and> siState r' = SubmissionExpired)"
proof -
  let ?S = "play Suc bound0 True expired_run (csys0 (time_Unix 700))"
  have m: "map siState (rows_of ?S) = [SubmissionExpired]" "map siTransactionHash (rows_of ?S) = [''h1'']" by code_simp+
  then obtain r where r: "r \<in> set (rows_of ?S)" "siState r = SubmissionExpired" "siTransactionHash r = ''h1''"
    by (cases "rows_of ?S") auto
  then have "Terminal (siState r)" by (simp add: Terminal_def)
  from submission_outcome_final [OF play_steps r(1) this] r m(1) show ?thesis by (simp only: Let_def) blast
qed

text \<open>
  Without the condition on the node's history the record can be wrong: the time recorded for a
  hand-over is taken after the call, so the transaction may be in an earlier ledger, and a node whose
  history begins in between answers that it does not know it. The submission is marked expired
  although it landed.
\<close>

lemma landed_marked_expired:
  "\<exists>S r. (cstep Suc bound0 False)\<^sup>*\<^sup>* (csys0 (time_Unix 700)) S \<and> r \<in> set (rows_of S) \<and> siState r = SubmissionExpired
     \<and> (siTransactionHash r, time_Unix 705, True) \<in> set (included S)"
proof -
  let ?es = "[PClaim ''ref'' ''h1'' (time_Unix 700), PHand True, PAdvance (time_Unix 705), PInclude ''h1'' True, PMark (time_Unix 730),
     PAdvance (time_Unix 9000), PBatch (time_Unix 9000), PAsk ''NOT_FOUND'' \<lparr> LatestLedgerCloseTime = time_Unix 9000, OldestLedgerCloseTime = time_Unix 710 \<rparr>, PConclude]"
  let ?S = "play Suc bound0 False ?es (csys0 (time_Unix 700))"
  have m: "map siState (rows_of ?S) = [SubmissionExpired]" "map siTransactionHash (rows_of ?S) = [''h1'']"
    "included ?S = [(''h1'', time_Unix 705, True)]" by code_simp+
  then obtain r where "r \<in> set (rows_of ?S)" "siState r = SubmissionExpired" "siTransactionHash r = ''h1''"
    by (cases "rows_of ?S") auto
  then show ?thesis using m(3) play_steps by (intro exI [of _ ?S] exI [of _ r]) simp
qed

section \<open>A call of \<^verbatim>\<open>send\<close> as a run of the system\<close>

lemma Claim_sent: "Claim gen intent w = (r, w') \<Longrightarrow> sent (data w') = sent (data w)"
  using Claim_rows [of gen intent w r w'] by (auto simp: inserted_def)

lemma Claim_names:
  assumes "Claim gen (newIntent op ref ident now) w = (Inr (c, True), w')"
  shows "IdempotencyReference c = (if ref = '''' then ''tx:'' @ idHash ident else ref)"
  using Claim_rows [OF assms] by (auto simp: inserted_def newIntent_def submission_intent.truncate_def)

text \<open>
  C17: A call of \<^verbatim>\<open>send\<close> with a store is a run of the concurrent system: it claims the reference, hands
  the envelope over only after the claim succeeded and at most once, and then records the attempt.
  What it leaves in the tables is what that run leaves, and its hand-over is logged there.
\<close>

theorem send_refines_requests:
  assumes "IdentifyTransaction xdr env = Inr \<lparr> idHash = h, idValidUntil = until maxTime h \<rparr>"
    and "0 < maxTime h" and "maxTime h \<le> int64_max - 62135596800"
    and "send gen xdr rpc True op ref env (store S) = (x, w')"
  shows "\<exists>S'. (cstep gen maxTime strict)\<^sup>*\<^sup>* S S' \<and> store S' = w'
    \<and> (sent (data w') = sent (data (store S)) \<and> handovers S' = handovers S
       \<or> sent (data w') = sent (data (store S)) @ [env] \<and> handovers S' = (if ref = '''' then ''tx:'' @ h else ref, h) # handovers S)"
proof -
  have nz: "\<not> time_is_zero (until maxTime h)"
    using assms(2,3) by (simp add: time_is_zero_def until_def time_Unix_def second_def in_int64_def int64_min_def int64_max_def)
  let ?i = "newIntent op ref \<lparr> idHash = h, idValidUntil = until maxTime h \<rparr> (wall (store S))"
  obtain c w1 where cl: "Claim gen ?i (store S) = (c, w1)" by fastforce
  note run = assms(4) [unfolded send_def, simplified assms(1) nz, simplified]
  show ?thesis
  proof (cases "\<exists>st. c = Inr (st, True)")
    case False
    then have "w' = w1" using run cl
      by (auto simp: nz bind_def time_now_def attempt_def ret_def split: sum.splits prod.splits bool.splits)
    moreover have "(case c of Inr (st, True) \<Rightarrow> (siID st, IdempotencyReference st, h) # owners S | _ \<Rightarrow> owners S) = owners S"
      using False by (auto split: sum.splits prod.splits bool.splits)
    ultimately show ?thesis
      using cstep.ClaimStep [OF cl assms(2,3), of strict] Claim_sent [OF cl]
      by (intro exI [of _ "S \<lparr> store := w1, owners := owners S \<rparr>"]) (auto intro: r_into_rtranclp)
  next
    case True
    then obtain st where st: "c = Inr (st, True)" by blast
    let ?w2 = "w1 \<lparr> data := (data w1) \<lparr> sent := sent (data w1) @ [env] \<rparr> \<rparr>"
    obtain m w3 where mk: "MarkSubmitted (siID st) (wall w1) ?w2 = (m, w3)" by fastforce
    have w': "w' = w3" using run cl st mk
      by (auto simp: nz bind_def time_now_def attempt_def ret_def submitEnvelope_def local_def split: prod.splits)
    let ?ref = "IdempotencyReference st"
    let ?S1 = "S \<lparr> store := w1, owners := (siID st, ?ref, h) # owners S \<rparr>"
    let ?S2 = "?S1 \<lparr> owners := owners S, handovers := (?ref, h) # handovers S, network := (h, chainClock S) # network S, replied := siID st # replied S \<rparr>"
    let ?S3 = "?S2 \<lparr> store := ?w2 \<rparr>"
    let ?S4 = "?S3 \<lparr> store := w3, replied := replied S \<rparr>"
    have "cstep gen maxTime strict S ?S1" using cstep.ClaimStep [OF cl assms(2,3), of strict] st by simp
    moreover have "cstep gen maxTime strict ?S1 ?S2"
      using cstep.HandOver [of "siID st" ?ref h ?S1 gen maxTime strict True] by simp
    moreover have "cstep gen maxTime strict ?S2 ?S3" by (rule cstep.Around) simp
    moreover have "cstep gen maxTime strict ?S3 ?S4" using cstep.Mark [of "siID st" ?S3 "wall w1" m w3 gen maxTime strict] mk by simp
    ultimately have "(cstep gen maxTime strict)\<^sup>*\<^sup>* S ?S4" by (meson rtranclp.rtrancl_into_rtrancl rtranclp.rtrancl_refl)
    moreover have "sent (data w3) = sent (data (store S)) @ [env]"
      using MarkSubmitted_rows [OF mk] Claim_sent [OF cl] by auto
    ultimately show ?thesis using w' Claim_names [OF cl [unfolded st]] by (intro exI [of _ ?S4]) simp
  qed
qed

section \<open>The reconciler decides\<close>

lemma outcome_known_iff:
  "DetermineOutcome status view i \<noteq> OutcomeUnknown \<longleftrightarrow> status = TxStatusSuccess \<or> status = TxStatusFailed
     \<or> status = TxStatusNotFound \<and> ViewValid view \<and> \<not> time_is_zero (ValidUntil i) \<and> ValidUntil i < LatestLedgerCloseTime view"
  by (auto simp: DetermineOutcome_def TxStatusSuccess_def TxStatusFailed_def TxStatusNotFound_def)

lemma truncate_same [simp]:
  "siID (submission_intent.truncate r) = siID r" "siTransactionHash (submission_intent.truncate r) = siTransactionHash r"
  "ValidUntil (submission_intent.truncate r) = ValidUntil r"
  by (simp_all add: submission_intent.truncate_def)

definition row_in :: "uuid \<Rightarrow> submission_state set \<Rightarrow> sub_db dbw \<Rightarrow> bool" where
  "row_in i sts w \<longleftrightarrow> sched w = [] \<and> (\<exists>r \<in> set (intents (data w)). siID r = i \<and> siState r \<in> sts)"

lemma row_in_map:
  "sched w' = [] \<Longrightarrow> intents (data w') = map f rs \<Longrightarrow> r \<in> set rs \<Longrightarrow> siID (f r) = i \<Longrightarrow> siState (f r) \<in> sts \<Longrightarrow> row_in i sts w'"
  by (auto simp: row_in_def)

lemma reconcile_quiet:
  assumes "sched w = []"
  shows "sched (snd (reconcile lookup k w)) = []"
    and "\<exists>f. (\<forall>r. siID (f r) = siID r \<and> (siState r \<noteq> SubmissionPending \<or> siID r \<noteq> siID k \<longrightarrow> siState (f r) = siState r))
      \<and> intents (data (snd (reconcile lookup k w))) = map f (intents (data w))"
proof -
  show "sched (snd (reconcile lookup k w)) = []"
    using assms by (auto simp: reconcile_def Let_def Resolve_def updateIntent_def attempt_def bind_def time_now_def stmt_def ret_def fail_def
        split: sum.splits prod.splits if_splits)
  show "\<exists>f. (\<forall>r. siID (f r) = siID r \<and> (siState r \<noteq> SubmissionPending \<or> siID r \<noteq> siID k \<longrightarrow> siState (f r) = siState r))
      \<and> intents (data (snd (reconcile lookup k w))) = map f (intents (data w))"
  proof (cases "lookup (siTransactionHash k)")
    case (Inl e)
    then show ?thesis by (intro exI [of _ "\<lambda>r. r"]) (simp add: reconcile_def ret_def)
  next
    case (Inr x)
    then obtain status view where x: "lookup (siTransactionHash k) = Inr (status, view)" by (cases x) auto
    then have same: "reconcile lookup k = reconcile (\<lambda>_. Inr (status, view)) k" by (simp add: fun_eq_iff reconcile_def)
    obtain a w' where rc: "reconcile (\<lambda>_. Inr (status, view)) k w = (a, w')" by fastforce
    obtain f where f: "\<And>r. row_key (f r) = row_key r" "\<And>r. siState (f r) = siState r \<or> siState r = SubmissionPending \<and> siID r = siID k"
        "data w' = (data w) \<lparr> intents := map f (intents (data w)) \<rparr>"
      using reconcile_rows [OF rc] by blast
    have f': "intents (data (snd (reconcile lookup k w))) = map f (intents (data w))" by (simp add: same rc f(3))
    have "siID (f r) = siID r \<and> (siState r \<noteq> SubmissionPending \<or> siID r \<noteq> siID k \<longrightarrow> siState (f r) = siState r)" for r
      using f(1,2) [of r] by (auto simp: row_key_def)
    then show ?thesis using f' by blast
  qed
qed

lemma reconcile_keeps_row:
  assumes "row_in i sts w" and "SubmissionPending \<notin> sts \<or> siID k \<noteq> i"
  shows "row_in i sts (snd (reconcile lookup k w))"
proof -
  obtain r where r: "sched w = []" "r \<in> set (intents (data w))" "siID r = i" "siState r \<in> sts" using assms(1) by (auto simp: row_in_def)
  obtain f where f: "\<And>r. siID (f r) = siID r" "\<And>r. siState r \<noteq> SubmissionPending \<or> siID r \<noteq> siID k \<Longrightarrow> siState (f r) = siState r"
      "intents (data (snd (reconcile lookup k w))) = map f (intents (data w))"
    using reconcile_quiet(2) [OF r(1)] by blast
  have "siState r \<noteq> SubmissionPending \<or> siID r \<noteq> siID k" using r(3,4) assms(2) by metis
  from f(2) [OF this] show ?thesis
    using r(3,4) f(1) by (intro row_in_map [OF reconcile_quiet(1) [OF r(1)] f(3) r(2)]) simp_all
qed

lemma reconcile_settles:
  assumes "row_in (siID i) {SubmissionPending} w" and "lookup (siTransactionHash i) = Inr (status, view)"
    and "DetermineOutcome status view i \<noteq> OutcomeUnknown"
  shows "row_in (siID i) {OutcomeState (DetermineOutcome status view i)} (snd (reconcile lookup i w))"
proof -
  obtain r where r: "sched w = []" "r \<in> set (intents (data w))" "siID r = siID i" "siState r = SubmissionPending"
    using assms(1) by (auto simp: row_in_def)
  have ns: "OutcomeState (DetermineOutcome status view i) \<noteq> SubmissionPending" using assms(3) by (cases "DetermineOutcome status view i") auto
  let ?dt = "''chain reported '' @ status @ ''; outcome '' @ OutcomeString (DetermineOutcome status view i)"
  let ?f = "\<lambda>r. if siID r = siID i \<and> siState r = SubmissionPending
      then r \<lparr> siState := OutcomeState (DetermineOutcome status view i), OutcomeDetail := ?dt, ResolvedAt := Some (timestamptz (wall w)),
             last_reconciled_at := Some (timestamptz (wall w)), reconcile_attempts := reconcile_attempts r + 1 \<rparr> else r"
  have "intents (data (snd (reconcile lookup i w))) = map ?f (intents (data w))"
    using r(1) assms(2,3) ns by (simp add: reconcile_def Let_def Resolve_def updateIntent_def attempt_def bind_def time_now_def stmt_def ret_def fail_def)
  then show ?thesis
    using r(3,4) by (intro row_in_map [OF reconcile_quiet(1) [OF r(1)] _ r(2), of _ _ ?f]) simp_all
qed

lemma reconcileAll_settles:
  assumes "i \<in> set is" and "\<And>k. k \<in> set is \<Longrightarrow> siID k = siID i \<Longrightarrow> k = i" and "lookup (siTransactionHash i) = Inr (status, view)"
    and "DetermineOutcome status view i \<noteq> OutcomeUnknown" and "row_in (siID i) {SubmissionPending} w"
  shows "row_in (siID i) {OutcomeState (DetermineOutcome status view i)} (snd (reconcileAll lookup (\<lambda>_. False) is w))"
  using assms
proof (induction "is" arbitrary: w)
  case (Cons k ks)
  let ?T = "{OutcomeState (DetermineOutcome status view i)}"
  have ns: "SubmissionPending \<notin> ?T" using Cons.prems(4) by (cases "DetermineOutcome status view i") auto
  have rest: "row_in (siID i) ?T v \<Longrightarrow> row_in (siID i) ?T (snd (reconcileAll lookup (\<lambda>_. False) js v))" for js v
  proof (induction js arbitrary: v)
    case (Cons j js)
    obtain v1 where v1: "reconcile lookup j v = (Inr (), v1)"
      by (cases "reconcile lookup j v") (auto simp: reconcile_def Let_def bind_def time_now_def attempt_def ret_def split: sum.splits prod.splits if_splits)
    then have "row_in (siID i) ?T v1" using reconcile_keeps_row [OF Cons(2), of j lookup] ns by auto
    from Cons.IH [OF this] v1 show ?case by (simp add: bind_def)
  qed (simp add: ret_def)
  obtain w1 where w1: "reconcile lookup k w = (Inr (), w1)"
    by (cases "reconcile lookup k w") (auto simp: reconcile_def Let_def bind_def time_now_def attempt_def ret_def split: sum.splits prod.splits if_splits)
  show ?case
  proof (cases "siID k = siID i")
    case True
    then have "k = i" using Cons.prems(2) by auto
    then have "row_in (siID i) ?T w1" using reconcile_settles [of i w lookup status view] Cons.prems(3-5) w1 by simp
    from rest [OF this] w1 show ?thesis by (simp add: bind_def)
  next
    case False
    then have "row_in (siID i) {SubmissionPending} w1" using reconcile_keeps_row [OF Cons.prems(5), of k lookup] w1 by auto
    moreover have "i \<in> set ks" using Cons.prems(1) False by auto
    ultimately show ?thesis using Cons.IH [of w1] Cons.prems(2-4) w1 by (simp add: bind_def)
  qed
qed simp

text \<open>
  C18: The reconciler decides: a sweep of the leader that is not cancelled, finds no row locked, meets
  no database fault and has at most fifty submissions due (its batch) concludes every due
  submission about which the chain has an answer, with the state that the answer calls for. The
  chain has an answer once the transaction is in a ledger, and at the latest when its clock is past
  the time bound.
\<close>

theorem reconciler_decides:
  assumes ids: "distinct (map siID (intents (data w)))" and r: "r \<in> set (intents (data w))" "siState r = SubmissionPending" "next_reconcile_at r \<le> wall w"
    and few: "length (filter (\<lambda>r. siState r = SubmissionPending \<and> next_reconcile_at r \<le> wall w) (intents (data w))) \<le> 50"
    and quiet: "sched w = []" and ans: "lookup (siTransactionHash r) = Inr (status, view)"
    and known: "status = TxStatusSuccess \<or> status = TxStatusFailed
       \<or> status = TxStatusNotFound \<and> ViewValid view \<and> ValidUntil r \<noteq> 0 \<and> ValidUntil r < LatestLedgerCloseTime view"
  shows "\<exists>r' \<in> set (intents (data (snd (ReconcilerTick True {} DefaultReconcileBatch lookup (\<lambda>_. False) w)))).
    siID r' = siID r \<and> Terminal (siState r') \<and> siState r' = OutcomeState (DetermineOutcome status view (submission_intent.truncate r))"
proof -
  let ?i = "submission_intent.truncate r" and ?rows = "intents (data w)"
  let ?due = "dueIntents {} 50 (wall w) ?rows"
  let ?w = "w \<lparr> data := (data w) \<lparr> intents := map (\<lambda>r. if siID r \<in> siID ` set ?due
       then r \<lparr> next_reconcile_at := timestamptz (wall w + DefaultReconcileBackoff) \<rparr> else r) ?rows \<rparr> \<rparr>"
  have claim: "ClaimPendingForReconcile {} DefaultReconcileBatch (wall w) w = (Inr (map submission_intent.truncate ?due), ?w)"
    using quiet by (simp add: ClaimPendingForReconcile_def transaction_def stmt_def DefaultReconcileBatch_def Let_def)
  have "set ?due = {r \<in> set ?rows. siState r = SubmissionPending \<and> next_reconcile_at r \<le> wall w}"
    using few by (simp add: dueIntents_def)
  then have due: "r \<in> set ?due" "\<And>k. k \<in> set ?due \<Longrightarrow> siID k = siID r \<Longrightarrow> k = r"
    using r ids by (auto simp: distinct_map dest: inj_onD)
  have uniq: "k = ?i" if k: "k \<in> set (map submission_intent.truncate ?due)" "siID k = siID ?i" for k
  proof -
    obtain x where "x \<in> set ?due" "k = submission_intent.truncate x" using k(1) by auto
    with due(2) [of x] k(2) show ?thesis by simp
  qed
  have o: "DetermineOutcome status view ?i \<noteq> OutcomeUnknown" using known by (simp add: outcome_known_iff time_is_zero_def)
  have "row_in (siID ?i) {SubmissionPending} ?w"
    using r(2) quiet
    by (intro row_in_map [of ?w "\<lambda>r. if siID r \<in> siID ` set ?due
       then r \<lparr> next_reconcile_at := timestamptz (wall w + DefaultReconcileBackoff) \<rparr> else r" ?rows, OF _ _ r(1)]) simp_all
  then have "row_in (siID ?i) {OutcomeState (DetermineOutcome status view ?i)} (snd (reconcileAll lookup (\<lambda>_. False) (map submission_intent.truncate ?due) ?w))"
    using due(1) ans by (intro reconcileAll_settles [OF _ uniq _ o]) simp_all
  moreover have "ReconcilerTick True {} DefaultReconcileBatch lookup (\<lambda>_. False) w = reconcileAll lookup (\<lambda>_. False) (map submission_intent.truncate ?due) ?w"
    by (simp add: ReconcilerTick_def bind_def time_now_def attempt_def claim)
  moreover have "Terminal (OutcomeState (DetermineOutcome status view ?i))" using o by (cases "DetermineOutcome status view ?i") (auto simp: Terminal_def)
  ultimately show ?thesis by (auto simp: row_in_def)
qed

definition pending0 :: "sub_db dbw" where
  "pending0 = store (play Suc bound0 True (take 3 expired_run) (csys0 (time_Unix 700))) \<lparr> wall := time_Unix 1001 \<rparr>"

definition late_view :: chain_view where
  "late_view = \<lparr> LatestLedgerCloseTime = time_Unix 1001, OldestLedgerCloseTime = time_Unix 600 \<rparr>"

theorem reconciler_decides_witness:
  "map siState (intents (data pending0)) = [SubmissionPending] \<and>
   (\<exists>r' \<in> set (intents (data (snd (ReconcilerTick True {} DefaultReconcileBatch (\<lambda>_. Inr (''NOT_FOUND'', late_view)) (\<lambda>_. False) pending0)))). Terminal (siState r'))"
proof -
  have m: "map siState (intents (data pending0)) = [SubmissionPending]" "sched pending0 = []"
    "list_all (\<lambda>r. next_reconcile_at r \<le> wall pending0 \<and> ValidUntil r \<noteq> 0 \<and> ValidUntil r < LatestLedgerCloseTime late_view) (intents (data pending0))"
    "ViewValid late_view" by code_simp+
  then obtain r where r: "intents (data pending0) = [r]" "siState r = SubmissionPending" by (cases "intents (data pending0)") auto
  from reconciler_decides [of pending0 r "\<lambda>_. Inr (''NOT_FOUND'', late_view)" "''NOT_FOUND''" late_view] m r show ?thesis
    by (fastforce simp: TxStatusNotFound_def)
qed

definition xdr0 :: "string \<Rightarrow> parsed" where
  "xdr0 env = (if env = ''E1'' then Parsed (Inr ''h1'') (Some 1000) else NotParsed ''bad'')"

theorem send_refines_requests_witness:
  "\<exists>S'. (cstep Suc bound0 True)\<^sup>*\<^sup>* (csys0 (time_Unix 700)) S'
     \<and> store S' = snd (send Suc xdr0 (\<lambda>_. CallFailed ''timeout'') True ''GOP'' '''' ''E1'' (store (csys0 (time_Unix 700))))
     \<and> handovers S' = [(''tx:h1'', ''h1'')]"
proof -
  let ?x = "send Suc xdr0 (\<lambda>_. CallFailed ''timeout'') True ''GOP'' '''' ''E1'' (store (csys0 (time_Unix 700)))"
  have 1: "IdentifyTransaction xdr0 ''E1'' = Inr \<lparr> idHash = ''h1'', idValidUntil = until bound0 ''h1'' \<rparr>" by code_simp
  have 2: "0 < bound0 ''h1''" "bound0 ''h1'' \<le> int64_max - 62135596800" by code_simp+
  have 3: "sent (data (snd ?x)) = [''E1'']" "sent (data (store (csys0 (time_Unix 700)))) = []" "handovers (csys0 (time_Unix 700)) = []" by code_simp+
  from send_refines_requests [where gen = Suc and rpc = "\<lambda>_. CallFailed ''timeout''" and op = "''GOP''" and ref = "''''" and S = "csys0 (time_Unix 700)"
      and strict = True, OF 1 2 prod.collapse [symmetric]] 3
  show ?thesis by auto
qed

section \<open>Waiting\<close>

definition conclusive :: "(nat \<Rightarrow> bool) \<Rightarrow> (nat \<Rightarrow> get_tx_result rpc_reply) \<Rightarrow> nat \<Rightarrow> bool" where
  "conclusive ended answer n \<longleftrightarrow> ended n \<or> (case answer n of Result r \<Rightarrow> gtStatus r = TxStatusSuccess \<or> gtStatus r = TxStatusFailed | _ \<Rightarrow> True)"

definition verdict :: "(nat \<Rightarrow> bool) \<Rightarrow> (nat \<Rightarrow> get_tx_result rpc_reply) \<Rightarrow> string \<Rightarrow> nat \<Rightarrow> wait_error option" where
  "verdict ended answer hash n = (if ended n then Some ErrContext else case answer n of
     CallFailed e \<Rightarrow> Some (ErrCall e) | RPCError e \<Rightarrow> Some (ErrCall e)
   | Result r \<Rightarrow> if gtStatus r = TxStatusSuccess then None else Some (ErrTxFailed hash))"

lemma waitForTx_step:
  "waitForTx ended answer hash n = (if conclusive ended answer n then Some (verdict ended answer hash n) else waitForTx ended answer hash (Suc n))"
  by (subst waitForTx.simps) (auto simp: conclusive_def verdict_def split: rpc_reply.splits)

lemma waitForTx_first:
  "conclusive ended answer (n + k) \<Longrightarrow> (\<And>j. j < k \<Longrightarrow> \<not> conclusive ended answer (n + j)) \<Longrightarrow>
   waitForTx ended answer hash n = Some (verdict ended answer hash (n + k))"
proof (induction k arbitrary: n)
  case 0
  then show ?case by (subst waitForTx_step) simp
next
  case (Suc k)
  have "\<not> conclusive ended answer n" using Suc.prems(2) [of 0] by simp
  moreover have "waitForTx ended answer hash (Suc n) = Some (verdict ended answer hash (Suc n + k))"
    using Suc.IH [of "Suc n"] Suc.prems(1) Suc.prems(2) [of "Suc _"] by simp
  ultimately show ?case by (subst waitForTx_step) simp
qed

lemma waitForTx_only_if: "waitForTx ended answer hash n = Some y \<Longrightarrow> \<exists>k. conclusive ended answer (n + k)"
proof (rule waitForTx.raw_induct [of "\<lambda>ended answer hash n y. \<exists>k. conclusive ended answer (n + k)"], goal_cases)
  case (1 f ended answer hash n y)
  show ?case
  proof (cases "conclusive ended answer n")
    case True
    then show ?thesis by (intro exI [of _ 0]) simp
  next
    case False
    then have "f ended answer hash (Suc n) = Some y" using 1(3) by (auto simp: conclusive_def split: rpc_reply.splits if_splits)
    from 1(2) [OF this] obtain k where "conclusive ended answer (Suc n + k)" by blast
    then show ?thesis by (intro exI [of _ "Suc k"]) simp
  qed
qed simp

text \<open>
  C19: Waiting for a transaction returns exactly when some round is conclusive, by the end of the
  context, a failing call, or a result of the transaction, and then with the verdict of the first
  such round; a node that answers that it does not know the transaction keeps it waiting.
\<close>

theorem waitForTx_returns_iff:
  "waitForTx ended answer hash 0 =
     (if \<exists>n. conclusive ended answer n then Some (verdict ended answer hash (LEAST n. conclusive ended answer n)) else None)"
proof (cases "\<exists>n. conclusive ended answer n")
  case True
  define k where "k = (LEAST n. conclusive ended answer n)"
  have "conclusive ended answer k" using True unfolding k_def by (rule LeastI_ex)
  moreover have "\<not> conclusive ended answer j" if "j < k" for j using that unfolding k_def by (rule not_less_Least)
  ultimately have "waitForTx ended answer hash 0 = Some (verdict ended answer hash k)"
    using waitForTx_first [of ended answer 0 k hash] by simp
  then show ?thesis using True by (simp add: k_def)
next
  case False
  then have "waitForTx ended answer hash 0 = None" using waitForTx_only_if [of ended answer hash 0] by (cases "waitForTx ended answer hash 0") auto
  then show ?thesis using False by simp
qed

section \<open>Close times and slippage\<close>

lemma ParseInt_itoa:
  assumes "in_int64 n"
  shows "ParseInt (itoa n) = Some n"
proof -
  have d: "digits m \<noteq> []" for m by (subst digits.simps) simp
  have nd: "hd (digits m) \<noteq> CHR ''+'' \<and> hd (digits m) \<noteq> CHR ''-''" if "0 \<le> m" for m
    using digits_are_digits [OF that] d [of m] by (cases "digits m") (auto simp: is_digit_def)
  show ?thesis
  proof (cases "n < 0")
    case True
    then show ?thesis using assms d [of "- n"] digits_are_digits [of "- n"] by (simp add: ParseInt_def itoa_def)
  next
    case False
    then obtain c cs where c: "digits n = c # cs" using d [of n] by (cases "digits n") auto
    have "undigits (c # cs) = n" using undigits_digits [of n] False by (simp add: c)
    then show ?thesis
      using assms False nd [of n] digits_are_digits [of n] by (simp add: ParseInt_def itoa_def c Let_def)
  qed
qed

text \<open>
  The minimum that a withdrawal accepts is the preview less the tolerance, rounded down, for every
  preview up to 92 million units; it is never more than the preview.
\<close>

lemma min_assets_out_exact:
  assumes "0 < previewAmount" and "previewAmount \<le> int64_max div 10000" and "ResolveSlippageBps requested configured = Some bps"
  shows "ComputeMinAssetsOut previewAmount bps = previewAmount * (10000 - bps) div 10000
    \<and> 0 \<le> ComputeMinAssetsOut previewAmount bps \<and> ComputeMinAssetsOut previewAmount bps \<le> previewAmount
    \<and> previewAmount * (10000 - bps) < (ComputeMinAssetsOut previewAmount bps + 1) * 10000"
proof -
  have bps: "0 < bps" "bps \<le> 300"
    using assms(3) by (auto simp: ResolveSlippageBps_def ValidateSlippageBps_def MaxWithdrawalSlippageBps_def Let_def split: if_splits)
  have "previewAmount * (10000 - bps) \<le> previewAmount * 10000" using assms(1) bps by (intro mult_left_mono) auto
  moreover have "previewAmount * 10000 \<le> int64_max" using assms(2) by (simp add: int64_max_def)
  moreover have "0 \<le> previewAmount * (10000 - bps)" using assms(1) bps by simp
  moreover have "wrap64 (10000 - bps) = 10000 - bps" using bps by (intro wrap64_id) (auto simp: in_int64_def int64_min_def int64_max_def)
  ultimately have r: "in_int64 (previewAmount * (10000 - bps))" "0 \<le> previewAmount * (10000 - bps)" "wrap64 (10000 - bps) = 10000 - bps"
    and le: "previewAmount * (10000 - bps) \<le> previewAmount * 10000"
    by (auto simp: in_int64_def int64_min_def)
  have "ComputeMinAssetsOut previewAmount bps = previewAmount * (10000 - bps) div 10000"
    using assms(1) unfolding ComputeMinAssetsOut_def r(3) wrap64_id [OF r(1)] go_quot_nonneg [OF r(2) zero_less_numeral] by simp
  moreover have "previewAmount * (10000 - bps) div 10000 \<le> previewAmount"
    using zdiv_mono1 [OF le, of 10000] by simp
  moreover have "0 \<le> previewAmount * (10000 - bps) div 10000" using assms(1) bps by (simp add: pos_imp_zdiv_nonneg_iff)
  moreover have "previewAmount * (10000 - bps) < (previewAmount * (10000 - bps) div 10000 + 1) * 10000" by presburger
  ultimately show ?thesis by simp
qed

lemma min_assets_out_exact_witness:
  "ResolveSlippageBps 0 0 = Some 50 \<and> ComputeMinAssetsOut 12345 50 = 12345 * 9950 div 10000"
proof -
  have r: "ResolveSlippageBps 0 0 = Some 50" by code_simp
  have "(12345 :: int) \<le> int64_max div 10000" by (simp add: int64_max_def)
  from min_assets_out_exact [OF _ this r] r show ?thesis by simp
qed

text \<open>Beyond that the product wraps around, and the floor that protects the withdrawal is negative.\<close>

lemma min_assets_out_wraps: "ComputeMinAssetsOut 1000000000000000 50 < 0"
  by code_simp

text \<open>
  A time bound just below the largest int64 is meant to be treated as none; the seconds wrap around
  instead, and the transaction counts as expired from the start.
\<close>

lemma huge_bound_reads_as_expired:
  "\<exists>ident. IdentifyTransaction (\<lambda>_. Parsed (Inr ''h'') (Some int64_max)) ''E'' = Inr ident \<and> idValidUntil ident < 0"
  by (rule exI [of _ "\<lparr> idHash = ''h'', idValidUntil = time_Unix int64_max \<rparr>"]) (simp add: IdentifyTransaction_def, code_simp)

end
