(* ===== verification/Idempotency.thy ===== *)
theory Idempotency
  imports Database Encoding "HOL-Library.Multiset"
begin

text \<open>
  \<^verbatim>\<open>middleware/idempotency.go\<close> and \<^verbatim>\<open>repository/postgres/idempotency_repository.go\<close>, with the route
  patterns of \<^verbatim>\<open>middleware/ratelimit_routes.go\<close>: a request on a money path claims its key in the table,
  runs the handler and stores the response, and a repeated request is answered from the table. The
  wrapped handler is a parameter; the state logs each of its runs. \<open>gone\<close> says that the client went
  away while the handler ran, which ends the context of the request.
\<close>

section \<open>Routes\<close>

record route_match =
  rmMethod :: string
  rmPath :: string

definition isPathWildcard :: "string \<Rightarrow> bool" where
  "isPathWildcard seg \<longleftrightarrow> 2 \<le> length seg \<and> hd seg = CHR ''{'' \<and> last seg = CHR ''}''"

definition trim_slash :: "string \<Rightarrow> string" where
  "trim_slash p = rev (dropWhile (\<lambda>c. c = CHR ''/'') (rev (dropWhile (\<lambda>c. c = CHR ''/'') p)))"

fun split_slash :: "string \<Rightarrow> string list" where
  "split_slash [] = [[]]"
| "split_slash (c # cs) = (if c = CHR ''/'' then [] # split_slash cs
     else case split_slash cs of s # ss \<Rightarrow> (c # s) # ss | [] \<Rightarrow> [[c]])"

definition splitPath :: "string \<Rightarrow> string list" where
  "splitPath p = (let q = trim_slash p in if q = '''' then [] else split_slash q)"

definition matchPathPattern :: "string \<Rightarrow> string \<Rightarrow> bool" where
  "matchPathPattern pattern path =
     (if pattern = path then True
      else let pSegs = splitPath pattern; pathSegs = splitPath path
           in length pSegs = length pathSegs \<and>
              list_all (\<lambda>(seg, s). if isPathWildcard seg then s \<noteq> '''' else seg = s) (zip pSegs pathSegs))"

definition matchesRoute :: "route_match list \<Rightarrow> string \<Rightarrow> string \<Rightarrow> bool" where
  "matchesRoute routes method path = list_ex (\<lambda>rt. method = rmMethod rt \<and> matchPathPattern (rmPath rt) path) routes"

definition VaultMoneyPathIdempotencyRoutes :: "route_match list" where
  "VaultMoneyPathIdempotencyRoutes =
     [\<lparr> rmMethod = ''POST'', rmPath = ''/api/v1/vaults/{id}/deposit'' \<rparr>,
      \<lparr> rmMethod = ''POST'', rmPath = ''/api/v1/vaults/{id}/withdraw'' \<rparr>,
      \<lparr> rmMethod = ''POST'', rmPath = ''/api/v1/vaults/{id}/harvest'' \<rparr>,
      \<lparr> rmMethod = ''POST'', rmPath = ''/api/v1/vaults/{id}/rebalance'' \<rparr>,
      \<lparr> rmMethod = ''POST'', rmPath = ''/api/v1/vault/rebalance'' \<rparr>]"

section \<open>The table of keys\<close>

datatype key_status = InProgress | Completed

record idem_row =
  irUser :: uuid
  irKey :: string
  irFingerprint :: string
  irStatus :: key_status
  irResponseStatus :: "int option"
  irBody :: "string option"
  irContentType :: "string option"
  irCompletedAt :: "time option"
  irExpiresAt :: time

record idem_record =
  Fingerprint :: string
  recStatus :: key_status
  ResponseStatus :: int
  ResponseBody :: string
  ResponseContentType :: string

record idem_db =
  idemKeys :: "idem_row list"
  idemUsers :: "uuid list"
  runs :: "(uuid \<times> string) list"

datatype idem_error = ErrIdempotencyKeyNotFound | ErrContextDone

type_synonym 'a idb = "(idem_db, idem_error, 'a) db"

definition at_key :: "uuid \<Rightarrow> string \<Rightarrow> idem_row \<Rightarrow> bool" where
  "at_key u k r \<longleftrightarrow> irUser r = u \<and> irKey r = k"

definition pgGetKey :: "uuid \<Rightarrow> string \<Rightarrow> idem_record idb" where
  "pgGetKey u k = query (\<lambda>d. case List.find (at_key u k) (idemKeys d) of
     None \<Rightarrow> Inl (App ErrIdempotencyKeyNotFound)
   | Some r \<Rightarrow> Inr \<lparr> Fingerprint = irFingerprint r, recStatus = irStatus r,
       ResponseStatus = (case irResponseStatus r of None \<Rightarrow> 0 | Some n \<Rightarrow> n),
       ResponseBody = (case irBody r of None \<Rightarrow> '''' | Some b \<Rightarrow> b),
       ResponseContentType = (case irContentType r of None \<Rightarrow> '''' | Some t \<Rightarrow> t) \<rparr>)"

definition pgClaimKey :: "uuid \<Rightarrow> string \<Rightarrow> string \<Rightarrow> duration \<Rightarrow> idem_record option idb" where
  "pgClaimKey u k fp ttl =
     bind time_now (\<lambda>now.
     bind (stmt (\<lambda>d.
       if k = '''' then Inl Violation
       else if list_ex (at_key u k) (idemKeys d) then Inr (False, d)
       else if u \<notin> set (idemUsers d) then Inl Violation
       else Inr (True, d \<lparr> idemKeys := idemKeys d @ [\<lparr> irUser = u, irKey = k, irFingerprint = fp, irStatus = InProgress,
              irResponseStatus = None, irBody = None, irContentType = None, irCompletedAt = None, irExpiresAt = now + ttl \<rparr>] \<rparr>))) (\<lambda>claimed.
       if claimed then ret None else bind (pgGetKey u k) (\<lambda>existing. ret (Some existing))))"

definition pgComplete :: "uuid \<Rightarrow> string \<Rightarrow> int \<Rightarrow> string \<Rightarrow> string \<Rightarrow> unit idb" where
  "pgComplete u k status body ctype = bind time_now (\<lambda>now.
     stmt (\<lambda>d. Inr ((), d \<lparr> idemKeys := map (\<lambda>r. if at_key u k r
       then r \<lparr> irStatus := Completed, irResponseStatus := Some status, irBody := Some body, irContentType := Some ctype, irCompletedAt := Some now \<rparr>
       else r) (idemKeys d) \<rparr>)))"

definition pgRelease :: "uuid \<Rightarrow> string \<Rightarrow> unit idb" where
  "pgRelease u k = stmt (\<lambda>d. Inr ((), d \<lparr> idemKeys := filter (\<lambda>r. \<not> (at_key u k r \<and> irStatus r = InProgress)) (idemKeys d) \<rparr>))"

definition pgPurgeExpired :: "int idb" where
  "pgPurgeExpired = bind time_now (\<lambda>now. stmt (\<lambda>d.
     Inr (int (length (filter (\<lambda>r. irExpiresAt r < now) (idemKeys d))), d \<lparr> idemKeys := filter (\<lambda>r. \<not> irExpiresAt r < now) (idemKeys d) \<rparr>)))"

section \<open>The middleware\<close>

record request =
  rqMethod :: string
  rqPath :: string
  rqUser :: "uuid option"
  rqKey :: string
  rqBody :: "string option"

record response =
  rsStatus :: int
  rsBody :: string
  rsContentType :: string
  rsReplayed :: bool
  rsRetryAfter :: bool

datatype handled = Responded response | Panicked

definition maxIdempotencyBodyBytes :: int where "maxIdempotencyBodyBytes = 1048576"
definition defaultIdempotencyTTL :: duration where "defaultIdempotencyTTL = 24 * hour"
definition concurrentWaitTotal :: duration where "concurrentWaitTotal = 2 * second"
definition concurrentWaitPoll :: duration where "concurrentWaitPoll = 100 * millisecond"
definition completeMaxRetries :: nat where "completeMaxRetries = 3"

definition httpError :: "int \<Rightarrow> string \<Rightarrow> response" where
  "httpError status msg = \<lparr> rsStatus = status, rsBody = msg @ [char_of (10 :: nat)], rsContentType = ''text/plain; charset=utf-8'', rsReplayed = False, rsRetryAfter = False \<rparr>"

definition scopedIdempotencyKey :: "string \<Rightarrow> string \<Rightarrow> string \<Rightarrow> string" where
  "scopedIdempotencyKey method path clientKey = method @ '' '' @ path @ [char_of (31 :: nat)] @ clientKey"

definition fingerprintInput :: "string \<Rightarrow> string \<Rightarrow> string \<Rightarrow> string" where
  "fingerprintInput method path body = method @ [char_of (0 :: nat)] @ path @ [char_of (0 :: nat)] @ body"

definition fingerprintRequest :: "(string \<Rightarrow> string) \<Rightarrow> string \<Rightarrow> string \<Rightarrow> string \<Rightarrow> string" where
  "fingerprintRequest hash method path body = hash (fingerprintInput method path body)"

definition writeStoredResponse :: "idem_record \<Rightarrow> response" where
  "writeStoredResponse rec = \<lparr> rsStatus = (if ResponseStatus rec = 0 then 200 else ResponseStatus rec), rsBody = ResponseBody rec,
     rsContentType = ResponseContentType rec, rsReplayed = True, rsRetryAfter = False \<rparr>"

text \<open>A call under the context of the request.\<close>

definition under_ctx :: "bool \<Rightarrow> 'a idb \<Rightarrow> 'a idb" where
  "under_ctx ended m = (if ended then fail (App ErrContextDone) else m)"

fun completeWithRetry :: "bool \<Rightarrow> nat \<Rightarrow> uuid \<Rightarrow> string \<Rightarrow> int \<Rightarrow> string \<Rightarrow> string \<Rightarrow> bool idb" where
  "completeWithRetry ended 0 u k status body ctype = ret False"
| "completeWithRetry ended (Suc n) u k status body ctype =
     bind (attempt (under_ctx ended (pgComplete u k status body ctype))) (\<lambda>r.
       case r of Inr _ \<Rightarrow> ret True
       | Inl _ \<Rightarrow> if ended then ret False else completeWithRetry ended n u k status body ctype)"

text \<open>
  The wait for another request: round \<open>n\<close> sleeps, and its query takes \<open>latency n\<close> more and sees the
  table as \<open>seen n\<close>. The clock only moves forward, so the deadline ends the loop.
\<close>

function waitExisting :: "time \<Rightarrow> (nat \<Rightarrow> nat) \<Rightarrow> (nat \<Rightarrow> idem_error db_error + idem_record) \<Rightarrow> time \<Rightarrow> nat \<Rightarrow> idem_record option" where
  "waitExisting deadline latency seen now n =
     (if now < deadline then
        (case seen n of
           Inl (App ErrIdempotencyKeyNotFound) \<Rightarrow> None
         | Inl _ \<Rightarrow> waitExisting deadline latency seen (now + concurrentWaitPoll + int (latency n)) (Suc n)
         | Inr rec \<Rightarrow> if recStatus rec = Completed then Some rec
             else waitExisting deadline latency seen (now + concurrentWaitPoll + int (latency n)) (Suc n))
      else None)"
  by pat_completeness auto

termination
  by (relation "measure (\<lambda>(deadline, latency, seen, now, n). nat (deadline - now))")
    (auto simp: concurrentWaitPoll_def millisecond_def)

definition serveExisting :: "(nat \<Rightarrow> nat) \<Rightarrow> (nat \<Rightarrow> idem_error db_error + idem_record) \<Rightarrow> time \<Rightarrow> string \<Rightarrow> idem_record \<Rightarrow> response" where
  "serveExisting latency seen now fp existing =
     (if Fingerprint existing \<noteq> fp then httpError 409 ''Idempotency-Key was already used with a different request''
      else if recStatus existing = Completed then writeStoredResponse existing
      else case waitExisting (now + concurrentWaitTotal) latency seen now 0 of
        Some rec \<Rightarrow> writeStoredResponse rec
      | None \<Rightarrow> (httpError 425 ''a request with this Idempotency-Key is already in progress; retry shortly'') \<lparr> rsRetryAfter := True \<rparr>)"

text \<open>The handler, as a function of the number of its run; the run is logged.\<close>

definition serveHTTP :: "(nat \<Rightarrow> handled) \<Rightarrow> uuid \<Rightarrow> string \<Rightarrow> handled idb" where
  "serveHTTP handler u k = bind (peek (\<lambda>d. handler (length (runs d)))) (\<lambda>h.
     bind (local (\<lambda>d. d \<lparr> runs := runs d @ [(u, k)] \<rparr>)) (\<lambda>_. ret h))"

definition runClaimed :: "(nat \<Rightarrow> handled) \<Rightarrow> bool \<Rightarrow> uuid \<Rightarrow> string \<Rightarrow> handled idb" where
  "runClaimed handler gone u k =
     bind (serveHTTP handler u k) (\<lambda>h.
       case h of
         Panicked \<Rightarrow> bind (attempt (pgRelease u k)) (\<lambda>_. ret Panicked)
       | Responded resp \<Rightarrow>
           bind (completeWithRetry gone completeMaxRetries u k (rsStatus resp) (rsBody resp) (rsContentType resp)) (\<lambda>stored.
             if stored then ret (Responded resp) else bind (attempt (pgRelease u k)) (\<lambda>_. ret (Responded resp))))"

definition IdempotencyMiddleware :: "(string \<Rightarrow> string) \<Rightarrow> route_match list \<Rightarrow> (nat \<Rightarrow> handled) \<Rightarrow> bool \<Rightarrow> (nat \<Rightarrow> nat) \<Rightarrow>
    (nat \<Rightarrow> idem_error db_error + idem_record) \<Rightarrow> request \<Rightarrow> handled idb" where
  "IdempotencyMiddleware hash routes handler gone latency seen r =
     (if \<not> matchesRoute routes (rqMethod r) (rqPath r) then serveHTTP handler uuid_nil ''''
      else case rqUser r of
        None \<Rightarrow> ret (Responded (httpError 500 ''idempotency middleware requires an authenticated request''))
      | Some u \<Rightarrow>
          if rqKey r = '''' then ret (Responded (httpError 400 ''Idempotency-Key header is required for this endpoint''))
          else case rqBody r of
            None \<Rightarrow> ret (Responded (httpError 400 ''failed to read request body''))
          | Some body \<Rightarrow>
              if maxIdempotencyBodyBytes < int (length body) then ret (Responded (httpError 413 ''request body too large''))
              else let k = scopedIdempotencyKey (rqMethod r) (rqPath r) (rqKey r); fp = fingerprintRequest hash (rqMethod r) (rqPath r) body in
                bind time_now (\<lambda>now.
                bind (attempt (pgClaimKey u k fp defaultIdempotencyTTL)) (\<lambda>claim.
                  case claim of
                    Inl _ \<Rightarrow> ret (Responded (httpError 500 ''idempotency check failed''))
                  | Inr (Some existing) \<Rightarrow> ret (Responded (serveExisting latency seen now fp existing))
                  | Inr None \<Rightarrow> runClaimed handler gone u k)))"

section \<open>Overlapping requests\<close>

text \<open>
  Requests of any number of instances, call by call. \<open>claimed\<close> holds the keys whose handler is to run,
  \<open>answered\<close> those whose response is to be stored, \<open>giving_up\<close> those to be released; \<open>freed\<close> logs each
  row that a release or the purge deleted.
\<close>

record isys =
  table :: "idem_db dbw"
  claimed :: "(uuid \<times> string) list"
  answered :: "((uuid \<times> string) \<times> response) list"
  giving_up :: "(uuid \<times> string) list"
  freed :: "(uuid \<times> string) list"

definition row_of :: "idem_row \<Rightarrow> uuid \<times> string" where
  "row_of r = (irUser r, irKey r)"

abbreviation keys_of :: "isys \<Rightarrow> (uuid \<times> string) list" where
  "keys_of S \<equiv> map row_of (idemKeys (data (table S)))"

text \<open>The rows that a statement deleted.\<close>

definition deleted :: "idem_db \<Rightarrow> idem_db \<Rightarrow> (uuid \<times> string) list" where
  "deleted d d' = filter (\<lambda>x. x \<notin> row_of ` set (idemKeys d')) (map row_of (idemKeys d))"

inductive istep :: "isys \<Rightarrow> isys \<Rightarrow> bool" where
  IClaim: "pgClaimKey u k fp ttl (table S) = (r, w) \<Longrightarrow>
    istep S (S \<lparr> table := w, claimed := (if r = Inr None then (u, k) # claimed S else claimed S) \<rparr>)"
| IRun: "(u, k) \<in> set (claimed S) \<Longrightarrow> serveHTTP handler u k (table S) = (Inr h, w) \<Longrightarrow>
    istep S (S \<lparr> table := w, claimed := remove1 (u, k) (claimed S),
      answered := (case h of Responded resp \<Rightarrow> ((u, k), resp) # answered S | Panicked \<Rightarrow> answered S),
      giving_up := (case h of Responded _ \<Rightarrow> giving_up S | Panicked \<Rightarrow> (u, k) # giving_up S) \<rparr>)"
| IComplete: "((u, k), resp) \<in> set (answered S) \<Longrightarrow> pgComplete u k (rsStatus resp) (rsBody resp) (rsContentType resp) (table S) = (r, w) \<Longrightarrow>
    istep S (S \<lparr> table := w, answered := (if r = Inr () then remove1 ((u, k), resp) (answered S) else answered S) \<rparr>)"
| IGiveUp: "((u, k), resp) \<in> set (answered S) \<Longrightarrow>
    istep S (S \<lparr> answered := remove1 ((u, k), resp) (answered S), giving_up := (u, k) # giving_up S \<rparr>)"
| IRelease: "(u, k) \<in> set (giving_up S) \<Longrightarrow> pgRelease u k (table S) = (r, w) \<Longrightarrow>
    istep S (S \<lparr> table := w, giving_up := remove1 (u, k) (giving_up S), freed := deleted (data (table S)) (data w) @ freed S \<rparr>)"
| IPurge: "pgPurgeExpired (table S) = (r, w) \<Longrightarrow> istep S (S \<lparr> table := w, freed := deleted (data (table S)) (data w) @ freed S \<rparr>)"
| ICrash: "istep S (S \<lparr> claimed := filter p1 (claimed S), answered := filter p2 (answered S), giving_up := filter p3 (giving_up S) \<rparr>)"
| IAround: "data w = data (table S) \<Longrightarrow> istep S (S \<lparr> table := w \<rparr>)"

definition isys0 :: "uuid list \<Rightarrow> time \<Rightarrow> isys" where
  "isys0 us t = \<lparr> table = \<lparr> data = \<lparr> idemKeys = [], idemUsers = us, runs = [] \<rparr>, sched = [], drawn = 0, wall = t \<rparr>,
     claimed = [], answered = [], giving_up = [], freed = [] \<rparr>"

lemma pgGetKey_data: "data (snd (pgGetKey u k w)) = data w"
  unfolding pgGetKey_def by (rule query_data)

lemma pgClaimKey_effect:
  assumes "pgClaimKey u k fp ttl w = (r, w')"
  shows "data w' = data w \<and> r \<noteq> Inr None \<or>
    (\<exists>row. data w' = (data w) \<lparr> idemKeys := idemKeys (data w) @ [row] \<rparr> \<and> row_of row = (u, k) \<and> (u, k) \<notin> row_of ` set (idemKeys (data w))
      \<and> irStatus row = InProgress \<and> irResponseStatus row = None \<and> irCompletedAt row = None \<and> irFingerprint row = fp \<and> r = Inr None)"
proof (cases "next_fault (sched w) \<or> k = '''' \<or> list_ex (at_key u k) (idemKeys (data w)) \<or> u \<notin> set (idemUsers (data w))")
  case True
  obtain r2 w2 where g: "pgGetKey u k (w \<lparr> sched := tl (sched w), data := data w \<rparr>) = (r2, w2)" by fastforce
  then have "data w2 = data w" using pgGetKey_data [of u k "w \<lparr> sched := tl (sched w), data := data w \<rparr>"] by simp
  then have "data w' = data w \<and> r \<noteq> Inr None"
    using assms True g by (auto simp: pgClaimKey_def bind_def time_now_def stmt_def ret_def Let_def split: if_splits sum.splits)
  then show ?thesis by blast
next
  case False
  let ?row = "\<lparr> irUser = u, irKey = k, irFingerprint = fp, irStatus = InProgress, irResponseStatus = None, irBody = None,
     irContentType = None, irCompletedAt = None, irExpiresAt = wall w + ttl \<rparr>"
  have "data w' = (data w) \<lparr> idemKeys := idemKeys (data w) @ [?row] \<rparr>" "r = Inr None"
    using assms False by (auto simp: pgClaimKey_def bind_def time_now_def stmt_def ret_def Let_def)
  moreover have "(u, k) \<notin> row_of ` set (idemKeys (data w))" using False by (auto simp: list_ex_iff at_key_def row_of_def)
  ultimately show ?thesis by (intro disjI2 exI [of _ ?row]) (simp add: row_of_def)
qed

lemma pgComplete_effect:
  assumes "pgComplete u k st body ct w = (r, w')"
  shows "\<exists>f. (\<forall>x. row_of (f x) = row_of x \<and> (f x = x \<or> irStatus (f x) = Completed \<and> irResponseStatus (f x) = Some st \<and> irCompletedAt (f x) \<noteq> None))
    \<and> data w' = (data w) \<lparr> idemKeys := map f (idemKeys (data w)) \<rparr>"
proof -
  let ?f = "\<lambda>r. if at_key u k r then r \<lparr> irStatus := Completed, irResponseStatus := Some st, irBody := Some body, irContentType := Some ct, irCompletedAt := Some (wall w) \<rparr> else r"
  have "data w' = data w \<or> data w' = (data w) \<lparr> idemKeys := map ?f (idemKeys (data w)) \<rparr>"
    using assms by (auto simp: pgComplete_def bind_def time_now_def stmt_def Let_def split: if_splits)
  then show ?thesis
  proof
    assume "data w' = data w"
    then show ?thesis by (intro exI [of _ "\<lambda>r. r"]) simp
  next
    assume "data w' = (data w) \<lparr> idemKeys := map ?f (idemKeys (data w)) \<rparr>"
    then show ?thesis by (intro exI [of _ ?f]) (simp add: row_of_def)
  qed
qed

lemma deletion_effect:
  "pgRelease u k w = (r, w') \<Longrightarrow> \<exists>p. data w' = (data w) \<lparr> idemKeys := filter p (idemKeys (data w)) \<rparr>"
  "pgPurgeExpired w = (r', w') \<Longrightarrow> \<exists>p. data w' = (data w) \<lparr> idemKeys := filter p (idemKeys (data w)) \<rparr>"
  by (auto simp: pgRelease_def pgPurgeExpired_def bind_def time_now_def stmt_def Let_def split: if_splits
      intro: exI [of _ "\<lambda>_. True"])

lemma serveHTTP_effect: "serveHTTP handler u k w = (r, w') \<Longrightarrow> data w' = (data w) \<lparr> runs := runs (data w) @ [(u, k)] \<rparr>"
  by (auto simp: serveHTTP_def bind_def peek_def local_def ret_def)

text \<open>Runs so far and runs still claimed are covered by the rows freed and the row present.\<close>

definition covered :: "isys \<Rightarrow> bool" where
  "covered S \<longleftrightarrow> distinct (keys_of S) \<and> mset (runs (data (table S))) + mset (claimed S) \<subseteq># mset (freed S) + mset (keys_of S)"

lemma mset_deleted:
  assumes "distinct (map row_of (idemKeys d))" and "d' = d \<lparr> idemKeys := filter p (idemKeys d) \<rparr>"
  shows "mset (deleted d d') + mset (map row_of (idemKeys d')) = mset (map row_of (idemKeys d))"
proof -
  have "row_of x \<in> row_of ` set (filter p xs) \<longleftrightarrow> p x" if "distinct (map row_of xs)" "x \<in> set xs" for x xs
    using that by (auto simp: distinct_map dest: inj_onD)
  then have "filter (\<lambda>x. x \<notin> row_of ` set (filter p (idemKeys d))) (map row_of (idemKeys d)) = map row_of (filter (\<lambda>r. \<not> p r) (idemKeys d))"
    using assms(1) unfolding filter_map o_def by (intro arg_cong [of _ _ "map row_of"] filter_cong) auto
  moreover have "mset (map row_of (filter (\<lambda>r. \<not> p r) xs)) + mset (map row_of (filter p xs)) = mset (map row_of xs)" for xs
    by (induction xs) auto
  ultimately show ?thesis by (simp add: deleted_def assms(2))
qed

lemma istep_covered: "istep S S' \<Longrightarrow> covered S \<Longrightarrow> covered S'"
proof (induction rule: istep.induct)
  case (IClaim u k fp ttl S r w)
  from pgClaimKey_effect [OF IClaim(1)] show ?case
  proof
    assume "data w = data (table S) \<and> r \<noteq> Inr None"
    then show ?thesis using IClaim(2) by (simp add: covered_def)
  qed (use IClaim(2) in \<open>auto simp: covered_def\<close>)
next
  case (IRun u k S handler h w)
  have "mset (runs (data w)) + mset (remove1 (u, k) (claimed S)) = mset (runs (data (table S))) + mset (claimed S)"
    using IRun(1) by (simp add: serveHTTP_effect [OF IRun(2)])
  moreover have "idemKeys (data w) = idemKeys (data (table S))" by (simp add: serveHTTP_effect [OF IRun(2)])
  ultimately show ?case using IRun(3) by (simp add: covered_def del: mset_remove1)
next
  case (IComplete u k resp S r w)
  obtain f where "\<And>x. row_of (f x) = row_of x" "data w = (data (table S)) \<lparr> idemKeys := map f (idemKeys (data (table S))) \<rparr>"
    using pgComplete_effect [OF IComplete(2)] by blast
  then show ?case using IComplete(3) by (simp add: covered_def o_def)
next
  case (IRelease u k S r w)
  obtain p where p: "data w = (data (table S)) \<lparr> idemKeys := filter p (idemKeys (data (table S))) \<rparr>"
    using deletion_effect(1) [OF IRelease(2)] by blast
  then show ?case using IRelease(3) mset_deleted [of "data (table S)" "data w" p] by (simp add: covered_def distinct_map_filter ac_simps)
next
  case (IPurge S r w)
  obtain p where p: "data w = (data (table S)) \<lparr> idemKeys := filter p (idemKeys (data (table S))) \<rparr>"
    using deletion_effect(2) [OF IPurge(1)] by blast
  then show ?case using IPurge(2) mset_deleted [of "data (table S)" "data w" p] by (simp add: covered_def distinct_map_filter ac_simps)
next
  case (ICrash S p1 p2 p3)
  have le: "mset (runs (data (table S))) + filter_mset q (mset (claimed S)) \<subseteq># mset (runs (data (table S))) + mset (claimed S)" for q
    by (simp add: multiset_filter_subset)
  show ?case using ICrash by (auto simp: covered_def intro: subset_mset.order_trans [OF le])
qed (auto simp: covered_def)

text \<open>
  C24: A handler runs at most once per key while the row of the key stays: in every history of
  overlapping requests, crashes and purges, the runs under a user and key are at most one more than
  the rows of that key that were deleted, by a release or by the purge.
\<close>

theorem handler_runs_once_per_row:
  assumes "istep\<^sup>*\<^sup>* (isys0 us t) S"
  shows "count (mset (runs (data (table S)))) x \<le> 1 + count (mset (freed S)) x"
proof -
  have "covered (isys0 us t)" by (simp add: covered_def isys0_def)
  with assms have c: "covered S" by (induction rule: rtranclp_induct) (auto intro: istep_covered)
  then have "count (mset (runs (data (table S)))) x + count (mset (claimed S)) x \<le> count (mset (freed S)) x + count (mset (keys_of S)) x"
    using mset_subset_eq_count [of _ _ x] unfolding covered_def by (metis count_union)
  moreover have "count (mset xs) x \<le> 1" if "distinct xs" for xs using that by (cases x) (simp add: distinct_count_atmost_1)
  then have "count (mset (keys_of S)) x \<le> 1" using c unfolding covered_def by blast
  ultimately show ?thesis by linarith
qed

section \<open>The rows\<close>

definition row_typed :: "uuid list \<Rightarrow> idem_row \<Rightarrow> bool" where
  "row_typed us r \<longleftrightarrow> irKey r \<noteq> '''' \<and> irUser r \<in> set us \<and> (irStatus r = Completed \<longleftrightarrow> irResponseStatus r \<noteq> None)
     \<and> (irStatus r = Completed \<longleftrightarrow> irCompletedAt r \<noteq> None)"

definition typed :: "uuid list \<Rightarrow> isys \<Rightarrow> bool" where
  "typed us S \<longleftrightarrow> idemUsers (data (table S)) = us \<and> (\<forall>r \<in> set (idemKeys (data (table S))). row_typed us r)"

lemma claim_guard:
  assumes "pgClaimKey u k fp ttl w = (Inr None, w')"
  shows "k \<noteq> '''' \<and> u \<in> set (idemUsers (data w))"
proof (rule ccontr)
  assume no: "\<not> (k \<noteq> '''' \<and> u \<in> set (idemUsers (data w)))"
  then show False
    using assms by (auto simp: pgClaimKey_def bind_def time_now_def stmt_def ret_def Let_def split: if_splits sum.splits prod.splits)
qed

lemma istep_typed: "istep S S' \<Longrightarrow> typed us S \<Longrightarrow> typed us S'"
proof (induction rule: istep.induct)
  case (IClaim u k fp ttl S r w)
  from pgClaimKey_effect [OF IClaim(1)] show ?case
  proof
    assume "\<exists>row. data w = (data (table S)) \<lparr> idemKeys := idemKeys (data (table S)) @ [row] \<rparr> \<and> row_of row = (u, k)
      \<and> (u, k) \<notin> row_of ` set (idemKeys (data (table S))) \<and> irStatus row = InProgress \<and> irResponseStatus row = None \<and> irCompletedAt row = None
      \<and> irFingerprint row = fp \<and> r = Inr None"
    then show ?thesis using IClaim claim_guard [of u k fp ttl "table S" w] by (auto simp: typed_def row_typed_def row_of_def)
  qed (use IClaim(2) in \<open>simp add: typed_def\<close>)
next
  case (IRun u k S handler h w)
  then show ?case by (simp add: typed_def serveHTTP_effect [OF IRun(2)])
next
  case (IComplete u k resp S r w)
  obtain f where f: "\<And>x. row_of (f x) = row_of x" "\<And>x. f x = x \<or> irStatus (f x) = Completed \<and> irResponseStatus (f x) = Some (rsStatus resp) \<and> irCompletedAt (f x) \<noteq> None"
      "data w = (data (table S)) \<lparr> idemKeys := map f (idemKeys (data (table S))) \<rparr>"
    using pgComplete_effect [OF IComplete(2)] by blast
  have "row_typed us (f x)" if "row_typed us x" for x using that f(1,2) [of x] by (auto simp: row_typed_def row_of_def)
  then show ?case using IComplete(3) f(3) by (auto simp: typed_def)
next
  case (IRelease u k S r w)
  then show ?case using deletion_effect(1) [OF IRelease(2)] by (auto simp: typed_def)
next
  case (IPurge S r w)
  then show ?case using deletion_effect(2) [OF IPurge(1)] by (auto simp: typed_def)
qed (simp_all add: typed_def)

text \<open>
  C25: The table is well formed in every reachable state: one row per user and key, keys are not
  empty and belong to a user, and a row has a response and a completion time exactly when it is
  completed.
\<close>

theorem idempotency_rows_typed:
  assumes "istep\<^sup>*\<^sup>* (isys0 us t) S" and "r \<in> set (idemKeys (data (table S)))"
  shows "row_typed us r \<and> distinct (keys_of S)"
proof -
  have "covered (isys0 us t)" "typed us (isys0 us t)" by (simp_all add: covered_def typed_def isys0_def)
  with assms(1) have "covered S \<and> typed us S" by (induction rule: rtranclp_induct) (auto intro: istep_covered istep_typed)
  then show ?thesis using assms(2) by (auto simp: covered_def typed_def)
qed

section \<open>Answers from the table\<close>

lemma pgClaimKey_existing:
  assumes "k \<noteq> ''''" and "List.find (at_key u k) (idemKeys (data w)) = Some row"
  shows "pgClaimKey u k fp ttl w =
    (if next_fault (sched w) then (Inl DBFailure, w \<lparr> sched := tl (sched w) \<rparr>)
     else if next_fault (tl (sched w)) then (Inl DBFailure, w \<lparr> sched := tl (tl (sched w)) \<rparr>)
     else (Inr (Some \<lparr> Fingerprint = irFingerprint row, recStatus = irStatus row, ResponseStatus = (case irResponseStatus row of None \<Rightarrow> 0 | Some n \<Rightarrow> n),
       ResponseBody = (case irBody row of None \<Rightarrow> '''' | Some b \<Rightarrow> b), ResponseContentType = (case irContentType row of None \<Rightarrow> '''' | Some t \<Rightarrow> t) \<rparr>),
       w \<lparr> sched := tl (tl (sched w)) \<rparr>))"
proof -
  have "list_ex (at_key u k) (idemKeys (data w))" using find_Some_iff_mem [OF assms(2)] by (auto simp: list_ex_iff)
  then show ?thesis
    using assms by (simp add: pgClaimKey_def pgGetKey_def query_def bind_def time_now_def stmt_def ret_def Let_def)
qed

text \<open>
  A completed key answers for the handler: whatever the wrapped handler would do, a repeated
  request is answered with the stored status, type and body, a request that differs from the first
  one with 409, and a failing query with 500; the handler does not run and the table stays.
\<close>

theorem completed_key_replays:
  assumes "matchesRoute routes (rqMethod q) (rqPath q)" and "rqUser q = Some u" and "rqKey q \<noteq> ''''" and "rqBody q = Some body"
    and "int (length body) \<le> maxIdempotencyBodyBytes" and "IdempotencyMiddleware hash routes handler gone latency seen q w = (x, w')"
    and "List.find (at_key u (scopedIdempotencyKey (rqMethod q) (rqPath q) (rqKey q))) (idemKeys (data w)) = Some row"
    and "irStatus row = Completed" and "irResponseStatus row = Some status"
  shows "data w' = data w \<and> x = Inr (Responded (
     if next_fault (sched w) \<or> next_fault (tl (sched w)) then httpError 500 ''idempotency check failed''
     else if irFingerprint row \<noteq> fingerprintRequest hash (rqMethod q) (rqPath q) body
       then httpError 409 ''Idempotency-Key was already used with a different request''
     else \<lparr> rsStatus = (if status = 0 then 200 else status), rsBody = (case irBody row of None \<Rightarrow> '''' | Some b \<Rightarrow> b),
            rsContentType = (case irContentType row of None \<Rightarrow> '''' | Some c \<Rightarrow> c), rsReplayed = True, rsRetryAfter = False \<rparr>))"
proof -
  let ?k = "scopedIdempotencyKey (rqMethod q) (rqPath q) (rqKey q)"
  have k: "?k \<noteq> ''''" by (simp add: scopedIdempotencyKey_def)
  have "IdempotencyMiddleware hash routes handler gone latency seen q w =
     bind time_now (\<lambda>now. bind (attempt (pgClaimKey u ?k (fingerprintRequest hash (rqMethod q) (rqPath q) body) defaultIdempotencyTTL)) (\<lambda>claim.
       case claim of
         Inl _ \<Rightarrow> ret (Responded (httpError 500 ''idempotency check failed''))
       | Inr (Some existing) \<Rightarrow> ret (Responded (serveExisting latency seen now (fingerprintRequest hash (rqMethod q) (rqPath q) body) existing))
       | Inr None \<Rightarrow> runClaimed handler gone u ?k)) w"
    using assms(1-5) by (simp add: IdempotencyMiddleware_def Let_def)
  then show ?thesis
    using assms(6,8,9)
    by (cases "next_fault (sched w)"; cases "next_fault (tl (sched w))")
      (auto simp: bind_def time_now_def attempt_def ret_def pgClaimKey_existing [OF k assms(7)] serveExisting_def writeStoredResponse_def)
qed

lemma first_separator:
  "c \<notin> set xs \<Longrightarrow> c \<notin> set ys \<Longrightarrow> xs @ c # us = ys @ c # vs \<longleftrightarrow> xs = ys \<and> us = vs"
proof (induction xs arbitrary: ys)
  case Nil
  then show ?case by (cases ys) auto
next
  case (Cons x xs)
  then show ?case by (cases ys) auto
qed

text \<open>What is hashed determines method, path and body, if no zero byte is in the first two.\<close>

lemma fingerprint_binding:
  assumes "char_of (0 :: nat) \<notin> set m" "char_of (0 :: nat) \<notin> set p" "char_of (0 :: nat) \<notin> set m'" "char_of (0 :: nat) \<notin> set p'"
    and "fingerprintInput m p b = fingerprintInput m' p' b'"
  shows "m = m' \<and> p = p' \<and> b = b'"
  using assms by (simp add: fingerprintInput_def first_separator)

section \<open>A client that goes away\<close>

definition deposit_request :: request where
  "deposit_request = \<lparr> rqMethod = ''POST'', rqPath = ''/api/v1/vaults/7/deposit'', rqUser = Some 5, rqKey = ''k1'', rqBody = Some ''amount=5'' \<rparr>"

definition deposit_handler :: "nat \<Rightarrow> handled" where
  "deposit_handler n = Responded \<lparr> rsStatus = 201, rsBody = ''ok'', rsContentType = ''text/plain'', rsReplayed = False, rsRetryAfter = False \<rparr>"

definition serve0 :: "bool \<Rightarrow> request \<Rightarrow> handled idb" where
  "serve0 gone = IdempotencyMiddleware (\<lambda>s. s) VaultMoneyPathIdempotencyRoutes deposit_handler gone (\<lambda>_. 0) (\<lambda>_. Inl (App ErrIdempotencyKeyNotFound))"

text \<open>
  A client that stops waiting ends the context of its request. The handler has run by then, but its
  response can no longer be stored under that context, the key is released, and the retry of the
  client runs the handler a second time.
\<close>

lemma disconnect_runs_twice:
  "let w1 = snd (serve0 True deposit_request (table (isys0 [5] 0))); w2 = snd (serve0 False deposit_request w1)
   in length (runs (data w2)) = 2 \<and> sched w2 = []"
  by code_simp

lemma connected_runs_once:
  "let w1 = snd (serve0 False deposit_request (table (isys0 [5] 0))); r2 = serve0 False deposit_request w1
   in length (runs (data (snd r2))) = 1 \<and> (case fst r2 of Inr (Responded resp) \<Rightarrow> rsReplayed resp \<and> rsStatus resp = 201 | _ \<Rightarrow> False)"
  by code_simp

section \<open>Concrete runs\<close>

definition claim_at :: "uuid \<Rightarrow> string \<Rightarrow> isys \<Rightarrow> isys" where
  "claim_at u k S = (let x = pgClaimKey u k ''fp'' hour (table S)
     in S \<lparr> table := snd x, claimed := (if fst x = Inr None then (u, k) # claimed S else claimed S) \<rparr>)"

definition run_at :: "uuid \<Rightarrow> string \<Rightarrow> isys \<Rightarrow> isys" where
  "run_at u k S = S \<lparr> table := snd (serveHTTP (\<lambda>_. Panicked) u k (table S)), claimed := remove1 (u, k) (claimed S), giving_up := (u, k) # giving_up S \<rparr>"

definition release_at :: "uuid \<Rightarrow> string \<Rightarrow> isys \<Rightarrow> isys" where
  "release_at u k S = (let w = snd (pgRelease u k (table S))
     in S \<lparr> table := w, giving_up := remove1 (u, k) (giving_up S), freed := deleted (data (table S)) (data w) @ freed S \<rparr>)"

lemma concrete_steps:
  "istep S (claim_at u k S)"
  "(u, k) \<in> set (claimed S) \<Longrightarrow> istep S (run_at u k S)"
  "(u, k) \<in> set (giving_up S) \<Longrightarrow> istep S (release_at u k S)"
proof -
  show "istep S (claim_at u k S)" unfolding claim_at_def Let_def by (rule istep.IClaim [OF prod.collapse [symmetric]])
  show "(u, k) \<in> set (giving_up S) \<Longrightarrow> istep S (release_at u k S)"
    unfolding release_at_def Let_def by (rule istep.IRelease [OF _ prod.collapse [symmetric]])
  obtain w where w: "serveHTTP (\<lambda>_. Panicked) u k (table S) = (Inr Panicked, w)"
    by (simp add: serveHTTP_def bind_def peek_def local_def ret_def)
  then show "(u, k) \<in> set (claimed S) \<Longrightarrow> istep S (run_at u k S)"
    using istep.IRun [OF _ w] by (simp add: run_at_def)
qed

text \<open>A handler that panics is released and run again for the next request.\<close>

definition retried :: isys where
  "retried = run_at 5 ''k'' (claim_at 5 ''k'' (release_at 5 ''k'' (run_at 5 ''k'' (claim_at 5 ''k'' (isys0 [5] 0)))))"

lemma retried_reachable: "istep\<^sup>*\<^sup>* (isys0 [5] 0) retried"
proof -
  have m: "(5, ''k'') \<in> set (claimed (claim_at 5 ''k'' (isys0 [5] 0)))" "(5, ''k'') \<in> set (giving_up (run_at 5 ''k'' (claim_at 5 ''k'' (isys0 [5] 0))))"
    "(5, ''k'') \<in> set (claimed (claim_at 5 ''k'' (release_at 5 ''k'' (run_at 5 ''k'' (claim_at 5 ''k'' (isys0 [5] 0))))))" by code_simp+
  note s = rtranclp.rtrancl_into_rtrancl [of istep "isys0 [5] 0"]
  show ?thesis unfolding retried_def
    by (rule s [OF s [OF s [OF s [OF s [OF rtranclp.rtrancl_refl concrete_steps(1)] concrete_steps(2) [OF m(1)]] concrete_steps(3) [OF m(2)]]
        concrete_steps(1)] concrete_steps(2) [OF m(3)]])
qed

theorem handler_runs_once_per_row_witness:
  "runs (data (table retried)) = [(5, ''k''), (5, ''k'')] \<and> freed retried = [(5, ''k'')]
   \<and> count (mset (runs (data (table retried)))) (5, ''k'') \<le> 1 + count (mset (freed retried)) (5, ''k'')"
proof -
  have "runs (data (table retried)) = [(5, ''k''), (5, ''k'')]" "freed retried = [(5, ''k'')]" by code_simp+
  then show ?thesis using handler_runs_once_per_row [OF retried_reachable, of "(5, ''k'')"] by simp
qed

theorem idempotency_rows_typed_witness:
  "\<exists>r. idemKeys (data (table retried)) = [r] \<and> row_typed [5] r \<and> irStatus r = InProgress"
proof -
  have "map irStatus (idemKeys (data (table retried))) = [InProgress]" by code_simp
  then obtain r where "idemKeys (data (table retried)) = [r]" "irStatus r = InProgress" by (cases "idemKeys (data (table retried))") auto
  then show ?thesis using idempotency_rows_typed [OF retried_reachable, of r] by auto
qed

theorem completed_key_replays_witness:
  "let w = snd (serve0 False deposit_request (table (isys0 [5] 0)))
   in \<exists>resp w'. serve0 False deposit_request w = (Inr (Responded resp), w') \<and> rsReplayed resp \<and> rsStatus resp = 201 \<and> runs (data w') = runs (data w)"
proof -
  let ?w = "snd (serve0 False deposit_request (table (isys0 [5] 0)))"
  let ?k = "scopedIdempotencyKey (rqMethod deposit_request) (rqPath deposit_request) (rqKey deposit_request)"
  have m: "matchesRoute VaultMoneyPathIdempotencyRoutes (rqMethod deposit_request) (rqPath deposit_request)"
    "rqUser deposit_request = Some 5" "rqKey deposit_request \<noteq> ''''" "rqBody deposit_request = Some ''amount=5''"
    "int (length ''amount=5'') \<le> maxIdempotencyBodyBytes" by code_simp+
  have s: "sched ?w = []" by code_simp
  have "map_option (\<lambda>r. (irStatus r, irResponseStatus r, irFingerprint r)) (List.find (at_key 5 ?k) (idemKeys (data ?w)))
     = Some (Completed, Some 201, fingerprintRequest (\<lambda>s. s) (rqMethod deposit_request) (rqPath deposit_request) ''amount=5'')" by code_simp
  then obtain row where row: "List.find (at_key 5 ?k) (idemKeys (data ?w)) = Some row" "irStatus row = Completed" "irResponseStatus row = Some 201"
    "irFingerprint row = fingerprintRequest (\<lambda>s. s) (rqMethod deposit_request) (rqPath deposit_request) ''amount=5''"
    by auto
  define w1 where w1: "w1 = ?w"
  obtain x w' where run: "serve0 False deposit_request w1 = (x, w')" by fastforce
  from completed_key_replays [OF m run [unfolded serve0_def] row(1) [folded w1] row(2,3)] row(4) s [folded w1] run
  show ?thesis unfolding w1 [symmetric] Let_def by simp
qed

end
