(* ===== verification/Outbox.thy ===== *)
theory Outbox
  imports Job_Queue
begin

text \<open>
  The transactional outbox: \<^verbatim>\<open>internal/domain/outbox\<close> (model, relay, retention) and
  \<^verbatim>\<open>internal/repository/postgres/outbox_repository.go\<close>. Its table lives in the same database as the
  jobs, so its state extends the state of the job queue with the list of events. The validity of
  a JSON payload is a parameter. The texts recorded as the last error are the constructors of
  \<open>reason\<close>. Statements run one at a time, with rows locked by others as a parameter of the claim.
\<close>

section \<open>Domain model\<close>

datatype ev_status = EvPending | EvDispatching | EvDispatched | EvDead

definition DefaultMaxAttempts :: int where "DefaultMaxAttempts = 5"

datatype reason =
    ExhaustedHandOffs int
  | NoRoute string
  | EnqueueFailed int "jq_error db_error"
  | HandOffError "jq_error db_error"
  | JobGone uuid
  | JobDeadLettered uuid

record event =
  evID :: uuid
  AggregateType :: string
  AggregateID :: string
  EventType :: string
  evPayload :: string
  DedupeKey :: string
  evStatus :: ev_status
  evAttempts :: int
  evMaxAttempts :: int
  NextAttemptAt :: time
  evLeasedUntil :: "time option"
  evJobID :: "uuid option"
  evLastError :: "reason option"
  evCreatedAt :: time
  evUpdatedAt :: time
  DispatchedAt :: "time option"

definition Validate :: "(string \<Rightarrow> bool) \<Rightarrow> event \<Rightarrow> jq_error option" where
  "Validate jsonValid e =
     (if AggregateType e = '''' then Some (ErrMessage ''outbox: aggregate_type is required'')
      else if AggregateID e = '''' then Some (ErrMessage ''outbox: aggregate_id is required'')
      else if EventType e = '''' then Some (ErrMessage ''outbox: event_type is required'')
      else if DedupeKey e = '''' then Some (ErrMessage ''outbox: dedupe_key is required'')
      else if evPayload e \<noteq> '''' \<and> \<not> jsonValid (evPayload e) then Some (ErrMessage ''outbox: payload is not valid JSON'')
      else None)"

record claim_params =
  cLimit :: int
  cLease :: duration
  cNow :: time

record outbox_stats =
  stPending :: int
  stDispatching :: int
  stDead :: int
  OldestPendingAge :: duration

section \<open>The repository\<close>

record outbox_db = jobs_db +
  events :: "event list"

type_synonym 'a odb = "(outbox_db, jq_error, 'a) db"

definition insertEvent :: "event \<Rightarrow> outbox_db \<Rightarrow> jq_error db_error + unit \<times> outbox_db" where
  "insertEvent e d =
     (if 100 < length (AggregateType e) \<or> 100 < length (EventType e) \<or> \<not> in_int32 (evMaxAttempts e) \<or> evMaxAttempts e < 1
      then Inl Violation
      else if DedupeKey e \<in> DedupeKey ` set (events d) then Inr ((), d)
      else if evID e \<in> evID ` set (events d) then Inl Violation
      else Inr ((), d \<lparr> events := events d @ [e] \<rparr>))"

text \<open>\<open>created\<close> is the start of the transaction of the insert, which is what \<^verbatim>\<open>NOW()\<close> returns in it.\<close>

definition pgInsert :: "time \<Rightarrow> bool \<Rightarrow> event \<Rightarrow> unit odb" where
  "pgInsert created tx e =
     (if \<not> tx then fail (App (ErrMessage ''outbox: Insert requires a transaction handle''))
      else bind time_now (\<lambda>now.
        stmt (insertEvent (e \<lparr> evPayload := (if evPayload e = '''' then ''{}'' else evPayload e),
          evMaxAttempts := (if evMaxAttempts e \<le> 0 then DefaultMaxAttempts else evMaxAttempts e),
          NextAttemptAt := (if time_is_zero (NextAttemptAt e) then now else NextAttemptAt e),
          evStatus := EvPending, evAttempts := 0, evLeasedUntil := None, evJobID := None, evLastError := None,
          evCreatedAt := created, evUpdatedAt := created, DispatchedAt := None \<rparr>))))"

definition undelivered :: "event \<Rightarrow> bool" where
  "undelivered e \<longleftrightarrow> evStatus e = EvPending \<or> evStatus e = EvDispatching"

definition same_agg :: "event \<Rightarrow> event \<Rightarrow> bool" where
  "same_agg a b \<longleftrightarrow> AggregateType a = AggregateType b \<and> AggregateID a = AggregateID b"

definition ev_ord :: "event \<Rightarrow> time \<times> uuid" where
  "ev_ord e = (evCreatedAt e, evID e)"

text \<open>The \<^verbatim>\<open>heads\<close> of the claim: the oldest undelivered event of each aggregate.\<close>

definition is_head :: "event list \<Rightarrow> event \<Rightarrow> bool" where
  "is_head es e \<longleftrightarrow> undelivered e \<and> list_all (\<lambda>x. undelivered x \<and> same_agg x e \<longrightarrow> ev_ord e \<le> ev_ord x) es"

definition claimable :: "time \<Rightarrow> event \<Rightarrow> bool" where
  "claimable now e \<longleftrightarrow> evStatus e = EvPending \<and> NextAttemptAt e \<le> now
     \<or> evStatus e = EvDispatching \<and> evJobID e = None \<and> (case evLeasedUntil e of None \<Rightarrow> False | Some t \<Rightarrow> t \<le> now)"

definition claims :: "uuid list \<Rightarrow> int \<Rightarrow> time \<Rightarrow> event list \<Rightarrow> event list" where
  "claims locked limit now es = take (nat limit)
     (sort_key ev_ord (filter (\<lambda>e. is_head es e \<and> claimable now e \<and> evID e \<notin> set locked) es))"

definition claimed :: "time \<Rightarrow> time \<Rightarrow> event \<Rightarrow> event" where
  "claimed until now e = e \<lparr> evStatus := EvDispatching, evJobID := None, evLeasedUntil := Some until,
     evAttempts := evAttempts e + 1, evUpdatedAt := now \<rparr>"

definition pgClaimDue :: "uuid list \<Rightarrow> claim_params \<Rightarrow> event list odb" where
  "pgClaimDue locked p =
     (if cLimit p \<le> 0 then ret []
      else bind time_now (\<lambda>wnow.
        let now = (if time_is_zero (cNow p) then wnow else cNow p)
        in stmt (\<lambda>d. let cs = claims locked (cLimit p) now (events d)
             in if \<exists>e \<in> set cs. \<not> in_int32 (evAttempts e + 1) then Inl Violation
                else Inr (map (claimed (now + cLease p) wnow) cs,
                  d \<lparr> events := map (\<lambda>e. if evID e \<in> evID ` set cs then claimed (now + cLease p) wnow e else e) (events d) \<rparr>))))"

definition updateEvent :: "uuid \<Rightarrow> (event \<Rightarrow> bool) \<Rightarrow> (event \<Rightarrow> event) \<Rightarrow> unit odb" where
  "updateEvent i P f = stmt (\<lambda>d. Inr ((), d \<lparr> events := map (\<lambda>e. if evID e = i \<and> P e then f e else e) (events d) \<rparr>))"

definition pgMarkDispatching :: "uuid \<Rightarrow> uuid \<Rightarrow> unit odb" where
  "pgMarkDispatching i jobID = bind time_now (\<lambda>now.
     updateEvent i (\<lambda>e. evStatus e = EvDispatching) (\<lambda>e. e \<lparr> evJobID := Some jobID, evUpdatedAt := now \<rparr>))"

definition pgMarkDispatched :: "uuid \<Rightarrow> time \<Rightarrow> unit odb" where
  "pgMarkDispatched i ts = bind time_now (\<lambda>now.
     updateEvent i (\<lambda>e. evStatus e \<noteq> EvDispatched)
       (\<lambda>e. e \<lparr> evStatus := EvDispatched, DispatchedAt := Some (if time_is_zero ts then now else ts), evLeasedUntil := None,
              evLastError := None, evUpdatedAt := now \<rparr>))"

definition pgMarkDead :: "uuid \<Rightarrow> reason \<Rightarrow> unit odb" where
  "pgMarkDead i why = bind time_now (\<lambda>now.
     updateEvent i (\<lambda>e. evStatus e \<noteq> EvDead)
       (\<lambda>e. e \<lparr> evStatus := EvDead, evLastError := Some why, evLeasedUntil := None, evUpdatedAt := now \<rparr>))"

definition pgRelease :: "uuid \<Rightarrow> time \<Rightarrow> reason \<Rightarrow> unit odb" where
  "pgRelease i next why = bind time_now (\<lambda>now.
     updateEvent i (\<lambda>e. evStatus e = EvDispatching)
       (\<lambda>e. e \<lparr> evStatus := EvPending, NextAttemptAt := next, evLastError := Some why, evLeasedUntil := None,
              evJobID := None, evUpdatedAt := now \<rparr>))"

definition pgInFlight :: "int \<Rightarrow> event list odb" where
  "pgInFlight limit =
     (if limit \<le> 0 then ret []
      else query (\<lambda>d. Inr (take (nat limit) (sort_key ev_ord
        (filter (\<lambda>e. evStatus e = EvDispatching \<and> evJobID e \<noteq> None) (events d))))))"

definition countEvents :: "(event \<Rightarrow> bool) \<Rightarrow> event list \<Rightarrow> int" where
  "countEvents P es = int (length (filter P es))"

definition pgOutboxStats :: "time \<Rightarrow> outbox_stats odb" where
  "pgOutboxStats now0 = bind time_now (\<lambda>wnow.
     let now = (if time_is_zero now0 then wnow else now0)
     in query (\<lambda>d. Inr \<lparr> stPending = countEvents (\<lambda>e. evStatus e = EvPending \<and> NextAttemptAt e \<le> now) (events d),
          stDispatching = countEvents (\<lambda>e. evStatus e = EvDispatching) (events d),
          stDead = countEvents (\<lambda>e. evStatus e = EvDead) (events d),
          OldestPendingAge = (case sort (map evCreatedAt (filter undelivered (events d))) of
             [] \<Rightarrow> 0 | t # _ \<Rightarrow> (let age = time_sub now t in if 0 < age then age else 0)) \<rparr>))"

definition pruneWhere :: "(event \<Rightarrow> bool) \<Rightarrow> int odb" where
  "pruneWhere P = stmt (\<lambda>d. Inr (countEvents P (events d), d \<lparr> events := filter (\<lambda>e. \<not> P e) (events d) \<rparr>))"

definition pgPruneTerminal :: "time \<Rightarrow> time \<Rightarrow> (int \<times> int) odb" where
  "pgPruneTerminal dispatchedBefore deadBefore =
     bind (pruneWhere (\<lambda>e. evStatus e = EvDispatched \<and> evUpdatedAt e < dispatchedBefore)) (\<lambda>a.
     bind (pruneWhere (\<lambda>e. evStatus e = EvDead \<and> evUpdatedAt e < deadBefore)) (\<lambda>b. ret (a, b)))"

section \<open>Producers\<close>

definition writerInsert :: "(nat \<Rightarrow> uuid) \<Rightarrow> (string \<Rightarrow> bool) \<Rightarrow> time \<Rightarrow> event \<Rightarrow> unit odb" where
  "writerInsert gen jsonValid created e =
     (case Validate jsonValid e of
        Some err \<Rightarrow> fail (App err)
      | None \<Rightarrow>
          bind (if evID e = uuid_nil then new_uuid gen else ret (evID e)) (\<lambda>i.
            pgInsert created True (e \<lparr> evID := i,
              evMaxAttempts := (if evMaxAttempts e \<le> 0 then DefaultMaxAttempts else evMaxAttempts e) \<rparr>)))"

definition NewEvent :: "uuid \<Rightarrow> string \<Rightarrow> string \<Rightarrow> string \<Rightarrow> string \<Rightarrow> string \<Rightarrow> event" where
  "NewEvent i aggType aggID evType key raw =
     \<lparr> evID = i, AggregateType = aggType, AggregateID = aggID, EventType = evType, evPayload = raw, DedupeKey = key,
       evStatus = EvPending, evAttempts = 0, evMaxAttempts = DefaultMaxAttempts, NextAttemptAt = 0,
       evLeasedUntil = None, evJobID = None, evLastError = None, evCreatedAt = 0, evUpdatedAt = 0, DispatchedAt = None \<rparr>"

text \<open>\<open>raw\<close> is the payload already marshalled.\<close>

definition Publish :: "(nat \<Rightarrow> uuid) \<Rightarrow> (string \<Rightarrow> bool) \<Rightarrow> time \<Rightarrow> string \<Rightarrow> string \<Rightarrow> string \<Rightarrow> string \<Rightarrow> string \<Rightarrow> unit odb" where
  "Publish gen jsonValid created aggType aggID evType key raw =
     bind (new_uuid gen) (\<lambda>i.
       let e = NewEvent i aggType aggID evType key raw
       in case Validate jsonValid e of
            Some err \<Rightarrow> fail (App err)
          | None \<Rightarrow> writerInsert gen jsonValid created e)"

section \<open>The relay\<close>

record relay_config =
  rPollInterval :: duration
  BatchSize :: int
  rLease :: duration
  rBackoff :: duration

definition relayDefaults :: "relay_config \<Rightarrow> relay_config" where
  "relayDefaults c =
     \<lparr> rPollInterval = (if rPollInterval c \<le> 0 then second else rPollInterval c),
       BatchSize = (if BatchSize c \<le> 0 then 100 else BatchSize c),
       rLease = (if rLease c \<le> 0 then 30 * second else rLease c),
       rBackoff = (if rBackoff c \<le> 0 then 5 * second else rBackoff c) \<rparr>"

type_synonym routes = "(string \<times> string) list"

definition deadLetter :: "event \<Rightarrow> reason \<Rightarrow> unit odb" where
  "deadLetter e why = bind (attempt (pgMarkDead (evID e) why)) (\<lambda>_. ret ())"

definition release :: "relay_config \<Rightarrow> event \<Rightarrow> reason \<Rightarrow> unit odb" where
  "release c e why = bind time_now (\<lambda>now. bind (attempt (pgRelease (evID e) (now + rBackoff c) why)) (\<lambda>_. ret ()))"

fun reconcileLoop :: "relay_config \<Rightarrow> event list \<Rightarrow> int odb" where
  "reconcileLoop c [] = ret 0"
| "reconcileLoop c (e # es) =
     (case evJobID e of
        None \<Rightarrow> reconcileLoop c es
      | Some jobID \<Rightarrow>
          bind (attempt (pgJobStatus jobID)) (\<lambda>st.
            case st of
              Inl (App ErrNotFound) \<Rightarrow>
                bind (release c e (JobGone jobID)) (\<lambda>_. bind (reconcileLoop c es) (\<lambda>n. ret (n + 1)))
            | Inl _ \<Rightarrow> reconcileLoop c es
            | Inr StatusSucceeded \<Rightarrow>
                bind time_now (\<lambda>now.
                bind (attempt (pgMarkDispatched (evID e) now)) (\<lambda>r.
                  case r of Inl _ \<Rightarrow> reconcileLoop c es
                  | Inr _ \<Rightarrow> bind (reconcileLoop c es) (\<lambda>n. ret (n + 1))))
            | Inr StatusDead \<Rightarrow>
                bind (deadLetter e (JobDeadLettered jobID)) (\<lambda>_. bind (reconcileLoop c es) (\<lambda>n. ret (n + 1)))
            | Inr _ \<Rightarrow> reconcileLoop c es))"

definition reconcile :: "relay_config \<Rightarrow> int odb" where
  "reconcile c = bind (attempt (pgInFlight (BatchSize c))) (\<lambda>r.
     case r of Inl _ \<Rightarrow> ret 0 | Inr es \<Rightarrow> reconcileLoop c es)"

definition handOff :: "(nat \<Rightarrow> uuid) \<Rightarrow> relay_config \<Rightarrow> routes \<Rightarrow> event \<Rightarrow> int odb" where
  "handOff gen c routes e =
     (if evMaxAttempts e < evAttempts e
      then bind (deadLetter e (ExhaustedHandOffs (evMaxAttempts e))) (\<lambda>_. ret 0)
      else case map_of routes (EventType e) of
        None \<Rightarrow> bind (deadLetter e (NoRoute (EventType e))) (\<lambda>_. ret 0)
      | Some jobType \<Rightarrow>
          bind (attempt (clientEnqueue gen \<lparr> inType = jobType, inPayload = evPayload e, inPriority = 0, inMaxAttempts = 0,
                  inIdempotencyKey = DedupeKey e, inCorrelationID = DedupeKey e, inRunAt = 0 \<rparr>)) (\<lambda>r.
            case r of
              Inl err \<Rightarrow>
                if evMaxAttempts e \<le> evAttempts e
                then bind (deadLetter e (EnqueueFailed (evAttempts e) err)) (\<lambda>_. ret 0)
                else bind (release c e (HandOffError err)) (\<lambda>_. ret 0)
            | Inr job \<Rightarrow>
                bind (attempt (pgMarkDispatching (evID e) (jID job))) (\<lambda>q.
                  case q of Inl _ \<Rightarrow> ret 0 | Inr _ \<Rightarrow> ret 1)))"

fun dispatchLoop :: "(nat \<Rightarrow> uuid) \<Rightarrow> relay_config \<Rightarrow> routes \<Rightarrow> event list \<Rightarrow> int odb" where
  "dispatchLoop gen c routes [] = ret 0"
| "dispatchLoop gen c routes (e # es) =
     bind (handOff gen c routes e) (\<lambda>n. bind (dispatchLoop gen c routes es) (\<lambda>m. ret (n + m)))"

definition dispatch :: "(nat \<Rightarrow> uuid) \<Rightarrow> relay_config \<Rightarrow> routes \<Rightarrow> uuid list \<Rightarrow> int odb" where
  "dispatch gen c routes locked =
     bind time_now (\<lambda>now.
     bind (attempt (pgClaimDue locked \<lparr> cLimit = BatchSize c, cLease = rLease c, cNow = now \<rparr>)) (\<lambda>r.
       case r of Inl _ \<Rightarrow> ret 0 | Inr es \<Rightarrow> dispatchLoop gen c routes es))"

definition relayTick :: "(nat \<Rightarrow> uuid) \<Rightarrow> relay_config \<Rightarrow> routes \<Rightarrow> uuid list \<Rightarrow> int odb" where
  "relayTick gen c routes locked =
     bind (reconcile c) (\<lambda>a. bind (dispatch gen c routes locked) (\<lambda>b. ret (a + b)))"

section \<open>Retention\<close>

record retention_config =
  DispatchedRetention :: duration
  DeadRetention :: duration

definition retentionDefaults :: "retention_config \<Rightarrow> retention_config" where
  "retentionDefaults c =
     \<lparr> DispatchedRetention = (if DispatchedRetention c \<le> 0 then 7 * 24 * hour else DispatchedRetention c),
       DeadRetention = (if DeadRetention c \<le> 0 then 30 * 24 * hour else DeadRetention c) \<rparr>"

definition retentionTick :: "retention_config \<Rightarrow> bool \<Rightarrow> int odb" where
  "retentionTick c leader =
     (if \<not> leader then ret 0
      else bind time_now (\<lambda>now.
           bind (attempt (pgPruneTerminal (now - DispatchedRetention (retentionDefaults c)) (now - DeadRetention (retentionDefaults c)))) (\<lambda>r.
             case r of Inl _ \<Rightarrow> ret 0 | Inr (a, b) \<Rightarrow> ret (a + b))))"

section \<open>Per-aggregate order\<close>

definition front :: "event list \<Rightarrow> bool" where
  "front es \<longleftrightarrow> (\<forall>e \<in> set es. evStatus e = EvDispatching \<longrightarrow> is_head es e)"

definition outbox_inv :: "outbox_db \<Rightarrow> bool" where
  "outbox_inv d \<longleftrightarrow> distinct (map evID (events d)) \<and> distinct (map DedupeKey (events d)) \<and> front (events d)"

text \<open>A change of rows that keeps the identity and age of events and revives none.\<close>

definition ev_tame :: "(event \<Rightarrow> event) \<Rightarrow> bool" where
  "ev_tame f \<longleftrightarrow> (\<forall>e. evID (f e) = evID e \<and> DedupeKey (f e) = DedupeKey e \<and> AggregateType (f e) = AggregateType e
     \<and> AggregateID (f e) = AggregateID e \<and> evCreatedAt (f e) = evCreatedAt e \<and> (undelivered (f e) \<longrightarrow> undelivered e))"

lemma is_head_iff: "is_head es e \<longleftrightarrow> undelivered e \<and> (\<forall>x \<in> set es. undelivered x \<and> same_agg x e \<longrightarrow> ev_ord e \<le> ev_ord x)"
  by (simp add: is_head_def list_all_iff)

lemma ev_tameD:
  assumes "ev_tame f"
  shows "evID (f e) = evID e" "DedupeKey (f e) = DedupeKey e" "ev_ord (f e) = ev_ord e"
    "same_agg (f x) (f e) = same_agg x e" "undelivered (f e) \<Longrightarrow> undelivered e"
  using assms by (simp_all add: ev_tame_def ev_ord_def same_agg_def)

lemma front_map:
  assumes "front es" and t: "ev_tame f"
    and head: "\<And>e. e \<in> set es \<Longrightarrow> evStatus (f e) = EvDispatching \<Longrightarrow> evStatus e = EvDispatching \<or> is_head es e"
  shows "front (map f es)"
  unfolding front_def
proof (intro ballI impI)
  fix y assume "y \<in> set (map f es)" and d: "evStatus y = EvDispatching"
  then obtain e where e: "e \<in> set es" "y = f e" by auto
  with head [OF e(1)] d assms(1) have h: "is_head es e" by (auto simp: front_def)
  show "is_head (map f es) y"
    using h d e(2) ev_tameD [OF t] unfolding is_head_iff by (auto simp: undelivered_def)
qed

lemma outbox_inv_map:
  assumes "outbox_inv d" and t: "ev_tame f"
    and "\<And>e. e \<in> set (events d) \<Longrightarrow> evStatus (f e) = EvDispatching \<Longrightarrow> evStatus e = EvDispatching \<or> is_head (events d) e"
  shows "outbox_inv (d \<lparr> events := map f (events d) \<rparr>)"
proof -
  have "map evID (map f (events d)) = map evID (events d)" "map DedupeKey (map f (events d)) = map DedupeKey (events d)"
    by (simp_all add: ev_tameD [OF t])
  moreover have "front (map f (events d))"
    by (rule front_map [OF _ t assms(3)]) (use assms(1) in \<open>simp_all add: outbox_inv_def\<close>)
  ultimately show ?thesis using assms(1) unfolding outbox_inv_def by (simp del: map_map)
qed

lemma claims_sub: "e \<in> set (claims locked n now es) \<Longrightarrow> e \<in> set es \<and> is_head es e \<and> claimable now e \<and> evID e \<notin> set locked"
  by (auto simp: claims_def dest!: in_set_takeD)

lemma claim_tame: "ev_tame (\<lambda>e. if evID e \<in> I \<and> undelivered e then claimed until now e else e)"
  by (auto simp: ev_tame_def claimed_def undelivered_def)

lemma claim_inv:
  assumes inv: "outbox_inv d" and cs: "cs = claims locked n t (events d)"
  shows "outbox_inv (d \<lparr> events := map (\<lambda>e. if evID e \<in> evID ` set cs then claimed until now e else e) (events d) \<rparr>)"
proof -
  have inj: "inj_on evID (set (events d))" using inv by (simp add: outbox_inv_def distinct_map)
  have mem: "evID e \<in> evID ` set cs \<longleftrightarrow> e \<in> set cs" if "e \<in> set (events d)" for e
    using inj that claims_sub [of _ locked n t "events d"] cs by (auto dest: inj_onD)
  let ?f = "\<lambda>e. if evID e \<in> evID ` set cs \<and> undelivered e then claimed until now e else e"
  have "map (\<lambda>e. if evID e \<in> evID ` set cs then claimed until now e else e) (events d) = map ?f (events d)"
    using mem claims_sub [of _ locked n t "events d"] cs by (auto simp: is_head_iff)
  moreover have "outbox_inv (d \<lparr> events := map ?f (events d) \<rparr>)"
  proof (rule outbox_inv_map [OF inv claim_tame])
    fix e assume "e \<in> set (events d)" "evStatus (?f e) = EvDispatching"
    then show "evStatus e = EvDispatching \<or> is_head (events d) e"
      using mem claims_sub [of e locked n t "events d"] cs by (auto split: if_splits)
  qed
  ultimately show ?thesis by (simp only:)
qed

definition okeeps :: "outbox_db \<Rightarrow> outbox_db \<Rightarrow> bool" where
  "okeeps d d' \<longleftrightarrow> (outbox_inv d \<longrightarrow> outbox_inv d')"

lemma okeeps_preorder: "reflp okeeps" "transp okeeps"
  by (auto simp: okeeps_def reflp_def transp_def)

lemmas okeeps_rules = moves_bind [OF okeeps_preorder(2)] moves_trivial [OF okeeps_preorder(1)]
  moves_stmt [OF okeeps_preorder(1)] moves_attempt moves_if moves_option moves_sum moves_prod

lemma okeeps_claim: "moves okeeps (pgClaimDue locked p)"
  unfolding pgClaimDue_def Let_def
  by (intro okeeps_rules) (auto simp: okeeps_def claim_inv split: if_splits)

lemma okeeps_update:
  assumes "ev_tame (\<lambda>e. if evID e = i \<and> P e then f e else e)"
    and "\<And>e. P e \<Longrightarrow> evStatus (f e) = EvDispatching \<Longrightarrow> evStatus e = EvDispatching"
  shows "moves okeeps (updateEvent i P f)"
  unfolding updateEvent_def
proof (rule moves_stmt [OF okeeps_preorder(1)])
  fix d :: outbox_db and a d'
  assume "Inr ((), d \<lparr> events := map (\<lambda>e. if evID e = i \<and> P e then f e else e) (events d) \<rparr>) = Inr (a, d')"
  moreover have "outbox_inv (d \<lparr> events := map (\<lambda>e. if evID e = i \<and> P e then f e else e) (events d) \<rparr>)" if "outbox_inv d"
    by (rule outbox_inv_map [OF that assms(1)]) (use assms(2) in \<open>auto split: if_splits\<close>)
  ultimately show "okeeps d d'" by (auto simp: okeeps_def)
qed

lemma okeeps_marks:
  "moves okeeps (pgMarkDispatching i j)" "moves okeeps (pgMarkDispatched i ts)" "moves okeeps (pgMarkDead i why)"
  "moves okeeps (pgRelease i next why)"
  unfolding pgMarkDispatching_def pgMarkDispatched_def pgMarkDead_def pgRelease_def
  by (intro okeeps_rules okeeps_update; auto simp: ev_tame_def undelivered_def)+

lemma front_filter: "front es \<Longrightarrow> front (filter P es)"
  by (auto simp: front_def is_head_iff)

lemma okeeps_prune: "moves okeeps (pgPruneTerminal a b)"
  unfolding pgPruneTerminal_def pruneWhere_def
  by (intro okeeps_rules) (auto simp: okeeps_def outbox_inv_def distinct_map_filter front_filter)

lemma job_ops_keep_events:
  "moves (\<lambda>d d'. events d' = events d) (clientEnqueue gen inp)" "moves (\<lambda>d d'. events d' = events d) (pgDequeue l p)"
  "moves (\<lambda>d d'. events d' = events d) (pgComplete i res)" "moves (\<lambda>d d'. events d' = events d) (pgRetry i next err)"
  "moves (\<lambda>d d'. events d' = events d) (pgDeadLetter i err)" "moves (\<lambda>d d'. events d' = events d) (pgHeartbeat i until)"
  unfolding clientEnqueue_def pgEnqueue_def pgDequeue_def pgComplete_def pgRetry_def pgDeadLetter_def pgHeartbeat_def updateRunning_def
  by (intro moves_rules; auto simp: insertJob_def reflp_def transp_def Let_def split: if_splits)+

lemma run_job_op_events: "events (data (run_job_op gen x w)) = events (data w)"
  by (cases x) (simp_all add: run_job_op_def job_ops_keep_events [unfolded moves_def, rule_format])

text \<open>
  The statements of producers, relays, retention sweeps and workers, interleaved in any order.
  An event carries the start of the transaction that inserts it as its creation time
  (\<^verbatim>\<open>created_at\<close> is \<^verbatim>\<open>NOW()\<close>). \<open>inOrder\<close> is the assumption that no event becomes visible whose
  transaction started before an event of its aggregate that is already in flight was created; it
  is not needed for the events of one transaction, which become visible together.
\<close>

inductive ostep :: "(nat \<Rightarrow> uuid) \<Rightarrow> (string \<Rightarrow> bool) \<Rightarrow> bool \<Rightarrow> outbox_db dbw \<Rightarrow> outbox_db dbw \<Rightarrow> bool" for gen jsonValid inOrder where
  o_publish: "(inOrder \<Longrightarrow> \<forall>x \<in> set (events (data w)). AggregateType x = t \<and> AggregateID x = a \<and> evStatus x = EvDispatching \<longrightarrow> evCreatedAt x < created) \<Longrightarrow>
     ostep gen jsonValid inOrder w (snd (Publish gen jsonValid created t a ty key raw w))"
| o_claim: "ostep gen jsonValid inOrder w (snd (pgClaimDue locked p w))"
| o_mark_dispatching: "ostep gen jsonValid inOrder w (snd (pgMarkDispatching i j w))"
| o_mark_dispatched: "ostep gen jsonValid inOrder w (snd (pgMarkDispatched i ts w))"
| o_mark_dead: "ostep gen jsonValid inOrder w (snd (pgMarkDead i why w))"
| o_release: "ostep gen jsonValid inOrder w (snd (pgRelease i next why w))"
| o_prune: "ostep gen jsonValid inOrder w (snd (pgPruneTerminal ta tb w))"
| o_job: "ostep gen jsonValid inOrder w (run_job_op gen x w)"
| o_env: "ostep gen jsonValid inOrder w (w \<lparr> wall := now, sched := fs \<rparr>)"

inductive_cases ostepE: "ostep gen jsonValid inOrder w w'"

lemma insertEvent_inv:
  assumes inv: "outbox_inv d" and ins: "insertEvent e d = Inr (x, d')" and p: "evStatus e = EvPending"
    and late: "\<forall>x \<in> set (events d). same_agg x e \<and> evStatus x = EvDispatching \<longrightarrow> evCreatedAt x < evCreatedAt e"
  shows "outbox_inv d'"
proof (cases "DedupeKey e \<in> DedupeKey ` set (events d)")
  case True
  with ins inv show ?thesis by (auto simp: insertEvent_def split: if_splits)
next
  case False
  with ins have d': "d' = d \<lparr> events := events d @ [e] \<rparr>" and f: "evID e \<notin> evID ` set (events d)"
    by (auto simp: insertEvent_def split: if_splits)
  have "front (events d @ [e])"
    unfolding front_def
  proof (intro ballI impI)
    fix y assume y: "y \<in> set (events d @ [e])" "evStatus y = EvDispatching"
    then have "y \<in> set (events d)" "is_head (events d) y" using p inv by (auto simp: outbox_inv_def front_def)
    moreover have "same_agg e y \<longrightarrow> ev_ord y \<le> ev_ord e"
      using late y(2) \<open>y \<in> set (events d)\<close> by (auto simp: same_agg_def ev_ord_def)
    ultimately show "is_head (events d @ [e]) y" by (auto simp: is_head_iff)
  qed
  then show ?thesis using inv False f by (auto simp: outbox_inv_def d')
qed

lemma insert_step:
  assumes "outbox_inv (data w)" and "\<forall>x \<in> set (events (data w)). same_agg x e \<and> evStatus x = EvDispatching \<longrightarrow> evCreatedAt x < created"
  shows "outbox_inv (data (snd (pgInsert created tx e w)))"
proof (cases tx)
  case True
  have "outbox_inv d'" if "insertEvent (e \<lparr> evPayload := (if evPayload e = '''' then ''{}'' else evPayload e),
          evMaxAttempts := (if evMaxAttempts e \<le> 0 then DefaultMaxAttempts else evMaxAttempts e),
          NextAttemptAt := (if time_is_zero (NextAttemptAt e) then wall w else NextAttemptAt e),
          evStatus := EvPending, evAttempts := 0, evLeasedUntil := None, evJobID := None, evLastError := None,
          evCreatedAt := created, evUpdatedAt := created, DispatchedAt := None \<rparr>) (data w) = Inr (x, d')" for x d'
    by (rule insertEvent_inv [OF assms(1) that]) (use assms(2) in \<open>auto simp: same_agg_def\<close>)
  with assms(1) True show ?thesis
    by (auto simp: pgInsert_def bind_def time_now_def stmt_def Let_def split: sum.splits prod.splits)
qed (use assms(1) in \<open>simp add: pgInsert_def fail_def\<close>)

lemma publish_inv:
  assumes "outbox_inv (data w)"
    and "\<forall>x \<in> set (events (data w)). AggregateType x = t \<and> AggregateID x = a \<and> evStatus x = EvDispatching \<longrightarrow> evCreatedAt x < created"
  shows "outbox_inv (data (snd (Publish gen jv created t a ty key raw w)))"
proof -
  have "outbox_inv (data (snd (pgInsert created True e w1)))"
    if "data w1 = data w" "AggregateType e = t" "AggregateID e = a" for e w1
    by (rule insert_step) (use assms that in \<open>auto simp: same_agg_def\<close>)
  moreover have "AggregateType (NewEvent i t a ty key raw) = t" "AggregateID (NewEvent i t a ty key raw) = a" for i
    by (simp_all add: NewEvent_def)
  ultimately show ?thesis using assms(1)
    by (auto simp: Publish_def writerInsert_def bind_def new_uuid_def ret_def fail_def Let_def split: option.splits if_splits prod.splits sum.splits)
qed

lemma ostep_inv: "ostep gen jv True w w' \<Longrightarrow> outbox_inv (data w) \<Longrightarrow> outbox_inv (data w')"
proof (induction rule: ostep.induct)
  case (o_publish w t a created ty key raw)
  then show ?case by (intro publish_inv) auto
next
  case (o_job w x)
  then show ?case by (simp add: outbox_inv_def run_job_op_events)
qed (use okeeps_claim okeeps_marks okeeps_prune in \<open>auto simp: moves_def okeeps_def\<close>)

definition outbox_init :: "time \<Rightarrow> outbox_db dbw" where
  "outbox_init t = \<lparr> data = \<lparr> jobs = [], events = [] \<rparr>, sched = [], drawn = 0, wall = t \<rparr>"

lemma outbox_reachable_inv: "(ostep gen jv True)\<^sup>*\<^sup>* (outbox_init t) w \<Longrightarrow> outbox_inv (data w)"
proof (induction rule: rtranclp_induct)
  case base
  show ?case by (simp add: outbox_init_def outbox_inv_def front_def)
qed (rule ostep_inv)

text \<open>
  C28: At most one event of an aggregate is in flight, and it is the oldest undelivered one. In every
  state that producers, any number of relays, retention sweeps and workers can reach by
  interleaving their statements, with any faults, a dispatching event precedes every other
  undelivered event of its aggregate in creation order, so two events of one aggregate are never
  dispatching together. Assumed is \<open>inOrder\<close>: no event becomes visible whose transaction started
  before an event of its aggregate that is already in flight was created. Without it two events
  of one aggregate can be in flight together (\<open>late_commit_two_in_flight\<close>).
\<close>

theorem outbox_one_in_flight:
  assumes "(ostep gen jsonValid True)\<^sup>*\<^sup>* (outbox_init t) w"
    and "e \<in> set (events (data w))" and "evStatus e = EvDispatching"
    and "x \<in> set (events (data w))" and "x \<noteq> e" and "undelivered x" and "same_agg x e"
  shows "ev_ord e < ev_ord x \<and> evStatus x = EvPending"
proof -
  have inv: "outbox_inv (data w)" by (rule outbox_reachable_inv [OF assms(1)])
  have head: "is_head (events (data w)) e" using inv assms(2,3) by (simp add: outbox_inv_def front_def)
  have ids: "evID x \<noteq> evID e" using inv assms(2,4,5) by (auto simp: outbox_inv_def distinct_map dest: inj_onD)
  have lt: "ev_ord e < ev_ord x"
    using head assms(4,6,7) ids by (auto simp: is_head_iff ev_ord_def less_le)
  moreover have "evStatus x \<noteq> EvDispatching"
  proof
    assume "evStatus x = EvDispatching"
    then have "is_head (events (data w)) x" using inv assms(4) by (simp add: outbox_inv_def front_def)
    moreover have "same_agg e x" using assms(7) by (simp add: same_agg_def)
    ultimately have "ev_ord x \<le> ev_ord e" using assms(2) head by (simp add: is_head_iff)
    with lt show False by simp
  qed
  ultimately show ?thesis using assms(6) by (auto simp: undelivered_def)
qed

definition publish0 :: "(nat \<Rightarrow> uuid) \<Rightarrow> time \<Rightarrow> string \<Rightarrow> outbox_db dbw \<Rightarrow> outbox_db dbw" where
  "publish0 gen created key w = snd (Publish gen (\<lambda>_. True) created ''vault'' ''v1'' ''webhook'' key ''{}'' w)"

definition claim0 :: "outbox_db dbw \<Rightarrow> event list \<times> outbox_db dbw" where
  "claim0 w = (case pgClaimDue [] \<lparr> cLimit = 10, cLease = 30, cNow = 100 \<rparr> w of
     (Inl _, w') \<Rightarrow> ([], w') | (Inr es, w') \<Rightarrow> (es, w'))"

lemma claim0_step: "ostep Suc (\<lambda>_. True) inOrder w (snd (claim0 w))"
proof -
  have eq: "snd (claim0 w) = snd (pgClaimDue [] \<lparr> cLimit = 10, cLease = 30, cNow = 100 \<rparr> w)"
    by (auto simp: claim0_def split: prod.splits sum.splits)
  show ?thesis unfolding eq by (rule o_claim)
qed

definition sample_outbox :: "outbox_db dbw" where
  "sample_outbox = snd (claim0 (publish0 Suc 11 ''b'' (publish0 Suc 10 ''a'' (outbox_init 50))))"

lemma sample_outbox_reachable: "(ostep Suc (\<lambda>_. True) inOrder)\<^sup>*\<^sup>* (outbox_init 50) sample_outbox"
proof -
  let ?a = "publish0 Suc 10 ''a'' (outbox_init 50)"
  let ?b = "publish0 Suc 11 ''b'' ?a"
  have "list_all (\<lambda>x. evCreatedAt x < 11) (events (data ?a))" by code_simp
  then have "ostep Suc (\<lambda>_. True) inOrder ?a ?b"
    unfolding publish0_def [of _ 11] by (intro o_publish) (auto simp: list_all_iff)
  moreover have "ostep Suc (\<lambda>_. True) inOrder (outbox_init 50) ?a"
    unfolding publish0_def by (intro o_publish) (simp add: outbox_init_def)
  moreover have "ostep Suc (\<lambda>_. True) inOrder ?b sample_outbox" unfolding sample_outbox_def by (rule claim0_step)
  ultimately show ?thesis by (meson rtranclp.rtrancl_into_rtrancl rtranclp.rtrancl_refl)
qed

theorem outbox_one_in_flight_witness:
  "\<exists>e x. set (events (data sample_outbox)) = {e, x} \<and> evStatus e = EvDispatching \<and> ev_ord e < ev_ord x \<and> evStatus x = EvPending"
proof -
  have "(case events (data sample_outbox) of [e, x] \<Rightarrow> evStatus e = EvDispatching \<and> x \<noteq> e \<and> undelivered x \<and> same_agg x e | _ \<Rightarrow> False)"
    by code_simp
  then obtain e x where l: "events (data sample_outbox) = [e, x]" and h: "evStatus e = EvDispatching" "x \<noteq> e" "undelivered x" "same_agg x e"
    by (auto split: list.splits)
  from outbox_one_in_flight [OF sample_outbox_reachable _ h(1) _ h(2-4)] l h(1) show ?thesis
    by (intro exI [of _ e] exI [of _ x]) simp
qed

text \<open>
  A transaction that started first and commits last: its event is older than the one that is in
  flight, so it is at the head of the aggregate, and the next claim hands it out as well.
\<close>

definition late_outbox :: "outbox_db dbw" where
  "late_outbox = snd (claim0 (publish0 Suc 10 ''older'' (snd (claim0 (publish0 Suc 11 ''newer'' (outbox_init 50))))))"

lemma late_commit_two_in_flight:
  "(ostep Suc (\<lambda>_. True) False)\<^sup>*\<^sup>* (outbox_init 50) late_outbox
   \<and> map (\<lambda>e. (DedupeKey e, evStatus e, AggregateType e, AggregateID e)) (events (data late_outbox))
     = [(''newer'', EvDispatching, ''vault'', ''v1''), (''older'', EvDispatching, ''vault'', ''v1'')]"
proof
  have p: "ostep Suc (\<lambda>_. True) False w (publish0 Suc t k w)" for t k w
    unfolding publish0_def by (rule o_publish) simp
  show "(ostep Suc (\<lambda>_. True) False)\<^sup>*\<^sup>* (outbox_init 50) late_outbox"
    unfolding late_outbox_def using p claim0_step by (meson rtranclp.rtrancl_into_rtrancl rtranclp.rtrancl_refl)
  show "map (\<lambda>e. (DedupeKey e, evStatus e, AggregateType e, AggregateID e)) (events (data late_outbox))
     = [(''newer'', EvDispatching, ''vault'', ''v1''), (''older'', EvDispatching, ''vault'', ''v1'')]"
    by code_simp
qed

definition gen_swapped :: "nat \<Rightarrow> uuid" where
  "gen_swapped n = (if n = 0 then 2 else if n = 1 then 1 else n + 1)"

text \<open>
  Insertion order is not kept inside one transaction. Two events that one transaction
  publishes for the same aggregate carry the same creation time and are ordered by their random
  identifiers: with identifiers that never repeat and are never nil, the relay may be handed the
  event inserted second while the first is still waiting.
\<close>

theorem outbox_same_transaction_reordered:
  "\<exists>gen. uuid_source gen \<and>
     map DedupeKey (fst (claim0 (publish0 gen 10 ''second'' (publish0 gen 10 ''first'' (outbox_init 50))))) = [''second'']"
proof (intro exI conjI)
  have "inj gen_swapped" by (auto simp: inj_def gen_swapped_def split: if_splits)
  then show "uuid_source gen_swapped" by (auto simp: uuid_source_def uuid_nil_def gen_swapped_def)
  show "map DedupeKey (fst (claim0 (publish0 gen_swapped 10 ''second'' (publish0 gen_swapped 10 ''first'' (outbox_init 50))))) = [''second'']"
    by code_simp
qed

section \<open>What a tick of the relay may conclude\<close>

text \<open>
  The event \<open>e\<close> is terminal for a reason: it was delivered by the job that the in-flight
  snapshot \<open>S\<close> names, or it is dead because its job is dead, it has no route, or its hand-offs
  are used up. \<open>js\<close> is the job table at the beginning of the tick.
\<close>

definition justified :: "job list \<Rightarrow> routes \<Rightarrow> event list \<Rightarrow> event \<Rightarrow> bool" where
  "justified js routes S e \<longleftrightarrow>
     (evStatus e = EvDispatched \<longrightarrow> (\<exists>s \<in> set S. \<exists>j \<in> set js. evID s = evID e \<and> evJobID s = Some (jID j) \<and> jStatus j = StatusSucceeded)) \<and>
     (evStatus e = EvDead \<longrightarrow> (case evLastError e of
         Some (JobDeadLettered i) \<Rightarrow> (\<exists>j \<in> set js. jID j = i \<and> jStatus j = StatusDead)
       | Some (NoRoute t) \<Rightarrow> map_of routes t = None
       | Some (ExhaustedHandOffs _) \<Rightarrow> True
       | Some (EnqueueFailed _ _) \<Rightarrow> True
       | _ \<Rightarrow> False))"

definition concludes :: "job list \<Rightarrow> routes \<Rightarrow> event list \<Rightarrow> outbox_db \<Rightarrow> outbox_db \<Rightarrow> bool" where
  "concludes js routes S d d' \<longleftrightarrow> (\<forall>e \<in> set (events d'). e \<in> set (events d) \<or> undelivered e \<or> justified js routes S e)"

lemma concludes_preorder: "reflp (concludes js routes S)" "transp (concludes js routes S)"
  unfolding concludes_def by (auto simp: reflp_def transp_def)

lemmas concludes_rules = moves_bind [OF concludes_preorder(2)] moves_trivial [OF concludes_preorder(1)]
  moves_stmt [OF concludes_preorder(1)] moves_attempt moves_if moves_option moves_sum moves_prod

lemma concludes_update:
  assumes "\<And>e. P e \<Longrightarrow> evID e = i \<Longrightarrow> undelivered (f e) \<or> justified js routes S (f e)"
  shows "moves (concludes js routes S) (updateEvent i P f)"
  unfolding updateEvent_def
  by (rule moves_stmt [OF concludes_preorder(1)]) (use assms in \<open>auto simp: concludes_def\<close>)

lemma concludes_dead:
  assumes "case why of JobDeadLettered i \<Rightarrow> (\<exists>j \<in> set js. jID j = i \<and> jStatus j = StatusDead)
    | NoRoute t \<Rightarrow> map_of routes t = None | ExhaustedHandOffs _ \<Rightarrow> True | EnqueueFailed _ _ \<Rightarrow> True | _ \<Rightarrow> False"
  shows "moves (concludes js routes S) (deadLetter e why)"
  unfolding deadLetter_def pgMarkDead_def
  by (intro concludes_rules concludes_update) (use assms in \<open>auto simp: justified_def split: reason.splits\<close>)

lemma concludes_release: "moves (concludes js routes S) (release c e why)"
  unfolding release_def pgRelease_def
  by (intro concludes_rules concludes_update) (auto simp: undelivered_def)

lemma concludes_claim: "moves (concludes js routes S) (pgClaimDue locked p)"
  unfolding pgClaimDue_def Let_def
  by (intro concludes_rules) (auto simp: concludes_def claimed_def undelivered_def split: if_splits)

lemma concludes_enqueue: "moves (concludes js routes S) (clientEnqueue gen inp)"
  by (simp add: moves_def concludes_def job_ops_keep_events(1) [unfolded moves_def, rule_format])

lemma concludes_handOff: "moves (concludes js routes S) (handOff gen c routes e)"
proof (cases "map_of routes (EventType e)")
  case None
  then show ?thesis unfolding handOff_def
    by (simp only: option.case) (intro concludes_rules concludes_dead; simp)
next
  case (Some jobType)
  then show ?thesis unfolding handOff_def pgMarkDispatching_def
    by (simp only: option.case)
      (intro concludes_rules concludes_dead concludes_release concludes_enqueue concludes_update; simp add: undelivered_def)
qed

lemma concludes_dispatch: "moves (concludes js routes S) (dispatch gen c routes locked)"
proof -
  have "moves (concludes js routes S) (dispatchLoop gen c routes es)" for es
    by (induction es) (simp_all, (intro concludes_rules concludes_handOff | assumption)+)
  then show ?thesis unfolding dispatch_def by (intro concludes_rules concludes_claim)
qed

text \<open>The reconcile phase leaves the jobs alone, so a status it reads is the status at the beginning.\<close>

definition reconciles :: "job list \<Rightarrow> routes \<Rightarrow> event list \<Rightarrow> outbox_db \<Rightarrow> outbox_db \<Rightarrow> bool" where
  "reconciles js routes S d d' \<longleftrightarrow> (jobs d = js \<longrightarrow> jobs d' = js \<and> concludes js routes S d d')"

lemma reconciles_preorder: "reflp (reconciles js routes S)" "transp (reconciles js routes S)"
  using concludes_preorder unfolding reconciles_def reflp_def transp_def by blast+

lemmas reconciles_rules = moves_bind [OF reconciles_preorder(2)] moves_trivial [OF reconciles_preorder(1)]
  moves_attempt moves_if moves_option moves_sum moves_prod

lemma updateEvent_jobs: "moves (\<lambda>d d'. jobs d' = jobs d) (updateEvent i P f)"
  unfolding updateEvent_def by (rule moves_stmt) (auto simp: reflp_def)

lemma reconciles_update:
  assumes "\<And>e. P e \<Longrightarrow> evID e = i \<Longrightarrow> undelivered (f e) \<or> justified js routes S (f e)"
  shows "moves (reconciles js routes S) (updateEvent i P f)"
  using concludes_update [of P i f js routes S, OF assms] updateEvent_jobs [of i P f]
  by (simp add: moves_def reconciles_def)

lemma reconciles_dead:
  assumes "\<exists>j \<in> set js. jID j = i \<and> jStatus j = StatusDead"
  shows "moves (reconciles js routes S) (deadLetter e (JobDeadLettered i))"
  unfolding deadLetter_def pgMarkDead_def
  by (intro reconciles_rules reconciles_update) (use assms in \<open>auto simp: justified_def\<close>)

lemma reconciles_release: "moves (reconciles js routes S) (release c e why)"
  unfolding release_def pgRelease_def
  by (intro reconciles_rules reconciles_update) (auto simp: undelivered_def)

lemma reconciles_status:
  assumes "\<And>st. (\<And>s. st = Inr s \<Longrightarrow> \<exists>j \<in> set js. jID j = i \<and> jStatus j = s) \<Longrightarrow> moves (reconciles js routes S) (f st)"
  shows "moves (reconciles js routes S) (bind (attempt (pgJobStatus i)) f)"
  unfolding moves_def
proof
  fix w :: "outbox_db dbw"
  obtain st w1 where q: "pgJobStatus i w = (st, w1)" by fastforce
  have d: "data w1 = data w" using query_data q unfolding pgJobStatus_def by (metis snd_conv)
  have run: "bind (attempt (pgJobStatus i)) f w = f st w1" by (simp add: bind_def attempt_def q)
  show "reconciles js routes S (data w) (data (snd (bind (attempt (pgJobStatus i)) f w)))"
  proof (cases "jobs (data w) = js")
    case True
    have "\<exists>j \<in> set js. jID j = i \<and> jStatus j = s" if "st = Inr s" for s
      using query_Inr [OF q [unfolded pgJobStatus_def that]] True
      by (auto split: option.splits dest!: find_Some_iff_mem)
    from assms [OF this] show ?thesis unfolding run moves_def by (metis d)
  qed (simp add: reconciles_def)
qed

lemma reconciles_loop:
  assumes "set es \<subseteq> set S"
  shows "moves (reconciles js routes S) (reconcileLoop c es)"
  using assms
proof (induction es)
  case (Cons e es)
  then have IH: "moves (reconciles js routes S) (reconcileLoop c es)" by simp
  have inc: "moves (reconciles js routes S) (bind (reconcileLoop c es) (\<lambda>n. ret (n + 1)))"
    by (intro reconciles_rules IH)
  show ?case
  proof (cases "evJobID e")
    case None
    then show ?thesis using IH by simp
  next
    case (Some i)
    have dlv: "moves (reconciles js routes S) (pgMarkDispatched (evID e) t)"
      if "\<exists>j \<in> set js. jID j = i \<and> jStatus j = StatusSucceeded" for t
      unfolding pgMarkDispatched_def
      by (intro reconciles_rules reconciles_update) (use that Some Cons.prems in \<open>auto simp: justified_def\<close>)
    show ?thesis
      unfolding reconcileLoop.simps Some option.case
    proof (rule reconciles_status, goal_cases)
      case (1 st)
      show ?case
      proof (cases st)
        case (Inl err)
        have rel: "moves (reconciles js routes S) (bind (release c e (JobGone i)) (\<lambda>_. bind (reconcileLoop c es) (\<lambda>n. ret (n + 1))))"
          by (intro reconciles_rules reconciles_release IH)
        show ?thesis unfolding Inl sum.case
          using IH rel by (auto split: db_error.splits jq_error.splits)
      next
        case (Inr s)
        show ?thesis
        proof (cases s)
          case StatusSucceeded
          show ?thesis unfolding Inr StatusSucceeded sum.case jstatus.case
            by (intro reconciles_rules dlv IH) (use 1 Inr StatusSucceeded in auto)
        next
          case StatusDead
          show ?thesis unfolding Inr StatusDead sum.case jstatus.case
            by (intro reconciles_rules reconciles_dead IH) (use 1 Inr StatusDead in auto)
        qed (simp_all add: Inr IH)
      qed
    qed
  qed
qed (simp add: moves_trivial [OF reconciles_preorder(1)])

lemma reconcile_concludes:
  assumes "reconcile c w = (r, w')"
  shows "jobs (data w') = jobs (data w) \<and> concludes (jobs (data w)) routes (events (data w)) (data w) (data w')"
proof -
  obtain q w1 where q: "pgInFlight (BatchSize c) w = (q, w1)" by fastforce
  have "moves (=) (pgInFlight (BatchSize c))"
    unfolding pgInFlight_def by (intro moves_if moves_trivial) (simp_all add: reflp_def)
  from movesD [OF this q] have d: "data w1 = data w" by simp
  have sub: "set es \<subseteq> set (events (data w))" if "q = Inr es" for es
    using q that unfolding pgInFlight_def
    by (auto simp: ret_def split: if_splits dest!: query_Inr in_set_takeD)
  show ?thesis
  proof (cases q)
    case (Inl e)
    then have "data w' = data w" using assms q d by (auto simp: reconcile_def bind_def attempt_def ret_def)
    then show ?thesis by (simp add: concludes_def)
  next
    case (Inr es)
    then have "reconcileLoop c es w1 = (r, w')" using assms q by (simp add: reconcile_def bind_def attempt_def)
    from movesD [OF reconciles_loop [OF sub [OF Inr]] this] show ?thesis
      by (simp add: d reconciles_def)
  qed
qed

text \<open>
  A tick of the relay settles events only with good reason. After any tick, with any faults, an
  event that is newly dispatched was in flight at the beginning of the tick with a job that had
  succeeded; an event that is newly dead records why: its job was in the dead-letter queue, its
  type has no route, or its hand-off attempts were used up. Every other event is still
  undelivered or was already terminal and is unchanged.
\<close>

theorem relay_tick_justified:
  assumes "relayTick gen c routes locked w = (r, w')" and "e \<in> set (events (data w'))"
  shows "e \<in> set (events (data w)) \<or> undelivered e \<or> justified (jobs (data w)) routes (events (data w)) e"
proof -
  let ?C = "concludes (jobs (data w)) routes (events (data w))"
  obtain q w1 where q: "reconcile c w = (q, w1)" by fastforce
  have r1: "?C (data w) (data w1)" using reconcile_concludes [OF q] by blast
  have "?C (data w1) (data w')"
  proof (cases q)
    case (Inl err)
    then have "w' = w1" using assms(1) q by (simp add: relayTick_def bind_def)
    then show ?thesis by (simp add: concludes_def)
  next
    case (Inr n)
    have "moves ?C (bind (dispatch gen c routes locked) (\<lambda>b. ret (n + b)))"
      by (intro concludes_rules concludes_dispatch)
    moreover have "bind (dispatch gen c routes locked) (\<lambda>b. ret (n + b)) w1 = (r, w')"
      using assms(1) q Inr by (simp add: relayTick_def bind_def)
    ultimately show ?thesis by (rule movesD)
  qed
  with r1 have "?C (data w) (data w')" by (rule transpD [OF concludes_preorder(2)])
  with assms(2) show ?thesis by (simp add: concludes_def)
qed

definition relay0 :: relay_config where
  "relay0 = relayDefaults \<lparr> rPollInterval = 0, BatchSize = 0, rLease = 0, rBackoff = 0 \<rparr>"

definition routes0 :: routes where "routes0 = [(''webhook'', ''webhook.deliver'')]"

definition relay_run :: "outbox_db dbw" where
  "relay_run = run_job_op Suc (JComplete 3 '''')
     (run_job_op Suc (JDequeue [] \<lparr> dType = ''webhook.deliver'', dLimit = 1, dLease = 10, dNow = 60 \<rparr>)
       (snd (relayTick Suc relay0 routes0 [] (publish0 Suc 11 ''b'' (publish0 Suc 10 ''a'' (outbox_init 50))))))"

theorem relay_tick_justified_witness:
  "\<exists>e. e \<in> set (events (data (snd (relayTick Suc relay0 routes0 [] relay_run)))) \<and> evStatus e = EvDispatched
     \<and> justified (jobs (data relay_run)) routes0 (events (data relay_run)) e"
proof -
  obtain r w' where t: "relayTick Suc relay0 routes0 [] relay_run = (r, w')" by fastforce
  have "list_ex (\<lambda>e. evStatus e = EvDispatched) (events (data (snd (relayTick Suc relay0 routes0 [] relay_run))))
     \<and> list_all (\<lambda>e. evStatus e \<noteq> EvDispatched) (events (data relay_run))" by code_simp
  then obtain e where e: "e \<in> set (events (data w'))" "evStatus e = EvDispatched" "e \<notin> set (events (data relay_run))"
    unfolding t by (auto simp: list_ex_iff list_all_iff)
  have "justified (jobs (data relay_run)) routes0 (events (data relay_run)) e"
    using relay_tick_justified [OF t e(1)] e(2,3) by (simp add: undelivered_def)
  with e show ?thesis unfolding t snd_conv by blast
qed

section \<open>Retention\<close>

text \<open>
  Retention never drops undelivered work. Whatever faults occur, a sweep keeps every pending and
  dispatching event and every terminal event inside its retention window; when both statements
  succeed on the leader it removes exactly the delivered and dead events past their windows and
  reports their number.
\<close>

theorem retention_prunes_exactly:
  assumes "retentionTick c leader w = (r, w')"
    and "old = (\<lambda>e. evStatus e = EvDispatched \<and> evUpdatedAt e < wall w - DispatchedRetention (retentionDefaults c)
        \<or> evStatus e = EvDead \<and> evUpdatedAt e < wall w - DeadRetention (retentionDefaults c))"
  shows "set (events (data w')) \<subseteq> set (events (data w))
    \<and> (\<forall>e \<in> set (events (data w)). \<not> old e \<longrightarrow> e \<in> set (events (data w')))
    \<and> (leader \<and> sched w = [] \<longrightarrow> events (data w') = filter (\<lambda>e. \<not> old e) (events (data w))
        \<and> r = Inr (int (length (filter old (events (data w))))))"
proof -
  let ?P = "\<lambda>e. evStatus e = EvDispatched \<and> evUpdatedAt e < wall w - DispatchedRetention (retentionDefaults c)"
  let ?Q = "\<lambda>e. evStatus e = EvDead \<and> evUpdatedAt e < wall w - DeadRetention (retentionDefaults c)"
  have cnt: "length (filter ?P es) + length (filter ?Q (filter (\<lambda>e. \<not> ?P e) es)) = length (filter old es)" for es
    by (induction es) (auto simp: assms(2))
  have flt: "filter (\<lambda>e. \<not> ?Q e) (filter (\<lambda>e. \<not> ?P e) es) = filter (\<lambda>e. \<not> old e) es" for es
    by (induction es) (auto simp: assms(2))
  show ?thesis
  proof (cases leader)
    case False
    then show ?thesis using assms(1) by (auto simp: retentionTick_def ret_def)
  next
    case True
    then show ?thesis using assms(1) cnt [of "events (data w)"] flt [of "events (data w)"]
      by (auto simp: retentionTick_def pgPruneTerminal_def pruneWhere_def bind_def time_now_def attempt_def ret_def
          stmt_def Let_def countEvents_def assms(2) split: if_splits)
  qed
qed

definition old_event :: event where
  "old_event = NewEvent 9 ''vault'' ''v1'' ''webhook'' ''k'' ''{}'' \<lparr> evStatus := EvDispatched \<rparr>"

theorem retention_prunes_exactly_witness:
  "let w = \<lparr> data = \<lparr> jobs = [], events = [old_event, old_event \<lparr> evStatus := EvPending \<rparr>] \<rparr>, sched = [], drawn = 0,
         wall = 100 * 24 * hour \<rparr>
   in events (data (snd (retentionTick \<lparr> DispatchedRetention = 0, DeadRetention = 0 \<rparr> True w))) = [old_event \<lparr> evStatus := EvPending \<rparr>]"
proof -
  let ?w = "\<lparr> data = \<lparr> jobs = [], events = [old_event, old_event \<lparr> evStatus := EvPending \<rparr>] \<rparr>, sched = [], drawn = 0,
         wall = 100 * 24 * hour \<rparr>"
  let ?c = "\<lparr> DispatchedRetention = 0, DeadRetention = 0 \<rparr>"
  obtain r w' where t: "retentionTick ?c True ?w = (r, w')" by fastforce
  from retention_prunes_exactly [OF t refl] show ?thesis
    unfolding Let_def t by (simp add: old_event_def NewEvent_def retentionDefaults_def duration_defs)
qed

end
