(* ===== verification/Signing.thy ===== *)
theory Signing
  imports Encoding "HOL-Library.Multiset"
begin

text \<open>
  The signing boundary (\<^verbatim>\<open>internal/signing\<close>): the typed intent and its structural checks
  (\<^verbatim>\<open>intent.go\<close>), the deployment policy and the replay guard (\<^verbatim>\<open>policy.go\<close>), the kill switch
  (\<^verbatim>\<open>killswitch.go\<close>), the commitment, the audit events and the counters (\<^verbatim>\<open>audit.go\<close>), the
  pipeline of \<^verbatim>\<open>Service.Sign\<close> (\<^verbatim>\<open>signer.go\<close>) and the server and client of the wire protocol
  (\<^verbatim>\<open>transport.go\<close>). Errors carry their category; the text of a reason, which no code reads,
  is left out.

  Parameters of the model: the clock (the time of each successive reading), the key backend
  (its answer to each successive call), the audit sink (whether each successive record is
  stored) and what \<^verbatim>\<open>os.Stat\<close> reports for the sentinel file.

  \<^verbatim>\<open>Sign\<close> is modelled as a whole and, for requests in flight at the same time, statement by
  statement (\<^verbatim>\<open>signStep\<close>); a lemma shows that the undisturbed pieces are the whole.
\<close>

section \<open>Intents\<close>

type_synonym operation = string

definition OpPause :: operation where "OpPause = ''pause''"
definition OpUnpause :: operation where "OpUnpause = ''unpause''"
definition OpRebalance :: operation where "OpRebalance = ''rebalance''"
definition OpSetWeights :: operation where "OpSetWeights = ''set_weights''"
definition OpDeposit :: operation where "OpDeposit = ''deposit''"
definition OpWithdraw :: operation where "OpWithdraw = ''withdraw''"
definition OpHarvest :: operation where "OpHarvest = ''harvest''"
definition OpEmergencyWithdrawAll :: operation where "OpEmergencyWithdrawAll = ''emergency_withdraw_all''"

type_synonym shape = string

definition ShapeVoid :: shape where "ShapeVoid = ''void''"
definition ShapeI128Pair :: shape where "ShapeI128Pair = ''i128_pair''"
definition ShapeAddressBool :: shape where "ShapeAddressBool = ''address_bool''"
definition ShapeWeights :: shape where "ShapeWeights = ''weights''"

lemmas op_defs = OpPause_def OpUnpause_def OpRebalance_def OpSetWeights_def OpDeposit_def
  OpWithdraw_def OpHarvest_def OpEmergencyWithdrawAll_def
lemmas shape_defs = ShapeVoid_def ShapeI128Pair_def ShapeAddressBool_def ShapeWeights_def

definition operationShapes :: "(operation \<times> shape) list" where
  "operationShapes =
     [(OpPause, ShapeVoid), (OpUnpause, ShapeVoid), (OpRebalance, ShapeVoid),
      (OpEmergencyWithdrawAll, ShapeVoid), (OpSetWeights, ShapeWeights),
      (OpDeposit, ShapeI128Pair), (OpWithdraw, ShapeI128Pair), (OpHarvest, ShapeAddressBool)]"

definition ShapeFor :: "operation \<Rightarrow> shape option" where
  "ShapeFor op = map_of operationShapes op"

record weight_entry =
  Protocol :: string
  WeightBps :: int

record intent =
  iID :: string
  Operation :: operation
  Shape :: shape
  ContractAddress :: string
  NetworkPassphrase :: string
  Arg0 :: int
  Arg1 :: int
  Address :: string
  Flag :: bool
  Weights :: "weight_entry list"
  IssuedAt :: time
  RequestID :: string

datatype rejection =
    RejectUnknownOperation | RejectShapeMismatch | RejectContractNotAllowed | RejectNetworkMismatch
  | RejectInvalidAddress | RejectAmountOutOfPolicy | RejectWeightsInvalid | RejectIntentExpired
  | RejectIntentReplayed | RejectMalformed | RejectKillSwitchActive | RejectUnauthorized

definition strkeyLen :: nat where "strkeyLen = 56"
definition maxWeightEntries :: nat where "maxWeightEntries = 32"
definition totalWeightBps :: int where "totalWeightBps = 10000"

definition validateContractAddress :: "string \<Rightarrow> rejection option" where
  "validateContractAddress a =
     (let addr = trim_space a
      in if addr = '''' then Some RejectMalformed
         else if \<not> has_prefix addr ''C'' then Some RejectInvalidAddress
         else if length addr \<noteq> strkeyLen then Some RejectInvalidAddress
         else None)"

definition validateAccountAddress :: "string \<Rightarrow> rejection option" where
  "validateAccountAddress a =
     (let addr = trim_space a
      in if addr = '''' then Some RejectMalformed
         else if \<not> has_prefix addr ''G'' then Some RejectInvalidAddress
         else if length addr \<noteq> strkeyLen then Some RejectInvalidAddress
         else None)"

fun weightsLoop :: "string list \<Rightarrow> int \<Rightarrow> weight_entry list \<Rightarrow> rejection option" where
  "weightsLoop seen tot [] = (if tot \<noteq> totalWeightBps then Some RejectWeightsInvalid else None)"
| "weightsLoop seen tot (w # ws) =
     (let name = trim_space (Protocol w)
      in if name = '''' then Some RejectWeightsInvalid
         else if 64 < length name then Some RejectWeightsInvalid
         else if name \<in> set seen then Some RejectWeightsInvalid
         else if WeightBps w < 0 \<or> totalWeightBps < WeightBps w then Some RejectWeightsInvalid
         else weightsLoop (name # seen) (wrap64 (tot + WeightBps w)) ws)"

definition validateWeights :: "weight_entry list \<Rightarrow> rejection option" where
  "validateWeights ws =
     (if ws = [] then Some RejectWeightsInvalid
      else if maxWeightEntries < length ws then Some RejectWeightsInvalid
      else weightsLoop [] 0 ws)"

definition validateArgs :: "shape \<Rightarrow> intent \<Rightarrow> rejection option" where
  "validateArgs sh i =
     (if sh = ShapeVoid then
        (if Arg0 i \<noteq> 0 \<or> Arg1 i \<noteq> 0 \<or> Address i \<noteq> '''' \<or> 0 < length (Weights i)
         then Some RejectShapeMismatch else None)
      else if sh = ShapeI128Pair then
        (if Address i \<noteq> '''' \<or> 0 < length (Weights i) then Some RejectShapeMismatch
         else if Arg0 i \<le> 0 then Some RejectAmountOutOfPolicy
         else if Arg1 i < 0 then Some RejectAmountOutOfPolicy
         else None)
      else if sh = ShapeAddressBool then
        (if Arg0 i \<noteq> 0 \<or> Arg1 i \<noteq> 0 \<or> 0 < length (Weights i) then Some RejectShapeMismatch
         else validateAccountAddress (Address i))
      else if sh = ShapeWeights then
        (if Arg0 i \<noteq> 0 \<or> Arg1 i \<noteq> 0 \<or> Address i \<noteq> '''' then Some RejectShapeMismatch
         else validateWeights (Weights i))
      else None)"

definition Validate :: "intent \<Rightarrow> rejection option" where
  "Validate i =
     (if trim_space (iID i) = '''' then Some RejectMalformed
      else case ShapeFor (Operation i) of
        None \<Rightarrow> Some RejectUnknownOperation
      | Some sh \<Rightarrow>
          if Shape i \<noteq> sh then Some RejectShapeMismatch
          else case validateContractAddress (ContractAddress i) of
            Some c \<Rightarrow> Some c
          | None \<Rightarrow>
              if trim_space (NetworkPassphrase i) = '''' then Some RejectMalformed
              else if time_is_zero (IssuedAt i) then Some RejectMalformed
              else validateArgs sh i)"

section \<open>Policy and replay guard\<close>

record policy =
  polNetwork :: string
  AllowedContracts :: "string list"
  AllowedOperations :: "operation list"
  MaxAmountStroops :: int
  MaxIntentAge :: duration
  ClockSkew :: duration

definition DefaultMaxIntentAge :: duration where "DefaultMaxIntentAge = 2 * minute"
definition DefaultClockSkew :: duration where "DefaultClockSkew = 30 * second"

definition NewPolicy :: "string \<Rightarrow> string list \<Rightarrow> operation list \<Rightarrow> int \<Rightarrow> duration \<Rightarrow> duration \<Rightarrow> policy" where
  "NewPolicy net cs ops mx age skew =
     \<lparr> polNetwork = trim_space net,
       AllowedContracts = remdups (filter (\<lambda>c. c \<noteq> '''') (map trim_space cs)),
       AllowedOperations = remdups (filter (\<lambda>op. ShapeFor op \<noteq> None) ops),
       MaxAmountStroops = mx,
       MaxIntentAge = (if age \<le> 0 then DefaultMaxIntentAge else age),
       ClockSkew = (if skew \<le> 0 then DefaultClockSkew else skew) \<rparr>"

definition Evaluate :: "policy \<Rightarrow> intent \<Rightarrow> time \<Rightarrow> rejection option" where
  "Evaluate p i now =
     (if polNetwork p = '''' then Some RejectNetworkMismatch
      else if NetworkPassphrase i \<noteq> polNetwork p then Some RejectNetworkMismatch
      else if AllowedOperations p = [] then Some RejectUnknownOperation
      else if Operation i \<notin> set (AllowedOperations p) then Some RejectUnknownOperation
      else if AllowedContracts p = [] then Some RejectContractNotAllowed
      else if trim_space (ContractAddress i) \<notin> set (AllowedContracts p) then Some RejectContractNotAllowed
      else if Shape i = ShapeI128Pair \<and> 0 < MaxAmountStroops p \<and> MaxAmountStroops p < Arg0 i
      then Some RejectAmountOutOfPolicy
      else let age = time_sub now (IssuedAt i)
        in if MaxIntentAge p < age then Some RejectIntentExpired
           else if age < wrap64 (- ClockSkew p) then Some RejectIntentExpired
           else None)"

text \<open>The map of seen identifiers is an association list; an identifier is only added when it is absent.\<close>

record replay_guard =
  seen :: "(string \<times> time) list"
  retention :: duration
  lastSweep :: time

definition NewReplayGuard :: "duration \<Rightarrow> replay_guard" where
  "NewReplayGuard r =
     \<lparr> seen = [], retention = (if r \<le> 0 then DefaultMaxIntentAge + DefaultClockSkew else r), lastSweep = 0 \<rparr>"

definition sweepInterval :: duration where "sweepInterval = 30 * second"

definition sweepLocked :: "time \<Rightarrow> replay_guard \<Rightarrow> replay_guard" where
  "sweepLocked now g =
     (if time_sub now (lastSweep g) < sweepInterval then g
      else let cutoff = now + wrap64 (- retention g)
           in g \<lparr> lastSweep := now, seen := filter (\<lambda>(_, t). \<not> t < cutoff) (seen g) \<rparr>)"

definition Observe :: "string \<Rightarrow> time \<Rightarrow> replay_guard \<Rightarrow> rejection option \<times> replay_guard" where
  "Observe i now g0 =
     (let g = sweepLocked now g0
      in if i \<in> fst ` set (seen g) then (Some RejectIntentReplayed, g)
         else (None, g \<lparr> seen := (i, now) # seen g \<rparr>))"

definition Size :: "replay_guard \<Rightarrow> nat" where
  "Size g = length (seen g)"

section \<open>Kill switch\<close>

text \<open>What \<^verbatim>\<open>os.Stat\<close> reports for the sentinel: present, absent, or an error that is neither.\<close>

datatype stat_result = Present | NotExist | StatError

datatype kstate = StateUnset | StateEnabled | StateDisabled | StateUnknown

record kill_switch =
  ksPath :: string
  lastState :: kstate
  checkedAt :: time

text \<open>What \<^verbatim>\<open>os.Stat\<close> reports for the directory of the sentinel when the switch is built.\<close>

datatype dir_result = DirError | NotADir | IsDir

definition NewKillSwitch :: "dir_result \<Rightarrow> string \<Rightarrow> kill_switch option" where
  "NewKillSwitch dir path0 =
     (let path = trim_space path0
      in if path = '''' then None
         else if dir \<noteq> IsDir then None
         else Some \<lparr> ksPath = path, lastState = StateUnset, checkedAt = 0 \<rparr>)"

definition evaluateSwitch :: "stat_result \<Rightarrow> kstate" where
  "evaluateSwitch st = (case st of Present \<Rightarrow> StateDisabled | NotExist \<Rightarrow> StateEnabled | StatError \<Rightarrow> StateUnknown)"

text \<open>\<open>True\<close> is the error \<^verbatim>\<open>ErrSigningDisabled\<close>.\<close>

definition Check :: "stat_result \<Rightarrow> time \<Rightarrow> kill_switch \<Rightarrow> (kstate \<times> bool) \<times> kill_switch" where
  "Check st now k =
     (let state = evaluateSwitch st; k' = k \<lparr> lastState := state, checkedAt := now \<rparr>
      in case state of StateEnabled \<Rightarrow> ((state, False), k')
         | StateDisabled \<Rightarrow> ((state, True), k')
         | _ \<Rightarrow> ((StateUnknown, True), k'))"

text \<open>
  Engaging creates the file; the file exists from then on even when writing the reason
  fails. The two flags are the answers of \<^verbatim>\<open>os.OpenFile\<close> and of the write, the third of
  \<^verbatim>\<open>os.Remove\<close> on a file that is there.
\<close>

definition Engage :: "bool \<Rightarrow> bool \<Rightarrow> bool \<Rightarrow> stat_result \<Rightarrow> bool \<times> stat_result" where
  "Engage cancelled openOK writeOK st =
     (if cancelled then (False, st)
      else if \<not> openOK then (False, st)
      else (writeOK, Present))"

definition Release :: "bool \<Rightarrow> bool \<Rightarrow> stat_result \<Rightarrow> bool \<times> stat_result" where
  "Release cancelled removeOK st =
     (if cancelled then (False, st)
      else if st = NotExist then (True, st)
      else if removeOK then (True, NotExist) else (False, st))"

definition sanitizeReason :: "string \<Rightarrow> string" where
  "sanitizeReason r0 =
     (let r = trim_space r0
      in if r = '''' then ''unspecified''
         else take 256 (map (\<lambda>c. if c = CHR 0x0A \<or> c = CHR 0x0D then CHR '' '' else c) r))"

section \<open>Commitment, events and counters\<close>

definition NetworkLabel :: "string \<Rightarrow> string" where
  "NetworkLabel p =
     (let s = trim_space p
      in if s = ''Public Global Stellar Network ; September 2015'' then ''pubnet''
         else if s = ''Test SDF Network ; September 2015'' then ''testnet''
         else if s = ''Test SDF Future Network ; October 2022'' then ''futurenet''
         else if s = '''' then ''unset'' else ''custom'')"

definition writeField :: "string \<Rightarrow> string \<Rightarrow> string" where
  "writeField tag field = tag @ [CHR 0x1F] @ field @ [CHR 0x1E]"

text \<open>The bytes written into the hash, and the commitment for a hash function \<open>h\<close> (hexadecimal SHA-256 in the code).\<close>

definition intentBytes :: "intent \<Rightarrow> string" where
  "intentBytes i =
     writeField ''id'' (iID i) @ writeField ''op'' (Operation i) @ writeField ''shape'' (Shape i) @
     writeField ''contract'' (ContractAddress i) @ writeField ''network'' (NetworkLabel (NetworkPassphrase i)) @
     writeField ''arg0'' (itoa (Arg0 i)) @ writeField ''arg1'' (itoa (Arg1 i)) @
     writeField ''address'' (Address i) @ writeField ''flag'' (if Flag i then ''true'' else ''false'') @
     concat (map (\<lambda>w. writeField (''w:'' @ Protocol w) (itoa (WeightBps w))) (Weights i)) @
     writeField ''issued_at'' (RFC3339Nano (IssuedAt i))"

definition HashIntent :: "(string \<Rightarrow> string) \<Rightarrow> intent \<Rightarrow> string" where
  "HashIntent h i = h (intentBytes i)"

datatype outcome = OutcomeSigned | OutcomeRejected | OutcomeUnauthorized | OutcomeDisabled | OutcomeError

record event =
  evIntentID :: string
  evRequestID :: string
  evCaller :: string
  evOperation :: operation
  evContract :: string
  evKeyID :: string
  evIntentHash :: string
  evOutcome :: outcome
  evRejection :: "rejection option"
  evLatencyMS :: int
  evOccurredAt :: time

record counters =
  requests :: "operation \<Rightarrow> int"
  signed :: "operation \<Rightarrow> int"
  rejected :: "rejection \<Rightarrow> int"
  unauthorized :: int
  disabled :: int
  errors :: int
  latencyTotal :: duration
  latencyCount :: int
  latencyMax :: duration

definition NewCounters :: counters where
  "NewCounters = \<lparr> requests = (\<lambda>_. 0), signed = (\<lambda>_. 0), rejected = (\<lambda>_. 0), unauthorized = 0,
     disabled = 0, errors = 0, latencyTotal = 0, latencyCount = 0, latencyMax = 0 \<rparr>"

definition bump :: "'k \<Rightarrow> ('k \<Rightarrow> int) \<Rightarrow> 'k \<Rightarrow> int" where
  "bump k m = m(k := wrap64 (m k + 1))"

definition observeLatencyLocked :: "duration \<Rightarrow> counters \<Rightarrow> counters" where
  "observeLatencyLocked d c =
     (let c1 = c \<lparr> latencyTotal := wrap64 (latencyTotal c + d), latencyCount := wrap64 (latencyCount c + 1) \<rparr>
      in if latencyMax c1 < d then c1 \<lparr> latencyMax := d \<rparr> else c1)"

definition ObserveRequest :: "operation \<Rightarrow> counters \<Rightarrow> counters" where
  "ObserveRequest op c = c \<lparr> requests := bump op (requests c) \<rparr>"

definition ObserveSigned :: "operation \<Rightarrow> duration \<Rightarrow> counters \<Rightarrow> counters" where
  "ObserveSigned op d c = observeLatencyLocked d (c \<lparr> signed := bump op (signed c) \<rparr>)"

definition ObserveRejected :: "rejection \<Rightarrow> duration \<Rightarrow> counters \<Rightarrow> counters" where
  "ObserveRejected cat d c = observeLatencyLocked d (c \<lparr> rejected := bump cat (rejected c) \<rparr>)"

definition ObserveUnauthorized :: "counters \<Rightarrow> counters" where
  "ObserveUnauthorized c = c \<lparr> unauthorized := wrap64 (unauthorized c + 1) \<rparr>"

definition ObserveDisabled :: "counters \<Rightarrow> counters" where
  "ObserveDisabled c = c \<lparr> disabled := wrap64 (disabled c + 1) \<rparr>"

definition ObserveError :: "counters \<Rightarrow> counters" where
  "ObserveError c = c \<lparr> errors := wrap64 (errors c + 1) \<rparr>"

definition MeanLatency :: "counters \<Rightarrow> duration" where
  "MeanLatency c = (if 0 < latencyCount c then go_quot (latencyTotal c) (latencyCount c) else 0)"

section \<open>The signing service\<close>

text \<open>
  A backend answers its \<open>n\<close>-th call with a signed envelope or an error; the clock function
  gives the time of its \<open>n\<close>-th reading; the sink stores its \<open>n\<close>-th record or fails.
\<close>

record backend =
  bKeyID :: string
  BuildAndSign :: "nat \<Rightarrow> intent \<Rightarrow> string option"

record service =
  sBackend :: backend
  sPolicy :: policy
  sNow :: "nat \<Rightarrow> time"
  sSink :: "nat \<Rightarrow> bool"
  sHash :: "string \<Rightarrow> string"

text \<open>
  The state of the process: the switch and the file it watches, the guard, the counters, the
  number of clock readings so far, the backend's calls in order with whether each produced a
  signature, and the audit events emitted and the ones the sink stored.
\<close>

record sstate =
  killSwitch :: kill_switch
  sentinel :: stat_result
  replayGuard :: replay_guard
  sCounters :: counters
  reads :: nat
  backendCalls :: "(intent \<times> bool) list"
  emitted :: "event list"
  stored :: "event list"

datatype sign_error = ErrSigningDisabled kstate | PolicyError rejection | SignFailed

record sign_result =
  SignedXDR :: string
  KeyID :: string
  IntentHash :: string

record service_options =
  optBackend :: "backend option"
  optPolicy :: "policy option"
  optKillSwitch :: "kill_switch option"
  optReplayGuard :: "replay_guard option"
  optCounters :: "counters option"

definition NewService :: "(nat \<Rightarrow> time) \<Rightarrow> (nat \<Rightarrow> bool) \<Rightarrow> (string \<Rightarrow> string) \<Rightarrow> service_options \<Rightarrow> stat_result \<Rightarrow> (service \<times> sstate) option" where
  "NewService clk sink h opts st =
     (case optBackend opts of None \<Rightarrow> None | Some b \<Rightarrow>
      case optPolicy opts of None \<Rightarrow> None | Some p \<Rightarrow>
      case optKillSwitch opts of None \<Rightarrow> None | Some k \<Rightarrow>
        Some (\<lparr> sBackend = b, sPolicy = p, sNow = clk, sSink = sink, sHash = h \<rparr>,
          \<lparr> killSwitch = k, sentinel = st,
            replayGuard = (case optReplayGuard opts of Some g \<Rightarrow> g
              | None \<Rightarrow> NewReplayGuard (wrap64 (MaxIntentAge p + ClockSkew p))),
            sCounters = (case optCounters opts of Some c \<Rightarrow> c | None \<Rightarrow> NewCounters),
            reads = 0, backendCalls = [], emitted = [], stored = [] \<rparr>))"

definition s_now :: "service \<Rightarrow> sstate \<Rightarrow> time \<times> sstate" where
  "s_now s w = (sNow s (reads w), w \<lparr> reads := Suc (reads w) \<rparr>)"

definition milliseconds :: "duration \<Rightarrow> int" where
  "milliseconds d = go_quot d millisecond"

definition emit :: "service \<Rightarrow> event \<Rightarrow> sstate \<Rightarrow> sstate" where
  "emit s ev w =
     (if sSink s (length (emitted w))
      then w \<lparr> emitted := emitted w @ [ev], stored := stored w @ [ev] \<rparr>
      else w \<lparr> emitted := emitted w @ [ev] \<rparr>)"

definition mkEvent :: "service \<Rightarrow> string \<Rightarrow> intent \<Rightarrow> outcome \<Rightarrow> rejection option \<Rightarrow> duration \<Rightarrow> time \<Rightarrow> event" where
  "mkEvent s caller i out rej latency t =
     \<lparr> evIntentID = iID i, evRequestID = RequestID i, evCaller = caller, evOperation = Operation i,
       evContract = ContractAddress i, evKeyID = bKeyID (sBackend s), evIntentHash = HashIntent (sHash s) i,
       evOutcome = out, evRejection = rej, evLatencyMS = milliseconds latency, evOccurredAt = t \<rparr>"

definition rejectWith :: "service \<Rightarrow> string \<Rightarrow> intent \<Rightarrow> time \<Rightarrow> rejection \<Rightarrow> sstate \<Rightarrow> (sign_error + sign_result) \<times> sstate" where
  "rejectWith s caller i start cat w =
     (let (t1, w1) = s_now s w; latency = time_sub t1 start;
          w2 = w1 \<lparr> sCounters := ObserveRejected cat latency (sCounters w1) \<rparr>;
          (t2, w3) = s_now s w2
      in (Inl (PolicyError cat), emit s (mkEvent s caller i OutcomeRejected (Some cat) latency t2) w3))"

definition checkSwitch :: "service \<Rightarrow> sstate \<Rightarrow> (kstate \<times> bool) \<times> sstate" where
  "checkSwitch s w =
     (let (t, w1) = s_now s w; (r, k) = Check (sentinel w1) t (killSwitch w1)
      in (r, w1 \<lparr> killSwitch := k \<rparr>))"

definition signDisabled :: "service \<Rightarrow> string \<Rightarrow> intent \<Rightarrow> time \<Rightarrow> kstate \<Rightarrow> sstate \<Rightarrow> (sign_error + sign_result) \<times> sstate" where
  "signDisabled s caller i start state w =
     (let w1 = w \<lparr> sCounters := ObserveDisabled (sCounters w) \<rparr>;
          (t1, w2) = s_now s w1; (t2, w3) = s_now s w2
      in (Inl (ErrSigningDisabled state),
          emit s (mkEvent s caller i OutcomeDisabled (Some RejectKillSwitchActive) (time_sub t1 start) t2) w3))"

definition signFailed :: "service \<Rightarrow> string \<Rightarrow> intent \<Rightarrow> time \<Rightarrow> sstate \<Rightarrow> (sign_error + sign_result) \<times> sstate" where
  "signFailed s caller i start w =
     (let w1 = w \<lparr> sCounters := ObserveError (sCounters w) \<rparr>;
          (t1, w2) = s_now s w1; (t2, w3) = s_now s w2
      in (Inl SignFailed, emit s (mkEvent s caller i OutcomeError None (time_sub t1 start) t2) w3))"

definition signDone :: "service \<Rightarrow> string \<Rightarrow> intent \<Rightarrow> time \<Rightarrow> string \<Rightarrow> sstate \<Rightarrow> (sign_error + sign_result) \<times> sstate" where
  "signDone s caller i start xdr w =
     (let (t1, w1) = s_now s w; latency = time_sub t1 start;
          w2 = w1 \<lparr> sCounters := ObserveSigned (Operation i) latency (sCounters w1) \<rparr>;
          (t2, w3) = s_now s w2
      in (Inr \<lparr> SignedXDR = xdr, KeyID = bKeyID (sBackend s), IntentHash = HashIntent (sHash s) i \<rparr>,
          emit s (mkEvent s caller i OutcomeSigned None latency t2) w3))"

definition Sign :: "service \<Rightarrow> string \<Rightarrow> intent \<Rightarrow> sstate \<Rightarrow> (sign_error + sign_result) \<times> sstate" where
  "Sign s caller i w0 =
     (let (start, w1) = s_now s w0;
          w2 = w1 \<lparr> sCounters := ObserveRequest (Operation i) (sCounters w1) \<rparr>;
          ((state, refused), w3) = checkSwitch s w2
      in if refused then signDisabled s caller i start state w3
         else case Validate i of
           Some cat \<Rightarrow> rejectWith s caller i start cat w3
         | None \<Rightarrow>
             let (t1, w4) = s_now s w3
             in case Evaluate (sPolicy s) i t1 of
               Some cat \<Rightarrow> rejectWith s caller i start cat w4
             | None \<Rightarrow>
                 let (t2, w5) = s_now s w4;
                     (dup, g) = Observe (iID i) t2 (replayGuard w5);
                     w6 = w5 \<lparr> replayGuard := g \<rparr>
                 in case dup of
                   Some cat \<Rightarrow> rejectWith s caller i start cat w6
                 | None \<Rightarrow>
                     let answer = BuildAndSign (sBackend s) (length (backendCalls w6)) i;
                         w7 = w6 \<lparr> backendCalls := backendCalls w6 @ [(i, answer \<noteq> None)] \<rparr>
                     in case answer of
                       None \<Rightarrow> signFailed s caller i start w7
                     | Some xdr \<Rightarrow> signDone s caller i start xdr w7)"

section \<open>Server and client\<close>

datatype request_body = BodyUnreadable | BodyNotJSON | BodyIntent "intent option"

text \<open>A request: its method, what \<^verbatim>\<open>callerIdentity\<close> resolves it to, and its body.\<close>

record sign_request =
  reqMethod :: string
  reqCaller :: "string option"
  reqBody :: request_body

datatype wire = WireResponse sign_result | WireError string "rejection option"

record response =
  respStatus :: int
  respBody :: wire

definition writeWireError :: "int \<Rightarrow> string \<Rightarrow> rejection option \<Rightarrow> response" where
  "writeWireError st msg rej = \<lparr> respStatus = st, respBody = WireError msg rej \<rparr>"

fun writeSignError :: "sign_error \<Rightarrow> response" where
  "writeSignError (PolicyError cat) = writeWireError 422 ''intent rejected by signing policy'' (Some cat)"
| "writeSignError (ErrSigningDisabled _) = writeWireError 503 ''signing is disabled'' (Some RejectKillSwitchActive)"
| "writeSignError SignFailed = writeWireError 502 ''signing failed'' None"

definition handleSign :: "service \<Rightarrow> sign_request \<Rightarrow> sstate \<Rightarrow> response \<times> sstate" where
  "handleSign s r w =
     (if reqMethod r \<noteq> ''POST'' then (writeWireError 405 ''method not allowed'' None, w)
      else case reqCaller r of
        None \<Rightarrow> (writeWireError 401 ''unauthorized'' (Some RejectUnauthorized),
                 w \<lparr> sCounters := ObserveUnauthorized (sCounters w) \<rparr>)
      | Some caller \<Rightarrow> (case reqBody r of
          BodyUnreadable \<Rightarrow> (writeWireError 400 ''request body could not be read'' (Some RejectMalformed), w)
        | BodyNotJSON \<Rightarrow> (writeWireError 400 ''request body is not valid JSON'' (Some RejectMalformed), w)
        | BodyIntent None \<Rightarrow> (writeWireError 400 ''intent is required'' (Some RejectMalformed), w)
        | BodyIntent (Some i) \<Rightarrow> (case Sign s caller i w of
            (Inl e, w') \<Rightarrow> (writeSignError e, w')
          | (Inr res, w') \<Rightarrow> (\<lparr> respStatus = 200, respBody = WireResponse res \<rparr>, w'))))"

datatype client_error = ClientDisabled | ClientPolicy rejection | ClientStatus int | ClientDecode | ClientEmpty

text \<open>
  The client reads at most 64 KiB of the body; \<open>fits\<close> says whether the encoded message is
  within that, and a truncated message does not decode.
\<close>

definition clientResult :: "(wire \<Rightarrow> bool) \<Rightarrow> response \<Rightarrow> client_error + sign_result" where
  "clientResult fits r =
     (if respStatus r \<noteq> 200 then
        (case (if fits (respBody r) then respBody r else WireError '''' None) of
           WireError msg (Some rej) \<Rightarrow>
             if rej = RejectKillSwitchActive then Inl ClientDisabled else Inl (ClientPolicy rej)
         | _ \<Rightarrow> Inl (ClientStatus (respStatus r)))
      else if \<not> fits (respBody r) then Inl ClientDecode
      else case respBody r of
        WireResponse res \<Rightarrow> if SignedXDR res = '''' then Inl ClientEmpty else Inr res
      | WireError _ _ \<Rightarrow> Inl ClientEmpty)"

section \<open>What one call does\<close>

lemma emit_simps [simp]:
  "emitted (emit s ev w) = emitted w @ [ev]"
  "backendCalls (emit s ev w) = backendCalls w" "replayGuard (emit s ev w) = replayGuard w"
  "sentinel (emit s ev w) = sentinel w" "reads (emit s ev w) = reads w"
  "sCounters (emit s ev w) = sCounters w" "killSwitch (emit s ev w) = killSwitch w"
  by (simp_all add: emit_def)

lemma Check_eq: "Check st t k = ((evaluateSwitch st, st \<noteq> NotExist), k \<lparr> lastState := evaluateSwitch st, checkedAt := t \<rparr>)"
  by (cases st) (simp_all add: Check_def evaluateSwitch_def)

lemmas end_defs = rejectWith_def signDisabled_def signFailed_def signDone_def s_now_def Let_def

text \<open>How the four ends of a call leave the state, and the state the gates are tried in.\<close>

lemma end_results [simp]:
  "fst (rejectWith s caller i start cat w) = Inl (PolicyError cat)"
  "fst (signDisabled s caller i start state w) = Inl (ErrSigningDisabled state)"
  "fst (signFailed s caller i start w) = Inl SignFailed"
  "fst (signDone s caller i start xdr w) =
     Inr \<lparr> SignedXDR = xdr, KeyID = bKeyID (sBackend s), IntentHash = HashIntent (sHash s) i \<rparr>"
  by (simp_all add: end_defs)

lemma end_frames [simp]:
  "sentinel (snd (rejectWith s caller i start cat w)) = sentinel w"
  "sentinel (snd (signDisabled s caller i start state w)) = sentinel w"
  "sentinel (snd (signFailed s caller i start w)) = sentinel w"
  "sentinel (snd (signDone s caller i start xdr w)) = sentinel w"
  "replayGuard (snd (rejectWith s caller i start cat w)) = replayGuard w"
  "replayGuard (snd (signDisabled s caller i start state w)) = replayGuard w"
  "replayGuard (snd (signFailed s caller i start w)) = replayGuard w"
  "replayGuard (snd (signDone s caller i start xdr w)) = replayGuard w"
  "backendCalls (snd (rejectWith s caller i start cat w)) = backendCalls w"
  "backendCalls (snd (signDisabled s caller i start state w)) = backendCalls w"
  "backendCalls (snd (signFailed s caller i start w)) = backendCalls w"
  "backendCalls (snd (signDone s caller i start xdr w)) = backendCalls w"
  "reads (snd (rejectWith s caller i start cat w)) = reads w + 2"
  "reads (snd (signDisabled s caller i start state w)) = reads w + 2"
  "reads (snd (signFailed s caller i start w)) = reads w + 2"
  "reads (snd (signDone s caller i start xdr w)) = reads w + 2"
  by (simp_all add: end_defs)

definition opened :: "service \<Rightarrow> intent \<Rightarrow> sstate \<Rightarrow> sstate" where
  "opened s i w =
     w \<lparr> reads := reads w + 2, sCounters := ObserveRequest (Operation i) (sCounters w),
         killSwitch := (killSwitch w) \<lparr> lastState := evaluateSwitch (sentinel w), checkedAt := sNow s (Suc (reads w)) \<rparr> \<rparr>"

lemma opened_simps [simp]:
  "reads (opened s i w) = reads w + 2" "sCounters (opened s i w) = ObserveRequest (Operation i) (sCounters w)"
  "replayGuard (opened s i w) = replayGuard w" "backendCalls (opened s i w) = backendCalls w"
  "sentinel (opened s i w) = sentinel w" "emitted (opened s i w) = emitted w"
  by (simp_all add: opened_def)

lemma Sign_eq:
  "Sign s caller i w =
     (let start = sNow s (reads w); W = opened s i w
      in if sentinel w \<noteq> NotExist then signDisabled s caller i start (evaluateSwitch (sentinel w)) W
         else case Validate i of Some cat \<Rightarrow> rejectWith s caller i start cat W
         | None \<Rightarrow> case Evaluate (sPolicy s) i (sNow s (reads w + 2)) of
             Some cat \<Rightarrow> rejectWith s caller i start cat (W \<lparr> reads := reads w + 3 \<rparr>)
           | None \<Rightarrow>
               let obs = Observe (iID i) (sNow s (reads w + 3)) (replayGuard w);
                   V = W \<lparr> reads := reads w + 4, replayGuard := snd obs \<rparr>
               in case fst obs of Some cat \<Rightarrow> rejectWith s caller i start cat V
                  | None \<Rightarrow> case BuildAndSign (sBackend s) (length (backendCalls w)) i of
                      None \<Rightarrow> signFailed s caller i start (V \<lparr> backendCalls := backendCalls w @ [(i, False)] \<rparr>)
                    | Some xdr \<Rightarrow> signDone s caller i start xdr (V \<lparr> backendCalls := backendCalls w @ [(i, True)] \<rparr>))"
  unfolding Sign_def checkSwitch_def Check_eq s_now_def Let_def opened_def
  by (cases w) (simp add: eval_nat_numeral case_prod_unfold cong: option.case_cong if_cong)

lemma Observe_answer: "fst (Observe x t g) = None \<or> fst (Observe x t g) = Some RejectIntentReplayed"
  by (simp add: Observe_def Let_def)

text \<open>
  One call of \<^const>\<open>Sign\<close>: the sentinel is not written, the backend is asked exactly when every
  gate is passed, and the guard changes only when it was consulted.
\<close>

definition gates :: "service \<Rightarrow> intent \<Rightarrow> sstate \<Rightarrow> bool" where
  "gates s i w \<longleftrightarrow> sentinel w = NotExist \<and> Validate i = None
     \<and> Evaluate (sPolicy s) i (sNow s (reads w + 2)) = None
     \<and> fst (Observe (iID i) (sNow s (reads w + 3)) (replayGuard w)) = None"

lemma Sign_frame:
  "sentinel (snd (Sign s caller i w)) = sentinel w" "reads w + 4 \<le> reads (snd (Sign s caller i w))"
  by (auto simp: Sign_eq Let_def split: option.splits)

lemma Sign_guard:
  "replayGuard (snd (Sign s caller i w)) = replayGuard w \<or>
   replayGuard (snd (Sign s caller i w)) = snd (Observe (iID i) (sNow s (reads w + 3)) (replayGuard w))"
  by (auto simp: Sign_eq Let_def split: option.splits)

lemma Sign_gated:
  assumes "gates s i w"
  shows "backendCalls (snd (Sign s caller i w)) = backendCalls w @ [(i, \<exists>x. fst (Sign s caller i w) = Inr x)]"
    and "replayGuard (snd (Sign s caller i w)) = snd (Observe (iID i) (sNow s (reads w + 3)) (replayGuard w))"
  using assms by (auto simp: gates_def Sign_eq Let_def split: option.splits)

lemma Sign_refused:
  assumes "\<not> gates s i w"
  shows "backendCalls (snd (Sign s caller i w)) = backendCalls w"
  using assms by (auto simp: gates_def Sign_eq Let_def split: option.splits)

lemma Sign_halted:
  assumes "sentinel w \<noteq> NotExist"
  shows "fst (Sign s caller i w) = Inl (ErrSigningDisabled (evaluateSwitch (sentinel w)))"
    and "replayGuard (snd (Sign s caller i w)) = replayGuard w"
    and "backendCalls (snd (Sign s caller i w)) = backendCalls w"
  using assms by (simp_all add: Sign_eq Let_def)

lemma handleSign_intent:
  assumes "reqMethod r = ''POST''" and "reqCaller r = Some caller" and "reqBody r = BodyIntent (Some i)"
  shows "handleSign s r w =
    (case fst (Sign s caller i w) of Inl e \<Rightarrow> writeSignError e
       | Inr res \<Rightarrow> \<lparr> respStatus = 200, respBody = WireResponse res \<rparr>, snd (Sign s caller i w))"
  using assms by (simp add: handleSign_def case_prod_unfold split: sum.splits)

lemma handleSign_other:
  assumes "\<not> (reqMethod r = ''POST'' \<and> (\<exists>caller i. reqCaller r = Some caller \<and> reqBody r = BodyIntent (Some i)))"
  shows "snd (handleSign s r w) = w \<or> snd (handleSign s r w) = w \<lparr> sCounters := ObserveUnauthorized (sCounters w) \<rparr>"
proof (cases "reqCaller r")
  case None
  then show ?thesis by (simp add: handleSign_def)
next
  case (Some caller)
  then show ?thesis using assms by (cases "reqBody r") (auto simp: handleSign_def split: option.splits)
qed

section \<open>Runs of the signer\<close>

text \<open>
  A run is a sequence of whole requests, operator actions on the switch, changes of the sentinel made on
  the host, and clock readings by others, which is also how time passes between requests.
\<close>

inductive sstep :: "service \<Rightarrow> sstate \<Rightarrow> sstate \<Rightarrow> bool" for s where
  sstep_sign: "sstep s w (snd (Sign s caller i w))"
| sstep_handle: "sstep s w (snd (handleSign s r w))"
| sstep_engage: "sstep s w (w \<lparr> sentinel := snd (Engage cancelled openOK writeOK (sentinel w)) \<rparr>)"
| sstep_release: "sstep s w (w \<lparr> sentinel := snd (Release cancelled removeOK (sentinel w)) \<rparr>)"
| sstep_host: "sstep s w (w \<lparr> sentinel := st \<rparr>)"
| sstep_wait: "sstep s w (w \<lparr> reads := reads w + k \<rparr>)"

inductive_cases sstepE: "sstep s w w'"

text \<open>To show an invariant it is enough to consider the calls of \<^const>\<open>Sign\<close> and the steps that leave guard and backend alone.\<close>

lemma sstep_induct [consumes 1, case_names init sign other]:
  assumes "(sstep s)\<^sup>*\<^sup>* w0 w"
    and "P w0"
    and sign: "\<And>w caller i. P w \<Longrightarrow> P (snd (Sign s caller i w))"
    and other: "\<And>w w'. P w \<Longrightarrow> backendCalls w' = backendCalls w \<Longrightarrow> replayGuard w' = replayGuard w \<Longrightarrow> reads w \<le> reads w' \<Longrightarrow>
      emitted w' = emitted w \<Longrightarrow> sCounters w' = sCounters w \<or> sCounters w' = ObserveUnauthorized (sCounters w) \<Longrightarrow> P w'"
  shows "P w"
  using assms(1)
proof (induction rule: rtranclp_induct)
  case base
  show ?case by (rule assms(2))
next
  case (step y z)
  from step.hyps(2) show ?case
  proof cases
    case (sstep_handle r)
    show ?thesis
    proof (cases "reqMethod r = ''POST'' \<and> (\<exists>caller i. reqCaller r = Some caller \<and> reqBody r = BodyIntent (Some i))")
      case True
      then show ?thesis using sign [OF step.IH] sstep_handle handleSign_intent [of r] by auto
    next
      case False
      from handleSign_other [OF False, of s y] show ?thesis
        using sstep_handle step.IH by (elim disjE) (auto intro!: other [OF step.IH])
    qed
  qed (use step.IH sign in \<open>auto intro: other\<close>)
qed

section \<open>Only permitted intents reach the key\<close>

text \<open>
  What a deployment means by a permitted intent, written out field by field and apart from
  the code's order of checks.
\<close>

definition permitted_args :: "policy \<Rightarrow> intent \<Rightarrow> bool" where
  "permitted_args p i \<longleftrightarrow>
     (Operation i \<in> {OpDeposit, OpWithdraw} \<longrightarrow> Address i = '''' \<and> Weights i = [] \<and> 0 < Arg0 i \<and> 0 \<le> Arg1 i
        \<and> (0 < MaxAmountStroops p \<longrightarrow> Arg0 i \<le> MaxAmountStroops p)) \<and>
     (Operation i = OpHarvest \<longrightarrow> Arg0 i = 0 \<and> Arg1 i = 0 \<and> Weights i = []
        \<and> length (trim_space (Address i)) = 56 \<and> hd (trim_space (Address i)) = CHR ''G'') \<and>
     (Operation i = OpSetWeights \<longrightarrow> Arg0 i = 0 \<and> Arg1 i = 0 \<and> Address i = '''' \<and> Weights i \<noteq> [] \<and> length (Weights i) \<le> 32
        \<and> distinct (map (trim_space \<circ> Protocol) (Weights i)) \<and> (\<forall>w \<in> set (Weights i). 0 \<le> WeightBps w)
        \<and> sum_list (map WeightBps (Weights i)) = 10000) \<and>
     (Operation i \<in> {OpPause, OpUnpause, OpRebalance, OpEmergencyWithdrawAll} \<longrightarrow>
        Arg0 i = 0 \<and> Arg1 i = 0 \<and> Address i = '''' \<and> Weights i = [])"

definition permitted :: "policy \<Rightarrow> intent \<Rightarrow> bool" where
  "permitted p i \<longleftrightarrow> NetworkPassphrase i = polNetwork p \<and> polNetwork p \<noteq> '''' \<and> trim_space (iID i) \<noteq> ''''
     \<and> Operation i \<in> set (AllowedOperations p) \<and> ShapeFor (Operation i) = Some (Shape i)
     \<and> trim_space (ContractAddress i) \<in> set (AllowedContracts p) \<and> length (trim_space (ContractAddress i)) = 56
     \<and> hd (trim_space (ContractAddress i)) = CHR ''C'' \<and> permitted_args p i"

lemma weightsLoop_None:
  assumes "weightsLoop sn tot ws = None" and "tot \<in> {0..10000 * (32 - int (length ws))}" and "length ws \<le> 32"
  shows "(\<forall>w \<in> set ws. 0 \<le> WeightBps w) \<and> tot + sum_list (map WeightBps ws) = 10000
     \<and> distinct (map (trim_space \<circ> Protocol) ws) \<and> set (map (trim_space \<circ> Protocol) ws) \<inter> set sn = {}"
  using assms
proof (induction ws arbitrary: sn tot)
  case Nil
  then show ?case by (simp add: totalWeightBps_def split: if_splits)
next
  case (Cons w ws)
  from Cons.prems(1) have w: "trim_space (Protocol w) \<notin> set sn" "0 \<le> WeightBps w" "WeightBps w \<le> 10000"
    and rec: "weightsLoop (trim_space (Protocol w) # sn) (wrap64 (tot + WeightBps w)) ws = None"
    by (auto simp: Let_def totalWeightBps_def split: if_splits)
  have b: "0 \<le> tot + WeightBps w" "tot + WeightBps w \<le> 10000 * (32 - int (length ws))"
    using w(2,3) Cons.prems(2) by auto
  moreover have "10000 * (32 - int (length ws)) \<le> 320000" by simp
  ultimately have "wrap64 (tot + WeightBps w) = tot + WeightBps w"
    by (intro wrap64_id) (simp add: in_int64_def int64_min_def int64_max_def)
  with Cons.IH [of "trim_space (Protocol w) # sn" "tot + WeightBps w"] rec b Cons.prems(3) w show ?case by auto
qed

lemma validateWeights_None:
  assumes "validateWeights ws = None"
  shows "ws \<noteq> [] \<and> length ws \<le> 32 \<and> distinct (map (trim_space \<circ> Protocol) ws)
    \<and> (\<forall>w \<in> set ws. 0 \<le> WeightBps w) \<and> sum_list (map WeightBps ws) = 10000"
  using assms weightsLoop_None [of "[]" 0 ws]
  by (auto simp: validateWeights_def maxWeightEntries_def split: if_splits)

lemma has_prefix_hd: "has_prefix s [c] \<Longrightarrow> s \<noteq> [] \<Longrightarrow> hd s = c"
  by (cases s) (auto simp: has_prefix_def)

lemma validateContractAddress_None:
  "validateContractAddress a = None \<Longrightarrow> length (trim_space a) = 56 \<and> hd (trim_space a) = CHR ''C''"
  by (auto simp: validateContractAddress_def Let_def strkeyLen_def has_prefix_hd split: if_splits)

lemma validateAccountAddress_None:
  "validateAccountAddress a = None \<Longrightarrow> length (trim_space a) = 56 \<and> hd (trim_space a) = CHR ''G''"
  by (auto simp: validateAccountAddress_def Let_def strkeyLen_def has_prefix_hd split: if_splits)

lemma ShapeFor_simps [simp]:
  "ShapeFor OpPause = Some ShapeVoid" "ShapeFor OpUnpause = Some ShapeVoid" "ShapeFor OpRebalance = Some ShapeVoid"
  "ShapeFor OpEmergencyWithdrawAll = Some ShapeVoid" "ShapeFor OpSetWeights = Some ShapeWeights"
  "ShapeFor OpDeposit = Some ShapeI128Pair" "ShapeFor OpWithdraw = Some ShapeI128Pair"
  "ShapeFor OpHarvest = Some ShapeAddressBool"
  by (simp_all add: ShapeFor_def operationShapes_def op_defs)

lemma shapes_distinct [simp]:
  "ShapeVoid \<noteq> ShapeI128Pair" "ShapeVoid \<noteq> ShapeAddressBool" "ShapeVoid \<noteq> ShapeWeights"
  "ShapeI128Pair \<noteq> ShapeVoid" "ShapeI128Pair \<noteq> ShapeAddressBool" "ShapeI128Pair \<noteq> ShapeWeights"
  "ShapeAddressBool \<noteq> ShapeVoid" "ShapeAddressBool \<noteq> ShapeI128Pair" "ShapeAddressBool \<noteq> ShapeWeights"
  "ShapeWeights \<noteq> ShapeVoid" "ShapeWeights \<noteq> ShapeI128Pair" "ShapeWeights \<noteq> ShapeAddressBool"
  by (simp_all add: shape_defs)

lemma validateArgs_permitted:
  assumes "validateArgs (Shape i) i = None" and "ShapeFor (Operation i) = Some (Shape i)"
    and "\<not> (Shape i = ShapeI128Pair \<and> 0 < MaxAmountStroops p \<and> MaxAmountStroops p < Arg0 i)"
  shows "permitted_args p i"
proof -
  have "Operation i \<in> {OpDeposit, OpWithdraw} \<longrightarrow> Shape i = ShapeI128Pair" "Operation i = OpHarvest \<longrightarrow> Shape i = ShapeAddressBool"
    "Operation i = OpSetWeights \<longrightarrow> Shape i = ShapeWeights"
    "Operation i \<in> {OpPause, OpUnpause, OpRebalance, OpEmergencyWithdrawAll} \<longrightarrow> Shape i = ShapeVoid"
    using assms(2) by auto
  then show ?thesis
    using assms(1,3) validateWeights_None [of "Weights i"] validateAccountAddress_None [of "Address i"]
    unfolding permitted_args_def by (auto simp: validateArgs_def split: if_splits)
qed

lemma passed_permitted:
  assumes "Validate i = None" and "Evaluate p i t = None"
  shows "permitted p i"
proof -
  from assms(1) have v: "trim_space (iID i) \<noteq> ''''" "ShapeFor (Operation i) = Some (Shape i)"
    "validateContractAddress (ContractAddress i) = None" "validateArgs (Shape i) i = None"
    by (auto simp: Validate_def split: if_splits option.splits)
  from assms(2) have e: "polNetwork p \<noteq> ''''" "NetworkPassphrase i = polNetwork p" "Operation i \<in> set (AllowedOperations p)"
    "trim_space (ContractAddress i) \<in> set (AllowedContracts p)"
    "\<not> (Shape i = ShapeI128Pair \<and> 0 < MaxAmountStroops p \<and> MaxAmountStroops p < Arg0 i)"
    by (auto simp: Evaluate_def split: if_splits)
  show ?thesis
    using v e validateContractAddress_None [OF v(3)] validateArgs_permitted [OF v(4,2) e(5)]
    by (simp add: permitted_def)
qed

text \<open>An intent that passed the expiry check was issued within its age and skew of the reading it was checked at.\<close>

definition fresh_at :: "policy \<Rightarrow> intent \<Rightarrow> time \<Rightarrow> bool" where
  "fresh_at p i t \<longleftrightarrow> IssuedAt i - ClockSkew p \<le> t \<and> t \<le> IssuedAt i + MaxIntentAge p"

definition windowed :: "policy \<Rightarrow> bool" where
  "windowed p \<longleftrightarrow> 0 < MaxIntentAge p \<and> MaxIntentAge p < int64_max \<and> 0 < ClockSkew p \<and> ClockSkew p \<le> int64_max"

lemma Evaluate_fresh:
  assumes "Evaluate p i t = None" and "windowed p"
  shows "fresh_at p i t"
proof -
  have "wrap64 (- ClockSkew p) = - ClockSkew p"
    using assms(2) by (intro wrap64_id) (auto simp: windowed_def in_int64_def int64_min_def int64_max_def)
  with assms(1) have a: "\<not> MaxIntentAge p < time_sub t (IssuedAt i)" "\<not> time_sub t (IssuedAt i) < - ClockSkew p"
    by (auto simp: Evaluate_def Let_def split: if_splits)
  have "\<not> MaxIntentAge p < t - IssuedAt i"
    using a(1) assms(2) time_sub_greater_iff [of "MaxIntentAge p"] by (auto simp: windowed_def int64_min_def)
  moreover have "\<not> t - IssuedAt i < - ClockSkew p"
    using a(2) assms(2) time_sub_less_iff [of "- ClockSkew p"] by (auto simp: windowed_def int64_min_def int64_max_def)
  ultimately show ?thesis by (simp add: fresh_at_def)
qed

lemma gatesD:
  assumes "gates s i w"
  shows "permitted (sPolicy s) i" and "windowed (sPolicy s) \<Longrightarrow> fresh_at (sPolicy s) i (sNow s (reads w + 2))"
  using assms passed_permitted Evaluate_fresh by (auto simp: gates_def)

lemma NewPolicy_windowed: "age < int64_max \<Longrightarrow> skew \<le> int64_max \<Longrightarrow> windowed (NewPolicy net cs ops mx age skew)"
  by (auto simp: windowed_def NewPolicy_def DefaultMaxIntentAge_def DefaultClockSkew_def duration_defs int64_max_def)

lemma NewService_init:
  assumes "NewService clk sink h opts st = Some (s, w)"
  shows "optPolicy opts = Some (sPolicy s)" "sNow s = clk" "backendCalls w = []" "emitted w = []" "stored w = []"
    "optReplayGuard opts = None \<Longrightarrow> replayGuard w = NewReplayGuard (wrap64 (MaxIntentAge (sPolicy s) + ClockSkew (sPolicy s)))"
    "optReplayGuard opts = Some g \<Longrightarrow> replayGuard w = g"
    "optCounters opts = None \<Longrightarrow> sCounters w = NewCounters"
  using assms by (auto simp: NewService_def split: option.splits)

lemma signed_inv:
  assumes "(sstep s)\<^sup>*\<^sup>* w0 w" and "backendCalls w0 = []" and "windowed (sPolicy s)"
  shows "\<forall>x \<in> set (backendCalls w). permitted (sPolicy s) (fst x) \<and> (\<exists>n < reads w. fresh_at (sPolicy s) (fst x) (sNow s n))"
  using assms(1)
proof (induction rule: sstep_induct)
  case init
  then show ?case using assms(2) by simp
next
  case (sign w caller i)
  have rd: "reads w + 4 \<le> reads (snd (Sign s caller i w))" by (rule Sign_frame)
  then have "n < reads w \<Longrightarrow> n < reads (snd (Sign s caller i w))" for n by linarith
  then have old: "\<forall>x \<in> set (backendCalls w). permitted (sPolicy s) (fst x)
      \<and> (\<exists>n < reads (snd (Sign s caller i w)). fresh_at (sPolicy s) (fst x) (sNow s n))"
    using sign by meson
  show ?case
  proof (cases "gates s i w")
    case True
    then have "fresh_at (sPolicy s) i (sNow s (reads w + 2))" by (rule gatesD(2) [OF _ assms(3)])
    moreover have "reads w + 2 < reads (snd (Sign s caller i w))" using rd by linarith
    ultimately show ?thesis
      using old gatesD(1) [OF True] Sign_gated(1) [OF True, of caller] by auto
  next
    case False
    then show ?thesis using old Sign_refused [OF False, of caller] by simp
  qed
next
  case (other w w')
  then show ?case by (metis less_le_trans)
qed

text \<open>A deployment, an intent and a run used by the examples below.\<close>

definition contract0 :: string where "contract0 = CHR ''C'' # replicate 55 (CHR ''A'')"

definition policy0 :: policy where
  "policy0 = NewPolicy ''Test SDF Network ; September 2015'' [contract0] [OpDeposit, OpSetWeights] 1000 0 0"

definition backend0 :: backend where
  "backend0 = \<lparr> bKeyID = ''key'', BuildAndSign = (\<lambda>n i. if n = 7 then None else Some ''AAAA'') \<rparr>"

definition opts0 :: service_options where
  "opts0 = \<lparr> optBackend = Some backend0, optPolicy = Some policy0,
     optKillSwitch = Some \<lparr> ksPath = ''/run/halt'', lastState = StateUnset, checkedAt = 0 \<rparr>,
     optReplayGuard = None, optCounters = None \<rparr>"

definition service0 :: "(nat \<Rightarrow> time) \<Rightarrow> service \<times> sstate" where
  "service0 clk = the (NewService clk (\<lambda>_. True) (\<lambda>s. s) opts0 NotExist)"

definition intent0 :: intent where
  "intent0 = \<lparr> iID = ''i-1'', Operation = OpDeposit, Shape = ShapeI128Pair, ContractAddress = contract0,
     NetworkPassphrase = ''Test SDF Network ; September 2015'', Arg0 = 1000, Arg1 = 0, Address = '''', Flag = False,
     Weights = [], IssuedAt = 100 * second, RequestID = ''r'' \<rparr>"

definition clock0 :: "nat \<Rightarrow> time" where "clock0 n = 100 * second + int n"

lemma service0_init: "NewService clk (\<lambda>_. True) (\<lambda>s. s) opts0 NotExist = Some (fst (service0 clk), snd (service0 clk))"
  by (simp add: service0_def NewService_def opts0_def)

lemma policy0_windowed: "windowed policy0"
  unfolding policy0_def by (rule NewPolicy_windowed) (simp_all add: int64_max_def)

text \<open>
  C31: whatever happens around the signer, every intent its key was ever applied to is one the
  deployment permits: the configured network, an allowed operation with its own argument shape
  and an allowed contract, a positive amount within the limit for deposits and withdrawals, a
  weight vector of distinct protocols summing to exactly 10000 basis points, and an issue time
  within the allowed age and skew of a clock reading made before the signature.
\<close>

theorem signed_only_permitted:
  assumes "NewService clk sink h opts st = Some (s, w0)" and "optPolicy opts = Some p" and "windowed p"
    and "(sstep s)\<^sup>*\<^sup>* w0 w" and "(i, ok) \<in> set (backendCalls w)"
  shows "permitted p i \<and> (\<exists>n < reads w. fresh_at p i (clk n))"
proof -
  have p: "sPolicy s = p" "sNow s = clk" "backendCalls w0 = []"
    using NewService_init [OF assms(1)] assms(2) by auto
  from signed_inv [OF assms(4) p(3)] assms(3,5) p show ?thesis by fastforce
qed

theorem signed_only_permitted_witness:
  "let (s, w0) = service0 clock0; w = snd (Sign s ''api'' intent0 w0)
   in backendCalls w = [(intent0, True)] \<and> permitted policy0 intent0 \<and> (\<exists>n < reads w. fresh_at policy0 intent0 (clock0 n))"
proof -
  define s w0 where "s = fst (service0 clock0)" and "w0 = snd (service0 clock0)"
  have eq: "service0 clock0 = (s, w0)" by (simp add: s_def w0_def)
  have c: "backendCalls (snd (Sign s ''api'' intent0 w0)) = [(intent0, True)]"
    unfolding s_def w0_def by code_simp
  have st: "(sstep s)\<^sup>*\<^sup>* w0 (snd (Sign s ''api'' intent0 w0))" by (rule r_into_rtranclp) (rule sstep_sign)
  have "permitted policy0 intent0 \<and> (\<exists>n < reads (snd (Sign s ''api'' intent0 w0)). fresh_at policy0 intent0 (clock0 n))"
    by (rule signed_only_permitted [OF service0_init [of clock0, folded s_def w0_def] _ policy0_windowed st, of _ True])
      (simp_all add: c opts0_def)
  then show ?thesis by (simp add: eq c)
qed

section \<open>Requests in flight\<close>

text \<open>
  The HTTP server runs \<^const>\<open>Sign\<close> for many requests at once. A request in flight is the
  point it has reached in the body of \<^verbatim>\<open>Sign\<close>; between two points it reads the clock once,
  or holds one of the locks once, or makes the one call of the backend, or runs one of the four
  ends, which touch only the clock, the counters and the audit trail. In particular the clock
  reading for the policy, the one for the guard, the guard's critical section and the backend
  call are four separate moments.
\<close>

datatype stage =
    Entered
  | AtSwitch time
  | AtPolicy time
  | BeforeGuard time
  | AtGuard time time
  | AtKey time
  | Disabling time kstate
  | Rejecting time rejection
  | Failing time
  | Signing time string
  | Returned "sign_error + sign_result"

fun signStep :: "service \<Rightarrow> string \<Rightarrow> intent \<Rightarrow> stage \<Rightarrow> sstate \<Rightarrow> stage \<times> sstate" where
  "signStep s caller i Entered w =
     (let (start, w1) = s_now s w
      in (AtSwitch start, w1 \<lparr> sCounters := ObserveRequest (Operation i) (sCounters w1) \<rparr>))"
| "signStep s caller i (AtSwitch start) w =
     (let ((state, refused), w1) = checkSwitch s w
      in (if refused then Disabling start state
          else case Validate i of Some cat \<Rightarrow> Rejecting start cat | None \<Rightarrow> AtPolicy start, w1))"
| "signStep s caller i (AtPolicy start) w =
     (let (t1, w1) = s_now s w
      in (case Evaluate (sPolicy s) i t1 of Some cat \<Rightarrow> Rejecting start cat | None \<Rightarrow> BeforeGuard start, w1))"
| "signStep s caller i (BeforeGuard start) w = (let (t2, w1) = s_now s w in (AtGuard start t2, w1))"
| "signStep s caller i (AtGuard start t2) w =
     (let (dup, g) = Observe (iID i) t2 (replayGuard w)
      in (case dup of Some cat \<Rightarrow> Rejecting start cat | None \<Rightarrow> AtKey start, w \<lparr> replayGuard := g \<rparr>))"
| "signStep s caller i (AtKey start) w =
     (let answer = BuildAndSign (sBackend s) (length (backendCalls w)) i
      in (case answer of None \<Rightarrow> Failing start | Some xdr \<Rightarrow> Signing start xdr,
          w \<lparr> backendCalls := backendCalls w @ [(i, answer \<noteq> None)] \<rparr>))"
| "signStep s caller i (Disabling start state) w = apfst Returned (signDisabled s caller i start state w)"
| "signStep s caller i (Rejecting start cat) w = apfst Returned (rejectWith s caller i start cat w)"
| "signStep s caller i (Failing start) w = apfst Returned (signFailed s caller i start w)"
| "signStep s caller i (Signing start xdr) w = apfst Returned (signDone s caller i start xdr w)"
| "signStep s caller i (Returned res) w = (Returned res, w)"

lemma apfst_eq: "apfst f x = (f (fst x), snd x)"
  by (cases x) simp

text \<open>Undisturbed, the pieces of a request are the whole call.\<close>

lemma Sign_stages:
  "((\<lambda>(st, w). signStep s caller i st w) ^^ 7) (Entered, w) = apfst Returned (Sign s caller i w)"
  by (simp add: eval_nat_numeral Sign_def Let_def case_prod_unfold apfst_eq split: option.splits)

text \<open>
  A state of the server: the shared state and the requests in flight. A run starts requests,
  lets any of them make its next move, and has the operator, the host and the passing of time
  act in between. A request may stall at any point for any time, with one exception: it enters
  the guard's critical section at most \<open>D\<close> after its intent expired. A request that spends at
  most \<open>D\<close> between its policy check and the guard does so.
\<close>

type_synonym flight = "(string \<times> intent) \<times> stage"

fun timely :: "service \<Rightarrow> duration \<Rightarrow> flight \<Rightarrow> sstate \<Rightarrow> bool" where
  "timely s D ((caller, i), AtGuard start t2) w \<longleftrightarrow> sNow s (reads w) \<le> IssuedAt i + MaxIntentAge (sPolicy s) + D"
| "timely s D _ w \<longleftrightarrow> True"

inductive pstep :: "service \<Rightarrow> duration \<Rightarrow> sstate \<times> flight list \<Rightarrow> sstate \<times> flight list \<Rightarrow> bool" for s D where
  p_arrive: "pstep s D (w, fs) (w, fs @ [((caller, i), Entered)])"
| p_move: "timely s D ((caller, i), st) w \<Longrightarrow> signStep s caller i st w = (st', w') \<Longrightarrow>
    pstep s D (w, xs @ ((caller, i), st) # ys) (w', xs @ ((caller, i), st') # ys)"
| p_leave: "pstep s D (w, xs @ f # ys) (w, xs @ ys)"
| p_unauthorized: "pstep s D (w, fs) (w \<lparr> sCounters := ObserveUnauthorized (sCounters w) \<rparr>, fs)"
| p_engage: "pstep s D (w, fs) (w \<lparr> sentinel := snd (Engage cancelled openOK writeOK (sentinel w)) \<rparr>, fs)"
| p_release: "pstep s D (w, fs) (w \<lparr> sentinel := snd (Release cancelled removeOK (sentinel w)) \<rparr>, fs)"
| p_host: "pstep s D (w, fs) (w \<lparr> sentinel := st \<rparr>, fs)"
| p_wait: "pstep s D (w, fs) (w \<lparr> reads := reads w + k \<rparr>, fs)"

inductive_cases pstepE: "pstep s D x y"

text \<open>A schedule names the request that moves next; a request that is not timely does not move.\<close>

fun schedule :: "service \<Rightarrow> duration \<Rightarrow> nat list \<Rightarrow> sstate \<times> flight list \<Rightarrow> sstate \<times> flight list" where
  "schedule s D [] x = x"
| "schedule s D (n # ns) (w, fs) =
     (case drop n fs of
        [] \<Rightarrow> schedule s D ns (w, fs)
      | ((caller, i), st) # ys \<Rightarrow>
          if timely s D ((caller, i), st) w
          then (let (st', w') = signStep s caller i st w in schedule s D ns (w', take n fs @ ((caller, i), st') # ys))
          else schedule s D ns (w, fs))"

lemma schedule_runs: "(pstep s D)\<^sup>*\<^sup>* x (schedule s D ns x)"
proof (induction ns arbitrary: x)
  case Nil
  show ?case by simp
next
  case (Cons n ns)
  obtain w fs where x: "x = (w, fs)" by force
  show ?case
  proof (cases "drop n fs")
    case Nil
    then show ?thesis using Cons.IH by (simp add: x)
  next
    case (Cons f ys)
    obtain caller i st where f: "f = ((caller, i), st)" by (metis surj_pair)
    obtain st' w' where a: "signStep s caller i st w = (st', w')" by force
    have fs: "fs = take n fs @ ((caller, i), st) # ys" using Cons f by (metis append_take_drop_id)
    show ?thesis
    proof (cases "timely s D ((caller, i), st) w")
      case True
      have "pstep s D x (w', take n fs @ ((caller, i), st') # ys)"
        using p_move [OF True a, of "take n fs" ys] fs x by metis
      moreover have "schedule s D (n # ns) x = schedule s D ns (w', take n fs @ ((caller, i), st') # ys)"
        using True Cons f a by (simp add: x)
      ultimately show ?thesis using Cons.IH by (metis converse_rtranclp_into_rtranclp)
    next
      case False
      then show ?thesis using Cons f Cons.IH by (simp add: x)
    qed
  qed
qed

section \<open>Replay protection\<close>

definition call_key :: "intent \<Rightarrow> string \<times> time" where
  "call_key i = (iID i, IssuedAt i)"

text \<open>
  A signed intent is remembered with a time no earlier than the first moment it could pass the
  policy, or so much time has passed that it cannot pass the policy again.
\<close>

definition remembered :: "policy \<Rightarrow> replay_guard \<Rightarrow> time \<Rightarrow> intent \<Rightarrow> bool" where
  "remembered p g now i \<longleftrightarrow>
     (\<exists>t. (iID i, t) \<in> set (seen g) \<and> IssuedAt i - ClockSkew p \<le> t) \<or> IssuedAt i - ClockSkew p + retention g < now"

definition guard_ok :: "replay_guard \<Rightarrow> bool" where
  "guard_ok g \<longleftrightarrow> 0 < retention g \<and> retention g \<le> int64_max"

lemma guard_neg: "guard_ok g \<Longrightarrow> wrap64 (- retention g) = - retention g"
  by (intro wrap64_id) (auto simp: guard_ok_def in_int64_def int64_min_def int64_max_def)

lemma retention_sweep [simp]: "retention (sweepLocked t g) = retention g"
  by (simp add: sweepLocked_def Let_def)

lemma retention_Observe [simp]: "retention (snd (Observe x t g)) = retention g"
  by (simp add: Observe_def Let_def)

lemma sweep_keeps:
  assumes "guard_ok g" and "(x, u) \<in> set (seen g)" and "t - retention g \<le> u"
  shows "(x, u) \<in> set (seen (sweepLocked t g))"
  using assms by (auto simp: sweepLocked_def Let_def guard_neg)

lemma remembered_mono: "remembered p g now i \<Longrightarrow> now \<le> now' \<Longrightarrow> remembered p g now' i"
  by (auto simp: remembered_def)

lemma remembered_Observe:
  assumes "guard_ok g" and "remembered p g now i" and "t \<le> now"
  shows "remembered p (snd (Observe x t g)) now i"
proof (cases "IssuedAt i - ClockSkew p + retention g < now")
  case True
  then show ?thesis by (simp add: remembered_def)
next
  case False
  then obtain u where u: "(iID i, u) \<in> set (seen g)" "IssuedAt i - ClockSkew p \<le> u"
    using assms(2) by (auto simp: remembered_def)
  have "(iID i, u) \<in> set (seen (sweepLocked t g))"
    using u False assms(1,3) by (intro sweep_keeps) auto
  then show ?thesis using u(2) by (auto simp: remembered_def Observe_def Let_def)
qed

lemma remembered_new:
  assumes "fst (Observe (iID i) t g) = None" and "IssuedAt i - ClockSkew p \<le> t"
  shows "remembered p (snd (Observe (iID i) t g)) now i"
  using assms by (auto simp: remembered_def Observe_def Let_def split: if_splits)

text \<open>The guard refuses a remembered intent up to \<open>D\<close> after its expiry when the retention covers the window of the policy and \<open>D\<close>.\<close>

lemma remembered_refused:
  assumes "remembered p g now j" and "guard_ok g" and "t \<le> now" and "now \<le> IssuedAt j + MaxIntentAge p + D"
    and "MaxIntentAge p + ClockSkew p + D \<le> retention g"
  shows "fst (Observe (iID j) t g) \<noteq> None"
proof -
  obtain u where u: "(iID j, u) \<in> set (seen g)" "IssuedAt j - ClockSkew p \<le> u"
    using assms(1,4,5) by (auto simp: remembered_def)
  have "(iID j, u) \<in> set (seen (sweepLocked t g))" using u assms by (intro sweep_keeps) auto
  then show ?thesis by (force simp: Observe_def Let_def)
qed

text \<open>
  The invariant of the concurrent server: the intents the key was applied to and the intents
  on their way to the key are pairwise different and all remembered, and a request behind the
  policy check has an intent that was already valid.
\<close>

fun granted :: "flight \<Rightarrow> bool" where
  "granted (ci, AtKey start) \<longleftrightarrow> True"
| "granted _ \<longleftrightarrow> False"

fun flight_ok :: "service \<Rightarrow> time \<Rightarrow> flight \<Rightarrow> bool" where
  "flight_ok s now ((caller, i), BeforeGuard start) \<longleftrightarrow> IssuedAt i - ClockSkew (sPolicy s) \<le> now"
| "flight_ok s now ((caller, i), AtGuard start t2) \<longleftrightarrow> IssuedAt i - ClockSkew (sPolicy s) \<le> t2 \<and> t2 \<le> now"
| "flight_ok s now _ \<longleftrightarrow> True"

definition keyed :: "sstate \<Rightarrow> flight list \<Rightarrow> intent list" where
  "keyed w fs = map fst (backendCalls w) @ map (snd \<circ> fst) (filter granted fs)"

definition replay_inv :: "service \<Rightarrow> duration \<Rightarrow> sstate \<times> flight list \<Rightarrow> bool" where
  "replay_inv s r x = (case x of (w, fs) \<Rightarrow> retention (replayGuard w) = r
     \<and> distinct (map call_key (keyed w fs))
     \<and> (\<forall>i \<in> set (keyed w fs). remembered (sPolicy s) (replayGuard w) (sNow s (reads w)) i)
     \<and> (\<forall>f \<in> set fs. flight_ok s (sNow s (reads w)) f))"

lemma flight_ok_mono: "flight_ok s now f \<Longrightarrow> now \<le> now' \<Longrightarrow> flight_ok s now' f"
  by (induction s now f rule: flight_ok.induct) auto

text \<open>Steps that leave guard and backend alone and do not let time run backwards keep the invariant.\<close>

lemma replay_inv_other:
  assumes "replay_inv s r (w, fs)" and "mono (sNow s)" and "reads w \<le> reads w'"
    and "replayGuard w' = replayGuard w" and "distinct (map call_key (keyed w' fs'))"
    and "set (keyed w' fs') \<subseteq> set (keyed w fs)"
    and "\<And>f. f \<in> set fs' \<Longrightarrow> f \<in> set fs \<or> flight_ok s (sNow s (reads w')) f"
  shows "replay_inv s r (w', fs')"
proof -
  have t: "sNow s (reads w) \<le> sNow s (reads w')" using assms(2,3) by (rule monoD)
  have fl: "flight_ok s (sNow s (reads w')) f" if "f \<in> set fs'" for f
    using assms(1) assms(7) [OF that] flight_ok_mono [OF _ t, of s f] unfolding replay_inv_def by blast
  have "remembered (sPolicy s) (replayGuard w') (sNow s (reads w')) i" if "i \<in> set (keyed w' fs')" for i
    using assms(1,4,6) that remembered_mono [OF _ t] unfolding replay_inv_def by auto
  with fl show ?thesis using assms(1,4,5) by (simp add: replay_inv_def)
qed

text \<open>The guard's critical section.\<close>

lemma replay_inv_guard:
  assumes "replay_inv s r (w, xs @ ((caller, i), AtGuard start t2) # ys)"
    and "timely s D ((caller, i), AtGuard start t2) w"
    and "MaxIntentAge (sPolicy s) + ClockSkew (sPolicy s) + D \<le> r" and "0 < r" and "r \<le> int64_max"
    and "signStep s caller i (AtGuard start t2) w = (st', w')"
  shows "replay_inv s r (w', xs @ ((caller, i), st') # ys)"
proof -
  let ?fs = "xs @ ((caller, i), AtGuard start t2) # ys" and ?g = "replayGuard w" and ?now = "sNow s (reads w)"
    and ?g' = "snd (Observe (iID i) t2 (replayGuard w))"
  have inv: "retention ?g = r" "distinct (map call_key (keyed w ?fs))"
    "\<forall>j \<in> set (keyed w ?fs). remembered (sPolicy s) ?g ?now j" "\<forall>f \<in> set ?fs. flight_ok s ?now f"
    using assms(1) by (simp_all add: replay_inv_def)
  have ok: "guard_ok ?g" using inv(1) assms(4,5) by (simp add: guard_ok_def)
  have t2: "IssuedAt i - ClockSkew (sPolicy s) \<le> t2" "t2 \<le> ?now" using inv(4) by simp_all
  have old: "\<forall>j \<in> set (keyed w ?fs). remembered (sPolicy s) ?g' ?now j"
    using inv(3) remembered_Observe [OF ok _ t2(2)] by blast
  have w': "w' = w \<lparr> replayGuard := ?g' \<rparr>"
    and st': "st' = (case fst (Observe (iID i) t2 ?g) of Some cat \<Rightarrow> Rejecting start cat | None \<Rightarrow> AtKey start)"
    using assms(6) by (simp_all add: case_prod_unfold Let_def)
  show ?thesis
  proof (cases "fst (Observe (iID i) t2 ?g)")
    case None
    have "call_key j \<noteq> call_key i" if "j \<in> set (keyed w ?fs)" for j
    proof
      assume eq: "call_key j = call_key i"
      then have "fst (Observe (iID j) t2 ?g) \<noteq> None"
        using remembered_refused [of "sPolicy s" ?g ?now j t2 D] inv(1,3) that ok t2(2) assms(2,3) by (simp add: call_key_def)
      with None eq show False by (simp add: call_key_def)
    qed
    then have new: "call_key i \<notin> call_key ` set (keyed w ?fs)" by (metis imageE)
    have "remembered (sPolicy s) ?g' ?now i" by (rule remembered_new [OF None t2(1)])
    let ?fs' = "xs @ ((caller, i), AtKey start) # ys"
    have perm: "mset (keyed w' ?fs') = mset (i # keyed w ?fs)" by (simp add: keyed_def w')
    have "distinct (map call_key (i # keyed w ?fs))" using new inv(2) by simp
    with perm have "distinct (map call_key (keyed w' ?fs'))" by (metis mset_eq_imp_distinct_iff mset_map)
    moreover have "set (keyed w' ?fs') = insert i (set (keyed w ?fs))" using mset_eq_setD [OF perm] by simp
    ultimately show ?thesis
      using old \<open>remembered (sPolicy s) ?g' ?now i\<close> inv(1,4) None st' w' by (simp add: replay_inv_def)
  next
    case (Some cat)
    with old inv st' w' show ?thesis by (auto simp: replay_inv_def keyed_def)
  qed
qed

text \<open>Every other point of a request.\<close>

lemma signStep_frame:
  assumes "signStep s caller i st w = (st', w')" and "\<forall>start t2. st \<noteq> AtGuard start t2"
  shows "replayGuard w' = replayGuard w" and "reads w \<le> reads w'"
    and "keyed w' (xs @ ((caller, i), st') # ys) = keyed w (xs @ ((caller, i), st) # ys)
      \<or> (\<exists>start ok. st = AtKey start \<and> \<not> granted ((caller, i), st') \<and> backendCalls w' = backendCalls w @ [(i, ok)])"
proof -
  have "replayGuard w' = replayGuard w \<and> reads w \<le> reads w' \<and> (keyed w' (xs @ ((caller, i), st') # ys) = keyed w (xs @ ((caller, i), st) # ys)
      \<or> (\<exists>start ok. st = AtKey start \<and> \<not> granted ((caller, i), st') \<and> backendCalls w' = backendCalls w @ [(i, ok)]))"
  proof (cases st)
    case (AtKey start)
    then show ?thesis using assms by (auto simp: Let_def split: option.splits)
  qed (use assms in \<open>auto simp: keyed_def s_now_def checkSwitch_def Let_def apfst_eq case_prod_unfold split: option.splits if_splits\<close>)
  then show "replayGuard w' = replayGuard w" and "reads w \<le> reads w'"
    and "keyed w' (xs @ ((caller, i), st') # ys) = keyed w (xs @ ((caller, i), st) # ys)
      \<or> (\<exists>start ok. st = AtKey start \<and> \<not> granted ((caller, i), st') \<and> backendCalls w' = backendCalls w @ [(i, ok)])"
    by auto
qed

lemma signStep_flight_ok:
  assumes "signStep s caller i st w = (st', w')" and "\<forall>start t2. st \<noteq> AtGuard start t2"
    and "flight_ok s (sNow s (reads w)) ((caller, i), st)" and "windowed (sPolicy s)" and "mono (sNow s)"
  shows "flight_ok s (sNow s (reads w')) ((caller, i), st')"
proof -
  have t: "sNow s (reads w) \<le> sNow s (Suc (reads w))" using assms(5) by (simp add: monoD)
  show ?thesis
  proof (cases st)
    case (AtPolicy start)
    show ?thesis
    proof (cases "Evaluate (sPolicy s) i (sNow s (reads w))")
      case None
      then have "IssuedAt i - ClockSkew (sPolicy s) \<le> sNow s (reads w)"
        using Evaluate_fresh [OF None assms(4)] by (simp add: fresh_at_def)
      then show ?thesis using AtPolicy None assms(1) t by (auto simp: s_now_def)
    qed (use AtPolicy assms(1) in \<open>auto simp: s_now_def\<close>)
  qed (use assms t in \<open>auto simp: s_now_def checkSwitch_def Let_def apfst_eq case_prod_unfold split: option.splits if_splits\<close>)
qed

lemma replay_inv_move:
  assumes "replay_inv s r (w, xs @ ((caller, i), st) # ys)" and "windowed (sPolicy s)" and "mono (sNow s)"
    and "signStep s caller i st w = (st', w')" and "\<forall>start t2. st \<noteq> AtGuard start t2"
  shows "replay_inv s r (w', xs @ ((caller, i), st') # ys)"
proof (rule replay_inv_other [OF assms(1,3)])
  let ?fs = "xs @ ((caller, i), st) # ys" and ?fs' = "xs @ ((caller, i), st') # ys"
  note fr = signStep_frame [OF assms(4,5)]
  show "reads w \<le> reads w'" "replayGuard w' = replayGuard w" by (fact fr)+
  have perm: "mset (keyed w' ?fs') = mset (keyed w ?fs)"
    using fr(3) [of xs ys] by (elim disjE exE conjE) (simp, simp add: keyed_def)
  show "set (keyed w' ?fs') \<subseteq> set (keyed w ?fs)" using perm by (metis mset_eq_setD order_refl)
  have "distinct (map call_key (keyed w ?fs))" using assms(1) by (simp add: replay_inv_def)
  with perm show "distinct (map call_key (keyed w' ?fs'))" by (metis mset_eq_imp_distinct_iff mset_map)
  have "flight_ok s (sNow s (reads w')) ((caller, i), st')"
    using signStep_flight_ok [OF assms(4,5) _ assms(2,3)] assms(1) by (simp add: replay_inv_def)
  then show "f \<in> set ?fs \<or> flight_ok s (sNow s (reads w')) f" if "f \<in> set ?fs'" for f
    using that by auto
qed

lemma replay_inv_pstep:
  assumes "pstep s D x y" and "replay_inv s r x" and "windowed (sPolicy s)" and "mono (sNow s)"
    and "MaxIntentAge (sPolicy s) + ClockSkew (sPolicy s) + D \<le> r" and "0 < r" and "r \<le> int64_max"
  shows "replay_inv s r y"
  using assms(1)
proof cases
  case (p_move caller i st w st' w' xs ys)
  show ?thesis
  proof (cases "\<exists>start t2. st = AtGuard start t2")
    case True
    with p_move assms show ?thesis by (auto intro: replay_inv_guard)
  next
    case False
    with p_move assms show ?thesis by (auto intro: replay_inv_move)
  qed
next
  case (p_leave w xs f ys)
  have "distinct (map call_key (keyed w (xs @ f # ys)))" using assms(2) p_leave by (simp add: replay_inv_def)
  then show ?thesis
    unfolding p_leave(2) by (intro replay_inv_other [OF assms(2) [unfolded p_leave(1)] assms(4)]) (auto simp: keyed_def split: if_splits)
next
  case (p_wait w fs k)
  then have "replay_inv s r (w, fs)" "distinct (map call_key (keyed w fs))" using assms(2) by (simp_all add: replay_inv_def)
  from replay_inv_other [OF this(1) assms(4), of "w \<lparr> reads := reads w + k \<rparr>" fs] this(2) p_wait show ?thesis
    by (simp add: keyed_def)
qed (use assms(2) in \<open>auto simp: keyed_def replay_inv_def\<close>)

text \<open>
  C32: the same intent, by identifier and issue time, is never given to the key twice by one
  signer process, however many requests for it are in flight at once, wherever they stall and
  whatever other requests do in between. Assumed are a clock that never steps back, and a
  retention of the guard that covers the allowed age, the allowed skew and \<open>D\<close>, where \<open>D\<close> is how
  long after its intent's expiry a request may still enter the guard's critical section; a
  bound on the time a request spends between its policy check and the guard is such a \<open>D\<close>. The
  guard that \<^const>\<open>NewService\<close> builds by default meets this with \<open>D = 0\<close> only: no request may
  reach the guard after its intent has expired.
\<close>

theorem no_intent_signed_twice:
  assumes "NewService clk sink h opts st = Some (s, w0)" and "optPolicy opts = Some p" and "windowed p"
    and "0 \<le> D" and "MaxIntentAge p + ClockSkew p + D \<le> retention (replayGuard w0)"
    and "retention (replayGuard w0) \<le> int64_max"
    and "mono clk" and "(pstep s D)\<^sup>*\<^sup>* (w0, []) (w, fs)"
  shows "distinct (map (\<lambda>(i, ok). (iID i, IssuedAt i)) (backendCalls w))"
proof -
  have p: "sPolicy s = p" "sNow s = clk" "backendCalls w0 = []"
    using NewService_init [OF assms(1)] assms(2) by auto
  have r: "0 < retention (replayGuard w0)" using assms(3-5) by (auto simp: windowed_def)
  from assms(8) have "replay_inv s (retention (replayGuard w0)) (w, fs)"
  proof (induction rule: rtranclp_induct)
    case base
    show ?case using p by (simp add: replay_inv_def keyed_def)
  next
    case (step y z)
    from step.hyps(2) step.IH show ?case by (rule replay_inv_pstep) (use assms p r in auto)
  qed
  then have "distinct (map (call_key \<circ> fst) (backendCalls w))" by (simp add: replay_inv_def keyed_def)
  moreover have "map (\<lambda>(i, ok). (iID i, IssuedAt i)) (backendCalls w) = map (call_key \<circ> fst) (backendCalls w)"
    by (auto simp: call_key_def)
  ultimately show ?thesis by (simp only:)
qed

text \<open>
  Two requests for the same intent, both past the policy check before either reaches the guard:
  one goes on to the key and the other is refused, with the default guard.
\<close>

definition race0 :: "sstate \<times> flight list" where
  "race0 = (let (s, w0) = service0 clock0
     in schedule s 0 [0, 1, 0, 1, 0, 1, 1, 0, 1, 0, 1] (w0, [((''api'', intent0), Entered), ((''api'', intent0), Entered)]))"

theorem no_intent_signed_twice_witness:
  "map (\<lambda>f. case snd f of Rejecting _ cat \<Rightarrow> Some (Inl cat) | Signing _ xdr \<Rightarrow> Some (Inr xdr) | _ \<Rightarrow> None) (snd race0)
       = [Some (Inl RejectIntentReplayed), Some (Inr ''AAAA'')]
     \<and> distinct (map (\<lambda>(i, ok). (iID i, IssuedAt i)) (backendCalls (fst race0)))"
proof -
  define s w0 where "s = fst (service0 clock0)" and "w0 = snd (service0 clock0)"
  let ?two = "[((''api'', intent0), Entered), ((''api'', intent0), Entered)]"
  have r0: "race0 = schedule s 0 [0, 1, 0, 1, 0, 1, 1, 0, 1, 0, 1] (w0, ?two)"
    by (simp only: race0_def s_def w0_def case_prod_unfold Let_def)
  have "(pstep s 0)\<^sup>*\<^sup>* (w0, []) (w0, ?two)"
    by (rule converse_rtranclp_into_rtranclp [of "pstep s 0", OF p_arrive [of s 0 w0 "[]"], unfolded append_Nil])
      (rule r_into_rtranclp [of "pstep s 0", OF p_arrive [of s 0 w0 "[((''api'', intent0), Entered)]"], unfolded append_Cons append_Nil])
  from rtranclp_trans [OF this schedule_runs] have run: "(pstep s 0)\<^sup>*\<^sup>* (w0, []) (fst race0, snd race0)"
    unfolding r0 prod.collapse .
  have ret: "retention (replayGuard w0) = 150 * second" unfolding w0_def by code_simp
  have num: "MaxIntentAge policy0 + ClockSkew policy0 + 0 \<le> retention (replayGuard w0)" "retention (replayGuard w0) \<le> int64_max"
    unfolding ret by (code_simp, code_simp)
  have "distinct (map (\<lambda>(i, ok). (iID i, IssuedAt i)) (backendCalls (fst race0)))"
    by (rule no_intent_signed_twice [OF service0_init [of clock0, folded s_def w0_def] _ policy0_windowed _ num _ run])
      (simp_all add: opts0_def clock0_def mono_def)
  moreover have "map (\<lambda>f. case snd f of Rejecting _ cat \<Rightarrow> Some (Inl cat) | Signing _ xdr \<Rightarrow> Some (Inr xdr) | _ \<Rightarrow> None) (snd race0)
       = [Some (Inl RejectIntentReplayed), Some (Inr ''AAAA'')]"
    by code_simp
  ultimately show ?thesis by simp
qed

text \<open>
  The retention that \<^const>\<open>NewService\<close> chooses, age plus skew, leaves no room for the clock
  step between the policy check and the guard: an intent first signed at the earliest moment
  is signed a second time when the policy reads the clock at the last valid nanosecond and
  the guard one nanosecond later.
\<close>

definition edge_clock :: "nat \<Rightarrow> time" where
  "edge_clock n = (if n < 6 then 70 * second else if n < 9 then 220 * second else 220 * second + 1)"

lemma intent0_valid: "Validate intent0 = None"
  by code_simp

lemma service0_simps:
  "sPolicy (fst (service0 clk)) = policy0" "sNow (fst (service0 clk)) = clk" "backendCalls (snd (service0 clk)) = []"
  "sentinel (snd (service0 clk)) = NotExist" "reads (snd (service0 clk)) = 0"
  "replayGuard (snd (service0 clk)) = NewReplayGuard (150 * second)"
proof -
  have "wrap64 (MaxIntentAge policy0 + ClockSkew policy0) = 150 * second" by code_simp
  then show "replayGuard (snd (service0 clk)) = NewReplayGuard (150 * second)"
    by (simp add: service0_def NewService_def opts0_def)
qed (simp_all add: service0_def NewService_def opts0_def)

lemma default_retention_signs_twice:
  "let (s, w0) = service0 edge_clock; w = snd (Sign s ''api'' intent0 (snd (Sign s ''api'' intent0 w0)))
   in map fst (backendCalls w) = [intent0, intent0]"
proof -
  define s w0 w1 where "s = fst (service0 edge_clock)" and "w0 = snd (service0 edge_clock)"
    and "w1 = snd (Sign s ''api'' intent0 w0)"
  note start = service0_simps [of edge_clock, folded s_def w0_def]
  have t: "Evaluate policy0 intent0 (edge_clock 2) = None" "Evaluate policy0 intent0 (edge_clock 8) = None"
    "fst (Observe (iID intent0) (edge_clock 3) (NewReplayGuard (150 * second))) = None"
    "fst (Observe (iID intent0) (edge_clock 9) (snd (Observe (iID intent0) (edge_clock 3) (NewReplayGuard (150 * second))))) = None"
    by (code_simp, code_simp, code_simp, code_simp)
  have g0: "gates s intent0 w0" using start t by (simp add: gates_def intent0_valid numeral_2_eq_2)
  have r1: "reads w1 = 6"
    using g0 start unfolding w1_def gates_def by (simp add: Sign_eq Let_def split: option.splits)
  have g1: "gates s intent0 w1"
    using start t r1 Sign_frame(1) Sign_gated(2) [OF g0] by (simp add: gates_def intent0_valid w1_def)
  have "map fst (backendCalls w1) = [intent0]" using Sign_gated(1) [OF g0, of "''api''"] start by (simp add: w1_def)
  then show ?thesis
    using Sign_gated(1) [OF g1, of "''api''"]
    by (simp add: case_prod_unfold s_def [symmetric] w0_def [symmetric] w1_def [symmetric])
qed

section \<open>The kill switch halts signing\<close>

fun serve :: "service \<Rightarrow> sign_request list \<Rightarrow> sstate \<Rightarrow> response list \<times> sstate" where
  "serve s [] w = ([], w)"
| "serve s (r # rs) w = (let (x, w1) = handleSign s r w; (xs, w2) = serve s rs w1 in (x # xs, w2))"

definition sign_call :: "sign_request \<Rightarrow> bool" where
  "sign_call r \<longleftrightarrow> reqMethod r = ''POST'' \<and> reqCaller r \<noteq> None \<and> (\<exists>i. reqBody r = BodyIntent (Some i))"

definition halted_response :: response where
  "halted_response = writeWireError 503 ''signing is disabled'' (Some RejectKillSwitchActive)"

lemma handleSign_halted:
  assumes "sentinel w \<noteq> NotExist" and "handleSign s r w = (x, w')"
  shows "sentinel w' = sentinel w \<and> backendCalls w' = backendCalls w \<and> replayGuard w' = replayGuard w
    \<and> (sign_call r \<longrightarrow> x = halted_response) \<and> respStatus x \<noteq> 200"
proof (cases "sign_call r")
  case True
  then obtain caller i where k: "reqMethod r = ''POST''" "reqCaller r = Some caller" "reqBody r = BodyIntent (Some i)"
    by (auto simp: sign_call_def)
  show ?thesis
    using assms(2) Sign_halted [OF assms(1), of s caller i] Sign_frame(1) [of s caller i w]
    by (auto simp: handleSign_intent [OF k] halted_response_def writeWireError_def)
next
  case False
  then have "snd (handleSign s r w) = w \<or> snd (handleSign s r w) = w \<lparr> sCounters := ObserveUnauthorized (sCounters w) \<rparr>"
    by (intro handleSign_other) (auto simp: sign_call_def)
  moreover have "respStatus (fst (handleSign s r w)) \<noteq> 200"
    using False by (auto simp: handleSign_def sign_call_def writeWireError_def split: option.splits request_body.splits)
  ultimately show ?thesis using False assms(2) by auto
qed

lemma serve_halted:
  assumes "sentinel w \<noteq> NotExist" and "serve s rs w = (xs, w')"
  shows "backendCalls w' = backendCalls w \<and> replayGuard w' = replayGuard w \<and> list_all2 (\<lambda>r x. (sign_call r \<longrightarrow> x = halted_response) \<and> respStatus x \<noteq> 200) rs xs"
  using assms
proof (induction rs arbitrary: w xs w')
  case (Cons r rs)
  obtain x w1 where h: "handleSign s r w = (x, w1)" by force
  obtain ys w2 where t: "serve s rs w1 = (ys, w2)" by force
  from handleSign_halted [OF Cons.prems(1) h] Cons.IH [OF _ t] Cons.prems h t show ?case by auto
qed simp

text \<open>
  C33: once an operator has engaged the kill switch, and also while the sentinel file cannot be
  examined, the key is out of reach: any further sequence of requests leaves the backend
  uncalled and the replay guard untouched, every signing request is answered with status 503 and the
  kill-switch category, and no request at all is answered with status 200. Engaging works even
  when the reason could not be written into the file.
\<close>

theorem kill_switch_halts:
  assumes "sentinel w = StatError \<or> sentinel w = snd (Engage False True writeOK before)"
    and "serve s rs w = (xs, w')"
  shows "backendCalls w' = backendCalls w \<and> replayGuard w' = replayGuard w \<and>
    list_all2 (\<lambda>r x. (sign_call r \<longrightarrow> x = halted_response) \<and> respStatus x \<noteq> 200) rs xs"
  by (rule serve_halted [OF _ assms(2)]) (use assms(1) in \<open>auto simp: Engage_def\<close>)

definition request0 :: sign_request where
  "request0 = \<lparr> reqMethod = ''POST'', reqCaller = Some ''api'', reqBody = BodyIntent (Some intent0) \<rparr>"

theorem kill_switch_halts_witness:
  "let (s, w0) = service0 clock0; w = w0\<lparr>sentinel := snd (Engage False True False (sentinel w0))\<rparr>;
       (xs, w') = serve s [request0, request0] w
   in xs = [halted_response, halted_response] \<and> backendCalls w' = backendCalls w"
proof -
  define s w0 where "s = fst (service0 clock0)" and "w0 = snd (service0 clock0)"
  define w where "w = w0\<lparr>sentinel := snd (Engage False True False (sentinel w0))\<rparr>"
  obtain xs w' where r: "serve s [request0, request0] w = (xs, w')" by force
  have "sign_call request0" by (simp add: sign_call_def request0_def)
  moreover have "backendCalls w' = backendCalls w \<and> replayGuard w' = replayGuard w \<and>
    list_all2 (\<lambda>r x. (sign_call r \<longrightarrow> x = halted_response) \<and> respStatus x \<noteq> 200) [request0, request0] xs"
    by (rule kill_switch_halts [OF _ r, of False "sentinel w0"]) (simp add: w_def)
  ultimately have "xs = [halted_response, halted_response] \<and> backendCalls w' = backendCalls w"
    by (auto simp: list_all2_Cons1)
  then show ?thesis
    using r by (simp add: case_prod_unfold s_def [symmetric] w0_def [symmetric] w_def [symmetric] del: serve.simps) (simp add: w_def)
qed

section \<open>The audit trail\<close>

definition count :: "(event \<Rightarrow> bool) \<Rightarrow> event list \<Rightarrow> int" where
  "count P evs = int (length (filter P evs))"

lemma count_simps [simp]:
  "count P [] = 0" "count P (evs @ [e]) = count P evs + (if P e then 1 else 0)"
  by (simp_all add: count_def)

text \<open>What the counters say of a list of events, modulo the width of an int64.\<close>

definition tallies :: "counters \<Rightarrow> event list \<Rightarrow> bool" where
  "tallies c evs \<longleftrightarrow>
     (\<forall>op. requests c op = wrap64 (count (\<lambda>e. evOperation e = op) evs)) \<and>
     (\<forall>op. signed c op = wrap64 (count (\<lambda>e. evOutcome e = OutcomeSigned \<and> evOperation e = op) evs)) \<and>
     (\<forall>cat. rejected c cat = wrap64 (count (\<lambda>e. evOutcome e = OutcomeRejected \<and> evRejection e = Some cat) evs)) \<and>
     disabled c = wrap64 (count (\<lambda>e. evOutcome e = OutcomeDisabled) evs) \<and>
     errors c = wrap64 (count (\<lambda>e. evOutcome e = OutcomeError) evs)"

lemma latency_frames [simp]:
  "requests (observeLatencyLocked d c) = requests c" "signed (observeLatencyLocked d c) = signed c"
  "rejected (observeLatencyLocked d c) = rejected c" "disabled (observeLatencyLocked d c) = disabled c"
  "errors (observeLatencyLocked d c) = errors c" "unauthorized (observeLatencyLocked d c) = unauthorized c"
  by (simp_all add: observeLatencyLocked_def Let_def)

lemmas observe_defs = ObserveRequest_def ObserveSigned_def ObserveRejected_def ObserveDisabled_def
  ObserveError_def ObserveUnauthorized_def

lemma tallies_ends:
  assumes "tallies c evs" and "evOperation e = op"
  shows "evOutcome e = OutcomeRejected \<Longrightarrow> evRejection e = Some cat \<Longrightarrow> tallies (ObserveRejected cat d (ObserveRequest op c)) (evs @ [e])"
    and "evOutcome e = OutcomeSigned \<Longrightarrow> tallies (ObserveSigned op d (ObserveRequest op c)) (evs @ [e])"
    and "evOutcome e = OutcomeDisabled \<Longrightarrow> tallies (ObserveDisabled (ObserveRequest op c)) (evs @ [e])"
    and "evOutcome e = OutcomeError \<Longrightarrow> tallies (ObserveError (ObserveRequest op c)) (evs @ [e])"
  using assms by (auto simp: tallies_def observe_defs bump_def)

text \<open>How the four ends extend the trail and the counters.\<close>

lemma mkEvent_simps [simp]:
  "evOperation (mkEvent s caller i out rej l t) = Operation i" "evOutcome (mkEvent s caller i out rej l t) = out"
  "evRejection (mkEvent s caller i out rej l t) = rej" "evIntentID (mkEvent s caller i out rej l t) = iID i"
  "evIntentHash (mkEvent s caller i out rej l t) = HashIntent (sHash s) i" "evCaller (mkEvent s caller i out rej l t) = caller"
  by (simp_all add: mkEvent_def)

definition trail :: "event list \<Rightarrow> (string \<times> string) list" where
  "trail evs = map (\<lambda>e. (evIntentID e, evIntentHash e)) (filter (\<lambda>e. evOutcome e = OutcomeSigned) evs)"

definition signatures :: "(string \<Rightarrow> string) \<Rightarrow> (intent \<times> bool) list \<Rightarrow> (string \<times> string) list" where
  "signatures h cs = map (\<lambda>x. (iID (fst x), HashIntent h (fst x))) (filter snd cs)"

definition audited :: "service \<Rightarrow> sstate \<Rightarrow> bool" where
  "audited s w \<longleftrightarrow> tallies (sCounters w) (emitted w) \<and> trail (emitted w) = signatures (sHash s) (backendCalls w)"

lemma audited_Sign:
  assumes "audited s w"
  shows "audited s (snd (Sign s caller i w))"
proof -
  have a: "tallies (sCounters w) (emitted w)" "trail (emitted w) = signatures (sHash s) (backendCalls w)"
    using assms by (simp_all add: audited_def)
  show ?thesis
    using a unfolding audited_def Sign_eq Let_def
    by (auto simp: end_defs trail_def signatures_def tallies_ends split: option.splits)
qed

text \<open>
  C39: the audit trail of a signer is complete and its counters agree with it. In every state that
  whole calls reach, the events handed to the sink (which may fail to store one) with outcome
  signed are exactly the signatures the backend produced, in
  order, each with the identifier and the commitment of its intent; and the counters of
  requests, signatures, rejections by category, refusals by the switch and failures are the
  numbers of the corresponding events, up to the width of an int64.
\<close>

theorem signing_trail_complete:
  assumes "NewService clk sink h opts st = Some (s, w0)" and "optCounters opts = None" and "(sstep s)\<^sup>*\<^sup>* w0 w"
  shows "tallies (sCounters w) (emitted w) \<and> trail (emitted w) = signatures h (backendCalls w)"
proof -
  have "sHash s = h" using assms(1) by (auto simp: NewService_def split: option.splits)
  moreover from assms(3) have "audited s w"
  proof (induction rule: sstep_induct)
    case init
    show ?case using NewService_init [OF assms(1)] assms(2)
      by (simp add: audited_def tallies_def NewCounters_def trail_def signatures_def)
  next
    case (sign w caller i)
    then show ?case by (rule audited_Sign)
  next
    case (other w w')
    then show ?case by (auto simp: audited_def tallies_def observe_defs)
  qed
  ultimately show ?thesis by (simp add: audited_def)
qed

theorem signing_trail_complete_witness:
  "let (s, w0) = service0 clock0; w = snd (Sign s ''api'' intent0 (snd (Sign s ''api'' intent0 w0)))
   in length (emitted w) = 2 \<and> tallies (sCounters w) (emitted w) \<and> trail (emitted w) = signatures (\<lambda>s. s) (backendCalls w)"
proof -
  define s w0 where "s = fst (service0 clock0)" and "w0 = snd (service0 clock0)"
  define w where "w = snd (Sign s ''api'' intent0 (snd (Sign s ''api'' intent0 w0)))"
  have st: "(sstep s)\<^sup>*\<^sup>* w0 w" unfolding w_def
    by (meson rtranclp.rtrancl_into_rtrancl rtranclp.rtrancl_refl sstep_sign)
  have one: "length (emitted (snd (Sign s c i v))) = Suc (length (emitted v))" for c i v
    by (simp add: Sign_eq Let_def end_defs split: option.splits)
  have "emitted w0 = []" by (simp add: w0_def service0_def NewService_def opts0_def)
  then have "length (emitted w) = 2" by (simp add: w_def one)
  moreover have "tallies (sCounters w) (emitted w) \<and> trail (emitted w) = signatures (\<lambda>s. s) (backendCalls w)"
    by (rule signing_trail_complete [OF service0_init [of clock0, folded s_def w0_def] _ st]) (simp add: opts0_def)
  ultimately show ?thesis
    by (simp add: case_prod_unfold s_def [symmetric] w0_def [symmetric] w_def [symmetric])
qed

section \<open>The intent commitment\<close>

lemma split_at_sep: "c \<notin> set x \<Longrightarrow> c \<notin> set y \<Longrightarrow> x @ c # u = y @ c # v \<longleftrightarrow> x = y \<and> u = v"
proof (induction x arbitrary: y)
  case Nil
  then show ?case by (cases y) auto
next
  case (Cons a x)
  then show ?case by (cases y) auto
qed

lemma writeField_split:
  assumes "CHR 0x1E \<notin> set x" and "CHR 0x1E \<notin> set y"
  shows "writeField tag x @ u = writeField tag y @ v \<longleftrightarrow> x = y \<and> u = v"
  using split_at_sep [OF assms] by (simp add: writeField_def)

lemma itoa_no_sep: "CHR 0x1E \<notin> set (itoa n)"
  using itoa_chars by (fastforce simp: is_digit_def)

lemma stamp_no_sep: "CHR 0x1E \<notin> set (RFC3339Nano t)"
  using RFC3339Nano_chars by (fastforce simp: is_digit_def)

lemma label_no_sep: "CHR 0x1E \<notin> set (NetworkLabel p)"
  by (simp add: NetworkLabel_def Let_def)

definition weightBytes :: "weight_entry list \<Rightarrow> string" where
  "weightBytes ws = concat (map (\<lambda>w. writeField (''w:'' @ Protocol w) (itoa (WeightBps w))) ws)"

lemma weightBytes_split:
  assumes "\<forall>w \<in> set ws. CHR 0x1F \<notin> set (Protocol w)" and "\<forall>w \<in> set vs. CHR 0x1F \<notin> set (Protocol w)"
    and "weightBytes ws @ writeField ''issued_at'' x = weightBytes vs @ writeField ''issued_at'' y"
  shows "ws = vs \<and> writeField ''issued_at'' x = writeField ''issued_at'' y"
  using assms
proof (induction ws arbitrary: vs)
  case Nil
  then show ?case by (cases vs) (auto simp: weightBytes_def writeField_def)
next
  case (Cons w ws)
  show ?case
  proof (cases vs)
    case Nil
    with Cons.prems(3) show ?thesis by (simp add: weightBytes_def writeField_def)
  next
    case (Cons v vs')
    note p = Cons.prems(3) [unfolded Cons]
    have "Protocol w @ CHR 0x1F # itoa (WeightBps w) @ CHR 0x1E # weightBytes ws @ writeField ''issued_at'' x =
          Protocol v @ CHR 0x1F # itoa (WeightBps v) @ CHR 0x1E # weightBytes vs' @ writeField ''issued_at'' y"
      using p by (simp add: weightBytes_def writeField_def)
    then have q: "Protocol w = Protocol v" "itoa (WeightBps w) @ CHR 0x1E # weightBytes ws @ writeField ''issued_at'' x =
          itoa (WeightBps v) @ CHR 0x1E # weightBytes vs' @ writeField ''issued_at'' y"
      using split_at_sep [of "CHR 0x1F" "Protocol w" "Protocol v"] Cons.prems(1,2) Cons by auto
    then have "WeightBps w = WeightBps v" "weightBytes ws @ writeField ''issued_at'' x = weightBytes vs' @ writeField ''issued_at'' y"
      using split_at_sep [OF itoa_no_sep itoa_no_sep] itoa_inj by auto
    with q(1) Cons.IH [of vs'] Cons.prems(1,2) Cons show ?thesis by simp
  qed
qed

text \<open>Intents whose free texts do not contain the separator bytes.\<close>

definition sep_free :: "intent \<Rightarrow> bool" where
  "sep_free i \<longleftrightarrow> CHR 0x1E \<notin> set (iID i) \<union> set (ContractAddress i) \<union> set (Address i)
     \<and> (\<forall>w \<in> set (Weights i). CHR 0x1F \<notin> set (Protocol w))"

lemma Validate_no_sep:
  assumes "Validate i = None"
  shows "CHR 0x1E \<notin> set (Operation i)" and "CHR 0x1E \<notin> set (Shape i)"
proof -
  have "ShapeFor (Operation i) = Some (Shape i)"
    using assms by (auto simp: Validate_def split: if_splits option.splits)
  then have "(Operation i, Shape i) \<in> set operationShapes" by (simp add: ShapeFor_def map_of_SomeD)
  then show "CHR 0x1E \<notin> set (Operation i)" "CHR 0x1E \<notin> set (Shape i)"
    by (auto simp: operationShapes_def op_defs shape_defs)
qed

lemma intentBytes_eqD:
  assumes "intentBytes i = intentBytes j" and "sep_free i" and "sep_free j" and "Validate i = None" and "Validate j = None"
  shows "iID i = iID j \<and> Operation i = Operation j \<and> Shape i = Shape j \<and> ContractAddress i = ContractAddress j
    \<and> NetworkLabel (NetworkPassphrase i) = NetworkLabel (NetworkPassphrase j) \<and> Arg0 i = Arg0 j \<and> Arg1 i = Arg1 j
    \<and> Address i = Address j \<and> Flag i = Flag j \<and> Weights i = Weights j \<and> RFC3339Nano (IssuedAt i) = RFC3339Nano (IssuedAt j)"
proof -
  have f: "CHR 0x1E \<notin> set (if b then ''true'' else ''false'')" for b by simp
  have t: "(if b then ''true'' else ''false'') = (if c then ''true'' else ''false'') \<longleftrightarrow> b = c" for b c by simp
  note split = writeField_split Validate_no_sep [OF assms(4)] Validate_no_sep [OF assms(5)] itoa_no_sep label_no_sep f itoa_inj t
  have s: "CHR 0x1E \<notin> set (iID i)" "CHR 0x1E \<notin> set (ContractAddress i)" "CHR 0x1E \<notin> set (Address i)"
    "CHR 0x1E \<notin> set (iID j)" "CHR 0x1E \<notin> set (ContractAddress j)" "CHR 0x1E \<notin> set (Address j)"
    using assms(2,3) by (auto simp: sep_free_def)
  from assms(1) have "iID i = iID j \<and> Operation i = Operation j \<and> Shape i = Shape j \<and> ContractAddress i = ContractAddress j
    \<and> NetworkLabel (NetworkPassphrase i) = NetworkLabel (NetworkPassphrase j) \<and> Arg0 i = Arg0 j \<and> Arg1 i = Arg1 j
    \<and> Address i = Address j \<and> Flag i = Flag j
    \<and> weightBytes (Weights i) @ writeField ''issued_at'' (RFC3339Nano (IssuedAt i))
      = weightBytes (Weights j) @ writeField ''issued_at'' (RFC3339Nano (IssuedAt j))"
    unfolding intentBytes_def weightBytes_def [symmetric] by (simp only: append_assoc split s simp_thms)
  moreover from this have w: "weightBytes (Weights i) @ writeField ''issued_at'' (RFC3339Nano (IssuedAt i))
      = weightBytes (Weights j) @ writeField ''issued_at'' (RFC3339Nano (IssuedAt j))" by blast
  moreover have "Weights i = Weights j \<and>
      writeField ''issued_at'' (RFC3339Nano (IssuedAt i)) @ [] = writeField ''issued_at'' (RFC3339Nano (IssuedAt j)) @ []"
    using weightBytes_split [OF _ _ w] assms(2,3) by (simp add: sep_free_def)
  then have "Weights i = Weights j \<and> RFC3339Nano (IssuedAt i) = RFC3339Nano (IssuedAt j)"
    unfolding writeField_split [OF stamp_no_sep stamp_no_sep] by simp
  ultimately show ?thesis by blast
qed

text \<open>
  C40: the commitment in the audit record binds what would be signed. For any two valid intents
  whose texts do not contain the separator bytes, equal commitments under a hash without a
  collision on the two encodings mean that identifier, operation, shape, contract, network
  label, both amounts, address, flag, the whole weight vector and the issue time as printed
  are the same.
\<close>

theorem intent_commitment_binding:
  assumes "Validate i = None" and "Validate j = None" and "sep_free i" and "sep_free j"
    and "inj_on h {intentBytes i, intentBytes j}" and "HashIntent h i = HashIntent h j"
  shows "iID i = iID j \<and> Operation i = Operation j \<and> Shape i = Shape j \<and> ContractAddress i = ContractAddress j
    \<and> NetworkLabel (NetworkPassphrase i) = NetworkLabel (NetworkPassphrase j) \<and> Arg0 i = Arg0 j \<and> Arg1 i = Arg1 j
    \<and> Address i = Address j \<and> Flag i = Flag j \<and> Weights i = Weights j \<and> RFC3339Nano (IssuedAt i) = RFC3339Nano (IssuedAt j)"
proof -
  have "intentBytes i = intentBytes j"
    by (rule inj_onD [OF assms(5) assms(6) [unfolded HashIntent_def]]) simp_all
  then show ?thesis by (rule intentBytes_eqD [OF _ assms(3,4,1,2)])
qed

theorem intent_commitment_binding_witness:
  "let j = intent0\<lparr>RequestID := ''other''\<rparr> in HashIntent (\<lambda>s. s) intent0 = HashIntent (\<lambda>s. s) j \<and> Weights intent0 = Weights j"
proof -
  let ?j = "intent0\<lparr>RequestID := ''other''\<rparr>"
  have v: "Validate ?j = None" by code_simp
  have s: "sep_free intent0" "sep_free ?j" by (simp_all add: sep_free_def intent0_def contract0_def)
  have e: "HashIntent (\<lambda>s. s) intent0 = HashIntent (\<lambda>s. s) ?j" by (simp add: HashIntent_def intentBytes_def)
  show ?thesis
    using intent_commitment_binding [OF intent0_valid v s _ e] e by (simp add: Let_def)
qed

definition weights_intent :: "weight_entry list \<Rightarrow> intent" where
  "weights_intent ws = intent0\<lparr>Operation := OpSetWeights, Shape := ShapeWeights, Arg0 := 0, Weights := ws\<rparr>"

text \<open>
  the commitment does not separate its fields by length. Two valid intents with different
  weight vectors, one of two entries and one of a single entry whose protocol name contains the
  separator bytes, have the same commitment under every hash function.
\<close>

theorem intent_commitment_ambiguous:
  "\<exists>i j. Validate i = None \<and> Validate j = None \<and> Evaluate policy0 i (100 * second) = None \<and> Evaluate policy0 j (100 * second) = None
     \<and> length (Weights i) = 2 \<and> length (Weights j) = 1 \<and> (\<forall>h. HashIntent h i = HashIntent h j)"
proof -
  let ?i = "weights_intent [\<lparr> Protocol = ''blend'', WeightBps = 0 \<rparr>, \<lparr> Protocol = ''aqua'', WeightBps = 10000 \<rparr>]"
  let ?j = "weights_intent [\<lparr> Protocol = ''blend'' @ [CHR 0x1F, CHR ''0'', CHR 0x1E] @ ''w:aqua'', WeightBps = 10000 \<rparr>]"
  have "itoa 0 = ''0''" by code_simp
  then have "intentBytes ?i = intentBytes ?j" by (simp add: intentBytes_def writeField_def weights_intent_def)
  moreover have "Validate ?i = None" "Validate ?j = None" "Evaluate policy0 ?i (100 * second) = None" "Evaluate policy0 ?j (100 * second) = None"
    by (code_simp, code_simp, code_simp, code_simp)
  ultimately show ?thesis by (intro exI [of _ ?i] exI [of _ ?j]) (simp add: HashIntent_def weights_intent_def)
qed

section \<open>The wire protocol\<close>

text \<open>No gate reports the category of the kill switch, so the client cannot mistake a refusal for a halt.\<close>

lemma weightsLoop_category: "weightsLoop sn tot ws = Some c \<Longrightarrow> c = RejectWeightsInvalid"
  by (induction ws arbitrary: sn tot) (auto simp: Let_def split: if_splits)

lemma validateArgs_category: "validateArgs sh i \<noteq> Some RejectKillSwitchActive"
  using weightsLoop_category
  by (auto simp: validateArgs_def validateAccountAddress_def validateWeights_def Let_def split: if_splits)

lemma gate_category:
  "Validate i \<noteq> Some RejectKillSwitchActive" "Evaluate p i t \<noteq> Some RejectKillSwitchActive"
  "fst (Observe x t g) \<noteq> Some RejectKillSwitchActive"
  by (auto simp: Validate_def validateContractAddress_def validateArgs_category Let_def split: option.splits)
    (auto simp: Evaluate_def Observe_def Let_def split: if_splits)

lemma Sign_category: "fst (Sign s caller i w) \<noteq> Inl (PolicyError RejectKillSwitchActive)"
  using gate_category by (auto simp: Sign_eq Let_def split: option.splits)

text \<open>What a caller of the remote signer is told, as a function of the signer's own answer.\<close>

fun remote :: "sign_error + sign_result \<Rightarrow> client_error + sign_result" where
  "remote (Inr res) = (if SignedXDR res = '''' then Inl ClientEmpty else Inr res)"
| "remote (Inl (PolicyError c)) = Inl (ClientPolicy c)"
| "remote (Inl (ErrSigningDisabled k)) = Inl ClientDisabled"
| "remote (Inl SignFailed) = Inl (ClientStatus 502)"

text \<open>
  signing through the client and the server is signing. For an authenticated request that
  carries an intent, and messages within the size limit, the client returns the signature
  exactly when the service produced one, the same rejection category when the service refused
  the intent, the distinct disabled error exactly when the kill switch stopped it, and the
  state of the signer is the one the service left.
\<close>

theorem remote_signing_agrees:
  assumes "reqMethod r = ''POST''" and "reqCaller r = Some caller" and "reqBody r = BodyIntent (Some i)"
    and "fits (respBody (fst (handleSign s r w)))"
  shows "clientResult fits (fst (handleSign s r w)) = remote (fst (Sign s caller i w))
    \<and> snd (handleSign s r w) = snd (Sign s caller i w)"
proof (rule conjI)
  note h = handleSign_intent [OF assms(1-3), of s w]
  show "snd (handleSign s r w) = snd (Sign s caller i w)" by (simp add: h)
  show "clientResult fits (fst (handleSign s r w)) = remote (fst (Sign s caller i w))"
  proof (cases "fst (Sign s caller i w)")
    case (Inl e)
    then show ?thesis
      using assms(4) Sign_category [of s caller i w]
      by (cases e) (auto simp: h clientResult_def writeWireError_def)
  next
    case (Inr res)
    then show ?thesis using assms(4) by (simp add: h clientResult_def)
  qed
qed

theorem remote_signing_agrees_witness:
  "let (s, w0) = service0 clock0
   in clientResult (\<lambda>_. True) (fst (handleSign s request0 w0)) = remote (fst (Sign s ''api'' intent0 w0))
      \<and> snd (handleSign s request0 w0) = snd (Sign s ''api'' intent0 w0)"
  using remote_signing_agrees [of request0 "''api''" intent0 "\<lambda>_. True" "fst (service0 clock0)" "snd (service0 clock0)"]
  by (simp add: case_prod_unfold request0_def)

end
