(* ===== verification/Audit_Chain.thy ===== *)
theory Audit_Chain
  imports Database Encoding
begin

text \<open>
  The tamper-evident audit log (\<^verbatim>\<open>internal/audit/audit.go\<close>), its scheduled verification
  (\<^verbatim>\<open>internal/scheduler/audit_chain_verifier.go\<close>) and the plain logger that writes to the same
  table (\<^verbatim>\<open>internal/repository/postgres/audit_log_repository.go\<close>).

  Parameters of the model: the hash function (hexadecimal SHA-256 in the code,
  \<^const>\<open>sha256_hex\<close>) and the JSON codecs, that is Go's \<^verbatim>\<open>Unmarshal\<close> and \<^verbatim>\<open>Marshal\<close> and the text
  PostgreSQL returns for a value stored in a \<^verbatim>\<open>jsonb\<close> column, which rejects some texts.
\<close>

section \<open>Entries\<close>

datatype json = JNull | JBool bool | JNum string | JStr string | JArr "json list" | JObj "(string \<times> json) list"

record json_lib =
  jUnmarshal :: "string \<Rightarrow> json option"
  jMarshal :: "json \<Rightarrow> string"
  jColumn :: "string \<Rightarrow> string option"

text \<open>A row of \<^verbatim>\<open>audit_logs\<close>; \<open>None\<close> as sequence is the SQL NULL of a row outside the chain.\<close>

record audit_row =
  aID :: uuid
  UserID :: "uuid option"
  Action :: string
  EntityType :: string
  EntityID :: uuid
  OldValue :: "string option"
  NewValue :: "string option"
  IPAddress :: "string option"
  CreatedAt :: time
  Sequence :: "int option"
  Actor :: string
  Target :: string
  Detail :: string
  DetailHash :: string
  PrevHash :: string
  EntryHash :: string
  Anchored :: bool
  AnchorTxHash :: "string option"
  Redacted :: bool

record audit_db =
  rows :: "audit_row list"
  anchors :: "string list"

datatype aerror = ErrScan | ErrCanonicalize | ErrNotFound | ErrUnmarshal | ErrNothingToAnchor | ErrAnchorFile

type_synonym 'a adb = "(audit_db, aerror, 'a) db"

definition nl :: char where "nl = CHR 0x0A"

definition CanonicalSerialize :: "int \<Rightarrow> time \<Rightarrow> string \<Rightarrow> string \<Rightarrow> string \<Rightarrow> string \<Rightarrow> string \<Rightarrow> string" where
  "CanonicalSerialize sq ts actor action target detailHash prevHash =
     ''SEQ:'' @ itoa sq @ [nl] @ ''TS:'' @ RFC3339Nano ts @ [nl] @ ''ACTOR:'' @ actor @ [nl] @
     ''ACTION:'' @ action @ [nl] @ ''TARGET:'' @ target @ [nl] @
     ''DETAIL_HASH:'' @ detailHash @ [nl] @ ''PREV_HASH:'' @ prevHash"

text \<open>
  The dynamic type of a detail: nil, a string or byte slice, a raw JSON message, or a value
  that is marshalled first (\<open>None\<close> when that fails).
\<close>

datatype detail = DetailNil | DetailText string | DetailRaw string | DetailValue "string option"

definition normalizeJSON :: "json_lib \<Rightarrow> string \<Rightarrow> string" where
  "normalizeJSON lib raw =
     jMarshal lib (case jUnmarshal lib raw of Some v \<Rightarrow> v | None \<Rightarrow> JObj [(''raw'', JStr raw)])"

fun CanonicalizeDetail :: "json_lib \<Rightarrow> (string \<Rightarrow> string) \<Rightarrow> detail \<Rightarrow> (string \<times> string) option" where
  "CanonicalizeDetail lib h DetailNil = Some (''{}'', h ''{}'')"
| "CanonicalizeDetail lib h (DetailText v) =
     (if v = '''' then Some (''{}'', h ''{}'') else let n = normalizeJSON lib v in Some (n, h n))"
| "CanonicalizeDetail lib h (DetailRaw v) = (let n = normalizeJSON lib v in Some (n, h n))"
| "CanonicalizeDetail lib h (DetailValue None) = None"
| "CanonicalizeDetail lib h (DetailValue (Some v)) = (let n = normalizeJSON lib v in Some (n, h n))"

section \<open>Appending\<close>

text \<open>
  \<^verbatim>\<open>ORDER BY sequence DESC LIMIT 1\<close>: PostgreSQL sorts NULL first in descending order, and
  scanning NULL into an int64 is an error.
\<close>

definition lastEntry :: "audit_db \<Rightarrow> aerror db_error + (int \<times> string) option" where
  "lastEntry d =
     (if \<exists>r \<in> set (rows d). Sequence r = None then Inl (App ErrScan)
      else Inr (map_option (\<lambda>r. (the (Sequence r), EntryHash r))
             (fold (\<lambda>r best. case best of None \<Rightarrow> Some r
                | Some b \<Rightarrow> if the (Sequence b) < the (Sequence r) then Some r else best) (rows d) None)))"

text \<open>\<^verbatim>\<open>timestamptz\<close> keeps microseconds; \<^verbatim>\<open>Truncate\<close> rounds down from the zero time.\<close>

definition truncateMicro :: "time \<Rightarrow> time" where
  "truncateMicro t = t - t mod microsecond"

definition badColumn :: "json_lib \<Rightarrow> string option \<Rightarrow> bool" where
  "badColumn lib v = (case v of None \<Rightarrow> False | Some s \<Rightarrow> jColumn lib s = None)"

definition insertRow :: "json_lib \<Rightarrow> audit_row \<Rightarrow> audit_db \<Rightarrow> aerror db_error + unit \<times> audit_db" where
  "insertRow lib r d =
     (if aID r \<in> aID ` set (rows d) \<or> Sequence r \<in> Sequence ` set (rows d) - {None} then Inl Violation
      else if badColumn lib (OldValue r) \<or> badColumn lib (NewValue r) then Inl Violation
      else case jColumn lib (Detail r) of
        None \<Rightarrow> Inl Violation
      | Some stored \<Rightarrow> Inr ((), d \<lparr> rows := rows d @ [r \<lparr> Detail := stored, CreatedAt := truncateMicro (CreatedAt r) \<rparr>] \<rparr>))"

definition newEntry :: "(string \<Rightarrow> string) \<Rightarrow> uuid \<Rightarrow> uuid option \<Rightarrow> string \<Rightarrow> string \<Rightarrow> string \<Rightarrow> string option \<Rightarrow> string option \<Rightarrow>
    string option \<Rightarrow> time \<Rightarrow> int \<Rightarrow> string \<Rightarrow> string \<Rightarrow> string \<Rightarrow> audit_row" where
  "newEntry h newID userID actor action target oldV newV ip now sq detailJSON detailHash prevHash =
     \<lparr> aID = newID, UserID = userID, Action = action, EntityType = ''audit'', EntityID = newID,
       OldValue = oldV, NewValue = newV, IPAddress = ip, CreatedAt = now, Sequence = Some sq,
       Actor = actor, Target = target, Detail = detailJSON, DetailHash = detailHash, PrevHash = prevHash,
       EntryHash = h (CanonicalSerialize sq now actor action target detailHash prevHash),
       Anchored = False, AnchorTxHash = None, Redacted = False \<rparr>"

definition LogAction :: "json_lib \<Rightarrow> (string \<Rightarrow> string) \<Rightarrow> (nat \<Rightarrow> uuid) \<Rightarrow> uuid option \<Rightarrow> string \<Rightarrow> string \<Rightarrow> string \<Rightarrow> detail \<Rightarrow>
    string option \<Rightarrow> string option \<Rightarrow> string option \<Rightarrow> audit_row adb" where
  "LogAction lib h gen userID actor action target det oldV newV ip =
     transaction (bind (query lastEntry) (\<lambda>prev.
       case CanonicalizeDetail lib h det of None \<Rightarrow> fail (App ErrCanonicalize)
       | Some (detailJSON, detailHash) \<Rightarrow>
         bind time_now (\<lambda>t. bind (new_uuid gen) (\<lambda>newID.
           let nextSeq = (case prev of None \<Rightarrow> 1 | Some (lastSeq, _) \<Rightarrow> wrap64 (lastSeq + 1));
               prevHash = (case prev of None \<Rightarrow> '''' | Some (_, lastHash) \<Rightarrow> lastHash);
               e = newEntry h newID userID actor action target oldV newV ip (truncateMicro t) nextSeq detailJSON detailHash prevHash
           in bind (stmt (insertRow lib e)) (\<lambda>_. ret e)))))"

text \<open>The plain logger inserts a row without any chain column; the table allows NULL there.\<close>

definition plainLog :: "json_lib \<Rightarrow> (nat \<Rightarrow> uuid) \<Rightarrow> uuid option \<Rightarrow> string \<Rightarrow> string \<Rightarrow> uuid \<Rightarrow> string \<Rightarrow> string \<Rightarrow> string option \<Rightarrow> unit adb" where
  "plainLog lib gen userID action entityType entityID oldJSON newJSON ip =
     bind time_now (\<lambda>t. bind (new_uuid gen) (\<lambda>newID. stmt (\<lambda>d.
       if newID \<in> aID ` set (rows d) \<or> jColumn lib oldJSON = None \<or> jColumn lib newJSON = None then Inl Violation
       else Inr ((), d \<lparr> rows := rows d @ [\<lparr> aID = newID, UserID = userID, Action = action, EntityType = entityType,
         EntityID = entityID, OldValue = Some oldJSON, NewValue = Some newJSON, IPAddress = ip, CreatedAt = truncateMicro t,
         Sequence = None, Actor = '''', Target = '''', Detail = '''', DetailHash = '''', PrevHash = '''', EntryHash = '''',
         Anchored = False, AnchorTxHash = None, Redacted = False \<rparr>] \<rparr>))))"

section \<open>Verifying\<close>

text \<open>\<open>None\<close> is a verified range, \<open>Some q\<close> a break reported at sequence \<open>q\<close>.\<close>

fun verifyLoop :: "json_lib \<Rightarrow> (string \<Rightarrow> string) \<Rightarrow> int \<Rightarrow> string \<Rightarrow> bool \<Rightarrow> audit_row list \<Rightarrow> int option" where
  "verifyLoop lib h expectedSeq expectedPrev first [] = None"
| "verifyLoop lib h expectedSeq expectedPrev first (e # es) =
     (let sq = the (Sequence e)
      in if sq \<noteq> expectedSeq then Some sq
         else if \<not> first \<and> PrevHash e \<noteq> expectedPrev then Some sq
         else if first \<and> sq = 1 \<and> PrevHash e \<noteq> '''' then Some sq
         else if \<not> Redacted e \<and> map_option snd (CanonicalizeDetail lib h (DetailRaw (Detail e))) \<noteq> Some (DetailHash e) then Some sq
         else if h (CanonicalSerialize sq (CreatedAt e) (Actor e) (Action e) (Target e) (DetailHash e) (PrevHash e)) \<noteq> EntryHash e
         then Some sq
         else verifyLoop lib h (wrap64 (expectedSeq + 1)) (EntryHash e) False es)"

definition inRange :: "int \<Rightarrow> int \<Rightarrow> audit_row \<Rightarrow> bool" where
  "inRange lo hi r \<longleftrightarrow> (case Sequence r of None \<Rightarrow> False | Some q \<Rightarrow> lo \<le> q \<and> q \<le> hi)"

definition verifyRows :: "json_lib \<Rightarrow> (string \<Rightarrow> string) \<Rightarrow> int \<Rightarrow> int \<Rightarrow> audit_row list \<Rightarrow> int option" where
  "verifyRows lib h from0 to rs =
     (let lo = (if from0 \<le> 0 then 1 else from0)
      in verifyLoop lib h lo '''' True (sort_key (\<lambda>r. the (Sequence r)) (filter (inRange lo to) rs)))"

definition VerifyChain :: "json_lib \<Rightarrow> (string \<Rightarrow> string) \<Rightarrow> int \<Rightarrow> int \<Rightarrow> int option adb" where
  "VerifyChain lib h from0 to = query (\<lambda>d. Inr (verifyRows lib h from0 to (rows d)))"

text \<open>The scheduled pass: the whole chain, or the first \<^verbatim>\<open>BatchSize\<close> entries; an alert is raised on a break and on an error.\<close>

definition RunOnce :: "json_lib \<Rightarrow> (string \<Rightarrow> string) \<Rightarrow> int \<Rightarrow> int option adb" where
  "RunOnce lib h batchSize =
     VerifyChain lib h 1 (if 0 < batchSize then wrap64 (1 + batchSize - 1) else int64_max)"

definition runOnce :: "json_lib \<Rightarrow> (string \<Rightarrow> string) \<Rightarrow> int \<Rightarrow> audit_db dbw \<Rightarrow> int option \<times> audit_db dbw" where
  "runOnce lib h batchSize w =
     (case RunOnce lib h batchSize w of
        (Inl e, w') \<Rightarrow> (Some 0, w')
      | (Inr None, w') \<Rightarrow> (None, w')
      | (Inr (Some q), w') \<Rightarrow> (Some q, w'))"

section \<open>Redaction and anchoring\<close>

definition redactKey :: "string \<Rightarrow> (string \<times> json) list \<Rightarrow> (string \<times> json) list" where
  "redactKey k m = map (\<lambda>(x, v). if x = k then (x, JStr ''[REDACTED]'') else (x, v)) m"

text \<open>Unmarshalling into a map accepts an object and null and fails on everything else.\<close>

definition detailMap :: "json_lib \<Rightarrow> string \<Rightarrow> (string \<times> json) list option" where
  "detailMap lib s = (case jUnmarshal lib s of Some (JObj m) \<Rightarrow> Some m | Some JNull \<Rightarrow> Some [] | _ \<Rightarrow> None)"

definition findRow :: "int \<Rightarrow> audit_db \<Rightarrow> aerror db_error + string" where
  "findRow sq d = (case List.find (\<lambda>r. Sequence r = Some sq) (rows d) of None \<Rightarrow> Inl (App ErrNotFound) | Some r \<Rightarrow> Inr (Detail r))"

definition updateRows :: "int \<Rightarrow> (audit_row \<Rightarrow> audit_row) \<Rightarrow> audit_db \<Rightarrow> audit_db" where
  "updateRows sq f d = d \<lparr> rows := map (\<lambda>r. if Sequence r = Some sq then f r else r) (rows d) \<rparr>"

definition redactDetail :: "json_lib \<Rightarrow> int \<Rightarrow> string list \<Rightarrow> bool adb" where
  "redactDetail lib sq keys =
     transaction (bind (query (findRow sq)) (\<lambda>det.
       case detailMap lib det of None \<Rightarrow> fail (App ErrUnmarshal)
       | Some m \<Rightarrow>
         if \<not> (\<exists>k \<in> set keys. k \<in> fst ` set m) then ret False
         else bind (stmt (\<lambda>d. case jColumn lib (jMarshal lib (JObj (fold redactKey keys m))) of
                None \<Rightarrow> Inl Violation
              | Some stored \<Rightarrow> Inr ((), updateRows sq (\<lambda>r. r \<lparr> Detail := stored, Redacted := True \<rparr>) d)))
              (\<lambda>_. ret True)))"

definition redactionDetail :: "json_lib \<Rightarrow> int \<Rightarrow> string list \<Rightarrow> detail" where
  "redactionDetail lib sq keys = DetailValue (Some (jMarshal lib
     (JObj [(''redacted_fields'', JArr (map JStr keys)), (''target_sequence'', JNum (itoa sq))])))"

text \<open>The follow-up entry is written after the redaction; its error is dropped.\<close>

definition RedactEntry :: "json_lib \<Rightarrow> (string \<Rightarrow> string) \<Rightarrow> (nat \<Rightarrow> uuid) \<Rightarrow> int \<Rightarrow> string list \<Rightarrow> unit adb" where
  "RedactEntry lib h gen sq keys =
     bind (redactDetail lib sq keys) (\<lambda>redacted.
       if \<not> redacted then ret ()
       else bind (attempt (LogAction lib h gen None ''system'' ''redaction'' (''audit_logs:sequence:'' @ itoa sq)
              (redactionDetail lib sq keys) None None None)) (\<lambda>_. ret ()))"

text \<open>One line appended to the anchor file; \<open>fileOK\<close> is whether the file could be opened and written.\<close>

definition appendAnchor :: "bool \<Rightarrow> string \<Rightarrow> unit adb" where
  "appendAnchor fileOK line w =
     (if \<not> fileOK then (Inl (App ErrAnchorFile), w)
      else (Inr (), w \<lparr> data := (data w) \<lparr> anchors := anchors (data w) @ [line] \<rparr> \<rparr>))"

definition AnchorLatestEntry :: "string \<Rightarrow> bool \<Rightarrow> string adb" where
  "AnchorLatestEntry path fileOK =
     bind (query lastEntry) (\<lambda>prev. case prev of None \<Rightarrow> fail (App ErrNothingToAnchor)
     | Some (sq, hash) \<Rightarrow> bind time_now (\<lambda>t.
         bind (appendAnchor fileOK (''['' @ RFC3339Nano (t - t mod second) @ ''] SEQ:'' @ itoa sq @ '' HASH:'' @ hash)) (\<lambda>_.
         bind (stmt (\<lambda>d. Inr ((), updateRows sq (\<lambda>r. r \<lparr> Anchored := True, AnchorTxHash := Some (''file:'' @ path) \<rparr>) d)))
           (\<lambda>_. ret (''file:'' @ path)))))"

section \<open>The chain invariant\<close>

definition row_ok :: "json_lib \<Rightarrow> (string \<Rightarrow> string) \<Rightarrow> audit_row \<Rightarrow> bool" where
  "row_ok lib h r \<longleftrightarrow> (\<not> Redacted r \<longrightarrow> h (normalizeJSON lib (Detail r)) = DetailHash r)
     \<and> h (CanonicalSerialize (the (Sequence r)) (CreatedAt r) (Actor r) (Action r) (Target r) (DetailHash r) (PrevHash r)) = EntryHash r"

text \<open>\<open>linked lib h e p rs\<close>: the rows carry the sequences from \<open>e\<close> on, each is sound, and each names the hash of the one before; \<open>p\<close> is what the first has to name, if anything.\<close>

fun linked :: "json_lib \<Rightarrow> (string \<Rightarrow> string) \<Rightarrow> int \<Rightarrow> string option \<Rightarrow> audit_row list \<Rightarrow> bool" where
  "linked lib h e p [] \<longleftrightarrow> True"
| "linked lib h e p (r # rs) \<longleftrightarrow> Sequence r = Some e \<and> (p = None \<or> p = Some (PrevHash r)) \<and> row_ok lib h r
     \<and> linked lib h (e + 1) (Some (EntryHash r)) rs"

lemma linked_snoc:
  "linked lib h e p (rs @ [r]) \<longleftrightarrow> linked lib h e p rs \<and> Sequence r = Some (e + int (length rs)) \<and> row_ok lib h r
     \<and> (case rs of [] \<Rightarrow> p = None \<or> p = Some (PrevHash r) | _ \<Rightarrow> PrevHash r = EntryHash (last rs))"
proof (induction rs arbitrary: e p)
  case (Cons a rs)
  have "linked lib h e p ((a # rs) @ [r]) \<longleftrightarrow> Sequence a = Some e \<and> (p = None \<or> p = Some (PrevHash a)) \<and> row_ok lib h a
      \<and> linked lib h (e + 1) (Some (EntryHash a)) rs \<and> Sequence r = Some (e + 1 + int (length rs)) \<and> row_ok lib h r
      \<and> PrevHash r = (if rs = [] then EntryHash a else EntryHash (last rs))"
    by (auto simp: Cons.IH split: list.split)
  then show ?case by (simp add: ac_simps)
qed auto

lemma linked_Sequence: "linked lib h e p rs \<Longrightarrow> r \<in> set rs \<Longrightarrow> \<exists>q. Sequence r = Some q \<and> e \<le> q \<and> q < e + int (length rs)"
proof (induction rs arbitrary: e p)
  case (Cons a rs)
  show ?case
  proof (cases "r = a")
    case True
    then show ?thesis using Cons.prems by simp
  next
    case False
    then obtain q where "Sequence r = Some q" "e + 1 \<le> q" "q < e + 1 + int (length rs)"
      using Cons.IH [of "e + 1" "Some (EntryHash a)"] Cons.prems by auto
    then show ?thesis by simp
  qed
qed simp

lemma linked_weaken: "linked lib h e p rs \<Longrightarrow> linked lib h e None rs"
  by (cases rs) auto

lemma linked_sorted: "linked lib h e p rs \<Longrightarrow> sorted (map (\<lambda>r. the (Sequence r)) rs)"
proof (induction rs arbitrary: e p)
  case (Cons r rs)
  then show ?case using linked_Sequence [of lib h "e + 1" "Some (EntryHash r)" rs] by fastforce
qed simp

lemma fold_last:
  assumes "linked lib h e p rs"
  shows "fold (\<lambda>r best. case best of None \<Rightarrow> Some r | Some b \<Rightarrow> if the (Sequence b) < the (Sequence r) then Some r else best) rs None
    = (if rs = [] then None else Some (last rs))"
  using assms
proof (induction rs rule: rev_induct)
  case (snoc r rs)
  then have l: "linked lib h e p rs" "Sequence r = Some (e + int (length rs))" by (simp_all add: linked_snoc)
  show ?case
  proof (cases "rs = []")
    case False
    then obtain q where "Sequence (last rs) = Some q" "q < e + int (length rs)"
      using linked_Sequence [OF l(1), of "last rs"] by auto
    with False snoc.IH [OF l(1)] l(2) show ?thesis by simp
  qed simp
qed simp

lemma lastEntry_linked:
  assumes "linked lib h 1 (Some '''') (rows d)"
  shows "lastEntry d = Inr (if rows d = [] then None else Some (int (length (rows d)), EntryHash (last (rows d))))"
proof -
  have no: "\<not> (\<exists>r \<in> set (rows d). Sequence r = None)" using linked_Sequence [OF assms] by fastforce
  have "the (Sequence (last (rows d))) = int (length (rows d))" if "rows d \<noteq> []"
    using assms that by (cases "rows d" rule: rev_cases) (auto simp: linked_snoc)
  with no show ?thesis by (simp add: lastEntry_def fold_last [OF assms])
qed

text \<open>A detail whose canonical text comes back from its column with the same canonical text.\<close>

definition stable :: "json_lib \<Rightarrow> detail \<Rightarrow> bool" where
  "stable lib det \<longleftrightarrow> (\<forall>n t. map_option fst (CanonicalizeDetail lib (\<lambda>s. s) det) = Some n \<longrightarrow> jColumn lib n = Some t \<longrightarrow>
     normalizeJSON lib t = n)"

lemma stableD:
  assumes "stable lib det" and "CanonicalizeDetail lib h det = Some (n, dh)" and "jColumn lib n = Some t"
  shows "normalizeJSON lib t = n" and "dh = h n"
proof -
  have "map_option fst (CanonicalizeDetail lib (\<lambda>s. s) det) = Some n \<and> dh = h n"
    using assms(2) by (induction lib h det rule: CanonicalizeDetail.induct) (auto simp: Let_def split: if_splits)
  then show "normalizeJSON lib t = n" "dh = h n" using assms(1,3) by (auto simp: stable_def)
qed

definition chain :: "json_lib \<Rightarrow> (string \<Rightarrow> string) \<Rightarrow> audit_db \<Rightarrow> bool" where
  "chain lib h d \<longleftrightarrow> (int (length (rows d)) < int64_max \<longrightarrow> linked lib h 1 (Some '''') (rows d))"

lemma truncateMicro_idem [simp]: "truncateMicro (truncateMicro t) = truncateMicro t"
proof -
  have "(t - t mod 1000) mod 1000 = 0" by (simp add: minus_mod_eq_mult_div)
  then show ?thesis by (simp add: truncateMicro_def microsecond_def)
qed

lemma insert_chain:
  assumes c: "chain lib h d" and "lastEntry d = Inr prev" and det: "stable lib det" "CanonicalizeDetail lib h det = Some (n, dh)"
    and e: "e = newEntry h i u actor action target ov nv ip (truncateMicro t)
        (case prev of None \<Rightarrow> 1 | Some (q, _) \<Rightarrow> wrap64 (q + 1)) n dh (case prev of None \<Rightarrow> '''' | Some (_, x) \<Rightarrow> x)"
    and "insertRow lib e d = Inr (a, d')"
  shows "chain lib h d'"
  unfolding chain_def
proof (intro impI)
  from assms(6) obtain st where st: "jColumn lib n = Some st"
    and d': "rows d' = rows d @ [e \<lparr> Detail := st, CreatedAt := truncateMicro (CreatedAt e) \<rparr>]"
    by (auto simp: insertRow_def e newEntry_def split: if_splits option.splits)
  assume small: "int (length (rows d')) < int64_max"
  then have "int (length (rows d)) < int64_max" by (simp add: d')
  then have l: "linked lib h 1 (Some '''') (rows d)" using c by (simp add: chain_def)
  have "wrap64 (int (length (rows d)) + 1) = 1 + int (length (rows d))"
    using small by (subst wrap64_id) (auto simp: d' in_int64_def int64_min_def)
  with assms(2) lastEntry_linked [OF l] have q: "Sequence e = Some (1 + int (length (rows d)))"
    "PrevHash e = (if rows d = [] then '''' else EntryHash (last (rows d)))"
    by (auto simp: e newEntry_def split: if_splits)
  have "row_ok lib h (e \<lparr> Detail := st, CreatedAt := truncateMicro (CreatedAt e) \<rparr>)"
    using stableD [OF det st] by (simp add: row_ok_def e newEntry_def)
  then show "linked lib h 1 (Some '''') (rows d')"
    using l q by (auto simp: d' linked_snoc split: list.splits)
qed

lemma chain_LogAction:
  assumes "stable lib det"
  shows "always (chain lib h) (LogAction lib h gen u actor action target det ov nv ip)"
  unfolding LogAction_def
proof (rule transaction_always, rule hoare_bind)
  show "hoare (\<lambda>w. chain lib h (data w)) (query lastEntry) (\<lambda>prev w. chain lib h (data w) \<and> lastEntry (data w) = Inr prev)"
    by (auto simp: hoare_def dest: query_Inr)
next
  fix prev
  let ?R = "\<lambda>w. chain lib h (data w) \<and> lastEntry (data w) = Inr prev"
  show "hoare ?R (case CanonicalizeDetail lib h det of None \<Rightarrow> fail (App ErrCanonicalize)
       | Some (detailJSON, detailHash) \<Rightarrow>
         bind time_now (\<lambda>t. bind (new_uuid gen) (\<lambda>newID.
           let nextSeq = (case prev of None \<Rightarrow> 1 | Some (lastSeq, _) \<Rightarrow> wrap64 (lastSeq + 1));
               prevHash = (case prev of None \<Rightarrow> '''' | Some (_, lastHash) \<Rightarrow> lastHash);
               e = newEntry h newID u actor action target ov nv ip (truncateMicro t) nextSeq detailJSON detailHash prevHash
           in bind (stmt (insertRow lib e)) (\<lambda>_. ret e)))) (\<lambda>a w. chain lib h (data w))"
  proof (cases "CanonicalizeDetail lib h det")
    case (Some x)
    then obtain n dh where c: "CanonicalizeDetail lib h det = Some (n, dh)" by (cases x) auto
    show ?thesis
      unfolding c option.case prod.case Let_def
      by (rule hoare_bind [of _ _ "\<lambda>t. ?R"], simp add: hoare_def time_now_def,
          rule hoare_bind [of _ _ "\<lambda>i. ?R"], simp add: hoare_def new_uuid_def,
          rule hoare_bind [OF hoare_stmt [of _ _ "\<lambda>a w. chain lib h (data w)"] hoare_ret])
        (auto intro: insert_chain [OF _ _ assms c refl])
  qed simp
qed

text \<open>An update of one row that keeps the fields the chain rests on, and does not claim an unredacted detail, keeps the chain.\<close>

definition keeps :: "(audit_row \<Rightarrow> audit_row) \<Rightarrow> bool" where
  "keeps f \<longleftrightarrow> (\<forall>r lib h. Sequence (f r) = Sequence r \<and> PrevHash (f r) = PrevHash r \<and> EntryHash (f r) = EntryHash r
     \<and> (row_ok lib h r \<longrightarrow> row_ok lib h (f r)))"

lemma linked_update:
  assumes "keeps f"
  shows "linked lib h e p rs \<Longrightarrow> linked lib h e p (map (\<lambda>r. if Sequence r = Some q then f r else r) rs)"
  by (induction rs arbitrary: e p) (use assms in \<open>auto simp: keeps_def\<close>)

lemma chain_update: "keeps f \<Longrightarrow> chain lib h d \<Longrightarrow> chain lib h (updateRows q f d)"
  by (auto simp: chain_def updateRows_def intro: linked_update)

lemma keeps_redact: "keeps (\<lambda>r. r \<lparr> Detail := st, Redacted := True \<rparr>)"
  and keeps_anchor: "keeps (\<lambda>r. r \<lparr> Anchored := True, AnchorTxHash := x \<rparr>)"
  by (simp_all add: keeps_def row_ok_def)

lemma chain_redactDetail: "always (chain lib h) (redactDetail lib q keys)"
  unfolding redactDetail_def
proof (rule transaction_always, rule hoare_bind [of _ _ "\<lambda>_ w. chain lib h (data w)"])
  show "hoare (\<lambda>w. chain lib h (data w)) (query (findRow q)) (\<lambda>_ w. chain lib h (data w))"
    by (rule always_hoare) simp
next
  fix det
  show "hoare (\<lambda>w. chain lib h (data w))
     (case detailMap lib det of None \<Rightarrow> fail (App ErrUnmarshal)
       | Some m \<Rightarrow>
         if \<not> (\<exists>k \<in> set keys. k \<in> fst ` set m) then ret False
         else bind (stmt (\<lambda>d. case jColumn lib (jMarshal lib (JObj (fold redactKey keys m))) of
                None \<Rightarrow> Inl Violation
              | Some stored \<Rightarrow> Inr ((), updateRows q (\<lambda>r. r \<lparr> Detail := stored, Redacted := True \<rparr>) d)))
              (\<lambda>_. ret True)) (\<lambda>a w. chain lib h (data w))"
    by (cases "detailMap lib det")
      (auto intro!: hoare_if hoare_ret always_hoare always_bind always_stmt chain_update keeps_redact split: option.splits)
qed

lemma chain_RedactEntry:
  assumes "stable lib (redactionDetail lib q keys)"
  shows "always (chain lib h) (RedactEntry lib h gen q keys)"
  unfolding RedactEntry_def
  by (intro always_bind always_if always_attempt chain_redactDetail chain_LogAction [OF assms]) simp_all

lemma chain_Anchor: "always (chain lib h) (AnchorLatestEntry path fileOK)"
proof -
  have a: "always (chain lib h) (appendAnchor fileOK line)" for line
    by (simp add: always_def appendAnchor_def chain_def)
  show ?thesis
    unfolding AnchorLatestEntry_def
    by (rule always_bind)
      (auto intro!: always_bind a always_stmt chain_update keeps_anchor split: option.splits)
qed

section \<open>Runs\<close>

text \<open>Entries appended, redacted and anchored in any order, with any faults and at any times.\<close>

inductive astep :: "json_lib \<Rightarrow> (string \<Rightarrow> string) \<Rightarrow> (nat \<Rightarrow> uuid) \<Rightarrow> audit_db dbw \<Rightarrow> audit_db dbw \<Rightarrow> bool" for lib h gen where
  astep_log: "stable lib det \<Longrightarrow> astep lib h gen w (snd (LogAction lib h gen u actor action target det ov nv ip w))"
| astep_redact: "stable lib (redactionDetail lib q keys) \<Longrightarrow> astep lib h gen w (snd (RedactEntry lib h gen q keys w))"
| astep_anchor: "astep lib h gen w (snd (AnchorLatestEntry path fileOK w))"
| astep_time: "astep lib h gen w (w \<lparr> wall := t \<rparr>)"
| astep_faults: "astep lib h gen w (w \<lparr> sched := fs \<rparr>)"

definition audit_init :: "time \<Rightarrow> audit_db dbw" where
  "audit_init t = \<lparr> data = \<lparr> rows = [], anchors = [] \<rparr>, sched = [], drawn = 0, wall = t \<rparr>"

lemma chain_astep: "astep lib h gen w w' \<Longrightarrow> chain lib h (data w) \<Longrightarrow> chain lib h (data w')"
  by (induction rule: astep.induct)
    (use chain_LogAction chain_RedactEntry chain_Anchor in \<open>auto simp: always_def\<close>)

lemma chain_reachable: "(astep lib h gen)\<^sup>*\<^sup>* (audit_init t) w \<Longrightarrow> chain lib h (data w)"
  by (induction rule: rtranclp_induct) (auto simp: chain_def audit_init_def dest: chain_astep)

section \<open>A chain the service wrote always verifies\<close>

lemma row_ok_iff:
  "row_ok lib h r \<longleftrightarrow> (Redacted r \<or> map_option snd (CanonicalizeDetail lib h (DetailRaw (Detail r))) = Some (DetailHash r))
     \<and> h (CanonicalSerialize (the (Sequence r)) (CreatedAt r) (Actor r) (Action r) (Target r) (DetailHash r) (PrevHash r)) = EntryHash r"
  by (auto simp: row_ok_def Let_def)

lemma verifyLoop_linked:
  assumes "linked lib h e (if first then (if e = 1 then Some '''' else None) else Some p) rs"
    and "e + int (length rs) \<le> int64_max" and "0 < e"
  shows "verifyLoop lib h e p first rs = None"
  using assms
proof (induction rs arbitrary: e p first)
  case (Cons r rs)
  have w: "wrap64 (e + 1) = e + 1"
    by (rule wrap64_id) (use Cons.prems(2,3) in \<open>auto simp: in_int64_def int64_min_def\<close>)
  have "row_ok lib h r" "Sequence r = Some e" using Cons.prems(1) by auto
  moreover have "verifyLoop lib h (e + 1) (EntryHash r) False rs = None"
    using Cons.prems by (intro Cons.IH) auto
  ultimately show ?case
    using Cons.prems(1) w by (auto simp: row_ok_iff Let_def split: if_splits)
qed simp

lemma linked_filter:
  assumes "linked lib h e p rs" and "lo \<le> e"
  shows "linked lib h e p (filter (inRange lo hi) rs) \<and> length (filter (inRange lo hi) rs) \<le> length rs"
  using assms
proof (induction rs arbitrary: e p)
  case (Cons r rs)
  have empty: "filter (inRange lo hi) rs = []" if "hi < e"
    using linked_Sequence [of lib h "e + 1" "Some (EntryHash r)" rs] Cons.prems that
    by (fastforce simp: filter_empty_conv inRange_def)
  have "inRange lo hi r \<longleftrightarrow> e \<le> hi" using Cons.prems by (simp add: inRange_def)
  then show ?case using Cons.IH [of "e + 1" "Some (EntryHash r)"] Cons.prems empty by auto
qed simp

lemma linked_range:
  assumes "linked lib h e p rs" and "e \<le> lo"
  shows "linked lib h lo (if lo = e then p else None) (filter (inRange lo hi) rs)
     \<and> lo + int (length (filter (inRange lo hi) rs)) \<le> max lo (e + int (length rs))"
  using assms
proof (induction rs arbitrary: e p)
  case (Cons r rs)
  show ?case
  proof (cases "e = lo")
    case True
    then show ?thesis using linked_filter [OF Cons.prems(1), of lo hi] by simp
  next
    case False
    then have "\<not> inRange lo hi r" using Cons.prems by (simp add: inRange_def)
    moreover have "linked lib h lo None (filter (inRange lo hi) rs)"
      using Cons.IH [of "e + 1" "Some (EntryHash r)"] Cons.prems False by (auto split: if_splits intro: linked_weaken)
    ultimately show ?thesis
      using Cons.IH [of "e + 1" "Some (EntryHash r)"] Cons.prems False by auto
  qed
qed simp

lemma verifyRows_linked:
  assumes "linked lib h 1 (Some '''') rs" and "int (length rs) < int64_max" and "lo \<le> int64_max"
  shows "verifyRows lib h lo hi rs = None"
proof -
  define l where "l = (if lo \<le> 0 then 1 else lo)"
  have l: "1 \<le> l" "l \<le> int64_max" using assms(3) by (auto simp: l_def int64_max_def)
  note r = linked_range [OF assms(1) l(1), of hi]
  have "sort_key (\<lambda>r. the (Sequence r)) (filter (inRange l hi) rs) = filter (inRange l hi) rs"
    using linked_sorted r by (metis sort_key_id_if_sorted)
  moreover have "verifyLoop lib h l '''' True (filter (inRange l hi) rs) = None"
    by (rule verifyLoop_linked) (use r l assms(2) in auto)
  ultimately show ?thesis by (simp add: verifyRows_def l_def [symmetric] Let_def)
qed

text \<open>A codec and a run used by the examples: JSON texts are kept as they are.\<close>

definition lib0 :: json_lib where
  "lib0 = \<lparr> jUnmarshal = (\<lambda>s. Some (JStr s)), jMarshal = (\<lambda>v. case v of JStr s \<Rightarrow> s | _ \<Rightarrow> ''{}''), jColumn = Some \<rparr>"

lemma lib0_stable: "stable lib0 det"
  unfolding stable_def
  by (induction lib0 "\<lambda>s::string. s" det rule: CanonicalizeDetail.induct) (auto simp: lib0_def normalizeJSON_def Let_def)

definition log0 :: "string \<Rightarrow> string \<Rightarrow> audit_db dbw \<Rightarrow> audit_db dbw" where
  "log0 actor action w = snd (LogAction lib0 (\<lambda>s. s) Suc None actor action ''vault'' (DetailText ''d'') None None None w)"

lemma log0_step: "(astep lib0 (\<lambda>s. s) Suc)\<^sup>*\<^sup>* w0 w \<Longrightarrow> (astep lib0 (\<lambda>s. s) Suc)\<^sup>*\<^sup>* w0 (log0 actor action w)"
  unfolding log0_def by (erule rtranclp.rtrancl_into_rtrancl) (rule astep_log [OF lib0_stable])

text \<open>
  C34: a chain that only the service wrote always verifies. After any appends, redactions and
  anchorings, with any database faults and at any times, the verification of any range of
  sequences never reports a break: it ends in success, or in an error of the database driver,
  and without faults in success. The details have to come back from their column with the same
  canonical JSON, and the log is shorter than the int64 range.
\<close>

theorem audit_chain_verifies:
  assumes "(astep lib h gen)\<^sup>*\<^sup>* (audit_init t) w" and "int (length (rows (data w))) < int64_max" and "lo \<le> int64_max"
  shows "fst (VerifyChain lib h lo hi w) = (if next_fault (sched w) then Inl DBFailure else Inr None)"
proof -
  have "linked lib h 1 (Some '''') (rows (data w))" using chain_reachable [OF assms(1)] assms(2) by (simp add: chain_def)
  then show ?thesis
    using verifyRows_linked [OF _ assms(2,3)] by (simp add: VerifyChain_def query_def stmt_def Let_def)
qed

theorem audit_chain_verifies_witness:
  "let w = log0 ''bob'' ''pause'' (log0 ''alice'' ''deposit'' (audit_init 5000000))
   in length (rows (data w)) = 2 \<and> fst (VerifyChain lib0 (\<lambda>s. s) 1 100 w) = Inr None"
proof -
  define w where "w = log0 ''bob'' ''pause'' (log0 ''alice'' ''deposit'' (audit_init 5000000))"
  have r: "(astep lib0 (\<lambda>s. s) Suc)\<^sup>*\<^sup>* (audit_init 5000000) w" unfolding w_def by (intro log0_step rtranclp.rtrancl_refl)
  have n: "length (rows (data w)) = 2" "sched w = []" unfolding w_def by (code_simp, code_simp)
  show ?thesis
    using audit_chain_verifies [OF r, of 1 100] n by (simp add: w_def [symmetric] Let_def int64_max_def)
qed

section \<open>Tampering is detected\<close>

text \<open>What the entry hash commits to, with the time as it is printed.\<close>

definition content :: "audit_row \<Rightarrow> int \<times> string \<times> string \<times> string \<times> string \<times> string \<times> string" where
  "content r = (the (Sequence r), RFC3339Nano (CreatedAt r), Actor r, Action r, Target r, DetailHash r, PrevHash r)"

definition message :: "audit_row \<Rightarrow> string" where
  "message r = CanonicalSerialize (the (Sequence r)) (CreatedAt r) (Actor r) (Action r) (Target r) (DetailHash r) (PrevHash r)"

definition one_line :: "audit_row \<Rightarrow> bool" where
  "one_line r \<longleftrightarrow> nl \<notin> set (Actor r) \<union> set (Action r) \<union> set (Target r) \<union> set (DetailHash r)"

lemma split_at_nl: "nl \<notin> set x \<Longrightarrow> nl \<notin> set y \<Longrightarrow> x @ nl # u = y @ nl # v \<longleftrightarrow> x = y \<and> u = v"
proof (induction x arbitrary: y)
  case Nil
  then show ?case by (cases y) auto
next
  case (Cons a x)
  then show ?case by (cases y) auto
qed

lemma nl_free: "nl \<notin> set (itoa n)" "nl \<notin> set (RFC3339Nano t)"
  using itoa_chars [of nl n] RFC3339Nano_chars [of nl t] by (auto simp: is_digit_def nl_def)

lemma message_inj:
  assumes "message r = message s" and "one_line r" and "one_line s"
  shows "content r = content s"
proof -
  note s = split_at_nl nl_free itoa_inj
  have o: "nl \<notin> set (Actor r)" "nl \<notin> set (Action r)" "nl \<notin> set (Target r)" "nl \<notin> set (DetailHash r)"
    "nl \<notin> set (Actor s)" "nl \<notin> set (Action s)" "nl \<notin> set (Target s)" "nl \<notin> set (DetailHash s)"
    using assms(2,3) by (auto simp: one_line_def)
  show ?thesis
    using assms(1) unfolding message_def CanonicalSerialize_def content_def
    by (simp add: s o)
qed

text \<open>The rows of a verified range, as the verification reads them.\<close>

lemma verifyLoop_None:
  assumes "verifyLoop lib h e p first rs = None" and "0 < e" and "e + int (length rs) \<le> int64_max"
    and "\<forall>r \<in> set rs. Sequence r \<noteq> None"
  shows "linked lib h e (if first then (if e = 1 then Some '''' else None) else Some p) rs"
  using assms
proof (induction rs arbitrary: e p first)
  case (Cons r rs)
  have w: "wrap64 (e + 1) = e + 1"
    by (rule wrap64_id) (use Cons.prems(2,3) in \<open>auto simp: in_int64_def int64_min_def\<close>)
  obtain q where q: "Sequence r = Some q" using Cons.prems(4) by auto
  have "q = e" "row_ok lib h r" "first \<longrightarrow> e = 1 \<longrightarrow> PrevHash r = ''''" "\<not> first \<longrightarrow> PrevHash r = p"
    and rec: "verifyLoop lib h (e + 1) (EntryHash r) False rs = None"
    using Cons.prems(1) q w by (auto simp: row_ok_iff Let_def split: if_splits)
  with q Cons.IH [OF rec] Cons.prems show ?case by auto
qed simp

definition entries :: "int \<Rightarrow> audit_row list \<Rightarrow> audit_row list" where
  "entries n rs = sort_key (\<lambda>r. the (Sequence r)) (filter (inRange 1 n) rs)"

lemma entries_linked:
  assumes "verifyRows lib h 1 n rs = None" and "int (length rs) < int64_max"
  shows "linked lib h 1 (Some '''') (entries n rs)"
proof -
  have "\<forall>r \<in> set (entries n rs). Sequence r \<noteq> None" by (auto simp: entries_def inRange_def split: option.splits)
  moreover have "int (length (entries n rs)) < int64_max"
    using assms(2) length_filter_le [of "inRange 1 n" rs] unfolding entries_def length_sort by linarith
  ultimately show ?thesis
    using verifyLoop_None [of lib h 1 "''''" True "entries n rs"] assms(1) by (simp add: verifyRows_def entries_def Let_def)
qed

text \<open>Two chains of the same length with the same last hash have the same contents.\<close>

lemma linked_agree:
  assumes "linked lib h 1 (Some '''') xs" and "linked lib h 1 (Some '''') ys" and "length xs = length ys"
    and "xs \<noteq> [] \<Longrightarrow> EntryHash (last xs) = EntryHash (last ys)"
    and "inj_on h (message ` (set xs \<union> set ys))" and "\<forall>r \<in> set xs \<union> set ys. one_line r"
  shows "map content xs = map content ys"
  using assms
proof (induction xs arbitrary: ys rule: rev_induct)
  case (snoc x xs)
  then obtain y ys' where ys: "ys = ys' @ [y]" by (cases ys rule: rev_cases) auto
  have lx: "linked lib h 1 (Some '''') xs" "row_ok lib h x" "xs \<noteq> [] \<Longrightarrow> PrevHash x = EntryHash (last xs)"
    and ly: "linked lib h 1 (Some '''') ys'" "row_ok lib h y" "ys' \<noteq> [] \<Longrightarrow> PrevHash y = EntryHash (last ys')"
    using snoc.prems(1,2) by (auto simp: ys linked_snoc split: list.splits)
  have "h (message x) = h (message y)"
    using snoc.prems(4) lx(2) ly(2) by (simp add: ys row_ok_def message_def)
  then have "message x = message y" by (rule inj_onD [OF snoc.prems(5)]) (simp_all add: ys)
  then have xy: "content x = content y" using snoc.prems(6) by (intro message_inj) (auto simp: ys)
  have len: "length xs = length ys'" using snoc.prems(3) by (simp add: ys)
  moreover have "xs \<noteq> [] \<Longrightarrow> EntryHash (last xs) = EntryHash (last ys')"
    using lx(3) ly(3) xy len by (cases "ys' = []") (auto simp: content_def)
  moreover have "inj_on h (message ` (set xs \<union> set ys'))" by (rule inj_on_subset [OF snoc.prems(5)]) (auto simp: ys)
  ultimately have "map content xs = map content ys'"
    using snoc.prems(6) by (intro snoc.IH lx ly) (auto simp: ys)
  then show ?case using xy by (simp add: ys)
qed simp

lemma linked_last: "linked lib h e p rs \<Longrightarrow> r \<in> set rs \<Longrightarrow> Sequence r = Some (e + int (length rs) - 1) \<Longrightarrow> r = last rs"
proof (induction rs rule: rev_induct)
  case (snoc x rs)
  then show ?case using linked_Sequence [of lib h e p rs r] by (auto simp: linked_snoc)
qed simp

lemma entries_full:
  assumes "linked lib h 1 (Some '''') (entries n rs)" and "r \<in> set rs" and "Sequence r = Some n" and "1 \<le> n"
  shows "int (length (entries n rs)) = n \<and> last (entries n rs) = r \<and> entries n rs \<noteq> []"
proof -
  have r: "r \<in> set (entries n rs)" using assms(2-4) by (simp add: entries_def inRange_def)
  then have "n < 1 + int (length (entries n rs))" using linked_Sequence [OF assms(1) r] assms(3) by simp
  moreover have "int (length (entries n rs)) \<le> n"
  proof -
    have ne: "entries n rs \<noteq> []" using r by auto
    then have "Sequence (last (entries n rs)) = Some (int (length (entries n rs)))"
      using assms(1) by (cases "entries n rs" rule: rev_cases) (auto simp: linked_snoc)
    moreover have "last (entries n rs) \<in> set (filter (inRange 1 n) rs)"
      using last_in_set [OF ne] by (simp add: entries_def)
    ultimately show ?thesis by (simp add: inRange_def)
  qed
  ultimately show ?thesis using linked_last [OF assms(1) r] assms(3) r by auto
qed

lemma linked_rows: "linked lib h e p rs \<Longrightarrow> r \<in> set rs \<Longrightarrow> row_ok lib h r"
  by (induction rs arbitrary: e p) auto

text \<open>
  C35: an anchored hash pins the whole log before it. If two databases both verify from sequence 1
  to \<open>n\<close> and their entries \<open>n\<close> carry the same hash, then the two logs agree on every entry up to
  \<open>n\<close>: sequence, printed time, actor, action, target, hash of the detail and hash of the
  previous entry, and on the canonical detail itself wherever neither copy is redacted. The
  hash must have no collision on what is hashed, and the texts no line break.
\<close>

theorem audit_tampering_detected:
  assumes "verifyRows lib h 1 n rs = None" and "verifyRows lib h 1 n rs' = None"
    and "int (length rs) < int64_max" and "int (length rs') < int64_max" and "1 \<le> n"
    and "r \<in> set rs" and "Sequence r = Some n" and "r' \<in> set rs'" and "Sequence r' = Some n" and "EntryHash r = EntryHash r'"
    and "inj_on h (message ` (set rs \<union> set rs') \<union> (\<lambda>r. normalizeJSON lib (Detail r)) ` (set rs \<union> set rs'))"
    and "\<forall>r \<in> set rs \<union> set rs'. one_line r"
  shows "list_all2 (\<lambda>a b. content a = content b
      \<and> (\<not> Redacted a \<and> \<not> Redacted b \<longrightarrow> normalizeJSON lib (Detail a) = normalizeJSON lib (Detail b)))
    (entries n rs) (entries n rs')"
proof -
  let ?xs = "entries n rs" and ?ys = "entries n rs'"
  have l: "linked lib h 1 (Some '''') ?xs" "linked lib h 1 (Some '''') ?ys"
    using entries_linked assms(1-4) by auto
  have f: "int (length ?xs) = n" "last ?xs = r" "int (length ?ys) = n" "last ?ys = r'"
    using entries_full [OF l(1) assms(6,7,5)] entries_full [OF l(2) assms(8,9,5)] by auto
  have sub: "set ?xs \<subseteq> set rs" "set ?ys \<subseteq> set rs'" by (auto simp: entries_def)
  have c: "map content ?xs = map content ?ys"
  proof (rule linked_agree [OF l])
    show "inj_on h (message ` (set ?xs \<union> set ?ys))" by (rule inj_on_subset [OF assms(11)]) (use sub in blast)
  qed (use f assms(10,12) sub in auto)
  show ?thesis
  proof (rule list_all2_all_nthI)
    show len: "length ?xs = length ?ys" using f by simp
    fix k assume k: "k < length ?xs"
    have ck: "content (?xs ! k) = content (?ys ! k)" using arg_cong [OF c, of "\<lambda>l. l ! k"] k len by simp
    have m: "?xs ! k \<in> set ?xs" "?ys ! k \<in> set ?ys" using k len by auto
    have "normalizeJSON lib (Detail (?xs ! k)) = normalizeJSON lib (Detail (?ys ! k))"
      if "\<not> Redacted (?xs ! k)" "\<not> Redacted (?ys ! k)"
    proof (rule inj_onD [OF assms(11)])
      show "h (normalizeJSON lib (Detail (?xs ! k))) = h (normalizeJSON lib (Detail (?ys ! k)))"
        using that ck linked_rows [OF l(1) m(1)] linked_rows [OF l(2) m(2)] by (simp add: row_ok_def content_def)
    qed (use m sub in auto)
    then show "content (?xs ! k) = content (?ys ! k) \<and> (\<not> Redacted (?xs ! k) \<and> \<not> Redacted (?ys ! k) \<longrightarrow>
        normalizeJSON lib (Detail (?xs ! k)) = normalizeJSON lib (Detail (?ys ! k)))" using ck by blast
  qed
qed

definition entry0 :: "uuid \<Rightarrow> string \<Rightarrow> int \<Rightarrow> string \<Rightarrow> audit_row" where
  "entry0 i actor sq prev = newEntry (\<lambda>s. s) i None actor ''pause'' ''vault'' None None None 5000000 sq ''d'' ''d'' prev"

definition honest0 :: "audit_row list" where
  "honest0 = (let a = entry0 1 ''alice'' 1 '''' in [a, entry0 2 ''bob'' 2 (EntryHash a)])"

definition copy0 :: "audit_row list" where
  "copy0 = map (\<lambda>r. r \<lparr> Anchored := True \<rparr>) honest0"

lemma honest0_linked: "linked lib0 (\<lambda>s. s) 1 (Some '''') honest0" "linked lib0 (\<lambda>s. s) 1 (Some '''') copy0"
  by (simp_all add: honest0_def copy0_def entry0_def newEntry_def row_ok_def normalizeJSON_def lib0_def Let_def)

theorem audit_tampering_detected_witness:
  "length honest0 = 2 \<and> honest0 \<noteq> copy0 \<and> list_all2 (\<lambda>a b. content a = content b
      \<and> (\<not> Redacted a \<and> \<not> Redacted b \<longrightarrow> normalizeJSON lib0 (Detail a) = normalizeJSON lib0 (Detail b)))
    (entries 2 honest0) (entries 2 copy0)"
proof -
  have len: "length honest0 = 2" "length copy0 = 2" by (simp_all add: honest0_def copy0_def Let_def)
  have "list_all2 (\<lambda>a b. content a = content b
      \<and> (\<not> Redacted a \<and> \<not> Redacted b \<longrightarrow> normalizeJSON lib0 (Detail a) = normalizeJSON lib0 (Detail b)))
    (entries 2 honest0) (entries 2 copy0)"
  proof (rule audit_tampering_detected [where h = "\<lambda>s. s" and r = "honest0 ! 1" and r' = "copy0 ! 1"])
    show "verifyRows lib0 (\<lambda>s. s) 1 2 honest0 = None" "verifyRows lib0 (\<lambda>s. s) 1 2 copy0 = None"
      by (rule verifyRows_linked [OF honest0_linked(1)], simp_all add: len int64_max_def)
        (rule verifyRows_linked [OF honest0_linked(2)], simp_all add: len int64_max_def)
    show "int (length honest0) < int64_max" "int (length copy0) < int64_max" by (simp_all add: len int64_max_def)
    show "honest0 ! 1 \<in> set honest0" "copy0 ! 1 \<in> set copy0" by (rule nth_mem, simp add: len)+
    show "\<forall>r \<in> set honest0 \<union> set copy0. one_line r"
      by (simp add: honest0_def copy0_def entry0_def newEntry_def one_line_def nl_def Let_def)
  qed (simp_all add: inj_on_def honest0_def copy0_def entry0_def newEntry_def Let_def)
  moreover have "honest0 \<noteq> copy0" by (simp add: honest0_def copy0_def entry0_def newEntry_def Let_def)
  ultimately show ?thesis using len by blast
qed

section \<open>Line breaks move between fields\<close>

lemma insort_key_map: "(\<And>x. k (f x) = k x) \<Longrightarrow> insort_key k (f x) (map f xs) = map f (insort_key k x xs)"
  by (induction xs) auto

lemma sort_key_map: "(\<And>x. k (f x) = k x) \<Longrightarrow> sort_key k (map f xs) = map f (sort_key k xs)"
  by (induction xs) (simp_all add: insort_key_map)

text \<open>A change of rows that verification cannot see.\<close>

definition unseen :: "(audit_row \<Rightarrow> audit_row) \<Rightarrow> bool" where
  "unseen f \<longleftrightarrow> (\<forall>r. Sequence (f r) = Sequence r \<and> PrevHash (f r) = PrevHash r \<and> EntryHash (f r) = EntryHash r
     \<and> Redacted (f r) = Redacted r \<and> Detail (f r) = Detail r \<and> DetailHash (f r) = DetailHash r \<and> message (f r) = message r)"

lemma verifyLoop_unseen: "unseen f \<Longrightarrow> verifyLoop lib h e p first (map f rs) = verifyLoop lib h e p first rs"
proof (induction rs arbitrary: e p first)
  case (Cons r rs)
  note u = Cons.prems [unfolded unseen_def message_def, rule_format, of r]
  have e: "Sequence (f r) = Sequence r" "PrevHash (f r) = PrevHash r" "EntryHash (f r) = EntryHash r"
    "Redacted (f r) = Redacted r" "Detail (f r) = Detail r" "DetailHash (f r) = DetailHash r"
    using u by auto
  have s: "CanonicalSerialize (the (Sequence r)) (CreatedAt (f r)) (Actor (f r)) (Action (f r)) (Target (f r)) (DetailHash r) (PrevHash r)
      = CanonicalSerialize (the (Sequence r)) (CreatedAt r) (Actor r) (Action r) (Target r) (DetailHash r) (PrevHash r)"
    using u unfolding e by blast
  show ?case by (simp only: list.map verifyLoop.simps Let_def e s Cons.IH [OF Cons.prems])
qed simp

lemma verifyRows_unseen:
  assumes "unseen f"
  shows "verifyRows lib h lo hi (map f rs) = verifyRows lib h lo hi rs"
proof -
  have s: "Sequence (f r) = Sequence r" for r using assms by (simp add: unseen_def)
  have "inRange x hi (f r) = inRange x hi r" for x r by (simp add: inRange_def s)
  then have "filter (inRange x hi) (map f rs) = map f (filter (inRange x hi) rs)" for x
    by (simp add: filter_map comp_def)
  then show ?thesis
    by (simp add: verifyRows_def Let_def sort_key_map s verifyLoop_unseen [OF assms])
qed

definition shiftLine :: "string \<Rightarrow> string \<Rightarrow> audit_row \<Rightarrow> audit_row" where
  "shiftLine x y r =
     (if Action r = x @ [nl] @ ''ACTION:'' @ y then r \<lparr> Actor := Actor r @ [nl] @ ''ACTION:'' @ x, Action := y \<rparr> else r)"

text \<open>
  the serialisation that is hashed does not protect its field boundaries. In any log, an
  entry whose action contains a line break followed by the next field's label can be rewritten
  so that a different actor did a different action, and every verification answers as before,
  under every hash function.
\<close>

theorem audit_fields_movable:
  "verifyRows lib h lo hi (map (shiftLine x y) rs) = verifyRows lib h lo hi rs"
proof (rule verifyRows_unseen)
  have "message (shiftLine x y r) = message r" for r
    by (simp add: shiftLine_def message_def CanonicalSerialize_def)
  then show "unseen (shiftLine x y)" by (simp add: unseen_def) (simp add: shiftLine_def)
qed

section \<open>Rows outside the chain\<close>

definition has_null :: "audit_db \<Rightarrow> bool" where
  "has_null d \<longleftrightarrow> (\<exists>r \<in> set (rows d). Sequence r = None)"

lemma has_null_update: "(\<And>r. Sequence (f r) = Sequence r) \<Longrightarrow> has_null d \<Longrightarrow> has_null (updateRows q f d)"
  by (force simp: has_null_def updateRows_def)

lemma has_null_insert: "has_null d \<Longrightarrow> insertRow lib e d = Inr (a, d') \<Longrightarrow> has_null d'"
  by (auto simp: has_null_def insertRow_def split: if_splits option.splits)

lemma null_LogAction: "always has_null (LogAction lib h gen u actor action target det ov nv ip)"
proof -
  have i: "always has_null (stmt (insertRow lib e))" for e
    by (rule always_stmt) (rule has_null_insert)
  show ?thesis
    unfolding LogAction_def
    by (rule transaction_always, rule always_hoare, intro always_bind always_query)
      (auto simp: Let_def i intro!: always_bind split: option.split)
qed

lemma null_redact: "always has_null (redactDetail lib q keys)"
  unfolding redactDetail_def
  by (rule transaction_always, rule always_hoare, rule always_bind)
    (auto intro!: always_bind always_stmt always_if has_null_update split: option.splits)

lemma null_anchor: "always has_null (AnchorLatestEntry path fileOK)"
proof -
  have a: "always has_null (appendAnchor fileOK line)" for line
    by (simp add: always_def appendAnchor_def has_null_def)
  show ?thesis
    unfolding AnchorLatestEntry_def
    by (rule always_bind) (auto intro!: always_bind a always_stmt has_null_update split: option.splits)
qed

lemma null_astep: "astep lib h gen w w' \<Longrightarrow> has_null (data w) \<Longrightarrow> has_null (data w')"
proof (induction rule: astep.induct)
  case (astep_redact q keys w)
  have "always has_null (RedactEntry lib h gen q keys)"
    unfolding RedactEntry_def by (intro always_bind always_if always_attempt null_redact null_LogAction) simp_all
  then show ?case using astep_redact by (simp add: always_def)
qed (use null_LogAction null_anchor in \<open>auto simp: always_def\<close>)

text \<open>
  one row of the plain logger stops the chain for good. Once the plain logger has stored a
  row, which has no sequence, every later attempt to append an entry fails, whatever happens in
  between: the query for the latest entry returns that row first and its NULL sequence cannot
  be read, so no entry is added.
\<close>

theorem plain_row_stops_chain:
  assumes "plainLog lib gen u act et ei oldJ newJ ip w = (Inr (), w1)" and "(astep lib h gen)\<^sup>*\<^sup>* w1 w2"
    and "LogAction lib h gen u' actor action target det ov nv ip' w2 = (r, w3)"
  shows "(r = Inl DBFailure \<or> r = Inl (App ErrScan)) \<and> rows (data w3) = rows (data w2)"
proof -
  have "has_null (data w1)"
    using assms(1) by (auto simp: plainLog_def bind_def time_now_def new_uuid_def stmt_def Let_def has_null_def split: if_splits sum.splits)
  with assms(2) have "has_null (data w2)"
    by (induction rule: rtranclp_induct) (auto dest: null_astep)
  then have n: "lastEntry (data w2) = Inl (App ErrScan)" by (simp add: lastEntry_def has_null_def)
  show ?thesis
    using assms(3) n
    by (auto simp: LogAction_def transaction_def bind_def query_def stmt_def Let_def split: if_splits sum.splits prod.splits)
qed

theorem plain_row_stops_chain_witness:
  "let w1 = snd (plainLog lib0 Suc None ''login'' ''session'' 7 ''null'' ''null'' None (audit_init 5000000));
       (r, w3) = LogAction lib0 (\<lambda>s. s) Suc None ''alice'' ''deposit'' ''vault'' DetailNil None None None w1
   in r = Inl (App ErrScan) \<and> rows (data w3) = rows (data w1)"
proof -
  obtain w1 where p: "plainLog lib0 Suc None ''login'' ''session'' 7 ''null'' ''null'' None (audit_init 5000000) = (Inr (), w1)"
    and s: "sched w1 = []"
    by (simp add: plainLog_def db_eval audit_init_def lib0_def Let_def)
  obtain r w3 where l: "LogAction lib0 (\<lambda>s. s) Suc None ''alice'' ''deposit'' ''vault'' DetailNil None None None w1 = (r, w3)" by force
  have a: "(r = Inl DBFailure \<or> r = Inl (App ErrScan)) \<and> rows (data w3) = rows (data w1)"
    by (rule plain_row_stops_chain [OF p rtranclp.rtrancl_refl l])
  have "r \<noteq> Inl DBFailure"
    using l s by (auto simp: LogAction_def transaction_def bind_def query_def stmt_def Let_def time_now_def new_uuid_def fail_def ret_def insertRow_def lastEntry_def
        split: if_splits sum.splits prod.splits option.splits)
  with a p l show ?thesis by (simp add: Let_def)
qed

text \<open>With a batch size the scheduled pass reads the first entries only, at every run: later entries never matter to it.\<close>

lemma RunOnce_batch:
  assumes "0 < b" and "b \<le> int64_max" and "filter (inRange 1 b) (rows (data w)) = filter (inRange 1 b) (rows (data w'))"
    and "sched w = sched w'"
  shows "fst (RunOnce lib h b w) = fst (RunOnce lib h b w')"
proof -
  have "wrap64 b = b" using assms(1,2) by (intro wrap64_id) (auto simp: in_int64_def int64_min_def)
  then show ?thesis
    using assms by (simp add: RunOnce_def VerifyChain_def verifyRows_def query_def stmt_def Let_def)
qed

end
