(* ===== verification/Sha256_Vectors.thy ===== *)
theory Sha256_Vectors
  imports Encoding
begin

text \<open>
  The executable SHA-256 of \<^verbatim>\<open>Encoding\<close> against the published test vector of FIPS 180-2 for a
  one-block message, evaluated in the kernel.
\<close>

lemma sha256_abc:
  "sha256_hex ''abc'' = ''ba7816bf8f01cfea414140de5dae2223b00361a396177a9cb410ff61f20015ad''"
  by code_simp

end
