(* ===== verification/Spec2Isabelle.thy ===== *)
theory Spec2Isabelle
  imports Breaker Retry Vault_Guards Transactions Recurring Submission Idempotency Outbox Signing Audit_Chain Sha256_Vectors
begin

text \<open>
  Verification library for the API of the Nester savings platform (\<^verbatim>\<open>src/apps/api\<close>, Go).

  \<^bold>\<open>The program.\<close> The API keeps savings vaults on Stellar. Money movements are posted to a
  double-entry ledger in PostgreSQL; work that must follow a committed change is published to a
  transactional outbox, whose relay hands each event to a durable job queue; workers lease the
  jobs and run their handlers. Calls to outside services pass a retry runner and a circuit
  breaker. Transactions are signed by a separate process behind a policy, a replay guard and a
  kill switch, and administrative actions are written to a hash-chained audit log.

  \<^bold>\<open>Theories and the code they model\<close> (paths below \<^verbatim>\<open>src/apps/api/internal\<close>).

  \<^item> \<^verbatim>\<open>Prelude\<close>: Go's int64 arithmetic and time, list and option lemmas. \<^verbatim>\<open>Float64\<close>: the
    rounding of IEEE binary64 that \<^verbatim>\<open>retry.go\<close> and \<^verbatim>\<open>backoff.go\<close> use, on rationals.
    \<^verbatim>\<open>Encoding\<close>: decimal printing, \<^verbatim>\<open>RFC3339Nano\<close> and SHA-256, with the standard's test
    vector in \<^verbatim>\<open>Sha256_Vectors\<close>.
  \<^item> \<^verbatim>\<open>Database\<close>: a state monad for PostgreSQL. The state holds the tables, a schedule that says
    which of the next calls fail, the number of identifiers drawn and the clock.
    \<^verbatim>\<open>transaction\<close> rolls back on every error; \<^verbatim>\<open>moves R m\<close> says that a program changes the
    tables only by \<^verbatim>\<open>R\<close>, with rules that follow the program's structure.
  \<^item> \<^verbatim>\<open>Breaker\<close>: \<^verbatim>\<open>breaker/breaker.go\<close>, \<^verbatim>\<open>breaker/transport.go\<close>. A single probe in half-open,
    the sliding window against the list of outcomes, tripping, shedding and recovery.
  \<^item> \<^verbatim>\<open>Retry\<close>: \<^verbatim>\<open>retry/retry.go\<close>. The attempt loop on every branch, the time budget, and the
    floating-point backoff against integer doubling. The loop recurses on the attempts left.
  \<^item> \<^verbatim>\<open>Ledger\<close>, \<^verbatim>\<open>Ledger_Service\<close>: \<^verbatim>\<open>domain/ledger\<close>, \<^verbatim>\<open>repository/postgres/ledger_repository.go\<close>,
    \<^verbatim>\<open>service/ledger_service.go\<close>, \<^verbatim>\<open>scheduler/ledger_reconciliation.go\<close>. The service calls the
    repository through a locale; the repository's model is its interpretation. The books balance
    after any operations with amounts below 2^60 stroops under any faults, and the service refines
    an abstract journal.
  \<^item> \<^verbatim>\<open>Vault\<close>: \<^verbatim>\<open>domain/vault\<close>. Statuses, capacity, deactivation and migration of yield sources,
    the position of a user as sums over the transaction rows.
  \<^item> \<^verbatim>\<open>Vault_Repository\<close>, \<^verbatim>\<open>Vault_Replay\<close>: \<^verbatim>\<open>repository/postgres/vault_repository.go\<close>. Each money
    movement writes the vault row, a transaction row and ledger entries in one database
    transaction; after any history of the calls the services make (the conditions are stated with
    the relation \<^verbatim>\<open>vstep\<close>) the three agree as far as they can, and a transaction hash is used once.
  \<^item> \<^verbatim>\<open>Money_Path\<close>: \<^verbatim>\<open>domain/moneypath\<close>, \<^verbatim>\<open>repository/postgres/money_path_switch_repository.go\<close>,
    \<^verbatim>\<open>service/money_path_switch_service.go\<close>. The global pause switches and how soon a pause holds.
  \<^item> \<^verbatim>\<open>Vault_Service\<close>, \<^verbatim>\<open>Vault_Guards\<close>: \<^verbatim>\<open>service/vault_service.go\<close>,
    \<^verbatim>\<open>service/operator_funded_deposits.go\<close>. Deposits and withdrawals follow the verified chain event,
    the operator account is asked only for requests its policy allows and for their exact amounts, pauses and closed vaults hold, and the cases
    in which the guards of the service are not enough.
  \<^item> \<^verbatim>\<open>Submission\<close>: \<^verbatim>\<open>stellar/submission.go\<close>, its store and reconciler, and the sending part of
    \<^verbatim>\<open>stellar/invoker.go\<close>. Requests, reconcilers and the chain step by step: one hand-over per
    reference, records that are true of the chain and final (an expired one as far as the history of
    the node reaches back), a reconciler that decides, and the wait
    loop, which is a \<^verbatim>\<open>partial_function\<close> because it has no bound of its own.
  \<^item> \<^verbatim>\<open>Transactions\<close>: \<^verbatim>\<open>domain/transaction\<close>, \<^verbatim>\<open>repository/postgres/transaction_repository.go\<close>,
    \<^verbatim>\<open>service/transaction_service.go\<close>, \<^verbatim>\<open>transaction_chain_claim.go\<close>, \<^verbatim>\<open>transaction_poller.go\<close> and the
    writing handlers. Balances move only for proven claims, completed means moved under all
    overlaps for a hash that is presented for one claim, a tick settles what the chain refused, the check of a claim is exact. The locale
    \<^verbatim>\<open>balance_applier\<close> is the contract of \<^verbatim>\<open>VaultBalanceApplier\<close>.
  \<^item> \<^verbatim>\<open>Calendar\<close>: dates of Go's \<^verbatim>\<open>time\<close> package. \<^verbatim>\<open>Vault_Frame\<close>: the locale \<^verbatim>\<open>table_order\<close>, by which
    every call of the vault service follows an order that the repository follows.
  \<^item> \<^verbatim>\<open>Recurring\<close>: \<^verbatim>\<open>domain/savingsschedule\<close>, \<^verbatim>\<open>repository/postgres/savings_schedule_repository.go\<close>,
    \<^verbatim>\<open>service/savings_schedule_service.go\<close>, \<^verbatim>\<open>service/scheduled_deposit_adapters.go\<close>,
    \<^verbatim>\<open>scheduler/next_run.go\<close>, \<^verbatim>\<open>scheduler/recurring_deposit.go\<close> and their wiring in \<^verbatim>\<open>cmd/api/main.go\<close>,
    over the vault service and the job queue. The next occurrence is exact, a sweep leaves one job per
    due schedule, and without on-chain mandates an occurrence is booked once and a schedule advances only
    after its deposit; as the process is wired no recurring deposit succeeds. The locale \<^verbatim>\<open>deposit_recorder\<close> is the contract of
    \<^verbatim>\<open>DepositRecorder\<close>.
  \<^item> \<^verbatim>\<open>Idempotency\<close>: \<^verbatim>\<open>middleware/idempotency.go\<close>, \<^verbatim>\<open>repository/postgres/idempotency_repository.go\<close>.
    A handler runs once per row of its key, completed keys answer for it, the rows are well formed;
    the wait for another request is a \<^verbatim>\<open>function\<close> that ends at its deadline.
  \<^item> \<^verbatim>\<open>Job_Queue\<close>: \<^verbatim>\<open>domain/jobqueue\<close>, \<^verbatim>\<open>repository/postgres/job_repository.go\<close>. Exact dequeue,
    exclusive leases, unique live keys, final terminal states, handler outcomes and concurrency.
    The locale \<^verbatim>\<open>job_port\<close> is the interface the relay uses.
  \<^item> \<^verbatim>\<open>Outbox\<close>: \<^verbatim>\<open>domain/outbox\<close>, \<^verbatim>\<open>repository/postgres/outbox_repository.go\<close>. Order within an
    aggregate while no late transaction publishes an older event, justified conclusions, exact retention.
  \<^item> \<^verbatim>\<open>Signing\<close>: \<^verbatim>\<open>signing\<close>. Only permitted intents reach the key, none while halted, and none twice,
    the last for requests that overlap at every statement (\<^verbatim>\<open>signStep\<close> splits \<^verbatim>\<open>Sign\<close> at its clock
    readings, locks and backend call, and the relation \<^verbatim>\<open>pstep\<close> interleaves the pieces); the audit
    trail is complete; the commitment binds; remote and local signing agree.
  \<^item> \<^verbatim>\<open>Audit_Chain\<close>: \<^verbatim>\<open>audit/audit.go\<close>, \<^verbatim>\<open>scheduler/audit_chain_verifier.go\<close>,
    \<^verbatim>\<open>repository/postgres/audit_log_repository.go\<close>. Chains the service wrote verify; verified
    chains with a common anchor agree.
  \<^item> This theory: the hand-off between outbox and job queue.

  \<^bold>\<open>Conventions.\<close> Operations keep the names of the code; repository methods have the prefix
  \<^verbatim>\<open>pg\<close>, service methods that share a name with them the prefix \<^verbatim>\<open>svc\<close>, SQL conditions and
  updates are definitions of their own. Durations and times are integers in nanoseconds, int64
  arithmetic wraps (\<^verbatim>\<open>wrap64\<close>), identifiers are numbers drawn from a supply \<^verbatim>\<open>gen\<close>. Errors are
  values of a sum type. Concurrency is an \<^verbatim>\<open>inductive\<close> relation whose steps are the statements
  of the processes in any order, with rows locked by other sessions and the failing calls as
  free parameters of each step. All loops are total: they recurse on a list, on the attempts
  left, or on the buckets of the window, so no fuel is needed; the one loop without a bound, the
  wait for a transaction, has the value \<open>None\<close> when it does not return.

  \<^bold>\<open>Parameters.\<close> Code outside the repository is an argument of the definitions that use it: the
  decimal library, \<^verbatim>\<open>encoding/json\<close> and the jsonb column, the text of an identifier, the signing
  backend, the executor of on-chain mandates, sinks, job handlers, wrapped transports and the hash, where SHA-256 is not needed as such. What the proofs
  need of them is a hypothesis of the theorem, and its witness instantiates it.

  \<^bold>\<open>Not modelled.\<close> The chain indexer (\<^verbatim>\<open>stellar/indexer.go\<close>), which decodes events and writes balances
  of vaults past the repository; goroutine loops and tickers around the modelled passes, logging and metrics;
  request decoding in the HTTP handlers; building and decoding Stellar transactions (XDR through an SDK);
  configuration from the environment; notifications and websockets, which deliver to outside
  services; the repositories of services that are not modelled; the Soroban contracts (Rust, a
  program of its own) and the web frontends.

  Savings goals are read by the schedules and changed arbitrarily by their environment; the goal
  service itself, the float64 price oracle, which values positions for display, and the filtered list
  queries move no money and are left out.
\<close>

section \<open>From the outbox to the job queue\<close>

text \<open>The statements of the outbox leave the jobs alone, so the queue keeps its invariant.\<close>

lemma outbox_ops_keep_jobs:
  "moves (\<lambda>d d'. jobs d' = jobs d) (Publish gen jv created t a ty key raw)"
  "moves (\<lambda>d d'. jobs d' = jobs d) (pgClaimDue locked p)"
  "moves (\<lambda>d d'. jobs d' = jobs d) (pgMarkDispatching i j)"
  "moves (\<lambda>d d'. jobs d' = jobs d) (pgMarkDispatched i ts)"
  "moves (\<lambda>d d'. jobs d' = jobs d) (pgMarkDead i why)"
  "moves (\<lambda>d d'. jobs d' = jobs d) (pgRelease i nxt why)"
  "moves (\<lambda>d d'. jobs d' = jobs d) (pgPruneTerminal ta tb)"
  unfolding Publish_def writerInsert_def pgInsert_def pgClaimDue_def pgMarkDispatching_def pgMarkDispatched_def
    pgMarkDead_def pgRelease_def updateEvent_def pgPruneTerminal_def pruneWhere_def Let_def
  by (intro moves_rules; auto simp: insertEvent_def reflp_def transp_def Let_def split: if_splits)+

lemma ostep_jobs_inv: "ostep gen jv inOrder w w' \<Longrightarrow> jobs_inv (data w) \<Longrightarrow> jobs_inv (data w')"
proof (induction rule: ostep.induct)
  case (o_job w x)
  then show ?case using run_job_op_advance [of w gen x] by (simp add: advance_def evolves_def)
qed (use outbox_ops_keep_jobs in \<open>auto simp: moves_def jobs_inv_def\<close>)

lemma outbox_reachable_jobs: "(ostep gen jv inOrder)\<^sup>*\<^sup>* (outbox_init t) w \<Longrightarrow> jobs_inv (data w)"
proof (induction rule: rtranclp_induct)
  case base
  show ?case by (simp add: outbox_init_def jobs_inv_def live_keys_unique_def)
qed (rule ostep_jobs_inv)

text \<open>A hand-off that reports one event went through the queue's port and marked the event.\<close>

lemma handOff_one:
  assumes "handOff gen c routes e w = (Inr 1, w')"
  obtains ty j w1 where "map_of routes (EventType e) = Some ty"
    and "clientEnqueue gen \<lparr> inType = ty, inPayload = evPayload e, inPriority = 0, inMaxAttempts = 0,
          inIdempotencyKey = DedupeKey e, inCorrelationID = DedupeKey e, inRunAt = 0 \<rparr> w = (Inr j, w1)"
    and "pgMarkDispatching (evID e) (jID j) w1 = (Inr (), w')"
  using assms
  by (auto simp: handOff_def bind_def attempt_def ret_def split: if_splits option.splits prod.splits sum.splits)

lemma pgMarkDispatching_marks:
  assumes "pgMarkDispatching i j w = (Inr (), w')" and "e \<in> set (events (data w))" and "evID e = i" and "evStatus e = EvDispatching"
  shows "\<exists>e' \<in> set (events (data w')). evID e' = i \<and> evStatus e' = EvDispatching \<and> evJobID e' = Some j"
proof -
  let ?f = "\<lambda>x. if evID x = i \<and> evStatus x = EvDispatching then x \<lparr> evJobID := Some j, evUpdatedAt := wall w \<rparr> else x"
  have "events (data w') = map ?f (events (data w))"
    using assms(1) by (auto simp: pgMarkDispatching_def updateEvent_def bind_def time_now_def stmt_def Let_def split: if_splits)
  then have "?f e \<in> set (events (data w'))" using imageI [OF assms(2), of ?f] by (simp only: set_map)
  moreover have "?f e = e \<lparr> evJobID := Some j, evUpdatedAt := wall w \<rparr>" using assms(3,4) by simp
  ultimately have "e \<lparr> evJobID := Some j, evUpdatedAt := wall w \<rparr> \<in> set (events (data w'))" by (simp only:)
  then show ?thesis by (rule bexI [rotated]) (simp add: assms(3,4))
qed

text \<open>
  C30: An event handed to the queue has exactly one job. In every state that producers, relays,
  retention and workers can reach, with any faults, a hand-off of a claimed event that reports
  success leaves a live job of the routed type under the event's deduplication key, the event
  points to it, no other live job has that type and key, and a live job the key had before the
  hand-off is that job: a repeated hand-off after a crash joins the job instead of adding one.
\<close>

theorem outbox_handoff_one_job:
  assumes run: "(ostep gen jsonValid inOrder)\<^sup>*\<^sup>* (outbox_init t) w"
    and e: "e \<in> set (events (data w))" "evStatus e = EvDispatching" "DedupeKey e \<noteq> ''''"
    and out: "handOff gen c routes e w = (Inr 1, w')"
  shows "\<exists>ty j. map_of routes (EventType e) = Some ty
    \<and> {k \<in> set (jobs (data w')). live k \<and> jType k = ty \<and> IdempotencyKey k = DedupeKey e} = {j}
    \<and> {k \<in> set (jobs (data w)). live k \<and> jType k = ty \<and> IdempotencyKey k = DedupeKey e} \<subseteq> {j}
    \<and> (\<exists>e' \<in> set (events (data w')). evID e' = evID e \<and> evStatus e' = EvDispatching \<and> evJobID e' = Some (jID j))"
proof -
  let ?inp = "\<lambda>ty. \<lparr> inType = ty, inPayload = evPayload e, inPriority = 0, inMaxAttempts = 0,
          inIdempotencyKey = DedupeKey e, inCorrelationID = DedupeKey e, inRunAt = 0 \<rparr>"
  obtain ty j w1 where r: "map_of routes (EventType e) = Some ty"
    and enq: "clientEnqueue gen (?inp ty) w = (Inr j, w1)"
    and mark: "pgMarkDispatching (evID e) (jID j) w1 = (Inr (), w')"
    by (rule handOff_one [OF out])
  note inv = outbox_reachable_jobs [OF run]
  have key: "inIdempotencyKey (?inp ty) \<noteq> ''''" using e(3) by simp
  have same: "jobs (data w') = jobs (data w1)" by (rule movesD [OF outbox_ops_keep_jobs(3) mark])
  have kept: "events (data w1) = events (data w)" by (rule movesD [OF job_ops_keep_events(1) enq])
  have "{k \<in> set (jobs (data w')). live k \<and> jType k = ty \<and> IdempotencyKey k = DedupeKey e} = {j}"
    using jq.enq_live [OF inv key enq] jq.enq_only [OF inv key enq] unfolding same by auto
  moreover have "{k \<in> set (jobs (data w)). live k \<and> jType k = ty \<and> IdempotencyKey k = DedupeKey e} \<subseteq> {j}"
    using jq.enq_joins [OF inv key enq] by auto
  ultimately show ?thesis using r pgMarkDispatching_marks [OF mark, of e] e(1,2) kept by auto
qed

theorem outbox_handoff_one_job_witness:
  "\<exists>e ty j w'. handOff Suc relay0 routes0 e sample_outbox = (Inr 1, w') \<and> map_of routes0 (EventType e) = Some ty
    \<and> {k \<in> set (jobs (data w')). live k \<and> jType k = ty \<and> IdempotencyKey k = DedupeKey e} = {j}
    \<and> (\<exists>e' \<in> set (events (data w')). evID e' = evID e \<and> evJobID e' = Some (jID j))"
proof -
  have "(case events (data sample_outbox) of [e, x] \<Rightarrow> evStatus e = EvDispatching \<and> DedupeKey e \<noteq> ''''
      \<and> fst (handOff Suc relay0 routes0 e sample_outbox) = Inr 1 | _ \<Rightarrow> False)"
    by code_simp
  then obtain e where h: "e \<in> set (events (data sample_outbox))" "evStatus e = EvDispatching" "DedupeKey e \<noteq> ''''"
    "fst (handOff Suc relay0 routes0 e sample_outbox) = Inr 1"
    by (auto split: list.splits)
  then obtain w' where out: "handOff Suc relay0 routes0 e sample_outbox = (Inr 1, w')" by (metis prod.collapse)
  from outbox_handoff_one_job [OF sample_outbox_reachable h(1-3) out] out show ?thesis by blast
qed

end
